(* ===== verification/CPrelude.thy ===== *)
theory CPrelude
  imports Main "HOL-Library.Word"
begin

text \<open>
  Shared vocabulary of the development: the C types of the sources as HOL types, the few functions
  of the C library the sources lean on (\<open>strchr\<close>, \<open>strcspn\<close>, \<open>strtok\<close>, \<open>atoi\<close>, the number
  conversions of \<open>printf\<close>), the integer constants of the socket headers, and the list and word
  lemmas that several components use.

  A C string is a \<open>string\<close> without its terminating NUL; a buffer of \<open>u_char\<close> is a list of
  \<open>byte\<close>. The constants have the values of the platform \<open>src/config.h\<close> was generated for
  (\<open>x86_64-unknown-linux-gnu\<close>: \<open>int\<close> has 32 bits, \<open>long\<close> has 64, byte order is little-endian).
\<close>

type_synonym byte = "8 word"
type_synonym u16 = "16 word"
type_synonym u32 = "32 word"
type_synonym u64 = "64 word"

named_theorems codec \<open>facts about printing and scanning numbers\<close>
named_theorems buffer_simps \<open>facts about writing into fixed-size buffers\<close>

section \<open>Constants of the socket headers\<close>

abbreviation (input) AF_UNSPEC :: int where "AF_UNSPEC \<equiv> 0"
abbreviation (input) AF_UNIX :: int where "AF_UNIX \<equiv> 1"
abbreviation (input) AF_INET :: int where "AF_INET \<equiv> 2"
abbreviation (input) AF_INET6 :: int where "AF_INET6 \<equiv> 10"
abbreviation (input) SOCK_STREAM :: int where "SOCK_STREAM \<equiv> 1"
abbreviation (input) SOCK_DGRAM :: int where "SOCK_DGRAM \<equiv> 2"
abbreviation (input) SOCK_RAW :: int where "SOCK_RAW \<equiv> 3"

text \<open>\<open>errno\<close> values the sources set or test.\<close>

datatype errno = EINTR | EWOULDBLOCK | ECONNRESET | ETIMEDOUT | EAFNOSUPPORT | ENOSPC
  | EINPROGRESS | EHOSTUNREACH | ECONNREFUSED | EMSGSIZE | EOther nat

section \<open>Loop control\<close>

text \<open>How one iteration of a C loop ends: an early \<open>return\<close> of failure, a \<open>break\<close>, or the next
  iteration.\<close>

datatype 's ctl = Fail | Break 's | Next 's

section \<open>Buffers\<close>

text \<open>\<open>memcpy(buf + i, bs, |bs|)\<close> on a buffer given as a list.\<close>

definition poke :: "'a list \<Rightarrow> nat \<Rightarrow> 'a list \<Rightarrow> 'a list" where
  "poke buf i bs = take i buf @ bs @ drop (i + length bs) buf"

lemma length_poke [simp]:
  "i + length bs \<le> length buf \<Longrightarrow> length (poke buf i bs) = length buf"
  by (simp add: poke_def)

lemma poke_frontier [buffer_simps]:
  "k = length bs + m \<Longrightarrow> poke (out @ replicate k z) (length out) bs = out @ bs @ replicate m z"
  by (simp add: poke_def replicate_add)

lemma update2_frontier [buffer_simps]:
  "(out @ replicate (Suc (Suc k)) z)[length out := a, Suc (length out) := b]
     = out @ [a, b] @ replicate k z"
  by (simp add: list_update_append)

lemma unat_byte: "n \<le> 255 \<Longrightarrow> unat (of_nat n :: byte) = n"
  by (simp add: unat_of_nat)

text \<open>What a function for C strings sees of the characters in a buffer.\<close>

definition c_string :: "string \<Rightarrow> string" where
  "c_string s = takeWhile (\<lambda>c. c \<noteq> CHR 0x00) s"

section \<open>Digits and number conversions\<close>

text \<open>
  \<open>digit_char d\<close> is the character \<open>printf\<close> writes for the digit \<open>d\<close> (\<open>%u\<close>, \<open>%d\<close>, \<open>%x\<close>), and
  \<open>strchr_pos s c\<close> is \<open>strchr(s, c) - s\<close>, with \<open>None\<close> for a null pointer.
\<close>

definition digit_char :: "nat \<Rightarrow> char" where
  "digit_char d = (if d < 10 then char_of (48 + d) else char_of (87 + d))"

lemma digit_char_values:
  "digit_char 0 = CHR ''0''"
  "digit_char (Suc 0) = CHR ''1''"
  "digit_char 2 = CHR ''2''"
  "digit_char 3 = CHR ''3''"
  "digit_char 4 = CHR ''4''"
  "digit_char 5 = CHR ''5''"
  "digit_char 6 = CHR ''6''"
  "digit_char 7 = CHR ''7''"
  "digit_char 8 = CHR ''8''"
  "digit_char 9 = CHR ''9''"
  "digit_char 10 = CHR ''a''"
  "digit_char 11 = CHR ''b''"
  "digit_char 12 = CHR ''c''"
  "digit_char 13 = CHR ''d''"
  "digit_char 14 = CHR ''e''"
  "digit_char 15 = CHR ''f''"
  by (simp_all add: digit_char_def char_of_def bit_0)

lemma less_ten_cases: "d < 10 \<Longrightarrow>
  d = 0 \<or> d = Suc 0 \<or> d = 2 \<or> d = 3 \<or> d = 4 \<or> d = 5 \<or> d = 6 \<or> d = 7 \<or> d = 8 \<or> d = 9"
  by arith

lemma less_sixteen_cases: "d < 16 \<Longrightarrow>
  d = 0 \<or> d = Suc 0 \<or> d = 2 \<or> d = 3 \<or> d = 4 \<or> d = 5 \<or> d = 6 \<or> d = 7 \<or> d = 8 \<or> d = 9 \<or> d = 10 \<or> d = 11 \<or> d = 12 \<or> d = 13 \<or> d = 14 \<or> d = 15"
  by arith

fun strchr_pos :: "string \<Rightarrow> char \<Rightarrow> nat option" where
  "strchr_pos [] c = None"
| "strchr_pos (x # xs) c = (if x = c then Some 0 else map_option Suc (strchr_pos xs c))"

definition isdigit :: "char \<Rightarrow> bool" where
  "isdigit c \<longleftrightarrow> 48 \<le> (of_char c :: nat) \<and> (of_char c :: nat) \<le> 57"

definition isxdigit :: "char \<Rightarrow> bool" where
  "isxdigit c \<longleftrightarrow> isdigit c \<or> (65 \<le> (of_char c :: nat) \<and> (of_char c :: nat) \<le> 70)
     \<or> (97 \<le> (of_char c :: nat) \<and> (of_char c :: nat) \<le> 102)"

fun render :: "nat \<Rightarrow> nat \<Rightarrow> string" where
  "render base n =
     (if n < base \<or> base < 2 then [digit_char n]
      else render base (n div base) @ [digit_char (n mod base)])"

declare render.simps [simp del]

abbreviation fmt_u :: "nat \<Rightarrow> string" where "fmt_u \<equiv> render 10"
abbreviation fmt_x :: "nat \<Rightarrow> string" where "fmt_x \<equiv> render 16"

definition fmt_d :: "int \<Rightarrow> string" where
  "fmt_d i = (if i < 0 then CHR ''-'' # fmt_u (nat (- i)) else fmt_u (nat i))"

lemma render_nonempty [simp]: "render b n \<noteq> []"
  by (subst render.simps) simp

lemma render_small: "n < b \<Longrightarrow> render b n = [digit_char n]"
  by (subst render.simps) simp

lemma render_step: "2 \<le> b \<Longrightarrow> b \<le> n \<Longrightarrow> render b n = render b (n div b) @ [digit_char (n mod b)]"
  by (subst render.simps) simp

text \<open>Every printed number is made of digits of its base.\<close>

lemma set_render: "2 \<le> b \<Longrightarrow> c \<in> set (render b n) \<Longrightarrow> \<exists>d<b. c = digit_char d"
proof (induction b n rule: render.induct)
  case (1 b n)
  show ?case
  proof (cases "n < b")
    case True
    with "1.prems" show ?thesis by (auto simp: render_small)
  next
    case False
    with "1.prems" have "c \<in> set (render b (n div b)) \<or> c = digit_char (n mod b)"
      by (auto simp: render_step)
    moreover have "n mod b < b" using "1.prems"(1) by simp
    ultimately show ?thesis using "1.IH" False "1.prems"(1) by fastforce
  qed
qed

text \<open>The number of digits: \<open>n\<close> below \<open>b\<^sup>k\<close> prints in at most \<open>k\<close> characters.\<close>

lemma length_render: "2 \<le> b \<Longrightarrow> 0 < k \<Longrightarrow> n < b ^ k \<Longrightarrow> length (render b n) \<le> k"
proof (induction k arbitrary: n)
  case 0
  then show ?case by simp
next
  case (Suc k)
  show ?case
  proof (cases "n < b")
    case True
    then show ?thesis by (simp add: render_small)
  next
    case False
    then have "k \<noteq> 0" using Suc.prems(3) by (cases k) auto
    moreover have "n div b < b ^ k"
      using Suc.prems(3) by (simp add: less_mult_imp_div_less mult.commute)
    ultimately have "length (render b (n div b)) \<le> k"
      using Suc.IH Suc.prems(1) by blast
    with False Suc.prems(1) show ?thesis by (simp add: render_step)
  qed
qed

lemma of_char_digit: "d < 10 \<Longrightarrow> (of_char (digit_char d) :: nat) = 48 + d"
  by (simp add: digit_char_def)

lemma isdigit_digit_char: "d < 10 \<Longrightarrow> isdigit (digit_char d)"
  by (simp add: isdigit_def of_char_digit)

section \<open>Scanners: one contract for every digit loop of the sources\<close>

text \<open>
  The sources read numbers in character loops that differ in their state and their error tests
  (\<open>inet_pton4\<close>, \<open>inet_pton6\<close>, \<open>inet_aton\<close>, \<open>atoi\<close>), but share one contract: from the state
  \<open>idle\<close> a digit starts a number, from the state \<open>seen v\<close> a digit extends it, as long as the value
  stays within \<open>limit\<close>. The client lemma is proved once: scanning a printed number leaves the loop
  in the state that has seen that number.
\<close>

locale digit_scanner =
  fixes base :: nat
    and limit :: nat
    and scan :: "'s \<Rightarrow> string \<Rightarrow> 'r"
    and idle :: 's
    and seen :: "nat \<Rightarrow> 's"
  assumes base: "2 \<le> base"
    and first_digit: "\<And>d r. d < base \<Longrightarrow> d \<le> limit \<Longrightarrow> scan idle (digit_char d # r) = scan (seen d) r"
    and next_digit: "\<And>v d r. d < base \<Longrightarrow> v * base + d \<le> limit \<Longrightarrow>
      scan (seen v) (digit_char d # r) = scan (seen (v * base + d)) r"
begin

lemma scan_render: "n \<le> limit \<Longrightarrow> scan idle (render base n @ r) = scan (seen n) r"
proof (induction n arbitrary: r rule: less_induct)
  case (less n)
  show ?case
  proof (cases "n < base")
    case True
    with less.prems show ?thesis by (simp add: render_small first_digit)
  next
    case False
    have "n div base < n" using base False by simp
    then have "scan idle (render base (n div base) @ digit_char (n mod base) # r)
        = scan (seen (n div base)) (digit_char (n mod base) # r)"
      using less.IH less.prems by (meson div_le_dividend le_trans)
    also have "\<dots> = scan (seen (n div base * base + n mod base)) r"
      using base less.prems by (intro next_digit) auto
    finally show ?thesis using base False by (simp add: render_step)
  qed
qed

end

text \<open>\<open>atoi\<close> on a string that starts with digits; the accumulator is \<open>int\<close>, as the callers only
  pass numbers that fit.\<close>

fun atoi_loop :: "int \<Rightarrow> string \<Rightarrow> int" where
  "atoi_loop acc [] = acc"
| "atoi_loop acc (c # cs) =
     (if isdigit c then atoi_loop (acc * 10 + (int (of_char c) - 48)) cs else acc)"

definition atoi :: "string \<Rightarrow> int" where
  "atoi s = (case dropWhile (\<lambda>c. c = CHR '' '') s of
      [] \<Rightarrow> 0
    | c # cs \<Rightarrow> if c = CHR ''-'' then - atoi_loop 0 cs
                else if c = CHR ''+'' then atoi_loop 0 cs
                else atoi_loop 0 (c # cs))"

interpretation atoi_scan: digit_scanner 10 limit atoi_loop 0 int for limit
  by unfold_locales (auto simp: isdigit_digit_char of_char_digit)

lemma atoi_loop_fmt [codec]: "atoi_loop 0 (fmt_u n @ r) = atoi_loop (int n) r"
  by (rule atoi_scan.scan_render [where limit = n]) simp

lemma hd_render_digit: "isdigit (hd (fmt_u n))"
proof -
  have "hd (fmt_u n) \<in> set (fmt_u n)" by simp
  then obtain d where "d < 10" "hd (fmt_u n) = digit_char d"
    using set_render [of 10] by fastforce
  then show ?thesis by (simp add: isdigit_digit_char)
qed

lemma digits_fmt: "\<forall>c\<in>set (fmt_u n). isdigit c"
  using set_render [of 10 _ n] isdigit_digit_char by fastforce

lemma isdigit_not [simp]:
  "\<not> isdigit CHR '' ''" "\<not> isdigit CHR ''-''" "\<not> isdigit CHR ''+''"
  "\<not> isdigit CHR ''.''" "\<not> isdigit CHR '':''"
  by (simp_all add: isdigit_def)

lemma atoi_fmt_u [codec]: "atoi (fmt_u n) = int n"
proof -
  obtain c cs where cs: "fmt_u n = c # cs" by (cases "fmt_u n") simp_all
  then have "isdigit c" using hd_render_digit [of n] by simp
  then have "c \<noteq> CHR '' ''" "c \<noteq> CHR ''-''" "c \<noteq> CHR ''+''" by auto
  then have "atoi (fmt_u n) = atoi_loop 0 (fmt_u n)"
    by (simp add: atoi_def cs)
  also have "\<dots> = int n" using atoi_loop_fmt [of n "[]"] by simp
  finally show ?thesis .
qed

section \<open>Byte order\<close>

text \<open>The bytes of a 16-bit value in memory order on a little-endian host, and back.\<close>

definition le16 :: "byte \<Rightarrow> byte \<Rightarrow> u16" where
  "le16 lo hi = ucast lo + 256 * ucast hi"

definition htons :: "u16 \<Rightarrow> u16" where
  "htons w = ucast (drop_bit 8 w) + 256 * ucast (ucast w :: byte)"

abbreviation ntohs :: "u16 \<Rightarrow> u16" where "ntohs \<equiv> htons"

definition be32 :: "byte list \<Rightarrow> u32" where
  "be32 bs = foldl (\<lambda>acc b. acc * 256 + ucast b) 0 bs"

lemma unat_htons: "unat (htons w) = unat w div 256 + 256 * (unat w mod 256)"
proof -
  have "unat w div 256 < 256" using unsigned_less [of w, where ?'a = nat] by (simp add: less_mult_imp_div_less)
  moreover have "unat (drop_bit 8 w) = unat w div 256"
    by (simp add: unat_drop_bit_eq drop_bit_eq_div unat_div)
  moreover have "unat (ucast (ucast w :: byte) :: u16) = unat w mod 256"
    by (simp add: unsigned_ucast_eq take_bit_eq_mod unat_mod)
  ultimately show ?thesis by (simp add: htons_def unat_word_ariths)
qed

lemma htons_htons [simp]: "htons (htons w) = w"
proof -
  have "unat w div 256 < 256" using unsigned_less [of w, where ?'a = nat] by (simp add: less_mult_imp_div_less)
  then have "unat (htons (htons w)) = unat w" by (simp add: unat_htons)
  then show ?thesis by (simp add: word_unat_eq_iff)
qed

section \<open>Event loops\<close>

text \<open>How a round or a function ends: the next round, \<open>return\<close>, or \<open>err_sys\<close>/\<open>err_quit\<close>.\<close>

datatype 's outcome = Go 's | Ret 's | Die 's

fun final :: "'s outcome \<Rightarrow> 's" where
  "final (Go s) = s" | "final (Ret s) = s" | "final (Die s) = s"

text \<open>Rounds until the loop is left or the script of answers ends.\<close>

fun rounds :: "('e \<Rightarrow> 's \<Rightarrow> 's outcome) \<Rightarrow> 'e list \<Rightarrow> 's \<Rightarrow> 's outcome" where
  "rounds f [] s = Go s"
| "rounds f (e # es) s = (case f e s of Go s' \<Rightarrow> rounds f es s' | r \<Rightarrow> r)"

lemma rounds_invariant:
  assumes "\<And>e s. I s \<Longrightarrow> (case f e s of Go s' \<Rightarrow> I s' | Ret s' \<Rightarrow> R s' | Die s' \<Rightarrow> D s')" "I s"
  shows "case rounds f es s of Go s' \<Rightarrow> I s' | Ret s' \<Rightarrow> R s' | Die s' \<Rightarrow> D s'"
  using assms(2)
proof (induction es arbitrary: s)
  case Nil
  then show ?case by simp
next
  case (Cons e es)
  show ?case
  proof (cases "f e s")
    case (Go s')
    then have "I s'" using assms(1) [OF Cons.prems, of e] by simp
    from Cons.IH [OF this] Go show ?thesis by simp
  qed (use assms(1) [OF Cons.prems, of e] in auto)
qed

section \<open>Splitting a text at a separator\<close>

fun split_at :: "char \<Rightarrow> string \<Rightarrow> string list" where
  "split_at d [] = [[]]"
| "split_at d (c # cs) =
     (if c = d then [] # split_at d cs
      else case split_at d cs of p # ps \<Rightarrow> (c # p) # ps | [] \<Rightarrow> [[c]])"

lemma split_at_nonempty [simp]: "split_at d s \<noteq> []"
  by (induction s) (auto split: list.splits)

lemma split_at_Cons: "c \<noteq> d \<Longrightarrow> split_at d (c # cs) = (c # hd (split_at d cs)) # tl (split_at d cs)"
  by (auto split: list.splits)

lemma split_at_last: "d \<notin> set p \<Longrightarrow> split_at d p = [p]"
  by (induction p) auto

lemma split_at_sep: "d \<notin> set p \<Longrightarrow> split_at d (p @ d # r) = p # split_at d r"
  by (induction p) auto

text \<open>The words of a line, as successive \<open>strtok(.., " ")\<close> calls return them.\<close>

definition tokens :: "string \<Rightarrow> string list" where
  "tokens s = filter (\<lambda>t. t \<noteq> []) (split_at CHR '' '' s)"

end
