(* ===== verification/Inet_Aton.thy ===== *)
theory Inet_Aton
  imports Inet_Pton
begin

text \<open>
  \<open>libfree/inet_aton.c\<close>: the older IPv4 parser. Its accumulators are \<open>u_long\<close>, 64 bits on the
  configured platform, so they wrap; the model keeps them at that width. A C string is the list of
  its characters without the final NUL, which the loop treats in its last round.
\<close>

unbundle bit_operations_syntax

section \<open>The parser\<close>

record aton_state =
  dots :: int
  acc :: u64
  addr :: u64

definition aton_init :: aton_state where
  "aton_init = \<lparr>dots = 0, acc = 0, addr = 0\<rparr>"

text \<open>What the code does at a dot, after the count, and at the NUL.\<close>

definition aton_close :: "aton_state \<Rightarrow> aton_state option" where
  "aton_close st =
     (if acc st > 255 then None
      else Some (st\<lparr>addr := push_bit 8 (addr st) OR acc st, acc := 0\<rparr>))"

definition aton_step :: "aton_state \<Rightarrow> char \<Rightarrow> aton_state option" where
  "aton_step st cc =
     (if isdigit cc then Some (st\<lparr>acc := acc st * 10 + of_nat (of_char cc - 48)\<rparr>)
      else if cc = CHR ''.'' then
        (if dots st + 1 > 3 then None else aton_close (st\<lparr>dots := dots st + 1\<rparr>))
      else None)"

fun aton_loop :: "aton_state \<Rightarrow> string \<Rightarrow> aton_state option" where
  "aton_loop st [] = aton_close st"
| "aton_loop st (cc # cp) =
     (case aton_step st cc of None \<Rightarrow> None | Some st' \<Rightarrow> aton_loop st' cp)"

text \<open>\<open>htonl\<close> of the low 32 bits, as the four bytes stored at \<open>ap->s_addr\<close>.\<close>

definition htonl_bytes :: "u32 \<Rightarrow> byte list" where
  "htonl_bytes w = [ucast (drop_bit 24 w), ucast (drop_bit 16 w), ucast (drop_bit 8 w), ucast w]"

definition inet_aton :: "string \<Rightarrow> byte list option" where
  "inet_aton cp =
     (case aton_loop aton_init cp of
        None \<Rightarrow> None
      | Some st \<Rightarrow>
          let a = (if dots st < 3 then push_bit (nat (8 * (3 - dots st))) (addr st) else addr st)
          in Some (htonl_bytes (ucast a)))"

section \<open>What it accepts\<close>

text \<open>One to four digit strings, possibly empty, each of value at most 255 modulo \<open>2 ^ 64\<close>; missing
  numbers are zeros on the right.\<close>

definition aton_num :: "string \<Rightarrow> nat" where
  "aton_num p = dec_val p mod 2 ^ 64"

definition aton_part :: "string \<Rightarrow> bool" where
  "aton_part p \<longleftrightarrow> list_all isdigit p \<and> aton_num p \<le> 255"

definition aton_spec :: "string \<Rightarrow> byte list option" where
  "aton_spec s =
     (let ps = split_at CHR ''.'' s in
      if length ps \<le> 4 \<and> list_all aton_part ps
      then Some (map (of_nat \<circ> aton_num) ps @ replicate (4 - length ps) 0) else None)"

text \<open>The loop on the parts of the string: \<open>pre\<close> is what the accumulator has read of the first.\<close>

fun aton_parts :: "aton_state \<Rightarrow> string list \<Rightarrow> aton_state option" where
  "aton_parts st [] = None"
| "aton_parts st (p # ps) =
     (let st' = st\<lparr>acc := foldl (\<lambda>a c. a * 10 + of_nat (of_char c - 48)) (acc st) p\<rparr> in
      if \<not> list_all isdigit p then None
      else if ps = [] then aton_close st'
      else if dots st + 1 > 3 then None
      else case aton_close (st'\<lparr>dots := dots st + 1\<rparr>) of None \<Rightarrow> None | Some st'' \<Rightarrow> aton_parts st'' ps)"

lemma aton_loop_parts: "aton_loop st s = aton_parts st (split_at CHR ''.'' s)"
proof (induction s arbitrary: st)
  case Nil
  then show ?case by simp
next
  case (Cons c s)
  show ?case
  proof (cases "c = CHR ''.''")
    case True
    then show ?thesis using Cons by (simp add: aton_step_def split: option.split)
  next
    case False
    obtain p ps where p: "split_at CHR ''.'' s = p # ps" by (cases "split_at CHR ''.'' s") auto
    from False show ?thesis using Cons p by (simp add: aton_step_def Let_def)
  qed
qed

lemma foldl_dec_val:
  "foldl (\<lambda>a c. a * 10 + of_nat (of_char c - 48)) 0 p = (of_nat (dec_val p) :: u64)"
  by (induction p rule: rev_induct) simp_all

lemma aton_close_num:
  "aton_close (st\<lparr>acc := of_nat (dec_val p)\<rparr>)
   = (if aton_num p \<le> 255 then Some (st\<lparr>addr := push_bit 8 (addr st) OR of_nat (aton_num p), acc := 0\<rparr>)
      else None)"
proof -
  have "unat (of_nat (dec_val p) :: u64) = aton_num p" by (simp add: aton_num_def unat_of_nat)
  moreover have "(of_nat (dec_val p) :: u64) = of_nat (aton_num p)"
    using calculation by (metis of_nat_unat ucast_id)
  ultimately show ?thesis by (simp add: aton_close_def word_less_nat_alt not_less)
qed

text \<open>The address after the loop, from the values of the parts.\<close>

lemma aton_parts_run:
  assumes "ps \<noteq> []" "acc st = 0" "dots st \<le> 3"
  shows "aton_parts st ps =
    (if list_all aton_part ps \<and> dots st + int (length ps) \<le> 4 then
       Some \<lparr>dots = dots st + int (length ps) - 1, acc = 0,
             addr = foldl (\<lambda>a n. push_bit 8 a OR of_nat n) (addr st) (map aton_num ps)\<rparr>
     else None)"
  using assms
proof (induction ps arbitrary: st)
  case Nil
  then show ?case by simp
next
  case (Cons p ps)
  have close: "aton_close (s\<lparr>acc := foldl (\<lambda>a c. a * 10 + of_nat (of_char c - 48)) 0 p\<rparr>)
    = (if aton_num p \<le> 255 then Some (s\<lparr>addr := push_bit 8 (addr s) OR of_nat (aton_num p), acc := 0\<rparr>)
       else None)" for s
    by (simp only: foldl_dec_val aton_close_num)
  show ?case
  proof (cases "ps = []")
    case True
    then show ?thesis using Cons.prems close [of st]
      by (cases st) (auto simp: Let_def aton_part_def)
  next
    case False
    then have "1 \<le> int (length ps)" by (cases ps) simp_all
    then show ?thesis using Cons False close [of "st\<lparr>dots := dots st + 1\<rparr>"]
      by (cases st) (auto simp: Let_def aton_part_def)
  qed
qed

text \<open>The four bytes of the shifted address.\<close>

lemma four_bytes:
  "htonl_bytes (ucast (push_bit 8 (push_bit 8 (push_bit 8 (ucast a) OR ucast b) OR ucast c) OR ucast d :: u64))
    = [a, b, c, d]"
  by (auto simp: htonl_bytes_def intro!: bit_eqI) (auto simp: bit_simps dest: bit_imp_le_length)

lemma ucast_of_nat_small: "n \<le> 255 \<Longrightarrow> (of_nat n :: u64) = ucast (of_nat n :: byte)"
  using of_nat_unat [of "of_nat n :: byte", where 'a = "64 word"] by (simp add: unat_of_nat)

lemma parts_up_to_four:
  assumes "ps \<noteq> []" "length ps \<le> 4"
  obtains a where "ps = [a]" | a b where "ps = [a, b]" | a b c where "ps = [a, b, c]"
    | a b c d where "ps = [a, b, c, d]"
  using assms by (cases ps; cases "tl ps"; cases "tl (tl ps)"; cases "tl (tl (tl ps))") auto

lemma replicate_three [simp]: "replicate 3 x = [x, x, x]" "replicate 2 x = [x, x]"
  by (simp_all add: numeral_eq_Suc)

lemma aton_bytes:
  assumes ps: "ps \<noteq> []" "length ps \<le> 4" and ok: "list_all aton_part ps"
  shows "htonl_bytes (ucast (push_bit (8 * (4 - length ps))
      (foldl (\<lambda>a n. push_bit 8 a OR of_nat n) (0 :: u64) (map aton_num ps))))
    = map (of_nat \<circ> aton_num) ps @ replicate (4 - length ps) 0"
proof -
  have small: "aton_part p \<Longrightarrow> (of_nat (aton_num p) :: u64) = ucast (of_nat (aton_num p) :: byte)" for p
    by (rule ucast_of_nat_small) (simp add: aton_part_def)
  show ?thesis using ps ok
  proof (cases rule: parts_up_to_four)
    case (1 a)
    then show ?thesis using ok small four_bytes [of "of_nat (aton_num a)" 0 0 0] by simp
  next
    case (2 a b)
    then show ?thesis using ok small four_bytes [of "of_nat (aton_num a)" "of_nat (aton_num b)" 0 0]
      by simp
  next
    case (3 a b c)
    then show ?thesis using ok small
        four_bytes [of "of_nat (aton_num a)" "of_nat (aton_num b)" "of_nat (aton_num c)" 0] by simp
  next
    case (4 a b c d)
    then show ?thesis using ok small four_bytes by simp
  qed
qed

lemma inet_aton_parts: "inet_aton s = aton_spec s"
proof -
  let ?ps = "split_at CHR ''.'' s"
  have run: "aton_loop aton_init s =
      (if list_all aton_part ?ps \<and> length ?ps \<le> 4 then
         Some \<lparr>dots = int (length ?ps) - 1, acc = 0,
               addr = foldl (\<lambda>a n. push_bit 8 a OR of_nat n) 0 (map aton_num ?ps)\<rparr>
       else None)"
    using aton_parts_run [of ?ps aton_init] by (auto simp: aton_loop_parts aton_init_def)
  show ?thesis
  proof (cases "list_all aton_part ?ps \<and> length ?ps \<le> 4")
    case True
    have "1 \<le> length ?ps" using split_at_nonempty [of "CHR ''.''" s] by (cases ?ps) auto
    then have "nat (8 * (3 - (int (length ?ps) - 1))) = 8 * (4 - length ?ps)"
      "\<not> int (length ?ps) - 1 < 3 \<Longrightarrow> 8 * (4 - length ?ps) = 0" using True by auto
    then show ?thesis using aton_bytes [of ?ps] True
      by (auto simp: inet_aton_def run aton_spec_def Let_def)
  next
    case False
    then show ?thesis by (auto simp: inet_aton_def run aton_spec_def Let_def)
  qed
qed

section \<open>Correctness\<close>

text \<open>
  C40 On every string \<open>inet_aton\<close> computes the reference: one to four parts between dots, each of
  decimal digits or empty, of value at most 255 after wrapping at \<open>2 ^ 64\<close>, with missing parts read
  as zeros on the right (so \<open>127.1\<close> is 127.1.0.0, where BSD reads 127.0.0.1); and it agrees with
  \<open>inet_pton4\<close> on every text that one accepts.
\<close>

theorem inet_aton_correct:
  "inet_aton s = aton_spec s \<and> (inet_pton4 s = Some bs \<longrightarrow> inet_aton s = Some bs)"
proof
  show "inet_aton s = aton_spec s" by (rule inet_aton_parts)
  have "octet_ok p \<Longrightarrow> aton_part p \<and> aton_num p = dec_val p" for p
    by (simp add: octet_ok_def aton_part_def aton_num_def)
  then have "list_all octet_ok ps \<Longrightarrow>
      list_all aton_part ps \<and> map (of_nat \<circ> aton_num) ps = (map (of_nat \<circ> dec_val) ps :: byte list)" for ps
    by (auto simp: list_all_iff)
  then show "inet_pton4 s = Some bs \<longrightarrow> inet_aton s = Some bs"
    by (auto simp: inet_aton_parts inet_pton4_reference aton_spec_def dotted_quad_def Let_def
        split: if_splits)
qed

theorem inet_aton_correct_witness:
  "inet_aton ''10.0.200.7'' = Some [10, 0, 200, 7]"
proof -
  have "inet_pton4 ''10.0.200.7'' = Some [10, 0, 200, 7]" by code_simp
  then show ?thesis using inet_aton_correct [of "''10.0.200.7''" "[10, 0, 200, 7]"] by blast
qed

text \<open>
  Because of the wrap-around, for every text of one part that \<open>inet_aton\<close> accepts there is a longer
  decimal number it accepts as the same address: adding \<open>2 ^ 64\<close> to a number goes unnoticed.
\<close>

lemma inet_aton_wraps:
  "n \<le> 255 \<Longrightarrow> inet_aton (fmt_u (n + 2 ^ 64 * k)) = Some [of_nat n, 0, 0, 0]"
proof -
  assume n: "n \<le> 255"
  show ?thesis using n
    by (simp add: inet_aton_parts aton_spec_def aton_part_def aton_num_def codec split_at_last
        replicate_three)
qed

lemma inet_aton_wraps_example: "inet_aton (fmt_u (7 + 2 ^ 64 * 1)) = Some [7, 0, 0, 0]"
  using inet_aton_wraps [of 7 1] by simp

end
