(* ===== verification/In_Cksum.thy ===== *)
theory In_Cksum
  imports CPrelude
begin

text \<open>
  \<open>libfree/in_cksum.c\<close>, the Internet checksum, and its use in \<open>ping/send_v4.c\<close>. The 16-bit loads
  are little-endian, as on the configured platform; the accumulator is a \<open>uint32_t\<close>.
\<close>

unbundle bit_operations_syntax

section \<open>The checksum\<close>

text \<open>The loop over \<open>w\<close> and \<open>nleft\<close>, with the odd byte at the end: the low byte of \<open>answer\<close>.\<close>

fun cksum_loop :: "u32 \<Rightarrow> byte list \<Rightarrow> u32" where
  "cksum_loop acc (lo # hi # w) = cksum_loop (acc + ucast (le16 lo hi)) w"
| "cksum_loop acc [b] = acc + ucast (le16 b 0)"
| "cksum_loop acc [] = acc"

definition in_cksum :: "byte list \<Rightarrow> u16" where
  "in_cksum bs =
     (let s = cksum_loop 0 bs;
          s = drop_bit 16 s + (s AND 0xffff);
          s = s + drop_bit 16 s
      in ucast (NOT s))"

text \<open>The two bytes of a 16-bit value in memory.\<close>

definition store_le16 :: "u16 \<Rightarrow> byte list" where
  "store_le16 w = [ucast w, ucast (drop_bit 8 w)]"

section \<open>The sum as a number\<close>

fun word_sum :: "byte list \<Rightarrow> nat" where
  "word_sum (lo # hi # w) = unat lo + 256 * unat hi + word_sum w"
| "word_sum [b] = unat b"
| "word_sum [] = 0"

lemma unat_le16: "unat (le16 lo hi) = unat lo + 256 * unat hi"
proof -
  have "unat lo < 256" "unat hi < 256" using unsigned_less [of lo] unsigned_less [of hi] by simp_all
  moreover have "unat (ucast b :: u16) = unat b" for b :: byte
    using unsigned_less [where w = b and 'a = nat] by (simp add: unsigned_ucast_eq take_bit_eq_mod)
  ultimately show ?thesis by (simp add: le16_def unat_word_ariths)
qed

lemma word_sum_bound: "word_sum bs \<le> 65535 * ((length bs + 1) div 2)"
proof (induction bs rule: word_sum.induct)
  case (1 lo hi w)
  have "unat lo < 256" "unat hi < 256" using unsigned_less [of lo] unsigned_less [of hi] by simp_all
  with 1 show ?case by simp
next
  case (2 b)
  have "unat b < 256" using unsigned_less [of b] by simp
  then show ?case by simp
qed simp

lemma cksum_loop_sum: "cksum_loop s bs = s + of_nat (word_sum bs)"
proof -
  have "(ucast (le16 lo hi) :: u32) = of_nat (unat lo) + 256 * of_nat (unat hi)" for lo hi
    using of_nat_unat [of "le16 lo hi", where 'a = "32 word"] by (simp add: unat_le16)
  then show ?thesis by (induction s bs rule: cksum_loop.induct) (simp_all add: algebra_simps)
qed

text \<open>Folding the carries twice and complementing, as arithmetic.\<close>

definition fold16 :: "nat \<Rightarrow> nat" where
  "fold16 s = (let t = s div 65536 + s mod 65536 in (t + t div 65536) mod 65536)"

lemma fold16_spec:
  assumes "s < 2 ^ 32"
  shows "fold16 s = (if s = 0 then 0 else (s - 1) mod 65535 + 1)"
proof -
  define q r where "q = s div 65536" and "r = s mod 65536"
  have s: "s = 65536 * q + r" "r < 65536" "q < 65536" using assms by (auto simp: q_def r_def)
  have f: "fold16 s = (q + r + (q + r) div 65536) mod 65536"
    by (simp add: fold16_def q_def r_def Let_def)
  consider "q + r = 0" | "1 \<le> q + r" "q + r \<le> 65535" | "65536 \<le> q + r" by linarith
  then show ?thesis
  proof cases
    case 1
    then show ?thesis using s f by simp
  next
    case 2
    then have "s - 1 = q * 65535 + (q + r - 1)" using s by simp
    then have "(s - 1) mod 65535 = (q + r - 1) mod 65535" by (simp only: mod_mult_self3)
    then show ?thesis using 2 s f by simp
  next
    case 3
    then have "s - 1 = (q + 1) * 65535 + (q + r - 65536)" using s by simp
    moreover have "q + r - 65536 < 65535" using s by linarith
    ultimately have m: "(s - 1) mod 65535 = q + r - 65536"
      by (simp only: mod_mult_self3 mod_less)
    have "(q + r) div 65536 = 1" using 3 s by (simp add: div_nat_eqI)
    then have "fold16 s = (q + r + 1) mod 65536" using f by simp
    also have "\<dots> = q + r + 1 - 65536" using 3 s by (simp add: mod_if)
    finally show ?thesis using m 3 s by simp
  qed
qed

lemma unat_not16: "unat (NOT x :: u16) = 65535 - unat x"
proof -
  have "uint x < 65536" "0 \<le> uint x" using uint_bounded [of x] by simp_all
  moreover have "(- a - 1) mod 65536 = 65535 - a" if "0 \<le> a" "a < 65536" for a :: int
  proof -
    have "- a - 1 = (65535 - a) + (- 1) * 65536" by simp
    then show ?thesis using that by (simp only: mod_mult_self1) simp
  qed
  ultimately have "uint (NOT x) = 65535 - uint x"
    by (simp add: unsigned_not_eq take_bit_eq_mod not_int_def)
  then have "int (unat (NOT x)) = 65535 - int (unat x)" by simp
  then show ?thesis by linarith
qed

lemma in_cksum_sum:
  assumes "word_sum bs < 2 ^ 32"
  shows "unat (in_cksum bs) = 65535 - fold16 (word_sum bs)"
proof -
  let ?s = "of_nat (word_sum bs) :: u32"
  let ?t = "drop_bit 16 ?s + (?s AND 0xffff)"
  have s: "unat ?s = word_sum bs" using assms by (simp add: unat_of_nat)
  have m: "(0xffff :: u32) = mask 16" by (simp add: mask_eq_exp_minus_1)
  have t: "unat ?t = word_sum bs div 65536 + word_sum bs mod 65536"
    using assms s by (simp add: unat_word_ariths unat_drop_bit_eq drop_bit_eq_div m flip: take_bit_eq_mask)
       (simp add: take_bit_eq_mod unat_mod_distrib)
  have cnot: "ucast (NOT x) = (NOT (ucast x) :: u16)" for x :: u32
    by (rule bit_eqI) (simp add: bit_simps)
  have "unat (ucast (?t + drop_bit 16 ?t) :: u16) = fold16 (word_sum bs)"
    using t by (simp add: unsigned_ucast_eq take_bit_eq_mod unat_word_ariths unat_drop_bit_eq drop_bit_eq_div
        fold16_def mod_mod_cancel Let_def)
  moreover have "in_cksum bs = NOT (ucast (?t + drop_bit 16 ?t) :: u16)"
    by (simp add: in_cksum_def cksum_loop_sum Let_def cnot)
  ultimately show ?thesis by (simp add: unat_not16)
qed


section \<open>Correctness\<close>

lemma word_sum_small: "length bs \<le> 131072 \<Longrightarrow> word_sum bs < 2 ^ 32"
  using word_sum_bound [of bs] by simp

lemma word_sum_append: "even (length a) \<Longrightarrow> word_sum (a @ b) = word_sum a + word_sum b"
  by (induction a rule: word_sum.induct) simp_all

lemma word_sum_store: "word_sum (store_le16 c) = unat c"
proof -
  have "unat c < 65536" using unsigned_less [where w = c and 'a = nat] by simp
  then have "unat (ucast (drop_bit 8 c) :: byte) = unat c div 256"
    by (simp add: unsigned_ucast_eq take_bit_eq_mod unat_drop_bit_eq) (simp add: drop_bit_eq_div)
  moreover have "unat (ucast c :: byte) = unat c mod 256"
    by (simp add: unsigned_ucast_eq take_bit_eq_mod)
  ultimately show ?thesis by (simp add: store_le16_def)
qed

lemma fold16_range: "s < 2 ^ 32 \<Longrightarrow> fold16 s \<le> 65535 \<and> (fold16 s = 0 \<longleftrightarrow> s = 0)
   \<and> fold16 s mod 65535 = s mod 65535"
  by (auto simp: fold16_spec Suc_leI mod_Suc_eq simp del: mod_less)

lemma in_cksum_zero_iff:
  assumes "word_sum bs < 2 ^ 32"
  shows "in_cksum bs = 0 \<longleftrightarrow> 0 < word_sum bs \<and> word_sum bs mod 65535 = 0"
proof -
  have "in_cksum bs = 0 \<longleftrightarrow> fold16 (word_sum bs) = 65535"
    using in_cksum_sum [OF assms] fold16_range [OF assms] unat_eq_zero [of "in_cksum bs"] by auto
  also have "\<dots> \<longleftrightarrow> 0 < word_sum bs \<and> word_sum bs mod 65535 = 0"
    using fold16_range [OF assms] by (cases "fold16 (word_sum bs) = 65535") (auto simp: mod_less)
  finally show ?thesis .
qed


text \<open>
  For every buffer of at most 131072 bytes (a datagram has at most 65535) the 32-bit accumulator
  does not overflow, and the checksum is the complement of the one's complement sum of the 16-bit
  words: the sum reduced modulo 65535 to 1..65535, and 0 for a sum of 0.
\<close>

lemma in_cksum_ones_complement:
  "length bs \<le> 131072 \<Longrightarrow>
   unat (cksum_loop 0 bs) = word_sum bs
   \<and> unat (in_cksum bs) = 65535 - (if word_sum bs = 0 then 0 else (word_sum bs - 1) mod 65535 + 1)"
  using in_cksum_sum [of bs] fold16_spec [of "word_sum bs"] word_sum_small [of bs]
  by (simp add: cksum_loop_sum unat_of_nat)

lemma in_cksum_ones_complement_example: "unat (in_cksum [1, 2, 3]) = 65535 - 516"
  using in_cksum_ones_complement [of "[1, 2, 3]"] by simp

lemma in_cksum_fill:
  assumes "even (length pre)" "length pre + length suf \<le> 131070"
  shows "in_cksum (pre @ store_le16 (in_cksum (pre @ [0, 0] @ suf)) @ suf) = 0"
proof -
  let ?z = "pre @ [0, 0] @ suf" and ?c = "in_cksum (pre @ [0, 0] @ suf)"
  let ?f = "pre @ store_le16 ?c @ suf"
  have even2: "even (length (pre @ store_le16 ?c))" "even (length (pre @ [0, 0 :: byte]))"
    using assms(1) by (simp_all add: store_le16_def)
  have z: "word_sum ?z = word_sum pre + word_sum suf" using word_sum_append [OF even2(2)] word_sum_append [OF assms(1)] by simp
  have f: "word_sum ?f = word_sum pre + unat ?c + word_sum suf"
    using word_sum_append [OF even2(1)] word_sum_append [OF assms(1)] by (simp add: word_sum_store)
  have small: "word_sum ?z < 2 ^ 32" "word_sum ?f < 2 ^ 32"
    using assms(2) by (intro word_sum_small; simp add: store_le16_def)+
  have "unat ?c = 65535 - fold16 (word_sum ?z)" by (rule in_cksum_sum [OF small(1)])
  then have "(unat ?c + fold16 (word_sum ?z)) = 65535" using fold16_range [OF small(1)] by simp
  moreover have "(unat ?c + word_sum ?z) mod 65535 = (unat ?c + fold16 (word_sum ?z)) mod 65535"
    using fold16_range [OF small(1)] by (intro mod_add_cong) simp_all
  moreover have "0 < unat ?c + word_sum ?z"
    using calculation(1) fold16_range [OF small(1)] by (cases "word_sum ?z = 0") simp_all
  ultimately have "(unat ?c + word_sum ?z) mod 65535 = 0 \<and> 0 < unat ?c + word_sum ?z" by simp
  then show ?thesis using f z in_cksum_zero_iff [OF small(2)] by (simp add: ac_simps)
qed

lemma in_cksum_detects:
  assumes "even (length pre)" "length pre + length suf \<le> 131070"
    and "in_cksum (pre @ store_le16 v @ suf) = 0" "in_cksum (pre @ store_le16 w @ suf) = 0"
  shows "v = w \<or> {unat v, unat w} = {0, 65535}"
proof -
  have even2: "even (length (pre @ store_le16 x))" for x
    using assms(1) by (simp add: store_le16_def)
  have f: "word_sum (pre @ store_le16 x @ suf) = unat x + (word_sum pre + word_sum suf)" for x
    using word_sum_append [OF even2] word_sum_append [OF assms(1)] by (simp add: word_sum_store)
  have "word_sum (pre @ store_le16 x @ suf) < 2 ^ 32" for x
    using assms(2) by (intro word_sum_small) (simp add: store_le16_def)
  then have "(unat v + (word_sum pre + word_sum suf)) mod 65535 = (unat w + (word_sum pre + word_sum suf)) mod 65535"
    using assms(3,4) by (simp only: in_cksum_zero_iff f)
  then have m: "unat v mod 65535 = unat w mod 65535" by (simp only: nat_mod_eq_iff) (auto simp: nat_mod_eq_iff algebra_simps)
  have "unat v < 65536" "unat w < 65536" using unsigned_less [where w = v and 'a = nat] unsigned_less [where w = w and 'a = nat] by simp_all
  then have "unat v = 65535 \<or> unat v mod 65535 = unat v" "unat w = 65535 \<or> unat w mod 65535 = unat w"
    by (auto simp: mod_if)
  with m show ?thesis by (auto simp: word_unat_eq_iff)
qed

text \<open>
  C36 A message whose checksum field holds \<open>in_cksum\<close> of the message with that field zero verifies:
  \<open>in_cksum\<close> of the whole is 0. And it detects every change of one aligned 16-bit word, other than
  exchanging the two zeros 0 and 0xffff of one's complement arithmetic.
\<close>

theorem in_cksum_verifies:
  "even (length pre) \<Longrightarrow> length pre + length suf \<le> 131070 \<Longrightarrow>
   in_cksum (pre @ store_le16 (in_cksum (pre @ [0, 0] @ suf)) @ suf) = 0
   \<and> (in_cksum (pre @ store_le16 v @ suf) = 0 \<and> in_cksum (pre @ store_le16 w @ suf) = 0
        \<longrightarrow> v = w \<or> {unat v, unat w} = {0, 65535})"
  by (intro conjI impI) (erule (1) in_cksum_fill, erule (1) in_cksum_detects [OF _ _ conjunct1 conjunct2])

theorem in_cksum_verifies_witness:
  "in_cksum ([8, 0] @ store_le16 (in_cksum ([8, 0] @ [0, 0] @ [1, 2, 3])) @ [1, 2, 3]) = 0"
proof -
  have len: "even (length [8, 0 :: byte])" "length [8, 0 :: byte] + length [1, 2, 3 :: byte] \<le> 131070"
    by simp_all
  show ?thesis by (rule conjunct1 [OF in_cksum_verifies [OF len, where v = 0 and w = 0]])
qed

end
