(* ===== verification/Inet_Roundtrip.thy ===== *)
theory Inet_Roundtrip
  imports Inet_Ntop
begin

unbundle bit_operations_syntax

text \<open>
  The address text of \<open>libfree/inet_ntop.c\<close> against the parser of \<open>libfree/inet_pton.c\<close>: how the
  IPv6 loop reads a group, a run of groups, \<open>::\<close> and a dotted quad; the printed text in closed form;
  and the round trips.
\<close>

section \<open>Reading what was printed\<close>

definition group_bytes :: "u32 \<Rightarrow> byte list" where
  "group_bytes w = [ucast (drop_bit 8 w) AND 0xff, ucast w AND 0xff]"

abbreviation hexw :: "u32 \<Rightarrow> string" where
  "hexw w \<equiv> fmt_x (unat w)"

text \<open>The loop between two tokens: \<open>out\<close> has been stored, the rest of the buffer is zero.\<close>

definition pton6_at :: "byte list \<Rightarrow> nat option \<Rightarrow> string \<Rightarrow> pton6_state" where
  "pton6_at out c ct = \<lparr>tmp6 = out @ replicate (16 - length out) 0, tp6 = length out, colonp = c,
     curtok = ct, saw_xdigit = False, val = 0\<rparr>"

lemma pton6_init_at: "pton6_init src = pton6_at [] None src"
  by (simp add: pton6_init_def pton6_at_def)

lemma xdigit_pos_digit_char: "d < 16 \<Longrightarrow> xdigit_pos (digit_char d) = Some d"
  by (drule less_sixteen_cases)
    (elim disjE; simp add: xdigit_pos_def xdigits_l_def xdigits_u_def digit_char_values)

lemma xdigit_pos_punct [simp]: "xdigit_pos CHR '':'' = None" "xdigit_pos CHR ''.'' = None"
  by (simp_all add: xdigit_pos_def xdigits_l_def xdigits_u_def)

lemma push_or_add_gen:
  assumes "d < 2 ^ k"
  shows "push_bit k (of_nat v :: u32) OR of_nat d = of_nat (v * 2 ^ k + d)"
proof -
  have "push_bit k (of_nat v :: u32) AND of_nat d = 0"
  proof (rule bit_eqI)
    fix n
    have "\<not> bit d n" if "k \<le> n"
    proof -
      have "d < 2 ^ n" by (rule less_le_trans [OF assms]) (simp add: that power_increasing)
      then show ?thesis by (simp add: bit_iff_odd)
    qed
    then show "bit (push_bit k (of_nat v :: u32) AND of_nat d) n \<longleftrightarrow> bit (0 :: u32) n"
      by (auto simp: bit_simps)
  qed
  then have "push_bit k (of_nat v :: u32) OR of_nat d = push_bit k (of_nat v) + of_nat d"
    by (simp add: disjunctive_add_eq_or)
  then show ?thesis by (simp add: push_bit_eq_mult)
qed

lemma push_or_add: "d < 16 \<Longrightarrow> push_bit 4 (of_nat v :: u32) OR of_nat d = of_nat (v * 16 + d)"
  using push_or_add_gen [of d 4 v] by simp

lemma of_nat_u32_le: "n \<le> 65535 \<Longrightarrow> \<not> 65535 < (of_nat n :: u32)"
  by (simp add: word_less_nat_alt unat_of_nat)

interpretation hex_scan: digit_scanner 16 65535 pton6_loop
  "st\<lparr>val := 0, saw_xdigit := False\<rparr>" "\<lambda>v. st\<lparr>val := of_nat v, saw_xdigit := True\<rparr>" for st
proof
  show "(2::nat) \<le> 16" by simp
  fix v d r
  show "d < 16 \<Longrightarrow> d \<le> 65535 \<Longrightarrow> pton6_loop (st\<lparr>val := 0, saw_xdigit := False\<rparr>) (digit_char d # r)
      = pton6_loop (st\<lparr>val := of_nat d, saw_xdigit := True\<rparr>) r"
    using push_or_add [of d 0] of_nat_u32_le [of d]
    by (simp add: pton6_step_def xdigit_pos_digit_char Let_def)
  show "d < 16 \<Longrightarrow> v * 16 + d \<le> 65535 \<Longrightarrow>
      pton6_loop (st\<lparr>val := of_nat v, saw_xdigit := True\<rparr>) (digit_char d # r)
      = pton6_loop (st\<lparr>val := of_nat (v * 16 + d), saw_xdigit := True\<rparr>) r"
    using push_or_add [of d v] of_nat_u32_le [of "v * 16 + d"]
    by (simp add: pton6_step_def xdigit_pos_digit_char Let_def)
qed

lemma pton6_at_reset:
  "(pton6_at out c ct)\<lparr>val := 0, saw_xdigit := False\<rparr> = pton6_at out c ct"
  "(pton6_at out c ct)\<lparr>val := w, saw_xdigit := s, saw_xdigit := False, val := 0\<rparr> = pton6_at out c ct"
  by (simp_all add: pton6_at_def)

lemma loop_hex:
  assumes "w \<le> 0xffff"
  shows "pton6_loop (pton6_at out c ct) (hexw w @ r)
    = pton6_loop ((pton6_at out c ct)\<lparr>val := w, saw_xdigit := True\<rparr>) r"
proof -
  have "unat w \<le> 65535" using assms by (simp add: word_le_nat_alt)
  then show ?thesis using hex_scan.scan_render [of "unat w" "pton6_at out c ct" r]
    by (simp only: pton6_at_reset) simp
qed

lemma store16_at:
  assumes "length out + 2 \<le> 16"
  shows "store16 ((pton6_at out c ct)\<lparr>val := w, saw_xdigit := s\<rparr>)
    = (pton6_at (out @ group_bytes w) c ct)\<lparr>val := w, saw_xdigit := s\<rparr>"
proof -
  define k where "k = 14 - length out"
  then have "16 - length out = Suc (Suc k)" "16 - Suc (Suc (length out)) = k"
    using assms by auto
  then show ?thesis
    by (simp add: store16_def pton6_at_def group_bytes_def list_update_append)
qed

lemma loop_hex_end:
  "w \<le> 0xffff \<Longrightarrow> pton6_loop (pton6_at out c ct) (hexw w)
    = Some ((pton6_at out c ct)\<lparr>val := w, saw_xdigit := True\<rparr>)"
  using loop_hex [of w out c ct "[]"] by simp

lemma loop_group:
  assumes "w \<le> 0xffff" "length out + 2 \<le> 16"
  shows "pton6_loop (pton6_at out c ct) (hexw w @ CHR '':'' # r)
    = pton6_loop (pton6_at (out @ group_bytes w) c r) r"
proof -
  have "pton6_loop (pton6_at out c ct) (hexw w @ CHR '':'' # r)
      = pton6_loop ((pton6_at out c ct)\<lparr>val := w, saw_xdigit := True\<rparr>) (CHR '':'' # r)"
    by (rule loop_hex) fact
  also have "\<dots> = pton6_loop
      ((store16 ((pton6_at out c r)\<lparr>val := w, saw_xdigit := True\<rparr>))\<lparr>saw_xdigit := False, val := 0\<rparr>) r"
    using assms(2) by (simp add: pton6_step_def pton6_at_def)
  finally show ?thesis by (simp only: store16_at [OF assms(2)] pton6_at_reset)
qed

definition colon_after :: "u32 list \<Rightarrow> string" where
  "colon_after ws = concat (map (\<lambda>w. hexw w @ '':'') ws)"

lemma colon_after_simps [simp]:
  "colon_after [] = []"
  "colon_after (w # ws) = hexw w @ CHR '':'' # colon_after ws"
  by (simp_all add: colon_after_def)

lemma length_group_bytes [simp]: "length (group_bytes w) = 2"
  by (simp add: group_bytes_def)

lemma length_groups [simp]: "length (concat (map group_bytes ws)) = 2 * length ws"
  by (induction ws) auto

lemma loop_groups:
  "\<forall>w\<in>set ws. w \<le> 0xffff \<Longrightarrow> length out + 2 * length ws \<le> 16 \<Longrightarrow>
   pton6_loop (pton6_at out c ct) (colon_after ws @ r)
   = pton6_loop (pton6_at (out @ concat (map group_bytes ws)) c (if ws = [] then ct else r)) r"
  by (induction ws arbitrary: out ct) (simp_all add: loop_group)

lemma loop_gap:
  "pton6_loop (pton6_at out None ct) (CHR '':'' # r)
   = pton6_loop (pton6_at out (Some (length out)) r) r"
  by (simp add: pton6_step_def pton6_at_def)

text \<open>A dotted quad: its first octet is read as hex digits, then \<open>inet_pton4\<close> takes over from
  \<open>curtok\<close>.\<close>

lemma loop_dec_digits:
  "list_all isdigit ds \<Longrightarrow> length ds \<le> k \<Longrightarrow> k \<le> 4 \<Longrightarrow> unat (val st) < 16 ^ (4 - k) \<Longrightarrow>
   \<exists>v s. pton6_loop st (ds @ r) = pton6_loop (st\<lparr>val := v, saw_xdigit := s\<rparr>) r"
proof (induction ds arbitrary: st k)
  case Nil
  have "st = st\<lparr>val := val st, saw_xdigit := saw_xdigit st\<rparr>" by simp
  then show ?case by (metis append_Nil)
next
  case (Cons c ds)
  from Cons.prems(2) obtain j where j: "k = Suc j" by (cases k) auto
  from Cons.prems(1) obtain d where d: "d < 10" "c = digit_char d" by (auto elim: digit_obtain)
  have pow: "16 ^ (4 - j) = 16 * (16 :: nat) ^ (4 - k)"
    using Cons.prems(3) j by (metis Suc_diff_le diff_Suc_Suc power_Suc)
  have lim: "16 ^ (4 - k) \<le> (16 :: nat) ^ 3" using j by (intro power_increasing) auto
  let ?n = "unat (val st) * 16 + d"
  have n: "?n < 16 ^ (4 - j)" using Cons.prems(4) d(1) pow by simp
  then have n': "?n \<le> 65535" using pow lim by simp
  moreover have v: "push_bit 4 (val st) OR of_nat d = of_nat ?n"
    using push_or_add [of d "unat (val st)"] d(1) by simp
  ultimately have step: "pton6_loop st ((c # ds) @ r)
      = pton6_loop (st\<lparr>val := of_nat ?n, saw_xdigit := True\<rparr>) (ds @ r)"
    using d of_nat_u32_le [of ?n]
    by (simp add: pton6_step_def xdigit_pos_digit_char Let_def v)
  have "unat (of_nat ?n :: u32) < 16 ^ (4 - j)"
    using n n' by (simp only: unat_of_nat) simp
  then have "\<exists>v s. pton6_loop (st\<lparr>val := of_nat ?n, saw_xdigit := True\<rparr>) (ds @ r)
      = pton6_loop ((st\<lparr>val := of_nat ?n, saw_xdigit := True\<rparr>)\<lparr>val := v, saw_xdigit := s\<rparr>) r"
    using Cons.prems j by (intro Cons.IH [of j]) (simp_all del: of_nat_add of_nat_mult)
  then show ?case by (simp only: step) simp
qed

lemma loop_quad:
  assumes ds: "list_all isdigit ds" "length ds \<le> 4"
    and q: "inet_pton4 (ds @ CHR ''.'' # r) = Some quad"
    and out: "length out + 4 \<le> 16"
  shows "\<exists>v. pton6_loop (pton6_at out c (ds @ CHR ''.'' # r)) (ds @ CHR ''.'' # r)
    = Some ((pton6_at (out @ quad) c (ds @ CHR ''.'' # r))\<lparr>val := v\<rparr>)"
proof -
  let ?st = "pton6_at out c (ds @ CHR ''.'' # r)"
  obtain v s where "pton6_loop ?st (ds @ CHR ''.'' # r)
      = pton6_loop (?st\<lparr>val := v, saw_xdigit := s\<rparr>) (CHR ''.'' # r)"
    using loop_dec_digits [OF ds(1), of 4 ?st "CHR ''.'' # r"] ds(2) by (auto simp: pton6_at_def)
  moreover have "16 - length out = length quad + (16 - (length out + 4))"
    using out length_inet_pton4 [OF q] by simp
  then have "poke (out @ replicate (16 - length out) 0) (length out) quad
      = out @ quad @ replicate (16 - (length out + 4)) 0"
    by (rule poke_frontier)
  ultimately show ?thesis
    using q out length_inet_pton4 [OF q] by (auto simp: pton6_step_def pton6_at_def)
qed

section \<open>Closing the gap\<close>

lemma swap_update:
  "(A @ x # B @ y # C)[length A + Suc (length B) := (A @ x # B @ y # C) ! length A, length A := y]
   = A @ y # B @ x # C"
  by (simp add: list_update_append)

lemma shift_step:
  fixes a :: "byte list"
  assumes "length a = c" "m < length p" "0 < z"
  shows "(a @ take (Suc m) p @ replicate z 0 @ drop (Suc m) p)
      [c + m + z := (a @ take (Suc m) p @ replicate z 0 @ drop (Suc m) p) ! (c + m), c + m := 0]
    = a @ take m p @ replicate z 0 @ drop m p"
proof -
  obtain y where z: "z = Suc y" using assms(3) by (cases z) auto
  let ?A = "a @ take m p" and ?B = "replicate y (0 :: byte)"
  have len: "c + m + z = length ?A + Suc (length ?B)" "c + m = length ?A"
    using assms by (simp_all add: z)
  have "a @ take (Suc m) p @ replicate z 0 @ drop (Suc m) p = ?A @ p ! m # ?B @ 0 # drop (Suc m) p"
    using assms(2) by (simp add: take_Suc_conv_app_nth z replicate_app_Cons_same)
  moreover have "a @ take m p @ replicate z 0 @ drop m p = ?A @ 0 # ?B @ p ! m # drop (Suc m) p"
    using assms(2) by (simp add: z Cons_nth_drop_Suc)
  moreover have "(?A @ p ! m # ?B @ 0 # drop (Suc m) p)
      [length ?A + Suc (length ?B) := (?A @ p ! m # ?B @ 0 # drop (Suc m) p) ! length ?A, length ?A := 0]
    = ?A @ 0 # ?B @ p ! m # drop (Suc m) p" by (rule swap_update)
  ultimately show ?thesis by (simp only: len(1)) (simp only: len(2))
qed

lemma shift_gap:
  assumes "length a = c" "length p = n" "c + n + z = 16" "0 < z"
  shows "pton6_shift c n (a @ p @ replicate z 0) = a @ replicate z 0 @ p"
proof -
  let ?f = "\<lambda>b i. b[16 - i := b ! (c + n - i), c + n - i := 0]"
  have "foldl ?f (a @ p @ replicate z 0) [1..<k + 1]
      = a @ take (n - k) p @ replicate z 0 @ drop (n - k) p" if "k \<le> n" for k
    using that
  proof (induction k)
    case 0
    then show ?case using assms(2) by simp
  next
    case (Suc k)
    define m where "m = n - Suc k"
    have m: "n - k = Suc m" "c + n - Suc k = c + m" "16 - Suc k = c + m + z" "m < length p"
      using Suc.prems assms by (auto simp: m_def)
    have "foldl ?f (a @ p @ replicate z 0) [1..<Suc k + 1]
        = ?f (foldl ?f (a @ p @ replicate z 0) [1..<k + 1]) (Suc k)" by simp
    also have "\<dots> = ?f (a @ take (Suc m) p @ replicate z 0 @ drop (Suc m) p) (Suc k)"
      using Suc by (simp only: m(1) Suc_leD)
    also have "\<dots> = a @ take m p @ replicate z 0 @ drop m p"
      unfolding m(2,3) by (rule shift_step) (use assms m(4) in auto)
    finally show ?case by (simp only: m_def)
  qed
  from this [of n] show ?thesis by (simp add: pton6_shift_def)
qed

lemma finish_gap:
  assumes "c \<le> length out" "length out < 16"
  shows "pton6_finish ((pton6_at out (Some c) ct)\<lparr>val := v\<rparr>)
    = Some (take c out @ replicate (16 - length out) 0 @ drop c out)"
proof -
  have split: "out @ x = take c out @ drop c out @ x" for x by simp
  have "pton6_shift c (length out - c) (take c out @ drop c out @ replicate (16 - length out) 0)
      = take c out @ replicate (16 - length out) 0 @ drop c out"
    using assms by (intro shift_gap) auto
  then have "pton6_shift c (length out - c) (out @ replicate (16 - length out) 0)
      = take c out @ replicate (16 - length out) 0 @ drop c out"
    by (simp only: split)
  then show ?thesis by (simp add: pton6_finish_def pton6_at_def)
qed

lemma finish_last:
  assumes "length out + 2 \<le> 16"
  shows "pton6_finish ((pton6_at out c ct)\<lparr>val := w, saw_xdigit := True\<rparr>)
    = pton6_finish ((pton6_at (out @ group_bytes w) c ct)\<lparr>val := w\<rparr>)"
  using assms store16_at [OF assms, where s = True and w = w and c = c and ct = ct]
  by (simp add: pton6_finish_def Let_def split: option.split) (simp add: pton6_at_def)

section \<open>The printed text\<close>

lemma emit_plain:
  "\<forall>i\<in>set is. \<not> in_run best i \<and> \<not> encap4 best ws i \<Longrightarrow>
   ntop6_emit best ws src (is @ js) out
   = ntop6_emit best ws src js
       (out @ concat (map (\<lambda>i. (if i \<noteq> 0 then '':'' else []) @ hexw (ws ! i)) is))"
  by (induction "is" arbitrary: out) (auto simp: Let_def)

lemma emit_run:
  "\<forall>i\<in>set is. in_run best i \<Longrightarrow>
   ntop6_emit best ws src (is @ js) out
   = ntop6_emit best ws src js
       (out @ concat (map (\<lambda>i. if int i = base best then '':'' else []) is))"
  by (induction "is" arbitrary: out) auto

lemma run_colon:
  "b < e \<Longrightarrow> concat (map (\<lambda>i. if int i = int b then '':'' else []) [b..<e]) = '':''"
proof -
  assume "b < e"
  then have "[b..<e] = b # [Suc b..<e]" by (simp add: upt_conv_Cons)
  moreover have "concat (map (\<lambda>i. if int i = int b then '':'' else []) [Suc b..<e]) = []"
    by auto
  ultimately show ?thesis by simp
qed

text \<open>Colons before all groups but the first, against colons after each group.\<close>

lemma prefix_colons:
  "0 < n \<Longrightarrow> n \<le> length ws \<Longrightarrow>
   concat (map (\<lambda>i. (if i \<noteq> 0 then '':'' else []) @ hexw (ws ! i)) [0..<n]) @ '':''
   = colon_after (take n ws)"
proof (induction n)
  case 0
  then show ?case by simp
next
  case (Suc n)
  show ?case
  proof (cases "n = 0")
    case True
    with Suc.prems show ?thesis by (cases ws) auto
  next
    case False
    let ?f = "\<lambda>i. (if i \<noteq> 0 then '':'' else []) @ hexw (ws ! i)"
    have "concat (map ?f [0..<Suc n]) @ '':'' = (concat (map ?f [0..<n]) @ '':'') @ hexw (ws ! n) @ '':''"
      using False by simp
    also have "\<dots> = colon_after (take n ws) @ hexw (ws ! n) @ '':''"
      using Suc.IH Suc.prems False by (simp only: Suc_leD gr0I not_False_eq_True)
    also have "\<dots> = colon_after (take (Suc n) ws)"
      using Suc.prems by (simp add: colon_after_def take_Suc_conv_app_nth)
    finally show ?thesis .
  qed
qed

lemma suffix_colons:
  "0 < a \<Longrightarrow> a < e \<Longrightarrow> e \<le> length ws \<Longrightarrow>
   concat (map (\<lambda>i. (if i \<noteq> 0 then '':'' else []) @ hexw (ws ! i)) [a..<e])
   = '':'' @ colon_after (drop a (take (e - 1) ws)) @ hexw (ws ! (e - 1))"
proof (induction "e - a" arbitrary: a)
  case 0
  then show ?case by simp
next
  case (Suc k)
  show ?case
  proof (cases "Suc a = e")
    case True
    with Suc.prems show ?thesis by auto
  next
    case False
    have "[a..<e] = a # [Suc a..<e]" using Suc.prems by (simp add: upt_conv_Cons)
    moreover have "drop a (take (e - 1) ws) = ws ! a # drop (Suc a) (take (e - 1) ws)"
      using Suc.prems False by (subst Cons_nth_drop_Suc [symmetric]) auto
    moreover have "concat (map (\<lambda>i. (if i \<noteq> 0 then '':'' else []) @ hexw (ws ! i)) [Suc a..<e])
        = '':'' @ colon_after (drop (Suc a) (take (e - 1) ws)) @ hexw (ws ! (e - 1))"
      using Suc.hyps(2) Suc.prems False by (intro Suc.hyps(1)) auto
    ultimately show ?thesis using Suc.prems(1) by simp
  qed
qed

section \<open>The run of zeros\<close>

definition zero_run :: "u32 list \<Rightarrow> int \<Rightarrow> int \<Rightarrow> bool" where
  "zero_run ws a l \<longleftrightarrow> (\<forall>k. a \<le> int k \<longrightarrow> int k < a + l \<longrightarrow> ws ! k = 0)"

text \<open>\<open>r\<close> is at least as long as the run of \<open>l\<close> groups at \<open>a\<close>, and left of it if as long.\<close>

definition covers :: "zrun \<Rightarrow> int \<Rightarrow> int \<Rightarrow> bool" where
  "covers r a l \<longleftrightarrow> base r \<noteq> -1 \<and> (l < len r \<or> l = len r \<and> base r \<le> a)"

definition good_run :: "u32 list \<Rightarrow> int \<Rightarrow> zrun \<Rightarrow> bool" where
  "good_run ws i r \<longleftrightarrow> base r \<noteq> -1 \<longrightarrow> 0 \<le> base r \<and> 1 \<le> len r \<and> base r + len r \<le> i
     \<and> zero_run ws (base r) (len r)"

text \<open>
  The invariant of the scan at group \<open>i\<close>: \<open>best\<close> and \<open>cur\<close> are zero runs, \<open>cur\<close> ends at \<open>i\<close>,
  follows \<open>best\<close> and cannot be extended to the left, and \<open>best\<close> covers every run that ends before
  \<open>cur\<close>.
\<close>

definition cur_start :: "int \<Rightarrow> zrun \<Rightarrow> int" where
  "cur_start i cur = (if base cur = -1 then i else base cur)"

definition scan_inv :: "u32 list \<Rightarrow> int \<Rightarrow> zrun \<times> zrun \<Rightarrow> bool" where
  "scan_inv ws i bc \<longleftrightarrow> (case bc of (best, cur) \<Rightarrow>
     good_run ws (cur_start i cur) best \<and> good_run ws i cur
     \<and> (base cur \<noteq> -1 \<longrightarrow> base cur + len cur = i)
     \<and> (\<forall>k. int k = cur_start i cur - 1 \<longrightarrow> ws ! k \<noteq> 0)
     \<and> (\<forall>a l. 0 \<le> a \<longrightarrow> 1 \<le> l \<longrightarrow> zero_run ws a l \<longrightarrow> a + l \<le> cur_start i cur \<longrightarrow> covers best a l))"

lemma zero_run_snoc:
  "zero_run ws a l \<Longrightarrow> a + l = int i \<Longrightarrow> ws ! i = 0 \<Longrightarrow> zero_run ws a (l + 1)"
  unfolding zero_run_def by (metis add.assoc less_add_one linorder_neqE_linordered_idom of_nat_eq_iff
      zless_add1_eq)

lemma zero_run_one: "ws ! i = 0 \<Longrightarrow> zero_run ws (int i) 1"
  by (auto simp: zero_run_def)

lemma zero_run_nonzero:
  "zero_run ws a l \<Longrightarrow> ws ! k \<noteq> 0 \<Longrightarrow> int k < a \<or> a + l \<le> int k"
  by (force simp: zero_run_def)

lemma scan_inv_left:
  assumes inv: "scan_inv ws i (best, cur)" and cur: "base cur \<noteq> -1"
    and z: "zero_run ws a l" and a: "0 \<le> a"
  shows "a + l \<le> base cur \<or> base cur \<le> a"
proof (rule ccontr)
  assume "\<not> ?thesis"
  then have c: "a < base cur" "base cur < a + l" by auto
  define k where "k = nat (base cur - 1)"
  have k: "int k = base cur - 1" using a c by (simp add: k_def)
  then have "ws ! k \<noteq> 0" using inv cur by (simp add: scan_inv_def cur_start_def)
  from zero_run_nonzero [OF z this] k c show False by auto
qed

text \<open>The better of \<open>best\<close> and \<open>cur\<close> covers every run up to the end of \<open>cur\<close>.\<close>

definition better :: "zrun \<Rightarrow> zrun \<Rightarrow> zrun" where
  "better best cur =
     (if base cur \<noteq> -1 \<and> (base best = -1 \<or> len cur > len best) then cur else best)"

lemma better_good: "scan_inv ws i (best, cur) \<Longrightarrow> good_run ws i (better best cur)"
  by (auto simp: scan_inv_def good_run_def cur_start_def better_def split: if_splits)

lemma better_covers:
  assumes inv: "scan_inv ws i (best, cur)"
    and z: "zero_run ws a l" and al: "0 \<le> a" "1 \<le> l" "a + l \<le> i"
  shows "covers (better best cur) a l"
proof (cases "a + l \<le> cur_start i cur")
  case True
  then have "covers best a l" using inv z al by (auto simp: scan_inv_def)
  then show ?thesis by (auto simp: covers_def better_def)
next
  case False
  then have cur: "base cur \<noteq> -1" "base cur < a + l"
    using al by (auto simp: cur_start_def split: if_splits)
  then have a: "base cur \<le> a" using scan_inv_left [OF inv cur(1) z al(1)] by simp
  have "l \<le> len cur" "base cur \<noteq> -1 \<longrightarrow> base best \<noteq> -1 \<longrightarrow> base best + len best \<le> base cur"
    "base best \<noteq> -1 \<longrightarrow> 1 \<le> len best"
    using inv a al cur by (auto simp: scan_inv_def cur_start_def good_run_def)
  then show ?thesis using a cur by (auto simp: covers_def better_def)
qed

lemma scan_inv_step:
  assumes inv: "scan_inv ws (int i) bc"
  shows "scan_inv ws (int i + 1) (ntop6_scan ws bc i)"
proof -
  obtain best cur where bc: "bc = (best, cur)" by (cases bc)
  show ?thesis
  proof (cases "ws ! i = 0")
    case True
    then show ?thesis
      using inv by (auto simp: bc scan_inv_def ntop6_scan_def cur_start_def good_run_def zero_run_snoc
          zero_run_one)
  next
    case False
    then have step: "ntop6_scan ws bc i = (better best cur, cur\<lparr>base := -1\<rparr>)"
      by (simp add: ntop6_scan_def bc better_def)
    have "good_run ws (int i + 1) (better best cur)"
      using better_good [of ws "int i" best cur] inv by (auto simp: bc good_run_def)
    moreover have "covers (better best cur) a l"
      if "0 \<le> a" "1 \<le> l" "zero_run ws a l" "a + l \<le> int i + 1" for a l
      using better_covers [of ws "int i" best cur a l] zero_run_nonzero [OF that(3) False] inv that
      by (auto simp: bc)
    ultimately show ?thesis
      using False by (auto simp: step scan_inv_def cur_start_def) (simp add: good_run_def)
  qed
qed

lemma scan_inv_foldl:
  "scan_inv ws (int i) bc \<Longrightarrow> scan_inv ws (int (i + n)) (foldl (ntop6_scan ws) bc [i..<i + n])"
proof (induction n)
  case 0
  then show ?case by simp
next
  case (Suc n)
  have "scan_inv ws (int (i + n) + 1)
      (ntop6_scan ws (foldl (ntop6_scan ws) bc [i..<i + n]) (i + n))"
    by (rule scan_inv_step) (rule Suc.IH [OF Suc.prems])
  then show ?case by (simp add: add.commute)
qed

lemma ntop6_best_run:
  "if base (ntop6_best ws) = -1 then
     \<not> (\<exists>a l. 0 \<le> a \<and> 2 \<le> l \<and> a + l \<le> 8 \<and> zero_run ws a l)
   else
     0 \<le> base (ntop6_best ws) \<and> 2 \<le> len (ntop6_best ws)
     \<and> base (ntop6_best ws) + len (ntop6_best ws) \<le> 8
     \<and> zero_run ws (base (ntop6_best ws)) (len (ntop6_best ws))
     \<and> \<not> (\<exists>a l. 0 \<le> a \<and> a + l \<le> 8 \<and> zero_run ws a l
          \<and> (len (ntop6_best ws) < l \<or> len (ntop6_best ws) = l \<and> a < base (ntop6_best ws)))"
proof -
  let ?none = "\<lparr>base = -1, len = 0\<rparr>"
  obtain best cur where bc: "foldl (ntop6_scan ws) (?none, ?none) [0..<8] = (best, cur)"
    by (cases "foldl (ntop6_scan ws) (?none, ?none) [0..<8]")
  define fin where "fin = better best cur"
  have result: "ntop6_best ws = (if base fin \<noteq> -1 \<and> len fin < 2 then fin\<lparr>base := -1\<rparr> else fin)"
    by (simp add: ntop6_best_def bc fin_def better_def Let_def)
  have "scan_inv ws 0 (?none, ?none)"
    by (auto simp: scan_inv_def good_run_def cur_start_def)
  from scan_inv_foldl [of ws 0 "(?none, ?none)" 8] this
  have inv: "scan_inv ws 8 (best, cur)" by (simp add: bc)
  have good: "good_run ws 8 fin" unfolding fin_def by (rule better_good [OF inv])
  have cov: "covers fin a l" if "zero_run ws a l" "0 \<le> a" "1 \<le> l" "a + l \<le> 8" for a l
    unfolding fin_def by (rule better_covers [OF inv that])
  show ?thesis
  proof (cases "base fin = -1 \<or> len fin < 2")
    case True
    then have "\<not> covers fin a l" if "2 \<le> l" for a l using that by (auto simp: covers_def)
    then have "\<not> (\<exists>a l. 0 \<le> a \<and> 2 \<le> l \<and> a + l \<le> 8 \<and> zero_run ws a l)"
      using cov by fastforce
    moreover have "base (ntop6_best ws) = -1" using True by (auto simp: result)
    ultimately show ?thesis by simp
  next
    case False
    then have r: "ntop6_best ws = fin" by (auto simp: result)
    have "\<not> (len fin < l \<or> len fin = l \<and> a < base fin)"
      if "0 \<le> a" "a + l \<le> 8" "zero_run ws a l" for a l
      using cov [OF that(3,1)] that False by (auto simp: covers_def)
    then show ?thesis using False good unfolding r by (auto simp: good_run_def)
  qed
qed

text \<open>
  C27 The run of zero groups that \<open>inet_ntop6\<close> abbreviates to \<open>::\<close> is the leftmost of the longest
  runs of at least two zero groups, and there is none only if no two neighbouring groups are zero.
\<close>

theorem ntop6_best_longest:
  "if base (ntop6_best ws) = -1 then
     \<not> (\<exists>a l. 0 \<le> a \<and> 2 \<le> l \<and> a + l \<le> 8 \<and> zero_run ws a l)
   else
     0 \<le> base (ntop6_best ws) \<and> 2 \<le> len (ntop6_best ws)
     \<and> base (ntop6_best ws) + len (ntop6_best ws) \<le> 8
     \<and> zero_run ws (base (ntop6_best ws)) (len (ntop6_best ws))
     \<and> \<not> (\<exists>a l. 0 \<le> a \<and> a + l \<le> 8 \<and> zero_run ws a l
          \<and> (len (ntop6_best ws) < l \<or> len (ntop6_best ws) = l \<and> a < base (ntop6_best ws)))"
  by (rule ntop6_best_run)

section \<open>Reading back IPv4 text\<close>

lemma unat_byte_le [simp]: "unat (b :: byte) \<le> 255"
  using unsigned_less [where w = b and ?'a = nat] by simp

lemma inet_pton4_ntop4:
  assumes "length src = 4"
  shows "inet_pton4 (ntop4_text src) = Some src"
proof -
  have "split_at CHR ''.'' (ntop4_text src) = map (\<lambda>i. fmt_u (unat (src ! i))) [0, 1, 2, 3]"
    by (simp add: ntop4_text_def split_at_sep split_at_last dot_fmt_u)
  moreover have "src = map (\<lambda>i. src ! i) [0, 1, 2, 3]"
    using assms by (auto simp: nth_equalityI less_Suc_eq numeral_eq_Suc intro!: nth_equalityI)
  ultimately show ?thesis
    by (simp add: inet_pton4_reference dotted_quad_def octet_ok_fmt dec_val_fmt_u Let_def)
qed

section \<open>Reading back IPv6 text\<close>

lemma byte_and_255 [simp]: "(b :: byte) AND 255 = b"
proof -
  have "(255 :: byte) = - 1" by simp
  then show ?thesis by (simp only: and.right_neutral)
qed

lemma group_bytes_of:
  "group_bytes (push_bit 8 (ucast a) OR ucast b) = [a, b]"
proof -
  have "(ucast (drop_bit 8 (push_bit 8 (ucast a) OR ucast b :: u32)) :: byte) = a"
    by (rule bit_eqI) (auto simp: bit_simps dest: bit_imp_le_length)
  moreover have "(ucast (push_bit 8 (ucast a) OR ucast b :: u32) :: byte) = b"
    by (rule bit_eqI) (auto simp: bit_simps)
  ultimately show ?thesis by (simp add: group_bytes_def)
qed

lemma word_of_bytes_le: "push_bit 8 (ucast (a :: byte)) OR ucast (b :: byte) \<le> (0xffff :: u32)"
proof -
  have "unat b < 256" "unat a * 256 + unat b \<le> 65535"
    using unat_byte_le [of a] unat_byte_le [of b] by linarith+
  then have "push_bit 8 (of_nat (unat a)) OR of_nat (unat b) \<le> (0xffff :: u32)"
    using push_or_add_gen [of "unat b" 8 "unat a"] of_nat_u32_le [of "unat a * 256 + unat b"]
    by (simp add: not_less)
  then show ?thesis by (simp add: of_nat_unat)
qed

lemma ntop6_words_eq:
  "ntop6_words src
    = map (\<lambda>k. push_bit 8 (ucast (src ! (2 * k))) OR ucast (src ! (2 * k + 1))) [0..<8]"
proof -
  let ?w = "\<lambda>k. push_bit 8 (ucast (src ! (2 * k))) OR ucast (src ! (2 * k + 1)) :: u32"
  let ?f = "\<lambda>ws i. ws[i div 2 := ws ! (i div 2)
      OR push_bit (push_bit 3 (1 - i mod 2)) (ucast (src ! i))]"
  have "foldl ?f (replicate 8 0) [0..<2 * n] = map ?w [0..<n] @ replicate (8 - n) 0" if "n \<le> 8" for n
    using that
  proof (induction n)
    case 0
    then show ?case by simp
  next
    case (Suc n)
    then obtain k where k: "8 - n = Suc k" "8 - Suc n = k" by (cases "8 - n") auto
    have "[0..<2 * Suc n] = [0..<2 * n] @ [2 * n, 2 * n + 1]" by simp
    then show ?case using Suc k by (simp add: list_update_append nth_append push_bit_eq_mult)
  qed
  from this [of 8] show ?thesis by (simp add: ntop6_words_def)
qed

lemma concat_pairs:
  "2 * n \<le> length s \<Longrightarrow> concat (map (\<lambda>k. [s ! (2 * k), s ! (2 * k + 1)]) [0..<n]) = take (2 * n) s"
  by (induction n) (simp_all add: take_Suc_conv_app_nth)

lemma ntop6_words_ok:
  assumes "length src = 16"
  shows "length (ntop6_words src) = 8" "\<forall>w\<in>set (ntop6_words src). w \<le> 0xffff"
    "concat (map group_bytes (ntop6_words src)) = src"
proof -
  show "length (ntop6_words src) = 8" "\<forall>w\<in>set (ntop6_words src). w \<le> 0xffff"
    by (auto simp: ntop6_words_eq word_of_bytes_le)
  have "concat (map group_bytes (ntop6_words src))
      = concat (map (\<lambda>k. [src ! (2 * k), src ! (2 * k + 1)]) [0..<8])"
    by (simp add: ntop6_words_eq group_bytes_of comp_def)
  also have "\<dots> = src" using assms concat_pairs [of 8 src] by simp
  finally show "concat (map group_bytes (ntop6_words src)) = src" .
qed

lemma pton6_from_gap:
  assumes "\<forall>w\<in>set A. w \<le> 0xffff" "2 * length A \<le> 16"
  shows "pton6_from (colon_after A @ CHR '':'' # r) =
    (case pton6_loop (pton6_at (concat (map group_bytes A)) (Some (2 * length A)) r) r of
       None \<Rightarrow> None | Some st \<Rightarrow> pton6_finish st)"
  using assms by (simp add: pton6_from_def pton6_init_at loop_groups loop_gap del: pton6_loop.simps)

lemma concat_zero_groups: "concat (replicate n (group_bytes 0)) = replicate (2 * n) 0"
  by (induction n) (simp_all add: group_bytes_def)

text \<open>The three shapes of text after the gap: nothing, groups, groups and a dotted quad.\<close>

lemma read_gap_end:
  assumes "\<forall>w\<in>set A. w \<le> 0xffff" "length A < 8"
  shows "pton6_from (colon_after A @ '':'')
    = Some (concat (map group_bytes (A @ replicate (8 - length A) 0)))"
proof -
  have "pton6_finish ((pton6_at (concat (map group_bytes A)) (Some (2 * length A)) [])\<lparr>val := 0\<rparr>)
      = Some (concat (map group_bytes A) @ replicate (16 - 2 * length A) 0)"
    using assms by (subst finish_gap) auto
  moreover have "16 - 2 * length A = 2 * (8 - length A)" by simp
  ultimately show ?thesis
    using assms pton6_from_gap [of A "[]"] by (simp add: concat_zero_groups pton6_at_def)
qed

lemma read_gap_groups:
  assumes "\<forall>w\<in>set (A @ B @ [w]). w \<le> 0xffff" "length A + length B + 1 < 8"
  shows "pton6_from (colon_after A @ '':'' @ colon_after B @ hexw w)
    = Some (concat (map group_bytes (A @ replicate (7 - length A - length B) 0 @ B @ [w])))"
proof -
  let ?a = "concat (map group_bytes A)" and ?b = "concat (map group_bytes B)"
  let ?out = "?a @ ?b @ group_bytes w"
  obtain ct where "pton6_loop (pton6_at ?a (Some (2 * length A)) (colon_after B @ hexw w))
      (colon_after B @ hexw w)
      = pton6_loop (pton6_at (?a @ ?b) (Some (2 * length A)) ct) (hexw w)"
    using loop_groups [of B ?a] assms by auto
  also have "\<dots> = Some ((pton6_at (?a @ ?b) (Some (2 * length A)) ct)\<lparr>val := w, saw_xdigit := True\<rparr>)"
    using assms by (intro loop_hex_end) simp
  finally have "pton6_from (colon_after A @ '':'' @ colon_after B @ hexw w)
      = pton6_finish ((pton6_at (?a @ ?b) (Some (2 * length A)) ct)\<lparr>val := w, saw_xdigit := True\<rparr>)"
    using assms pton6_from_gap [of A "colon_after B @ hexw w"] by simp
  also have "\<dots> = pton6_finish ((pton6_at ?out (Some (2 * length A)) ct)\<lparr>val := w\<rparr>)"
    using assms finish_last [where out = "?a @ ?b" and c = "Some (2 * length A)" and ct = ct and w = w] by simp
  also have "\<dots> = Some (?a @ replicate (16 - length ?out) 0 @ ?b @ group_bytes w)"
    using assms by (subst finish_gap) auto
  also have "16 - length ?out = 2 * (7 - length A - length B)" by simp
  finally show ?thesis by (simp add: concat_zero_groups)
qed

lemma read_gap_quad:
  assumes "\<forall>w\<in>set (A @ B). w \<le> 0xffff" "length A + length B + 2 < 8" "length q = 4"
  shows "pton6_from (colon_after A @ '':'' @ colon_after B @ ntop4_text q)
    = Some (concat (map group_bytes (A @ replicate (6 - length A - length B) 0 @ B)) @ q)"
proof -
  let ?a = "concat (map group_bytes A)" and ?b = "concat (map group_bytes B)"
  let ?t = "ntop4_text q" and ?ds = "fmt_u (unat (q ! 0))"
  obtain r where t: "?t = ?ds @ CHR ''.'' # r" by (simp add: ntop4_text_def)
  have ds: "list_all isdigit ?ds" "length ?ds \<le> 4"
    using length_render [of 10 3 "unat (q ! 0)"] unat_byte_le [of "q ! 0"] by (auto simp: digits_fmt_u)
  have "pton6_loop (pton6_at ?a (Some (2 * length A)) (colon_after B @ ?t)) (colon_after B @ ?t)
      = pton6_loop (pton6_at (?a @ ?b) (Some (2 * length A)) ?t) ?t"
    using loop_groups [of B ?a "Some (2 * length A)" "colon_after B @ ?t" ?t] assms by auto
  moreover obtain v where "pton6_loop (pton6_at (?a @ ?b) (Some (2 * length A)) ?t) ?t
      = Some ((pton6_at ((?a @ ?b) @ q) (Some (2 * length A)) ?t)\<lparr>val := v\<rparr>)"
    using loop_quad [OF ds, of r q "?a @ ?b"] inet_pton4_ntop4 [OF assms(3)] assms(2)
    unfolding t by auto
  ultimately have "pton6_from (colon_after A @ '':'' @ colon_after B @ ?t)
      = pton6_finish ((pton6_at ((?a @ ?b) @ q) (Some (2 * length A)) ?t)\<lparr>val := v\<rparr>)"
    using assms pton6_from_gap [of A "colon_after B @ ?t"] by simp
  also have "\<dots> = Some (?a @ replicate (16 - length ((?a @ ?b) @ q)) 0 @ ?b @ q)"
    using assms by (subst finish_gap) auto
  also have "16 - length ((?a @ ?b) @ q) = 2 * (6 - length A - length B)"
    using assms(3) by simp
  finally show ?thesis by (simp add: concat_zero_groups)
qed

text \<open>The text of \<open>inet_ntop6\<close>, by the run that was chosen.\<close>

lemma emit_no_run:
  assumes "base best = -1" "length ws = 8"
  shows "ntop6_emit best ws src [0..<8] [] = Some (colon_after (take 7 ws) @ hexw (ws ! 7))"
proof -
  let ?f = "\<lambda>i. (if i \<noteq> 0 then '':'' else []) @ hexw (ws ! i)"
  have "ntop6_emit best ws src ([0..<8] @ []) []
      = ntop6_emit best ws src [] ([] @ concat (map ?f [0..<8]))"
    using assms(1) by (intro emit_plain) (simp add: in_run_def encap4_def)
  moreover have "[0..<8] = [0..<7] @ [7 :: nat]" by (simp add: upt_rec)
  then have "concat (map ?f [0..<8]) = (concat (map ?f [0..<7]) @ '':'') @ hexw (ws ! 7)"
    by simp
  moreover have "concat (map ?f [0..<7]) @ '':'' = colon_after (take 7 ws)"
    using assms(2) by (intro prefix_colons) simp_all
  ultimately show ?thesis by (simp only: append_Nil append_Nil2 ntop6_emit.simps)
qed

text \<open>With a run at \<open>b\<close> of \<open>l\<close> groups, the loop up to the end of the run writes the groups before it,
  each followed by a colon.\<close>

lemma emit_to_gap:
  assumes "base best = int b" "len best = int l" "0 < l" "b + l \<le> 8" "length ws = 8"
  shows "ntop6_emit best ws src [0..<8] []
    = ntop6_emit best ws src [b + l..<8] (if b = 0 then '':'' else colon_after (take b ws))"
proof -
  let ?f = "\<lambda>i. (if i \<noteq> 0 then '':'' else []) @ hexw (ws ! i)"
  have "[0..<8] = [0..<b] @ [b..<b + l] @ [b + l..<8]"
    using upt_add_eq_append [of 0 b "8 - b"] upt_add_eq_append [of b "b + l" "8 - (b + l)"] assms(4)
    by simp
  then have "ntop6_emit best ws src [0..<8] []
      = ntop6_emit best ws src ([b..<b + l] @ [b + l..<8]) (concat (map ?f [0..<b]))"
    using assms(1) emit_plain [of "[0..<b]" best ws src "[b..<b + l] @ [b + l..<8]" "[]"]
    by (simp add: in_run_def encap4_def)
  also have "\<dots> = ntop6_emit best ws src [b + l..<8]
      (concat (map ?f [0..<b]) @ concat (map (\<lambda>i. if int i = base best then '':'' else []) [b..<b + l]))"
    using assms by (intro emit_run) (auto simp: in_run_def)
  also have "concat (map ?f [0..<b]) @ concat (map (\<lambda>i. if int i = base best then '':'' else []) [b..<b + l])
      = (if b = 0 then '':'' else colon_after (take b ws))"
    using assms prefix_colons [of b ws] run_colon [of b "b + l"] by auto
  finally show ?thesis .
qed

lemma emit_tail:
  assumes "base best = int b" "len best = int l" "b + l < 8" "0 < l" "length ws = 8"
    and "\<not> encap4 best ws 6"
  shows "ntop6_emit best ws src [b + l..<8] out
    = Some (out @ '':'' @ colon_after (drop (b + l) (take 7 ws)) @ hexw (ws ! 7))"
proof -
  let ?f = "\<lambda>i. (if i \<noteq> 0 then '':'' else []) @ hexw (ws ! i)"
  have "ntop6_emit best ws src ([b + l..<8] @ []) out
      = ntop6_emit best ws src [] (out @ concat (map ?f [b + l..<8]))"
    using assms by (intro emit_plain) (auto simp: in_run_def encap4_def)
  then show ?thesis using assms suffix_colons [of "b + l" 8 ws] by simp
qed

lemma ntop4_text_length: "length (ntop4_text q) \<le> 15"
proof -
  have "length (fmt_u (unat (q ! i))) \<le> 3" for i
    by (rule length_render) (simp_all add: le_less_trans [OF unat_byte_le])
  from this [of 0] this [of 1] this [of 2] this [of 3] show ?thesis
    by (simp add: ntop4_text_def)
qed

lemma emit_tail_quad:
  assumes "base best = 0" "len best = int l" "length ws = 8" "encap4 best ws 6" "length out \<le> 20"
  shows "ntop6_emit best ws src [l..<8] out
    = Some (out @ '':'' @ colon_after (drop l (take 6 ws)) @ ntop4_text (drop 12 src))"
proof -
  have q: "inet_ntop4 (drop 12 src) n = Some (ntop4_text (drop 12 src))" if "15 \<le> n" for n
    using that ntop4_text_length [of "drop 12 src"] by (simp add: inet_ntop4_def)
  from assms(4) have l: "l = 6 \<or> l = 5 \<and> ws ! 5 = 0xffff"
    using assms(2) by (auto simp: encap4_def)
  have hex: "fmt_x 65535 = ''ffff''"
    by (simp add: render_step render_small digit_char_values)
  have e: "[6..<8] = [6, 7 :: nat]" "[5..<8] = [5, 6, 7 :: nat]" by (simp_all add: upt_rec)
  from l show ?thesis
  proof
    assume "l = 6"
    then show ?thesis using assms q by (simp add: e in_run_def)
  next
    assume l5: "l = 5 \<and> ws ! 5 = 0xffff"
    then have "drop l (take 6 ws) = [0xffff]"
      using assms(3) Cons_nth_drop_Suc [of 5 "take 6 ws"] by simp
    with l5 show ?thesis using assms q by (simp add: e in_run_def encap4_def Let_def hex)
  qed
qed

lemma length_hexw: "w \<le> 0xffff \<Longrightarrow> length (hexw w) \<le> 4"
  by (rule length_render) (simp_all add: word_le_nat_alt)

lemma length_colon_after: "\<forall>w\<in>set ws. w \<le> 0xffff \<Longrightarrow> length (colon_after ws) \<le> 5 * length ws"
proof (induction ws)
  case Nil
  then show ?case by simp
next
  case (Cons w ws)
  then show ?case using length_hexw [of w] by simp
qed

lemma zero_run_split:
  assumes "length ws = 8" "b + l \<le> 8" "zero_run ws (int b) (int l)"
  shows "ws = take b ws @ replicate l 0 @ drop (b + l) ws"
  using assms
  by (intro nth_equalityI) (auto simp: nth_append zero_run_def min_def)

lemma hexw_head: "\<exists>c t. hexw w = c # t \<and> c \<noteq> CHR '':''"
proof -
  obtain c t where c: "hexw w = c # t" by (cases "hexw w") simp_all
  then obtain d where "d < 16" "c = digit_char d"
    using set_render [of 16 c "unat w"] by auto
  then have "xdigit_pos c = Some d" by (simp add: xdigit_pos_digit_char)
  then have "c \<noteq> CHR '':''" by auto
  with c show ?thesis by blast
qed

lemma inet_pton6_plain:
  "inet_pton6 (colon_after ws @ hexw w) = pton6_from (colon_after ws @ hexw w)"
proof (cases ws)
  case Nil
  then show ?thesis using hexw_head [of w] by (auto simp: inet_pton6_def)
next
  case (Cons v vs)
  then show ?thesis using hexw_head [of v] by (auto simp: inet_pton6_def)
qed

lemma inet_pton6_gap:
  "inet_pton6 ((if A = [] then '':'' else colon_after A) @ CHR '':'' # r)
   = pton6_from (colon_after A @ CHR '':'' # r)"
proof (cases A)
  case Nil
  then show ?thesis by (simp add: inet_pton6_def)
next
  case (Cons w ws)
  then show ?thesis using hexw_head [of w] by (auto simp: inet_pton6_def)
qed

lemma concat_groups_take:
  "concat (map group_bytes (take n ws)) = take (2 * n) (concat (map group_bytes ws))"
  by (induction ws arbitrary: n) (auto simp: take_Cons' group_bytes_def diff_mult_distrib2 numeral_2_eq_2)

lemma read_plain:
  assumes "length W = 8" "\<forall>w\<in>set W. w \<le> 0xffff"
  shows "pton6_from (colon_after (take 7 W) @ hexw (W ! 7)) = Some (concat (map group_bytes W))"
proof -
  let ?o = "concat (map group_bytes (take 7 W))"
  have ok: "\<forall>w\<in>set (take 7 W). w \<le> 0xffff" "W ! 7 \<le> 0xffff"
    using assms by (auto dest: in_set_takeD)
  have split: "W = take 7 W @ [W ! 7]"
    using assms(1) take_Suc_conv_app_nth [of 7 W] by simp
  obtain ct where "pton6_loop (pton6_at [] None (colon_after (take 7 W) @ hexw (W ! 7)))
      (colon_after (take 7 W) @ hexw (W ! 7)) = pton6_loop (pton6_at ?o None ct) (hexw (W ! 7))"
    using loop_groups [OF ok(1), of "[]"] assms(1) by auto
  then have "pton6_from (colon_after (take 7 W) @ hexw (W ! 7))
      = pton6_finish ((pton6_at ?o None ct)\<lparr>val := W ! 7, saw_xdigit := True\<rparr>)"
    by (simp add: pton6_from_def pton6_init_at loop_hex_end [OF ok(2)])
  also have "\<dots> = pton6_finish ((pton6_at (?o @ group_bytes (W ! 7)) None ct)\<lparr>val := W ! 7\<rparr>)"
    using assms(1) by (intro finish_last) simp
  also have "\<dots> = Some (?o @ group_bytes (W ! 7))"
    using assms(1) by (simp add: pton6_finish_def pton6_at_def)
  also have "?o @ group_bytes (W ! 7) = concat (map group_bytes (take 7 W @ [W ! 7]))" by simp
  finally show ?thesis by (simp only: split [symmetric])
qed

lemma ntop6_run_obtain:
  assumes "base (ntop6_best ws) \<noteq> -1" "length ws = 8"
  obtains b l where "base (ntop6_best ws) = int b" "len (ntop6_best ws) = int l"
    "2 \<le> l" "b + l \<le> 8" "ws = take b ws @ replicate l 0 @ drop (b + l) ws"
proof -
  have r: "0 \<le> base (ntop6_best ws)" "2 \<le> len (ntop6_best ws)"
    "base (ntop6_best ws) + len (ntop6_best ws) \<le> 8"
    "zero_run ws (base (ntop6_best ws)) (len (ntop6_best ws))"
    using ntop6_best_run [of ws] assms(1) by simp_all
  then show thesis
    using zero_run_split [OF assms(2), of "nat (base (ntop6_best ws))" "nat (len (ntop6_best ws))"]
    by (intro that [of "nat (base (ntop6_best ws))" "nat (len (ntop6_best ws))"]) auto
qed

text \<open>Both theorems below are about the text that is printed when the buffer is large enough.\<close>

definition ntop6_text :: "byte list \<Rightarrow> string \<Rightarrow> bool" where
  "ntop6_text src s \<longleftrightarrow> length s \<le> 45 \<and> inet_pton6 s = Some src
     \<and> (\<forall>sz. inet_ntop6 src sz = (if length s + 1 > sz then None else Some s))"

lemma ntop6_text_intro:
  assumes "ntop6_emit (ntop6_best (ntop6_words src)) (ntop6_words src) src [0..<8] [] = Some out"
    and "s = out @ (if base (ntop6_best (ntop6_words src)) \<noteq> -1
           \<and> base (ntop6_best (ntop6_words src)) + len (ntop6_best (ntop6_words src)) = 8 then '':'' else [])"
    and "length s \<le> 45" "inet_pton6 s = Some src"
  shows "ntop6_text src s"
  using assms by (auto simp: ntop6_text_def inet_ntop6_def Let_def)

lemma ntop6_text_tight:
  assumes "ntop6_emit (ntop6_best (ntop6_words src)) (ntop6_words src) src [0..<8] [] = Some s"
    and "base (ntop6_best (ntop6_words src)) + len (ntop6_best (ntop6_words src)) \<noteq> 8"
    and "length s \<le> 45" "inet_pton6 s = Some src"
  shows "\<exists>s. ntop6_text src s"
  using ntop6_text_intro [of src s s] assms by auto

lemma ntop6_text_plain:
  assumes src: "length src = 16" and none: "base (ntop6_best (ntop6_words src)) = -1"
  shows "\<exists>s. ntop6_text src s"
proof -
  let ?W = "ntop6_words src"
  note W = ntop6_words_ok [OF src]
  have ok: "\<forall>w\<in>set (take 7 ?W). w \<le> 0xffff" "?W ! 7 \<le> 0xffff"
    using W by (auto dest: in_set_takeD)
  have "length (colon_after (take 7 ?W) @ hexw (?W ! 7)) \<le> 45"
    using length_colon_after [OF ok(1)] length_hexw [OF ok(2)] W(1) by simp
  moreover have "inet_pton6 (colon_after (take 7 ?W) @ hexw (?W ! 7)) = Some src"
    by (simp add: inet_pton6_plain read_plain [OF W(1,2)] W(3))
  ultimately show ?thesis
    using ntop6_text_intro [OF emit_no_run [OF none W(1)]] none by auto
qed

lemma ntop6_text_run:
  assumes src: "length src = 16" and run: "base (ntop6_best (ntop6_words src)) \<noteq> -1"
  shows "\<exists>s. ntop6_text src s"
proof -
  let ?W = "ntop6_words src" and ?best = "ntop6_best (ntop6_words src)"
  note W = ntop6_words_ok [OF src]
  obtain b l where r: "base ?best = int b" "len ?best = int l" "2 \<le> l" "b + l \<le> 8"
    and split: "?W = take b ?W @ replicate l 0 @ drop (b + l) ?W"
    using ntop6_run_obtain [OF run W(1)] by metis
  let ?A = "take b ?W" and ?out = "if b = 0 then '':'' else colon_after (take b ?W)"
  have A: "\<forall>w\<in>set ?A. w \<le> 0xffff" "length ?A = b" using W r by (auto dest: in_set_takeD)
  have len_out: "length ?out \<le> 1 + 5 * b" using length_colon_after [OF A(1)] A(2) by auto
  have out: "?out = (if ?A = [] then '':'' else colon_after ?A)" using A(2) by auto
  have start: "ntop6_emit ?best ?W src [0..<8] [] = ntop6_emit ?best ?W src [b + l..<8] ?out"
    using r W(1) by (intro emit_to_gap) auto
  consider "encap4 ?best ?W 6" | "b + l = 8" | "\<not> encap4 ?best ?W 6" "b + l < 8"
    using r(4) by linarith
  then show ?thesis
  proof cases
    case 1
    then have b: "b = 0" and l: "5 \<le> l" "l \<le> 6" using r by (auto simp: encap4_def)
    let ?B = "drop l (take 6 ?W)" and ?q = "drop 12 src"
    have B: "\<forall>w\<in>set ?B. w \<le> 0xffff" "length ?B = 6 - l"
      using W by (auto dest: in_set_takeD in_set_dropD)
    have e: "ntop6_emit ?best ?W src [0..<8] [] = Some ('':'' @ '':'' @ colon_after ?B @ ntop4_text ?q)"
      using emit_tail_quad [OF _ r(2) W(1) 1, of "'':''" src] start r b by simp
    have six: "replicate l 0 @ ?B = take 6 ?W"
    proof -
      have "take 6 ?W = take 6 (replicate l 0 @ drop l ?W)" using split b by simp
      then show ?thesis using l by (simp add: drop_take)
    qed
    have "inet_pton6 ('':'' @ '':'' @ colon_after ?B @ ntop4_text ?q)
        = pton6_from ('':'' @ colon_after ?B @ ntop4_text ?q)"
      using inet_pton6_gap [of "[]"] by simp
    also have "\<dots> = Some (concat (map group_bytes (replicate l 0 @ ?B)) @ ?q)"
      using read_gap_quad [of "[]" ?B ?q] B l src by simp
    also have "concat (map group_bytes (replicate l 0 @ ?B)) = take 12 src"
      by (simp only: six concat_groups_take W(3)) simp
    also have "take 12 src @ ?q = src" by simp
    finally have reads: "inet_pton6 ('':'' @ '':'' @ colon_after ?B @ ntop4_text ?q) = Some src" .
    have "5 * (6 - l) \<le> 5" using l by simp
    then have "length ('':'' @ '':'' @ colon_after ?B @ ntop4_text ?q) \<le> 45"
      using length_colon_after [OF B(1)] B(2) ntop4_text_length [of ?q] by simp
    moreover have "base ?best + len ?best \<noteq> 8" using r(1,2) b l by linarith
    ultimately show ?thesis using ntop6_text_tight [OF e _ _ reads] by blast
  next
    case 2
    then have len: "8 - b = l" by linarith
    have "inet_pton6 (?out @ '':'') = pton6_from (colon_after ?A @ '':'')"
      by (simp only: out inet_pton6_gap)
    also have "\<dots> = Some (concat (map group_bytes (?A @ replicate l 0)))"
      using read_gap_end [OF A(1)] A(2) r(3) len by simp
    also have "?A @ replicate l 0 = ?W" using split 2 W(1) by simp
    finally show ?thesis
      using ntop6_text_intro [of src ?out "?out @ '':''"] start 2 r len_out W(3) by auto
  next
    case 3
    let ?B = "drop (b + l) (take 7 ?W)" and ?w = "?W ! 7"
    have B: "\<forall>w\<in>set (?A @ ?B @ [?w]). w \<le> 0xffff" "length ?B = 7 - (b + l)"
      using W by (auto dest: in_set_takeD in_set_dropD)
    have B': "\<forall>w\<in>set ?B. w \<le> 0xffff" "?w \<le> 0xffff" using B by auto
    have tail: "?B @ [?w] = drop (b + l) ?W"
    proof -
      have "take 7 ?W @ [?w] = ?W" using W(1) take_Suc_conv_app_nth [of 7 ?W] by simp
      then have "drop (b + l) (take 7 ?W @ [?w]) = drop (b + l) ?W" by simp
      then show ?thesis using 3(2) W(1) by simp
    qed
    have e: "ntop6_emit ?best ?W src [0..<8] [] = Some (?out @ '':'' @ colon_after ?B @ hexw ?w)"
      using emit_tail [OF r(1,2) 3(2) _ W(1) 3(1)] start r(3) by simp
    have "inet_pton6 (?out @ '':'' @ colon_after ?B @ hexw ?w)
        = pton6_from (colon_after ?A @ '':'' @ colon_after ?B @ hexw ?w)"
      using inet_pton6_gap [of ?A "colon_after ?B @ hexw ?w"] by (simp only: out append_Cons append_Nil)
    also have "\<dots> = Some (concat (map group_bytes (?A @ replicate l 0 @ ?B @ [?w])))"
      using read_gap_groups [OF B(1)] A(2) B(2) r 3(2) by simp
    also have "\<dots> = Some src" using split W(3) by (simp only: tail)
    finally have reads: "inet_pton6 (?out @ '':'' @ colon_after ?B @ hexw ?w) = Some src" .
    have "length ?out + (1 + (length (colon_after ?B) + length (hexw ?w))) \<le> 45"
      using len_out length_colon_after [OF B'(1)] length_hexw [OF B'(2)] B(2) 3(2) r(3)
      by (simp only: distrib_left)
    then have "length (?out @ '':'' @ colon_after ?B @ hexw ?w) \<le> 45" by simp
    moreover have "base ?best + len ?best \<noteq> 8" using r(1,2) 3(2) by linarith
    ultimately show ?thesis using ntop6_text_tight [OF e _ _ reads] by blast
  qed
qed

lemma ntop6_text_exists: "length src = 16 \<Longrightarrow> \<exists>s. ntop6_text src s"
  using ntop6_text_plain ntop6_text_run by blast

section \<open>The round trips\<close>

text \<open>
  C1 Printing and reading back is the identity on IPv6 addresses: with a buffer of 46 bytes
  (\<open>INET6_ADDRSTRLEN\<close>) or more, \<open>inet_ntop\<close> prints every 16-byte address, also in its
  \<open>::\<close> and IPv4-in-IPv6 forms, and \<open>inet_pton\<close> of the printed text returns 1 and the same bytes.
\<close>

theorem inet6_roundtrip:
  "length src = 16 \<Longrightarrow> 46 \<le> sz \<Longrightarrow>
   \<exists>s. inet_ntop AF_INET6 src sz = (Some s, None) \<and> inet_pton AF_INET6 s = (1, Some src, None)"
  using ntop6_text_exists [of src] by (force simp: inet_ntop_def inet_pton_def ntop6_text_def Let_def)

theorem inet6_roundtrip_witness:
  "\<exists>s. inet_ntop AF_INET6 (replicate 15 0 @ [1]) 46 = (Some s, None)
     \<and> inet_pton AF_INET6 s = (1, Some (replicate 15 0 @ [1]), None)"
  by (rule inet6_roundtrip) simp_all

text \<open>
  Printing and reading back is the identity on IPv4 addresses, with a buffer of 15 bytes or more.
\<close>

lemma inet4_roundtrip:
  "length src = 4 \<Longrightarrow> 15 \<le> sz \<Longrightarrow>
   \<exists>s. inet_ntop AF_INET src sz = (Some s, None) \<and> inet_pton AF_INET s = (1, Some src, None)"
  using inet_pton4_ntop4 [of src] ntop4_text_length [of src]
  by (auto simp: inet_ntop_def inet_pton_def inet_ntop4_def Let_def)

lemma inet4_roundtrip_example:
  "\<exists>s. inet_ntop AF_INET [192, 168, 0, 1] 16 = (Some s, None)
     \<and> inet_pton AF_INET s = (1, Some [192, 168, 0, 1], None)"
  by (rule inet4_roundtrip) simp_all

text \<open>
  Buffer bounds of the printers. The IPv6 text always fits the 46 bytes of \<open>tmp\<close> and the copy to
  the caller's buffer never overruns it. \<open>inet_ntop4\<close> forgets the terminating NUL in its size test:
  whenever the text has exactly as many characters as the buffer, it succeeds and the copy writes one
  byte past the end.
\<close>

lemma inet_ntop_bounds:
  assumes "length src16 = 16"
  shows "(\<forall>s sz. inet_ntop6 src16 sz = Some s \<longrightarrow> length s + 1 \<le> min 46 sz)
    \<and> (\<forall>s sz. inet_ntop4 src4 sz = Some s \<longrightarrow> length s \<le> sz \<and> length s + 1 \<le> 16)
    \<and> inet_ntop4 src4 (length (ntop4_text src4)) = Some (ntop4_text src4)"
proof (intro conjI)
  obtain t where t: "ntop6_text src16 t" using ntop6_text_exists [OF assms] by blast
  show "\<forall>s sz. inet_ntop6 src16 sz = Some s \<longrightarrow> length s + 1 \<le> min 46 sz"
  proof (intro allI impI)
    fix s sz
    assume "inet_ntop6 src16 sz = Some s"
    with t have "\<not> sz < length t + 1" "s = t" "length t \<le> 45"
      by (auto simp: ntop6_text_def split: if_splits)
    then show "length s + 1 \<le> min 46 sz" by simp
  qed
qed (use ntop4_text_length [of src4] in \<open>auto simp: inet_ntop4_def split: if_splits\<close>)

lemma inet_ntop_bounds_example:
  "inet_ntop4 [1, 2, 3, 4] (length (ntop4_text [1, 2, 3, 4])) = Some (ntop4_text [1, 2, 3, 4])
   \<and> inet_ntop6 (replicate 16 0) 3 = Some ''::'' \<and> length ''::'' + 1 \<le> min 46 (3::nat)"
proof -
  have "inet_ntop6 (replicate 16 0) 3 = Some ''::''" by code_simp
  then show ?thesis
    using inet_ntop_bounds [of "replicate 16 0" "[1, 2, 3, 4]"] by simp
qed

section \<open>What the IPv6 parser accepts beyond RFC 1884\<close>

lemma shift_full:
  assumes "length a = c" "length p = n" "c + n = 16"
  shows "pton6_shift c n (a @ p) = a @ replicate n 0"
proof -
  let ?f = "\<lambda>b i. b[16 - i := b ! (c + n - i), c + n - i := 0]"
  have "foldl ?f (a @ p) [1..<k + 1] = a @ take (n - k) p @ replicate k 0" if "k \<le> n" for k
    using that
  proof (induction k)
    case 0
    then show ?case using assms(2) by simp
  next
    case (Suc k)
    define m where "m = n - Suc k"
    have m: "n - k = Suc m" "c + n - Suc k = c + m" "16 - Suc k = c + m" "m < length p"
      using Suc.prems assms by (auto simp: m_def)
    have "foldl ?f (a @ p) [1..<Suc k + 1] = ?f (foldl ?f (a @ p) [1..<k + 1]) (Suc k)" by simp
    also have "\<dots> = ?f (a @ take (Suc m) p @ replicate k 0) (Suc k)"
      using Suc by (simp only: m(1) Suc_leD)
    also have "\<dots> = a @ take m p @ replicate (Suc k) 0"
      using assms(1) m by (simp add: take_Suc_conv_app_nth list_update_append nth_append)
    finally show ?case by (simp only: m_def)
  qed
  from this [of n] show ?thesis using assms(2) by (simp add: pton6_shift_def)
qed

lemma finish_full:
  assumes "c \<le> 16" "length out = 16"
  shows "pton6_finish ((pton6_at out (Some c) ct)\<lparr>val := v\<rparr>) = Some (take c out @ replicate (16 - c) 0)"
  using shift_full [of "take c out" c "drop c out" "16 - c"] assms
  by (simp add: pton6_finish_def pton6_at_def)

lemma read_gap_full:
  assumes "\<forall>w\<in>set (A @ B @ [w]). w \<le> 0xffff" "length A + length B = 7"
  shows "pton6_from (colon_after A @ '':'' @ colon_after B @ hexw w)
    = Some (concat (map group_bytes A) @ replicate (16 - 2 * length A) 0)"
proof -
  let ?a = "concat (map group_bytes A)" and ?b = "concat (map group_bytes B)"
  let ?out = "?a @ ?b @ group_bytes w"
  obtain ct where "pton6_loop (pton6_at ?a (Some (2 * length A)) (colon_after B @ hexw w))
      (colon_after B @ hexw w)
      = pton6_loop (pton6_at (?a @ ?b) (Some (2 * length A)) ct) (hexw w)"
    using loop_groups [of B ?a] assms by auto
  also have "\<dots> = Some ((pton6_at (?a @ ?b) (Some (2 * length A)) ct)\<lparr>val := w, saw_xdigit := True\<rparr>)"
    using assms by (intro loop_hex_end) simp
  finally have "pton6_from (colon_after A @ '':'' @ colon_after B @ hexw w)
      = pton6_finish ((pton6_at (?a @ ?b) (Some (2 * length A)) ct)\<lparr>val := w, saw_xdigit := True\<rparr>)"
    using assms pton6_from_gap [of A "colon_after B @ hexw w"] by simp
  also have "\<dots> = pton6_finish ((pton6_at ?out (Some (2 * length A)) ct)\<lparr>val := w\<rparr>)"
    using assms finish_last [where out = "?a @ ?b" and c = "Some (2 * length A)" and ct = ct and w = w] by simp
  also have "\<dots> = Some (?a @ replicate (16 - 2 * length A) 0)"
    using assms by (subst finish_full) auto
  finally show ?thesis .
qed

lemma read_trailing_colon:
  assumes "\<forall>w\<in>set A. w \<le> 0xffff" "length A = 8"
  shows "pton6_from (colon_after A) = Some (concat (map group_bytes A))"
proof -
  have "pton6_loop (pton6_at [] None (colon_after A)) (colon_after A @ [])
      = Some (pton6_at (concat (map group_bytes A)) None [])"
    using assms by (subst loop_groups) auto
  then show ?thesis using assms
    by (simp add: pton6_from_def pton6_init_at pton6_finish_def pton6_at_def)
qed

text \<open>
  Texts outside RFC 1884 that \<open>inet_pton6\<close> accepts, for all groups. First, eight groups each
  followed by a colon are read like the eight groups without the last colon. Second, when a \<open>::\<close>
  stands between eight groups that are all written out, the comment says the \<open>::\<close> is ignored; the
  code reads the groups before it and returns zeros for every group after it.
\<close>

lemma inet_pton6_accepts_more:
  assumes "\<forall>w\<in>set (A @ B @ [w]). w \<le> 0xffff" "length A + length B = 7" "A \<noteq> []"
  shows "inet_pton6 (colon_after (A @ B @ [w])) = Some (concat (map group_bytes (A @ B @ [w])))
    \<and> inet_pton6 (colon_after A @ '':'' @ colon_after B @ hexw w)
      = Some (concat (map group_bytes A) @ replicate (16 - 2 * length A) 0)"
proof
  obtain v vs where v: "A @ B @ [w] = v # vs" using assms(3) by (cases A) auto
  have len: "length (A @ B @ [w]) = 8" using assms(2) by simp
  have "inet_pton6 (colon_after (v # vs)) = pton6_from (colon_after (v # vs))"
    using hexw_head [of v] by (auto simp: inet_pton6_def colon_after_def)
  then show "inet_pton6 (colon_after (A @ B @ [w])) = Some (concat (map group_bytes (A @ B @ [w])))"
    using read_trailing_colon [OF assms(1) len] by (simp only: v)
  show "inet_pton6 (colon_after A @ '':'' @ colon_after B @ hexw w)
      = Some (concat (map group_bytes A) @ replicate (16 - 2 * length A) 0)"
    using inet_pton6_gap [of A "colon_after B @ hexw w"] read_gap_full [OF assms(1,2)] assms(3) by simp
qed

lemma inet_pton6_accepts_more_example:
  "inet_pton6 (colon_after [1] @ '':'' @ colon_after [2, 3, 4, 5, 6, 7] @ hexw 8)
     = Some ([0, 1] @ replicate 14 0)"
  using inet_pton6_accepts_more [of "[1]" "[2, 3, 4, 5, 6, 7]" 8] by (simp add: group_bytes_def)

end
