(* ===== verification/Sockaddr.thy ===== *)
theory Sockaddr
  imports Inet_Roundtrip
begin

text \<open>
  \<open>lib/sock_*.c\<close>: the functions that work on a \<open>struct sockaddr\<close> without knowing its protocol
  family. A socket address is a datatype with one constructor per family; the port is the 16-bit
  field as it lies in memory (network byte order), so \<open>ntohs\<close> of it is the number users see. The
  flow label and scope of IPv6, which none of these functions touches, are left out, and the
  \<open>AF_LINK\<close> cases are not compiled on the platform of \<open>config.h\<close>. The lemmas show that the printed
  address can be read back and what the comparison functions answer.
\<close>

section \<open>Socket addresses\<close>

datatype sockaddr =
    Sockaddr_in (in_port: u16) (in_addr: "byte list")
  | Sockaddr_in6 (in_port: u16) (in_addr: "byte list")
  | Sockaddr_un (sun_path: string)
  | Sockaddr_other (other_family: int)

fun sa_family :: "sockaddr \<Rightarrow> int" where
  "sa_family (Sockaddr_in _ _) = AF_INET"
| "sa_family (Sockaddr_in6 _ _) = AF_INET6"
| "sa_family (Sockaddr_un _) = AF_UNIX"
| "sa_family (Sockaddr_other f) = f"

text \<open>A value whose family field and bytes agree.\<close>

fun sa_ok :: "sockaddr \<Rightarrow> bool" where
  "sa_ok (Sockaddr_in _ a) \<longleftrightarrow> length a = 4"
| "sa_ok (Sockaddr_in6 _ a) \<longleftrightarrow> length a = 16"
| "sa_ok (Sockaddr_un p) \<longleftrightarrow> length p < 108"
| "sa_ok (Sockaddr_other f) \<longleftrightarrow> f \<noteq> AF_INET \<and> f \<noteq> AF_INET6 \<and> f \<noteq> AF_UNIX"

section \<open>Printing\<close>

text \<open>\<open>str\<close> has 128 bytes; \<open>snprintf\<close> into it keeps 127 characters. \<open>portstr\<close> holds 8.\<close>

definition sock_ntop :: "sockaddr \<Rightarrow> nat \<Rightarrow> string option" where
  "sock_ntop sa salen =
     (case sa of
        Sockaddr_in p a \<Rightarrow>
          (case fst (inet_ntop AF_INET a 128) of
             None \<Rightarrow> None
           | Some str \<Rightarrow>
               Some (if ntohs p \<noteq> 0 then str @ take 7 ('':'' @ fmt_d (uint (ntohs p))) else str))
      | Sockaddr_in6 p a \<Rightarrow>
          (case fst (inet_ntop AF_INET6 a 127) of
             None \<Rightarrow> None
           | Some str \<Rightarrow>
               Some (if ntohs p \<noteq> 0 then ''['' @ str @ take 7 ('']:'' @ fmt_d (uint (ntohs p))) else str))
      | Sockaddr_un path \<Rightarrow> Some (if path = [] then ''(no pathname bound)'' else take 127 path)
      | Sockaddr_other f \<Rightarrow>
          Some (take 127 (''sock_ntop: unknown AF_xxx: '' @ fmt_d f @ '', len '' @ fmt_u salen)))"

definition Sock_ntop :: "sockaddr \<Rightarrow> nat \<Rightarrow> string outcome" where
  "Sock_ntop sa salen = (case sock_ntop sa salen of None \<Rightarrow> Die [] | Some str \<Rightarrow> Ret str)"

definition sock_ntop_host :: "sockaddr \<Rightarrow> nat \<Rightarrow> string option" where
  "sock_ntop_host sa salen =
     (case sa of
        Sockaddr_in p a \<Rightarrow> fst (inet_ntop AF_INET a 128)
      | Sockaddr_in6 p a \<Rightarrow> fst (inet_ntop AF_INET6 a 128)
      | Sockaddr_un path \<Rightarrow> Some (if path = [] then ''(no pathname bound)'' else take 127 path)
      | Sockaddr_other f \<Rightarrow>
          Some (take 127 (''sock_ntop_host: unknown AF_xxx: '' @ fmt_d f @ '', len '' @ fmt_u salen)))"

definition Sock_ntop_host :: "sockaddr \<Rightarrow> nat \<Rightarrow> string outcome" where
  "Sock_ntop_host sa salen = (case sock_ntop_host sa salen of None \<Rightarrow> Die [] | Some str \<Rightarrow> Ret str)"

section \<open>Comparing\<close>

text \<open>\<open>memcmp\<close> and \<open>strcmp\<close> (the end of a string compares below every character); only the sign of
  their result is specified, which stands here as -1, 0 or 1.\<close>

fun cmp_bytes :: "nat list \<Rightarrow> nat list \<Rightarrow> int" where
  "cmp_bytes [] [] = 0"
| "cmp_bytes [] (y # ys) = -1"
| "cmp_bytes (x # xs) [] = 1"
| "cmp_bytes (x # xs) (y # ys) = (if x < y then -1 else if y < x then 1 else cmp_bytes xs ys)"

lemma cmp_bytes_0: "cmp_bytes xs ys = 0 \<longleftrightarrow> xs = ys"
  by (induction xs ys rule: cmp_bytes.induct) auto

definition sock_cmp_addr :: "sockaddr \<Rightarrow> sockaddr \<Rightarrow> int" where
  "sock_cmp_addr sa1 sa2 =
     (if sa_family sa1 \<noteq> sa_family sa2 then -1
      else case (sa1, sa2) of
        (Sockaddr_in _ a, Sockaddr_in _ b) \<Rightarrow> cmp_bytes (map unat a) (map unat b)
      | (Sockaddr_in6 _ a, Sockaddr_in6 _ b) \<Rightarrow> cmp_bytes (map unat a) (map unat b)
      | (Sockaddr_un p, Sockaddr_un q) \<Rightarrow> cmp_bytes (map of_char p) (map of_char q)
      | _ \<Rightarrow> -1)"

definition sock_cmp_port :: "sockaddr \<Rightarrow> sockaddr \<Rightarrow> int" where
  "sock_cmp_port sa1 sa2 =
     (if sa_family sa1 \<noteq> sa_family sa2 then -1
      else case (sa1, sa2) of
        (Sockaddr_in p _, Sockaddr_in q _) \<Rightarrow> (if p = q then 1 else 0)
      | (Sockaddr_in6 p _, Sockaddr_in6 q _) \<Rightarrow> (if p = q then 1 else 0)
      | _ \<Rightarrow> -1)"

section \<open>Reading and writing the fields\<close>

definition sock_get_port :: "sockaddr \<Rightarrow> int" where
  "sock_get_port sa =
     (case sa of Sockaddr_in p _ \<Rightarrow> uint p | Sockaddr_in6 p _ \<Rightarrow> uint p | _ \<Rightarrow> -1)"

definition sock_set_port :: "sockaddr \<Rightarrow> int \<Rightarrow> sockaddr" where
  "sock_set_port sa port =
     (case sa of
        Sockaddr_in _ a \<Rightarrow> Sockaddr_in (word_of_int port) a
      | Sockaddr_in6 _ a \<Rightarrow> Sockaddr_in6 (word_of_int port) a
      | _ \<Rightarrow> sa)"

definition sock_set_addr :: "sockaddr \<Rightarrow> byte list \<Rightarrow> sockaddr" where
  "sock_set_addr sa addr =
     (case sa of
        Sockaddr_in p _ \<Rightarrow> Sockaddr_in p (take 4 addr)
      | Sockaddr_in6 p _ \<Rightarrow> Sockaddr_in6 p (take 16 addr)
      | _ \<Rightarrow> sa)"

definition sock_set_wild :: "sockaddr \<Rightarrow> sockaddr" where
  "sock_set_wild sa =
     (if sa_family sa = AF_INET then sock_set_addr sa (replicate 4 0)
      else if sa_family sa = AF_INET6 then sock_set_addr sa (replicate 16 0)
      else sa)"

definition family_to_level :: "int \<Rightarrow> int" where
  "family_to_level family = (if family = AF_INET then 0 else if family = AF_INET6 then 41 else -1)"

definition Family_to_level :: "int \<Rightarrow> int outcome" where
  "Family_to_level family =
     (let rc = family_to_level family in if rc < 0 then Die rc else Ret rc)"

section \<open>The printed text\<close>

lemma digit_char_not_punct: "d < 16 \<Longrightarrow> digit_char d \<noteq> CHR '':'' \<and> digit_char d \<noteq> CHR '']'' \<and> digit_char d \<noteq> CHR ''.''"
  by (drule less_sixteen_cases, elim disjE) (simp_all add: digit_char_values)

lemma fmt_not_punct:
  "CHR '':'' \<notin> set (fmt_u n)" "CHR '']'' \<notin> set (fmt_u n)" "CHR '']'' \<notin> set (fmt_x n)"
proof -
  have u: "\<exists>d<16. c = digit_char d" if "c \<in> set (fmt_u n)" for c
    using set_render [OF _ that] by force
  have x: "\<exists>d<16. c = digit_char d" if "c \<in> set (fmt_x n)" for c
    using set_render [OF _ that] by force
  show "CHR '':'' \<notin> set (fmt_u n)" "CHR '']'' \<notin> set (fmt_u n)" using u digit_char_not_punct by metis+
  show "CHR '']'' \<notin> set (fmt_x n)" using x digit_char_not_punct by metis
qed

lemma ntop4_no_colon: "CHR '':'' \<notin> set (ntop4_text a)" "CHR '']'' \<notin> set (ntop4_text a)"
  using fmt_not_punct by (auto simp: ntop4_text_def)

lemma emit_no_bracket:
  "ntop6_emit b ws src js acc = Some out \<Longrightarrow> CHR '']'' \<notin> set acc \<Longrightarrow> CHR '']'' \<notin> set out"
  by (induction b ws src js acc rule: ntop6_emit.induct)
    (auto simp: Let_def inet_ntop4_def fmt_not_punct ntop4_no_colon split: if_splits)

lemma ntop6_no_bracket: "inet_ntop6 src sz = Some s \<Longrightarrow> CHR '']'' \<notin> set s"
  using emit_no_bracket [of _ _ src "[0..<8]" "[]"]
  by (fastforce simp: inet_ntop6_def Let_def split: option.splits if_splits)

lemma u16_digits: "length (fmt_u (unat (p :: u16))) \<le> 5"
  using unsigned_less [of p, where ?'a = nat] by (intro length_render) simp_all

lemma fmt_d_u16: "fmt_d (uint (p :: u16)) = fmt_u (unat p)"
  by (simp add: fmt_d_def)

lemma sock_ntop_in:
  assumes "length a = 4"
  shows "sock_ntop (Sockaddr_in p a) n =
    Some (ntop4_text a @ (if ntohs p \<noteq> 0 then '':'' @ fmt_u (unat (ntohs p)) else []))"
  using ntop4_text_length [of a] u16_digits [of "ntohs p"]
  by (simp add: sock_ntop_def inet_ntop_def inet_ntop4_def Let_def fmt_d_u16)

lemma sock_ntop_in6:
  assumes "length a = 16"
  shows "\<exists>s. sock_ntop (Sockaddr_in6 p a) n =
      Some (if ntohs p \<noteq> 0 then ''['' @ s @ '']:'' @ fmt_u (unat (ntohs p)) else s)
    \<and> inet_pton6 s = Some a \<and> CHR '']'' \<notin> set s \<and> length s \<le> 45"
proof -
  obtain s where s: "ntop6_text a s" using ntop6_text_exists [OF assms] by blast
  then have p: "inet_ntop6 a 127 = Some s" by (simp add: ntop6_text_def)
  show ?thesis
    using s ntop6_no_bracket [OF p] p u16_digits [of "ntohs p"]
    by (intro exI [of _ s]) (simp add: sock_ntop_def inet_ntop_def Let_def ntop6_text_def fmt_d_u16)
qed

lemma take_drop_sep:
  "c \<notin> set x \<Longrightarrow> takeWhile (\<lambda>d. d \<noteq> c) (x @ c # y) = x \<and> dropWhile (\<lambda>d. d \<noteq> c) (x @ c # y) = c # y"
  by (induction x) auto

lemma atoi_nil [simp]: "atoi [] = 0"
  by (simp add: atoi_def)

lemma take_no_sep: "c \<notin> set x \<Longrightarrow> takeWhile (\<lambda>d. d \<noteq> c) x = x \<and> dropWhile (\<lambda>d. d \<noteq> c) x = []"
  by (induction x) auto


section \<open>What the functions promise\<close>

text \<open>
  The text of \<open>sock_ntop\<close> can be read back. For IPv4 the part before the colon is an address
  \<open>inet_pton\<close> reads as the same four bytes and the part after it is the port; for IPv6 with a port the
  address stands between brackets, and without a port alone. A missing port means port 0, and no
  \<open>snprintf\<close> or \<open>strcat\<close> of the function ever truncates or overruns its buffer.
\<close>

lemma sock_ntop_reads_back:
  assumes "length a = 4" "length b = 16"
  shows "(\<exists>s. sock_ntop (Sockaddr_in p a) n = Some s \<and> length s < 128
      \<and> inet_pton4 (takeWhile (\<lambda>c. c \<noteq> CHR '':'') s) = Some a
      \<and> atoi (tl (dropWhile (\<lambda>c. c \<noteq> CHR '':'') s)) = uint (ntohs p))
    \<and> (\<exists>s. sock_ntop (Sockaddr_in6 p b) n = Some s \<and> length s < 128
      \<and> (if ntohs p = 0 then inet_pton6 s = Some b
         else hd s = CHR ''['' \<and> inet_pton6 (takeWhile (\<lambda>c. c \<noteq> CHR '']'') (tl s)) = Some b
           \<and> atoi (drop 2 (dropWhile (\<lambda>c. c \<noteq> CHR '']'') (tl s))) = uint (ntohs p)))"
proof (rule conjI)
  show "\<exists>s. sock_ntop (Sockaddr_in p a) n = Some s \<and> length s < 128
      \<and> inet_pton4 (takeWhile (\<lambda>c. c \<noteq> CHR '':'') s) = Some a
      \<and> atoi (tl (dropWhile (\<lambda>c. c \<noteq> CHR '':'') s)) = uint (ntohs p)"
    using ntop4_no_colon(1) [of a] ntop4_text_length [of a] u16_digits [of "ntohs p"]
    by (simp add: sock_ntop_in [OF assms(1)] take_drop_sep take_no_sep inet_pton4_ntop4 [OF assms(1)]
        atoi_fmt_u)
next
  obtain s where s: "sock_ntop (Sockaddr_in6 p b) n =
      Some (if ntohs p \<noteq> 0 then ''['' @ s @ '']:'' @ fmt_u (unat (ntohs p)) else s)"
    "inet_pton6 s = Some b" "CHR '']'' \<notin> set s" "length s \<le> 45"
    using sock_ntop_in6 [OF assms(2)] by blast
  then show "\<exists>s. sock_ntop (Sockaddr_in6 p b) n = Some s \<and> length s < 128
      \<and> (if ntohs p = 0 then inet_pton6 s = Some b
         else hd s = CHR ''['' \<and> inet_pton6 (takeWhile (\<lambda>c. c \<noteq> CHR '']'') (tl s)) = Some b
           \<and> atoi (drop 2 (dropWhile (\<lambda>c. c \<noteq> CHR '']'') (tl s))) = uint (ntohs p))"
    using u16_digits [of "ntohs p"] by (simp add: take_drop_sep atoi_fmt_u)
qed

lemma sock_ntop_reads_back_example:
  "\<exists>s. sock_ntop (Sockaddr_in 0x5000 [10, 0, 0, 1]) 16 = Some s \<and> length s < 128
      \<and> inet_pton4 (takeWhile (\<lambda>c. c \<noteq> CHR '':'') s) = Some [10, 0, 0, 1]
      \<and> atoi (tl (dropWhile (\<lambda>c. c \<noteq> CHR '':'') s)) = uint (ntohs 0x5000)"
  by (rule conjunct1 [OF sock_ntop_reads_back [where b = "replicate 16 0"]]) simp_all

text \<open>
  The two comparison functions answer in opposite senses: for two addresses of one of the internet
  families \<open>sock_cmp_addr\<close> returns 0 exactly when the addresses agree, whereas \<open>sock_cmp_port\<close>
  returns 0 exactly when the ports differ (and 1 when they agree). Both answer -1 for different
  families.
\<close>

lemma sock_cmp_conventions:
  assumes "sa_family sa = AF_INET \<or> sa_family sa = AF_INET6" "sa_ok sa" "sa_ok sb"
  shows "(sa_family sb = sa_family sa \<longrightarrow>
      (sock_cmp_addr sa sb = 0 \<longleftrightarrow> in_addr sa = in_addr sb)
      \<and> sock_cmp_port sa sb = (if in_port sa = in_port sb then 1 else 0))
    \<and> (sa_family sb \<noteq> sa_family sa \<longrightarrow> sock_cmp_addr sa sb = -1 \<and> sock_cmp_port sa sb = -1)"
proof -
  have inj: "map unat a = map unat b \<longleftrightarrow> a = b" for a b :: "byte list"
    by (rule inj_map_eq_map) (meson injI word_unat_eq_iff)
  show ?thesis
    using assms by (cases sa; cases sb) (auto simp: sock_cmp_addr_def sock_cmp_port_def cmp_bytes_0 inj)
qed

lemma sock_cmp_conventions_example:
  "sock_cmp_addr (Sockaddr_in 7 [1, 2, 3, 4]) (Sockaddr_in 7 [1, 2, 3, 4]) = 0
   \<and> sock_cmp_port (Sockaddr_in 7 [1, 2, 3, 4]) (Sockaddr_in 7 [1, 2, 3, 4]) = 1"
  using sock_cmp_conventions [of "Sockaddr_in 7 [1, 2, 3, 4]" "Sockaddr_in 7 [1, 2, 3, 4]"] by simp

end
