(* ===== verification/Getaddrinfo.thy ===== *)
theory Getaddrinfo
  imports Sockaddr
begin

text \<open>
  \<open>libgai/\<close>: the implementation of \<open>getaddrinfo\<close> and \<open>getnameinfo\<close>. The linked list of
  \<open>struct addrinfo\<close> is a list; a returned EAI code is the left part of a sum. The resolver
  (\<open>gethostbyname2\<close>, \<open>gethostbyname\<close>, \<open>getservbyname\<close>, \<open>gethostbyaddr\<close>, \<open>getservbyport\<close>,
  \<open>uname\<close>) is not in the repository and is a record of functions; memory is the number \<open>mem\<close> of
  allocations that will succeed, as the first failure ends every function here; what a failed
  call leaves in the list has not been freed. The lemmas describe the result list address by
  address and socket type by socket type.
\<close>

section \<open>Data\<close>

datatype eai = EAI_ADDRFAMILY | EAI_AGAIN | EAI_BADFLAGS | EAI_FAIL | EAI_FAMILY | EAI_MEMORY
  | EAI_NODATA | EAI_NONAME | EAI_SERVICE | EAI_SOCKTYPE | EAI_SYSTEM

abbreviation (input) AI_PASSIVE :: u32 where "AI_PASSIVE \<equiv> 1"
abbreviation (input) AI_CANONNAME :: u32 where "AI_CANONNAME \<equiv> 2"
abbreviation (input) AI_CLONE :: u32 where "AI_CLONE \<equiv> 4"

record addrinfo =
  ai_flags :: u32
  ai_family :: int
  ai_socktype :: int
  ai_protocol :: int
  ai_addrlen :: nat
  ai_canonname :: "string option"
  ai_addr :: "sockaddr option"

definition no_hints :: addrinfo where
  "no_hints = \<lparr>ai_flags = 0, ai_family = AF_UNSPEC, ai_socktype = 0, ai_protocol = 0, ai_addrlen = 0,
     ai_canonname = None, ai_addr = None\<rparr>"

datatype h_errno = HOST_NOT_FOUND | TRY_AGAIN | NO_RECOVERY | NO_DATA | H_OTHER

record hostent =
  h_name :: string
  h_addrtype :: int
  h_addr_list :: "byte list list"

text \<open>The resolver; the \<open>bool\<close> of \<open>gethostbyname\<close> is the option \<open>RES_USE_INET6\<close>.\<close>

record resolver =
  gethostbyname2 :: "string \<Rightarrow> int \<Rightarrow> h_errno + hostent"
  gethostbyname :: "bool \<Rightarrow> string \<Rightarrow> h_errno + hostent"
  getservbyname :: "string \<Rightarrow> string \<Rightarrow> u16 option"
  gethostbyaddr :: "byte list \<Rightarrow> int \<Rightarrow> string option"
  getservbyport :: "u16 \<Rightarrow> string option \<Rightarrow> string option"
  uname :: "string option"

text \<open>\<open>s[0]\<close> of a C string.\<close>

definition first_char :: "string \<Rightarrow> char" where
  "first_char s = (case s of [] \<Rightarrow> CHR 0x00 | c # _ \<Rightarrow> c)"

definition given :: "string option \<Rightarrow> bool" where
  "given h \<longleftrightarrow> h \<noteq> None \<and> h \<noteq> Some []"

lemma given_simps [simp]: "\<not> given None" "given (Some s) \<longleftrightarrow> s \<noteq> []"
  by (auto simp: given_def)

section \<open>Checking the arguments\<close>

definition ga_echeck :: "string option \<Rightarrow> string option \<Rightarrow> u32 \<Rightarrow> int \<Rightarrow> int \<Rightarrow> eai option" where
  "ga_echeck hostname servname flags family socktype =
     (if flags AND NOT (AI_PASSIVE OR AI_CANONNAME) \<noteq> 0 then Some EAI_BADFLAGS
      else if \<not> given hostname \<and> \<not> given servname then Some EAI_NONAME
      else if family = AF_UNSPEC then None
      else if family = AF_INET \<or> family = AF_INET6 then
        (if socktype \<noteq> 0 \<and> socktype \<noteq> SOCK_STREAM \<and> socktype \<noteq> SOCK_DGRAM \<and> socktype \<noteq> SOCK_RAW
         then Some EAI_SOCKTYPE else None)
      else if family = AF_UNIX then
        (if socktype \<noteq> 0 \<and> socktype \<noteq> SOCK_STREAM \<and> socktype \<noteq> SOCK_DGRAM
         then Some EAI_SOCKTYPE else None)
      else Some EAI_FAMILY)"

section \<open>What to look up\<close>

text \<open>The entries of \<open>search[]\<close>; \<open>err_quit\<close> when there are none.\<close>

definition search_families :: "int \<Rightarrow> int list" where
  "search_families family =
     (if family = AF_INET then [AF_INET]
      else if family = AF_INET6 then [AF_INET6]
      else if family = AF_UNSPEC then [AF_INET6, AF_INET]
      else [])"

definition ga_nsearch :: "string option \<Rightarrow> addrinfo \<Rightarrow> (string \<times> int) list outcome" where
  "ga_nsearch hostname hints =
     (let host = (\<lambda>family.
            case hostname of
              Some (c # cs) \<Rightarrow> c # cs
            | _ \<Rightarrow> if ai_flags hints AND AI_PASSIVE \<noteq> 0
                  then (if family = AF_INET then ''0.0.0.0'' else ''0::0'')
                  else (if family = AF_INET then ''localhost'' else ''0::1''));
          search = map (\<lambda>family. (host family, family)) (search_families (ai_family hints))
      in if length search < 1 \<or> length search > 2 then Die search else Ret search)"

section \<open>Building the list\<close>

datatype hostaddr = Binary "byte list" | Path string

text \<open>The socket address of \<open>ga_aistruct\<close>, \<open>None\<close> for a family it has no case for; the error of
  a path that is too long.\<close>

definition make_addr :: "hostaddr \<Rightarrow> int \<Rightarrow> eai + (sockaddr \<times> nat) option" where
  "make_addr addr family =
     (case addr of
        Binary b \<Rightarrow>
          Inr (if family = AF_INET then Some (Sockaddr_in 0 (take 4 b), 16)
               else if family = AF_INET6 then Some (Sockaddr_in6 0 (take 16 b), 28)
               else None)
      | Path p \<Rightarrow>
          if length p \<ge> 108 then Inl EAI_SERVICE else Inr (Some (Sockaddr_un p, 110)))"

text \<open>
  What \<open>getaddrinfo\<close> has allocated so far: the list, the saved canonical name, the number of
  allocations that will still succeed, and the paths it has unlinked.
\<close>

record gai =
  aihead :: "addrinfo list"
  canon :: "string option"
  mem :: nat
  unlinked :: "string list"

definition start_gai :: "nat \<Rightarrow> gai" where
  "start_gai m = \<lparr>aihead = [], canon = None, mem = m, unlinked = []\<rparr>"

definition alloc :: "gai \<Rightarrow> gai option" where
  "alloc g = (if mem g = 0 then None else Some (g\<lparr>mem := mem g - 1\<rparr>))"

definition ga_aistruct :: "addrinfo \<Rightarrow> hostaddr \<Rightarrow> int \<Rightarrow> gai \<Rightarrow> eai option \<times> gai" where
  "ga_aistruct hints addr family g =
     (case alloc g of
        None \<Rightarrow> (Some EAI_MEMORY, g)
      | Some g1 \<Rightarrow>
          let ai = \<lparr>ai_flags = (if ai_socktype hints = 0 then AI_CLONE else 0), ai_family = family,
                    ai_socktype = ai_socktype hints, ai_protocol = ai_protocol hints, ai_addrlen = 0,
                    ai_canonname = None, ai_addr = None\<rparr>;
              bare = g1\<lparr>aihead := aihead g @ [ai]\<rparr>
          in case make_addr addr family of
               Inl e \<Rightarrow> (Some e, bare)
             | Inr None \<Rightarrow> (None, bare)
             | Inr (Some (sa, sz)) \<Rightarrow>
                 (case alloc g1 of
                    None \<Rightarrow> (Some EAI_MEMORY, bare)
                  | Some g2 \<Rightarrow>
                      (None, g2\<lparr>aihead := aihead g @ [ai\<lparr>ai_addr := Some sa, ai_addrlen := sz\<rparr>],
                         unlinked := unlinked g @
                           (case sa of Sockaddr_un p \<Rightarrow> (if ai_flags hints AND AI_PASSIVE \<noteq> 0 then [p] else [])
                                     | _ \<Rightarrow> [])\<rparr>)))"

text \<open>The Unix domain case. Its error returns do not pass through \<open>freeaddrinfo\<close>.\<close>

definition ga_unix_first :: "string \<Rightarrow> addrinfo \<Rightarrow> gai \<Rightarrow> eai option \<times> addrinfo \<times> gai" where
  "ga_unix_first path hints g =
     (if ai_socktype hints = 0 then
        (case ga_aistruct (hints\<lparr>ai_socktype := SOCK_STREAM\<rparr>) (Path path) AF_UNIX g of
           (rc, g1) \<Rightarrow> (rc, hints\<lparr>ai_socktype := SOCK_DGRAM\<rparr>, g1))
      else (None, hints, g))"

definition ga_unix :: "resolver \<Rightarrow> string \<Rightarrow> addrinfo \<Rightarrow> gai \<Rightarrow> eai option \<times> gai" where
  "ga_unix env path hints g =
     (if ai_family hints \<noteq> AF_UNSPEC \<and> ai_family hints \<noteq> AF_UNIX then (Some EAI_ADDRFAMILY, g)
      else
        case ga_unix_first path hints g of
          (Some rc, _, g1) \<Rightarrow> (Some rc, g1)
        | (None, hints1, g1) \<Rightarrow>
            (case ga_aistruct hints1 (Path path) AF_UNIX g1 of
               (Some rc, g2) \<Rightarrow> (Some rc, g2)
             | (None, g2) \<Rightarrow>
                 if ai_flags hints AND AI_CANONNAME \<noteq> 0 then
                   (case uname env of
                      None \<Rightarrow> (Some EAI_SYSTEM, g2)
                    | Some nodename \<Rightarrow>
                        (case alloc g2 of
                           None \<Rightarrow> (Some EAI_MEMORY, g2)
                         | Some g3 \<Rightarrow>
                             (None, g3\<lparr>aihead := (aihead g3)[0 := (aihead g3 ! 0)\<lparr>ai_canonname := Some nodename\<rparr>]\<rparr>)))
                 else (None, g2)))"

definition ga_clone :: "addrinfo \<Rightarrow> nat \<Rightarrow> (addrinfo \<times> nat) option" where
  "ga_clone ai m =
     (if m < 2 then None else Some (ai\<lparr>ai_flags := 0, ai_canonname := None\<rparr>, m - 2))"

definition set_in_port :: "u16 \<Rightarrow> sockaddr \<Rightarrow> sockaddr" where
  "set_in_port port sa =
     (case sa of Sockaddr_in _ a \<Rightarrow> Sockaddr_in port a | Sockaddr_in6 _ a \<Rightarrow> Sockaddr_in6 port a | _ \<Rightarrow> sa)"

text \<open>\<open>None\<close> stands for the return value -1.\<close>

definition port_entry :: "u16 \<Rightarrow> int \<Rightarrow> addrinfo \<Rightarrow> addrinfo \<times> nat" where
  "port_entry port socktype ai =
     (let ai = ai\<lparr>ai_socktype := socktype\<rparr> in
      if ai_family ai = AF_INET \<or> ai_family ai = AF_INET6
      then (ai\<lparr>ai_addr := map_option (set_in_port port) (ai_addr ai)\<rparr>, 1) else (ai, 0))"

fun ga_port :: "addrinfo list \<Rightarrow> u16 \<Rightarrow> int \<Rightarrow> nat \<Rightarrow> (addrinfo list \<times> nat \<times> nat) option" where
  "ga_port [] port socktype m = Some ([], 0, m)"
| "ga_port (ai # ais) port socktype m =
     (if ai_flags ai AND AI_CLONE \<noteq> 0 then
        (if ai_socktype ai \<noteq> 0 then
           (case ga_clone ai m of
              None \<Rightarrow> None
            | Some (new, m1) \<Rightarrow>
                map_option (\<lambda>(r, n, m'). (ai # fst (port_entry port socktype new) # r,
                    n + snd (port_entry port socktype new), m')) (ga_port ais port socktype m1))
         else
           map_option (\<lambda>(r, n, m'). (fst (port_entry port socktype ai) # r,
               n + snd (port_entry port socktype ai), m')) (ga_port ais port socktype m))
      else if ai_socktype ai \<noteq> socktype then
        map_option (\<lambda>(r, n, m'). (ai # r, n, m')) (ga_port ais port socktype m)
      else
        map_option (\<lambda>(r, n, m'). (fst (port_entry port socktype ai) # r,
            n + snd (port_entry port socktype ai), m')) (ga_port ais port socktype m))"


section \<open>The service name\<close>

text \<open>Several calls of \<open>ga_port\<close>, one per pair of port and socket type; \<open>None\<close> for \<open>EAI_MEMORY\<close>.\<close>

fun ga_ports :: "addrinfo list \<Rightarrow> (u16 \<times> int) list \<Rightarrow> nat \<Rightarrow> (addrinfo list \<times> nat \<times> nat) option" where
  "ga_ports ais [] m = Some (ais, 0, m)"
| "ga_ports ais ((port, socktype) # ps) m =
     (case ga_port ais port socktype m of
        None \<Rightarrow> None
      | Some (ais1, n, m1) \<Rightarrow> map_option (\<lambda>(r, k, m2). (r, n + k, m2)) (ga_ports ais1 ps m1))"

definition serv_ports :: "resolver \<Rightarrow> int \<Rightarrow> string \<Rightarrow> (u16 \<times> int) list" where
  "serv_ports env socktype serv =
     (if isdigit (first_char serv) then
        (let port = htons (word_of_int (atoi serv)) in
         if socktype \<noteq> 0 then [(port, socktype)] else [(port, SOCK_STREAM), (port, SOCK_DGRAM)])
      else
        (if socktype = 0 \<or> socktype = SOCK_STREAM
         then (case getservbyname env serv ''tcp'' of None \<Rightarrow> [] | Some p \<Rightarrow> [(p, SOCK_STREAM)]) else []) @
        (if socktype = 0 \<or> socktype = SOCK_DGRAM
         then (case getservbyname env serv ''udp'' of None \<Rightarrow> [] | Some p \<Rightarrow> [(p, SOCK_DGRAM)]) else []))"

definition ga_serv ::
  "resolver \<Rightarrow> addrinfo list \<Rightarrow> int \<Rightarrow> string \<Rightarrow> nat \<Rightarrow> eai + addrinfo list \<times> nat" where
  "ga_serv env ais socktype serv m =
     (case ga_ports ais (serv_ports env socktype serv) m of
        None \<Rightarrow> Inl EAI_MEMORY
      | Some (ais1, nfound, m1) \<Rightarrow>
          if nfound = 0 then Inl (if socktype = 0 then EAI_NONAME else EAI_SERVICE)
          else Inr (ais1, m1))"

section \<open>The host name\<close>

fun add_addrs :: "addrinfo \<Rightarrow> byte list list \<Rightarrow> int \<Rightarrow> gai \<Rightarrow> eai option \<times> gai" where
  "add_addrs hints [] family g = (None, g)"
| "add_addrs hints (a # addrs) family g =
     (case ga_aistruct hints (Binary a) family g of
        (Some rc, g1) \<Rightarrow> (Some rc, g1)
      | (None, g1) \<Rightarrow> add_addrs hints addrs family g1)"

definition host_error :: "h_errno \<Rightarrow> eai" where
  "host_error e = (case e of HOST_NOT_FOUND \<Rightarrow> EAI_NONAME | TRY_AGAIN \<Rightarrow> EAI_AGAIN
     | NO_RECOVERY \<Rightarrow> EAI_FAIL | NO_DATA \<Rightarrow> EAI_NODATA | H_OTHER \<Rightarrow> EAI_NONAME)"

text \<open>One round of the \<open>for\<close> loop over \<open>search[]\<close>: a numeric address, or a name to look up.\<close>

definition numeric_addr :: "addrinfo \<Rightarrow> int \<Rightarrow> byte list \<Rightarrow> int \<Rightarrow> gai \<Rightarrow> eai option \<times> gai" where
  "numeric_addr hints af inaddr family g =
     (if ai_family hints \<noteq> AF_UNSPEC \<and> ai_family hints \<noteq> af then (Some EAI_ADDRFAMILY, g)
      else if family \<noteq> af then (None, g)
      else ga_aistruct hints (Binary inaddr) af g)"

definition lookup_name ::
  "resolver \<Rightarrow> addrinfo \<Rightarrow> string option \<Rightarrow> nat \<Rightarrow> string \<times> int \<Rightarrow> gai \<Rightarrow> eai option \<times> gai" where
  "lookup_name env hints hostname nsearch sptr g =
     (case (if nsearch = 2 then gethostbyname2 env (fst sptr) (snd sptr)
            else gethostbyname env (snd sptr = AF_INET6) (fst sptr)) of
        Inl e \<Rightarrow> if nsearch = 2 then (None, g) else (Some (host_error e), g)
      | Inr hptr \<Rightarrow>
          if ai_family hints \<noteq> AF_UNSPEC \<and> ai_family hints \<noteq> h_addrtype hptr then (Some EAI_ADDRFAMILY, g)
          else if given hostname \<and> ai_flags hints AND AI_CANONNAME \<noteq> 0 \<and> canon g = None then
            (case alloc g of
               None \<Rightarrow> (Some EAI_MEMORY, g)
             | Some g1 \<Rightarrow> add_addrs hints (h_addr_list hptr) (h_addrtype hptr) (g1\<lparr>canon := Some (h_name hptr)\<rparr>))
          else add_addrs hints (h_addr_list hptr) (h_addrtype hptr) g)"

definition ga_search1 ::
  "resolver \<Rightarrow> addrinfo \<Rightarrow> string option \<Rightarrow> nat \<Rightarrow> string \<times> int \<Rightarrow> gai \<Rightarrow> eai option \<times> gai" where
  "ga_search1 env hints hostname nsearch sptr g =
     (let host = fst sptr; c = first_char host;
          v4 = (if isdigit c then inet_pton AF_INET host else (0, None, None));
          v6 = (if (isxdigit c \<or> c = CHR '':'') \<and> CHR '':'' \<in> set host then inet_pton AF_INET6 host
                else (0, None, None))
      in if fst v4 = 1 then numeric_addr hints AF_INET (the (fst (snd v4))) (snd sptr) g
         else if fst v6 = 1 then numeric_addr hints AF_INET6 (the (fst (snd v6))) (snd sptr) g
         else lookup_name env hints hostname nsearch sptr g)"

fun ga_search ::
  "resolver \<Rightarrow> addrinfo \<Rightarrow> string option \<Rightarrow> nat \<Rightarrow> (string \<times> int) list \<Rightarrow> gai \<Rightarrow> eai option \<times> gai" where
  "ga_search env hints hostname nsearch [] g = (None, g)"
| "ga_search env hints hostname nsearch (sptr # search) g =
     (case ga_search1 env hints hostname nsearch sptr g of
        (Some rc, g1) \<Rightarrow> (Some rc, g1)
      | (None, g1) \<Rightarrow> ga_search env hints hostname nsearch search g1)"

section \<open>\<open>getaddrinfo\<close>\<close>

text \<open>The number of \<open>free\<close> calls.\<close>

fun freeaddrinfo :: "addrinfo list \<Rightarrow> nat" where
  "freeaddrinfo [] = 0"
| "freeaddrinfo (ai # ais) =
     (if ai_addr ai \<noteq> None then 1 else 0) + (if ai_canonname ai \<noteq> None then 1 else 0) + 1 + freeaddrinfo ais"

text \<open>\<open>bad:\<close> frees the list, not the saved canonical name.\<close>

definition bad :: "eai \<Rightarrow> gai \<Rightarrow> (eai option \<times> gai) outcome" where
  "bad e g = Ret (Some e, g\<lparr>aihead := []\<rparr>)"

definition ga_canon :: "addrinfo \<Rightarrow> string option \<Rightarrow> string \<Rightarrow> gai \<Rightarrow> gai option" where
  "ga_canon hints hostname host0 g =
     (if given hostname \<and> ai_flags hints AND AI_CANONNAME \<noteq> 0 then
        (case canon g of
           Some c \<Rightarrow> Some (g\<lparr>aihead := (aihead g)[0 := (aihead g ! 0)\<lparr>ai_canonname := Some c\<rparr>]\<rparr>)
         | None \<Rightarrow> map_option (\<lambda>g1. g1\<lparr>aihead := (aihead g)[0 := (aihead g ! 0)\<lparr>ai_canonname := Some host0\<rparr>]\<rparr>)
                     (alloc g))
      else Some g)"

definition ga_finish ::
  "resolver \<Rightarrow> addrinfo \<Rightarrow> string option \<Rightarrow> string option \<Rightarrow> string \<Rightarrow> gai \<Rightarrow> (eai option \<times> gai) outcome" where
  "ga_finish env hints hostname servname host0 g =
     (if aihead g = [] then bad EAI_NONAME g
      else
        case ga_canon hints hostname host0 g of
          None \<Rightarrow> bad EAI_MEMORY g
        | Some g1 \<Rightarrow>
            if given servname then
              (case ga_serv env (aihead g1) (ai_socktype hints) (the servname) (mem g1) of
                 Inl rc \<Rightarrow> bad rc g1
               | Inr (ais, m) \<Rightarrow> Ret (None, g1\<lparr>aihead := ais, mem := m\<rparr>))
            else Ret (None, g1))"

definition getaddrinfo ::
  "resolver \<Rightarrow> string option \<Rightarrow> string option \<Rightarrow> addrinfo option \<Rightarrow> nat \<Rightarrow> (eai option \<times> gai) outcome" where
  "getaddrinfo env hostname servname hintsp m =
     (let hints = (case hintsp of None \<Rightarrow> no_hints | Some h \<Rightarrow> h); g = start_gai m in
      case ga_echeck hostname servname (ai_flags hints) (ai_family hints) (ai_socktype hints) of
        Some rc \<Rightarrow> bad rc g
      | None \<Rightarrow>
          if (hostname = Some ''/local'' \<or> hostname = Some ''/unix'')
             \<and> servname \<noteq> None \<and> first_char (the servname) = CHR ''/''
          then Ret (ga_unix env (the servname) hints g)
          else
            (case ga_nsearch hostname hints of
               Ret search \<Rightarrow>
                 (case ga_search env hints hostname (length search) search g of
                    (Some rc, g1) \<Rightarrow> bad rc g1
                  | (None, g1) \<Rightarrow> ga_finish env hints hostname servname (fst (search ! 0)) g1)
             | quit \<Rightarrow> Die (None, g)))"

section \<open>\<open>getnameinfo\<close>\<close>

text \<open>\<open>snprintf\<close> with a size: what the buffer holds afterwards.\<close>

definition fits :: "nat \<Rightarrow> string \<Rightarrow> string" where
  "fits n s = take (n - 1) s"

definition flag :: "u32 \<Rightarrow> u32 \<Rightarrow> bool" where
  "flag flags b \<longleftrightarrow> flags AND b \<noteq> 0"

abbreviation (input) NI_NOFQDN :: u32 where "NI_NOFQDN \<equiv> 1"
abbreviation (input) NI_NUMERICHOST :: u32 where "NI_NUMERICHOST \<equiv> 2"
abbreviation (input) NI_NAMEREQD :: u32 where "NI_NAMEREQD \<equiv> 4"
abbreviation (input) NI_NUMERICSERV :: u32 where "NI_NUMERICSERV \<equiv> 8"
abbreviation (input) NI_DGRAM :: u32 where "NI_DGRAM \<equiv> 16"

text \<open>The host and service texts, each \<open>None\<close> when its buffer is not written; \<open>None\<close> for the return
  value 1.\<close>

definition gn_host :: "resolver \<Rightarrow> nat \<Rightarrow> byte list \<Rightarrow> int \<Rightarrow> u32 \<Rightarrow> string option option" where
  "gn_host env hostlen addr family flags =
     (let numeric = map_option Some (fst (inet_ntop family addr hostlen)) in
      if hostlen = 0 then Some None
      else if flag flags NI_NUMERICHOST then numeric
      else
        case gethostbyaddr env addr family of
          Some name \<Rightarrow>
            Some (Some (fits hostlen
              (if flag flags NI_NOFQDN then takeWhile (\<lambda>c. c \<noteq> CHR ''.'') name else name)))
        | None \<Rightarrow> if flag flags NI_NAMEREQD then None else numeric)"

definition gn_serv :: "resolver \<Rightarrow> nat \<Rightarrow> u16 \<Rightarrow> u32 \<Rightarrow> string option" where
  "gn_serv env servlen port flags =
     (let numeric = fits servlen (fmt_d (uint (ntohs port))) in
      if servlen = 0 then None
      else if flag flags NI_NUMERICSERV then Some numeric
      else
        case getservbyport env port (if flag flags NI_DGRAM then Some ''udp'' else None) of
          Some name \<Rightarrow> Some (fits servlen name)
        | None \<Rightarrow> Some numeric)"

definition gn_ipv46 ::
  "resolver \<Rightarrow> nat \<Rightarrow> nat \<Rightarrow> byte list \<Rightarrow> int \<Rightarrow> u16 \<Rightarrow> u32 \<Rightarrow> (string option \<times> string option) option" where
  "gn_ipv46 env hostlen servlen addr family port flags =
     (case gn_host env hostlen addr family flags of
        None \<Rightarrow> None
      | Some host \<Rightarrow> Some (host, gn_serv env servlen port flags))"

definition getnameinfo ::
  "resolver \<Rightarrow> sockaddr \<Rightarrow> nat \<Rightarrow> nat \<Rightarrow> u32 \<Rightarrow> (string option \<times> string option) option" where
  "getnameinfo env sa hostlen servlen flags =
     (case sa of
        Sockaddr_in port addr \<Rightarrow> gn_ipv46 env hostlen servlen addr AF_INET port flags
      | Sockaddr_in6 port addr \<Rightarrow> gn_ipv46 env hostlen servlen addr AF_INET6 port flags
      | Sockaddr_un path \<Rightarrow>
          Some (if hostlen > 0 then Some (fits hostlen ''/local'') else None,
                if servlen > 0 then Some (fits servlen path) else None)
      | Sockaddr_other _ \<Rightarrow> None)"

section \<open>\<open>gai_strerror\<close>\<close>

definition gai_strerror :: "eai option \<Rightarrow> string" where
  "gai_strerror err =
     (case err of
        Some EAI_ADDRFAMILY \<Rightarrow> ''address family for host not supported''
      | Some EAI_AGAIN \<Rightarrow> ''temporary failure in name resolution''
      | Some EAI_BADFLAGS \<Rightarrow> ''invalid flags value''
      | Some EAI_FAIL \<Rightarrow> ''non-recoverable failure in name resolution''
      | Some EAI_FAMILY \<Rightarrow> ''address family not supported''
      | Some EAI_MEMORY \<Rightarrow> ''memory allocation failure''
      | Some EAI_NODATA \<Rightarrow> ''no address associated with host''
      | Some EAI_NONAME \<Rightarrow> ''host nor service provided, or not known''
      | Some EAI_SERVICE \<Rightarrow> ''service not supported for socket type''
      | Some EAI_SOCKTYPE \<Rightarrow> ''socket type not supported''
      | Some EAI_SYSTEM \<Rightarrow> ''system error''
      | None \<Rightarrow> ''unknown getaddrinfo() error'')"

section \<open>The result list: every address with every socket type\<close>

text \<open>What a caller reads of an entry.\<close>

definition view :: "addrinfo \<Rightarrow> int \<times> sockaddr option \<times> nat \<times> int" where
  "view ai = (ai_socktype ai, ai_addr ai, ai_addrlen ai, ai_protocol ai)"

text \<open>An entry as \<open>ga_aistruct\<close> builds it for the hints' socket type, before the service is known.\<close>

definition unserved :: "int \<Rightarrow> addrinfo \<Rightarrow> bool" where
  "unserved socktype ai \<longleftrightarrow> ai_socktype ai = socktype
     \<and> ((ai_flags ai AND AI_CLONE \<noteq> 0) = (socktype = 0))
     \<and> (ai_family ai = AF_INET \<or> ai_family ai = AF_INET6)"

definition served :: "addrinfo \<Rightarrow> u16 \<times> int \<Rightarrow> int \<times> sockaddr option \<times> nat \<times> int" where
  "served ai pt = (snd pt, map_option (set_in_port (fst pt)) (ai_addr ai), ai_addrlen ai, ai_protocol ai)"

lemma set_in_port_twice [simp]: "set_in_port p (set_in_port q sa) = set_in_port p sa"
  by (cases sa) (auto simp: set_in_port_def)

lemma ga_port_first:
  assumes "\<forall>ai\<in>set ais. (ai_family ai = AF_INET \<or> ai_family ai = AF_INET6) \<and>
      (if ai_flags ai AND AI_CLONE \<noteq> 0 then ai_socktype ai = 0 else ai_socktype ai = t)"
  shows "ga_port ais p t m = Some (map (fst \<circ> port_entry p t) ais, length ais, m)"
  using assms by (induction ais) (auto simp: port_entry_def Let_def)

lemma ga_port_clone:
  assumes "\<forall>ai\<in>set ais. (ai_family ai = AF_INET \<or> ai_family ai = AF_INET6)
      \<and> ai_flags ai AND AI_CLONE \<noteq> 0 \<and> ai_socktype ai \<noteq> 0" "2 * length ais \<le> m"
  shows "ga_port ais p t m = Some (concat (map (\<lambda>ai. [ai,
      fst (port_entry p t (ai\<lparr>ai_flags := 0, ai_canonname := None\<rparr>))]) ais), length ais, m - 2 * length ais)"
  using assms by (induction ais arbitrary: m) (auto simp: port_entry_def ga_clone_def Let_def)

lemma length_serv_ports:
  "length (serv_ports env socktype serv) \<le> 2"
  "socktype \<noteq> 0 \<Longrightarrow> length (serv_ports env socktype serv) \<le> 1"
  "socktype \<noteq> 0 \<Longrightarrow> pt \<in> set (serv_ports env socktype serv) \<Longrightarrow> snd pt = socktype"
  "pt \<in> set (serv_ports env 0 serv) \<Longrightarrow> snd pt \<noteq> 0"
  by (auto simp: serv_ports_def Let_def split: option.splits if_splits)

lemma view_port_entry: "ai_family ai = AF_INET \<or> ai_family ai = AF_INET6 \<Longrightarrow>
  view (fst (port_entry p t ai)) = served ai (p, t)"
  by (auto simp: port_entry_def view_def served_def Let_def)

lemma at_most_two:
  fixes xs :: "('a \<times> 'b) list"
  assumes "length xs \<le> 2"
  obtains "xs = []" | p t where "xs = [(p, t)]" | p t q u where "xs = [(p, t), (q, u)]"
  using assms by (cases xs rule: remdups_adj.cases) auto

lemma ga_ports_views:
  assumes "\<forall>ai\<in>set ais. unserved socktype ai" "2 * length ais \<le> m"
    and ps: "ps = serv_ports env socktype serv"
  shows "\<exists>r m'. ga_ports ais ps m = Some (r, length ais * length ps, m')
    \<and> (ps \<noteq> [] \<longrightarrow> map view r = concat (map (\<lambda>ai. map (served ai) ps) ais))"
proof -
  have inet: "\<forall>ai\<in>set ais. ai_family ai = AF_INET \<or> ai_family ai = AF_INET6"
    using assms(1) by (auto simp: unserved_def)
  have l: "length ps \<le> 2" unfolding ps by (rule length_serv_ports(1))
  from l show ?thesis
  proof (cases ps rule: at_most_two)
    case 1
    then show ?thesis by simp
  next
    case (2 p t)
    have "socktype = 0 \<or> t = socktype" 
      using length_serv_ports(3) [of socktype "(p, t)" env serv] unfolding ps [symmetric] 2 by auto
    then have "ga_port ais p t m = Some (map (fst \<circ> port_entry p t) ais, length ais, m)"
      using assms(1) by (intro ga_port_first) (auto simp: unserved_def)
    then show ?thesis
      using 2 inet by (auto simp: view_port_entry comp_def intro!: map_cong [OF refl])
  next
    case (3 p t q u)
    have s: "socktype = 0" 
      using length_serv_ports(2) [of socktype env serv] unfolding ps [symmetric] 3 by auto
    have t: "t \<noteq> 0"
      using length_serv_ports(4) [of "(p, t)" env serv] unfolding s [symmetric] ps [symmetric] 3 by simp
    let ?ais = "map (fst \<circ> port_entry p t) ais"
    have 1: "ga_port ais p t m = Some (?ais, length ais, m)"
      using assms(1) s by (intro ga_port_first) (auto simp: unserved_def)
    have 2: "ga_port ?ais q u m = Some (concat (map (\<lambda>ai. [ai,
        fst (port_entry q u (ai\<lparr>ai_flags := 0, ai_canonname := None\<rparr>))]) ?ais), length ?ais, m - 2 * length ?ais)"
      using assms(1,2) s t
      by (intro ga_port_clone) (auto simp: unserved_def port_entry_def Let_def)
    have v: "view (fst (port_entry q u (fst (port_entry p t ai)\<lparr>ai_flags := 0, ai_canonname := None\<rparr>)))
        = served ai (q, u)" if "ai \<in> set ais" for ai
      using inet that by (auto simp: port_entry_def view_def served_def Let_def option.map_comp comp_def)
    have "map view (concat (map (\<lambda>ai. [ai,
        fst (port_entry q u (ai\<lparr>ai_flags := 0, ai_canonname := None\<rparr>))]) ?ais))
        = concat (map (\<lambda>ai. map (served ai) ps) ais)"
      using inet v 3 by (auto simp: map_concat comp_def view_port_entry intro!: arg_cong [where f = concat])
    then show ?thesis using 1 2 3 by simp
  qed
qed

text \<open>A resolver that knows no name.\<close>

definition silent_resolver :: resolver where
  "silent_resolver = \<lparr>gethostbyname2 = (\<lambda>_ _. Inl HOST_NOT_FOUND), gethostbyname = (\<lambda>_ _. Inl HOST_NOT_FOUND),
     getservbyname = (\<lambda>_ _. None), gethostbyaddr = (\<lambda>_ _. None), getservbyport = (\<lambda>_ _. None), uname = None\<rparr>"

text \<open>An entry of the host lookup for an IPv4 address.\<close>

definition numeric_entry0 :: "int \<Rightarrow> byte list \<Rightarrow> addrinfo" where
  "numeric_entry0 t a = \<lparr>ai_flags = (if t = 0 then AI_CLONE else 0), ai_family = AF_INET, ai_socktype = t,
     ai_protocol = 0, ai_addrlen = 16, ai_canonname = None, ai_addr = Some (Sockaddr_in 0 a)\<rparr>"

text \<open>
  C16 The service half of \<open>getaddrinfo\<close>: from the entries of the host lookup \<open>ga_serv\<close> makes, in the
  order of the addresses, one entry per address and per (port, socket type) pair of the service,
  each with the address the lookup found, the port and the socket type; the entry of a second socket
  type is a clone that follows its original. It fails with \<open>EAI_NONAME\<close> (no socket type requested)
  or \<open>EAI_SERVICE\<close> exactly when the service has no port at all.
\<close>

theorem ga_serv_all_pairs:
  assumes "\<forall>ai\<in>set ais. unserved socktype ai" "2 * length ais \<le> m" "ais \<noteq> []"
  shows "(serv_ports env socktype serv = [] \<longrightarrow>
      ga_serv env ais socktype serv m = Inl (if socktype = 0 then EAI_NONAME else EAI_SERVICE))
    \<and> (serv_ports env socktype serv \<noteq> [] \<longrightarrow>
      (\<exists>r m'. ga_serv env ais socktype serv m = Inr (r, m')
        \<and> map view r = concat (map (\<lambda>ai. map (served ai) (serv_ports env socktype serv)) ais)))"
  using ga_ports_views [OF assms(1,2) refl, of env serv] assms(3) by (auto simp: ga_serv_def)

theorem ga_serv_all_pairs_witness:
  "\<exists>r m'. ga_serv silent_resolver [numeric_entry0 0 [1, 2, 3, 4], numeric_entry0 0 [5, 6, 7, 8]] 0 ''80'' 4 = Inr (r, m')
    \<and> map view r =
      [(SOCK_STREAM, Some (Sockaddr_in 0x5000 [1, 2, 3, 4]), 16, 0), (SOCK_DGRAM, Some (Sockaddr_in 0x5000 [1, 2, 3, 4]), 16, 0),
       (SOCK_STREAM, Some (Sockaddr_in 0x5000 [5, 6, 7, 8]), 16, 0), (SOCK_DGRAM, Some (Sockaddr_in 0x5000 [5, 6, 7, 8]), 16, 0)]"
proof -
  let ?ais = "[numeric_entry0 0 [1, 2, 3, 4], numeric_entry0 0 [5, 6, 7, 8]]"
  have "atoi ''80'' = 80" "isdigit (first_char ''80'')" "htons 80 = 0x5000" by code_simp+
  then have ps: "serv_ports silent_resolver 0 ''80'' = [(0x5000, SOCK_STREAM), (0x5000, SOCK_DGRAM)]"
    by (simp add: serv_ports_def Let_def)
  have "\<forall>ai\<in>set ?ais. unserved 0 ai" by (simp add: unserved_def numeric_entry0_def)
  from conjunct2 [OF ga_serv_all_pairs [OF this, where m = 4 and env = silent_resolver and serv = "''80''"]]
  have "\<exists>r m'. ga_serv silent_resolver ?ais 0 ''80'' 4 = Inr (r, m')
      \<and> map view r = concat (map (\<lambda>ai. map (served ai) (serv_ports silent_resolver 0 ''80'')) ?ais)"
    by (simp add: ps)
  then show ?thesis by (simp add: ps served_def numeric_entry0_def set_in_port_def)
qed


section \<open>Numeric names\<close>

lemma pton4_no_colon: "CHR '':'' \<in> set s \<Longrightarrow> inet_pton4 s = None"
proof -
  assume c: "CHR '':'' \<in> set s"
  have "\<exists>p\<in>set (split_at d t). x \<in> set p" if "x \<in> set t" "x \<noteq> d" for x d and t :: string
    using that by (induction t) (force split: list.splits)+
  from this [OF c, of "CHR ''.''"] obtain p where "p \<in> set (split_at CHR ''.'' s)" "CHR '':'' \<in> set p" by auto
  then have "\<not> list_all octet_ok (split_at CHR ''.'' s)"
    by (force simp: octet_ok_def list_all_iff)
  then show ?thesis by (simp add: inet_pton4_reference dotted_quad_def Let_def)
qed

lemma loop_no_colon:
  "pton6_loop st s = Some st' \<Longrightarrow> CHR '':'' \<notin> set s \<Longrightarrow> tp6 st = 0 \<Longrightarrow> colonp st = None \<Longrightarrow>
   colonp st' = None \<and> tp6 st' \<le> 4"
proof (induction s arbitrary: st)
  case Nil
  then show ?case by simp
next
  case (Cons c s)
  then show ?case
    by (auto simp: pton6_step_def Let_def split: ctl.splits option.splits if_splits)
qed

lemma pton6_from_colon: "pton6_from s = Some a \<Longrightarrow> CHR '':'' \<in> set s"
  using loop_no_colon [of "pton6_init s" s]
  by (force simp: pton6_from_def pton6_finish_def store16_def Let_def pton6_init_def split: option.splits if_splits)

lemma xdigit_pos_isxdigit: "xdigit_pos c = Some d \<Longrightarrow> isxdigit c"
proof -
  assume "xdigit_pos c = Some d"
  then have "c \<in> set (xdigits_l @ xdigits_u)"
    using strchr_pos_None by (fastforce simp: xdigit_pos_def split: option.splits)
  moreover have "list_all isxdigit (xdigits_l @ xdigits_u)" by code_simp
  ultimately show ?thesis by (auto simp: list_all_iff)
qed

lemma inet_pton6_text:
  assumes "inet_pton6 s = Some a"
  shows "CHR '':'' \<in> set s \<and> (isxdigit (first_char s) \<or> first_char s = CHR '':'')"
proof (cases s)
  case Nil
  then show ?thesis using assms pton6_from_colon by (force simp: inet_pton6_def)
next
  case (Cons c r)
  have dot: "inet_pton4 (CHR ''.'' # r) = None"
    by (simp add: inet_pton4_reference dotted_quad_def octet_ok_def Let_def)
  show ?thesis
  proof (cases "c = CHR '':''")
    case False
    then have f: "pton6_from s = Some a" using assms Cons by (simp add: inet_pton6_def)
    then have "pton6_step (pton6_init s) c r \<noteq> Fail" using Cons by (auto simp: pton6_from_def)
    then have "xdigit_pos c \<noteq> None"
      using False dot Cons by (auto simp: pton6_step_def pton6_init_def Let_def split: option.splits if_splits)
    then show ?thesis using pton6_from_colon [OF f] Cons xdigit_pos_isxdigit by (auto simp: first_char_def)
  qed (simp add: Cons first_char_def)
qed



lemma first_char_digit: "isdigit (first_char (fmt_u n))"
  using hd_render_digit [of n] by (cases "fmt_u n") (simp_all add: first_char_def)

lemma first_char_append: "s \<noteq> [] \<Longrightarrow> first_char (s @ t) = first_char s"
  by (cases s) (simp_all add: first_char_def)

lemma isdigit_ntop4: "isdigit (first_char (ntop4_text a))"
  by (simp add: ntop4_text_def first_char_append first_char_digit)

lemma digit_not_slash: "isdigit c \<or> isxdigit c \<or> c = CHR '':'' \<Longrightarrow> c \<noteq> CHR ''/''"
  by (auto simp: isdigit_def isxdigit_def)

definition plain_hints :: "int \<Rightarrow> addrinfo" where
  "plain_hints t = no_hints\<lparr>ai_socktype := t\<rparr>"

lemma plain_hints_simps [simp]:
  "ai_flags (plain_hints t) = 0" "ai_family (plain_hints t) = AF_UNSPEC" "ai_socktype (plain_hints t) = t"
  by (simp_all add: plain_hints_def no_hints_def)

text \<open>The host lookup of a numeric address, with no family requested.\<close>

definition numeric_entry :: "int \<Rightarrow> int \<Rightarrow> nat \<Rightarrow> sockaddr \<Rightarrow> addrinfo" where
  "numeric_entry t family sz sa = \<lparr>ai_flags = 0, ai_family = family, ai_socktype = t, ai_protocol = 0,
     ai_addrlen = sz, ai_canonname = None, ai_addr = Some sa\<rparr>"

lemma search_numeric4:
  assumes "length a = 4" "t \<noteq> 0" "2 \<le> m"
  shows "ga_search env (plain_hints t) h n [(ntop4_text a, AF_INET6), (ntop4_text a, AF_INET)] (start_gai m)
    = (None, (start_gai m)\<lparr>aihead := [numeric_entry t AF_INET 16 (Sockaddr_in 0 a)], mem := m - 2\<rparr>)"
  using assms inet_pton4_ntop4 [OF assms(1)] isdigit_ntop4 [of a]
  by (simp add: ga_search1_def inet_pton_def Let_def numeric_addr_def plain_hints_def no_hints_def
      ga_aistruct_def alloc_def start_gai_def make_addr_def numeric_entry_def)

lemma search_numeric6:
  assumes "length a = 16" "inet_pton6 s = Some a" "t \<noteq> 0" "2 \<le> m"
  shows "ga_search env (plain_hints t) h n [(s, AF_INET6), (s, AF_INET)] (start_gai m)
    = (None, (start_gai m)\<lparr>aihead := [numeric_entry t AF_INET6 28 (Sockaddr_in6 0 a)], mem := m - 2\<rparr>)"
  using assms inet_pton6_text [OF assms(2)] pton4_no_colon [of s]
  by (simp add: ga_search1_def inet_pton_def Let_def numeric_addr_def plain_hints_def no_hints_def
      ga_aistruct_def alloc_def start_gai_def make_addr_def numeric_entry_def)

lemma getaddrinfo_numeric:
  assumes s: "first_char s \<noteq> CHR ''/''" "s \<noteq> []"
    and t: "t = SOCK_STREAM \<or> t = SOCK_DGRAM \<or> t = SOCK_RAW"
    and search: "ga_search env (plain_hints t) (Some s) 2 [(s, AF_INET6), (s, AF_INET)] (start_gai m)
      = (None, (start_gai m)\<lparr>aihead := [numeric_entry t family sz sa], mem := m - 2\<rparr>)"
    and family: "family = AF_INET \<or> family = AF_INET6"
  shows "\<exists>g. getaddrinfo env (Some s) (Some (fmt_u (unat (ntohs p)))) (Some (plain_hints t)) m = Ret (None, g)
    \<and> map view (aihead g) = [(t, Some (set_in_port p sa), sz, 0)] \<and> map ai_family (aihead g) = [family]"
proof -
  let ?serv = "fmt_u (unat (ntohs p))"
  have nonlocal: "s \<noteq> ''/local''" "s \<noteq> ''/unix''" using s(1) by (auto simp: first_char_def)
  have nsearch: "ga_nsearch (Some s) (plain_hints t) = Ret [(s, AF_INET6), (s, AF_INET)]"
    using s(2) by (cases s) (simp_all add: ga_nsearch_def search_families_def plain_hints_def no_hints_def Let_def)
  have check: "ga_echeck (Some s) (Some ?serv) 0 AF_UNSPEC t = None"
    using s(2) by (simp add: ga_echeck_def)
  have port: "htons (word_of_int (atoi ?serv)) = p"
    by (simp add: atoi_fmt_u)
  have serv: "serv_ports env t ?serv = [(p, t)]"
    using t port by (auto simp: serv_ports_def first_char_digit Let_def)
  have "\<exists>r m'. ga_serv env [numeric_entry t family sz sa] t ?serv (m - 2) = Inr (r, m')
      \<and> map view r = [(t, Some (set_in_port p sa), sz, 0)] \<and> map ai_family r = [family]"
    using t family by (auto simp: ga_serv_def serv numeric_entry_def port_entry_def Let_def view_def)
  moreover have "getaddrinfo env (Some s) (Some ?serv) (Some (plain_hints t)) m
      = ga_finish env (plain_hints t) (Some s) (Some ?serv) s
          ((start_gai m)\<lparr>aihead := [numeric_entry t family sz sa], mem := m - 2\<rparr>)"
    by (simp add: getaddrinfo_def nonlocal nsearch check search numeral_2_eq_2 [symmetric] Let_def
        del: ga_search.simps)
  ultimately show ?thesis by (auto simp: ga_finish_def ga_canon_def)
qed

lemma numeric_names:
  assumes "sa_ok sa" "sa_family sa = AF_INET \<or> sa_family sa = AF_INET6"
    and "46 \<le> hostlen" "6 \<le> servlen" "flag flags NI_NUMERICHOST" "flag flags NI_NUMERICSERV"
    and "t = SOCK_STREAM \<or> t = SOCK_DGRAM \<or> t = SOCK_RAW" "2 \<le> m"
  shows "\<exists>host serv g. getnameinfo env sa hostlen servlen flags = Some (Some host, Some serv)
    \<and> getaddrinfo env (Some host) (Some serv) (Some (plain_hints t)) m = Ret (None, g)
    \<and> map view (aihead g) = [(t, Some sa, if sa_family sa = AF_INET then 16 else 28, 0)]
    \<and> map ai_family (aihead g) = [sa_family sa]"
proof -
  have serv: "gn_serv env servlen p flags = Some (fmt_u (unat (ntohs p)))" for p
    using assms(4,6) u16_digits [of "ntohs p"] by (simp add: gn_serv_def fits_def fmt_d_u16 Let_def)
  have t: "t \<noteq> 0" using assms(7) by auto
  consider p a where "sa = Sockaddr_in p a" "length a = 4" | p a where "sa = Sockaddr_in6 p a" "length a = 16"
    using assms(1,2) by (cases sa) auto
  then show ?thesis
  proof cases
    case 1
    have host: "gn_host env hostlen a AF_INET flags = Some (Some (ntop4_text a))"
      using assms(3,5) ntop4_text_length [of a]
      by (simp add: gn_host_def inet_ntop_def inet_ntop4_def Let_def)
    have "first_char (ntop4_text a) \<noteq> CHR ''/''" "ntop4_text a \<noteq> []"
      using digit_not_slash isdigit_ntop4 [of a] by (auto simp: ntop4_text_def)
    from getaddrinfo_numeric [OF this assms(7) search_numeric4 [OF 1(2) t assms(8)], where p = p and env = env] show ?thesis
      using 1(1) host serv [of p] by (auto simp: getnameinfo_def gn_ipv46_def set_in_port_def)
  next
    case 2
    obtain s where s: "ntop6_text a s" using ntop6_text_exists [OF 2(2)] by blast
    have host: "gn_host env hostlen a AF_INET6 flags = Some (Some s)"
      using assms(3,5) s by (simp add: gn_host_def inet_ntop_def ntop6_text_def Let_def)
    have pton: "inet_pton6 s = Some a" using s by (simp add: ntop6_text_def)
    have "first_char s \<noteq> CHR ''/''" "s \<noteq> []"
      using digit_not_slash [of "first_char s"] inet_pton6_text [OF pton] by auto
    from getaddrinfo_numeric [OF this assms(7) search_numeric6 [OF 2(2) pton t assms(8)], where p = p and env = env]
    obtain g where "getaddrinfo env (Some s) (Some (fmt_u (unat (ntohs p)))) (Some (plain_hints t)) m = Ret (None, g)"
      "map view (aihead g) = [(t, Some sa, 28, 0)]" "map ai_family (aihead g) = [AF_INET6]" by (auto simp: 2(1) set_in_port_def)
    then show ?thesis
      by (intro exI [of _ s] exI [of _ "fmt_u (unat (ntohs p))"] exI [of _ g])
        (simp add: getnameinfo_def gn_ipv46_def host serv 2(1))
  qed
qed

text \<open>
  C7 \<open>getnameinfo\<close> and \<open>getaddrinfo\<close> are inverse on numeric names: the host and service texts of an
  IPv4 or IPv6 socket address, printed with \<open>NI_NUMERICHOST\<close> and \<open>NI_NUMERICSERV\<close> into buffers of
  46 and 6 bytes, make \<open>getaddrinfo\<close> with no family requested return, without asking the resolver and
  with two allocations, exactly one entry: the same socket address, port included.
\<close>

theorem getaddrinfo_reads_getnameinfo:
  assumes "sa_ok sa" "sa_family sa = AF_INET \<or> sa_family sa = AF_INET6"
    and "46 \<le> hostlen" "6 \<le> servlen" "flag flags NI_NUMERICHOST" "flag flags NI_NUMERICSERV"
    and "t = SOCK_STREAM \<or> t = SOCK_DGRAM \<or> t = SOCK_RAW" "2 \<le> m"
  shows "\<exists>host serv g. getnameinfo env sa hostlen servlen flags = Some (Some host, Some serv)
    \<and> getaddrinfo env (Some host) (Some serv) (Some (plain_hints t)) m = Ret (None, g)
    \<and> map view (aihead g) = [(t, Some sa, if sa_family sa = AF_INET then 16 else 28, 0)]"
  using numeric_names [OF assms, of env] by (elim exE conjE, intro exI conjI)

text \<open>
  A family the library advertises can end the calling program: \<open>ga_echeck\<close> accepts \<open>AF_LOCAL\<close>, but
  unless the host is the keyword for Unix domain names and the service a path, \<open>ga_nsearch\<close> finds no
  family to search and calls \<open>err_quit\<close>. This is the only way \<open>getaddrinfo\<close> fails to return.
\<close>

lemma getaddrinfo_quits:
  "(\<exists>x. getaddrinfo env hostname servname (Some hints) m = Die x) \<longleftrightarrow>
     ga_echeck hostname servname (ai_flags hints) (ai_family hints) (ai_socktype hints) = None
     \<and> ai_family hints = AF_UNIX
     \<and> \<not> ((hostname = Some ''/local'' \<or> hostname = Some ''/unix'')
          \<and> servname \<noteq> None \<and> first_char (the servname) = CHR ''/'')"
proof (cases "ga_echeck hostname servname (ai_flags hints) (ai_family hints) (ai_socktype hints)")
  case None
  let ?local = "(hostname = Some ''/local'' \<or> hostname = Some ''/unix'')
    \<and> servname \<noteq> None \<and> first_char (the servname) = CHR ''/''"
  have families: "ai_family hints = AF_UNSPEC \<or> ai_family hints = AF_INET \<or> ai_family hints = AF_INET6
      \<or> ai_family hints = AF_UNIX"
    using None by (auto simp: ga_echeck_def split: if_splits)
  show ?thesis
  proof (cases "?local \<or> ai_family hints = AF_UNIX")
    case True
    then show ?thesis
      using None by (auto simp: getaddrinfo_def ga_nsearch_def search_families_def Let_def)
  next
    case False
    then obtain search where "ga_nsearch hostname hints = Ret search"
      using families by (auto simp: ga_nsearch_def search_families_def Let_def)
    moreover have "ga_finish env hints hostname servname host0 g \<noteq> Die x" for host0 g x
      by (auto simp: ga_finish_def bad_def split: option.splits sum.splits)
    moreover have "bad rc g \<noteq> Die x" for rc g x by (simp add: bad_def)
    ultimately show ?thesis
      using None False by (auto simp: getaddrinfo_def Let_def split: option.splits prod.splits)
  qed
qed (auto simp: getaddrinfo_def bad_def Let_def)

theorem getaddrinfo_reads_getnameinfo_witness:
  "\<exists>host serv g. getnameinfo silent_resolver (Sockaddr_in6 0x5000 (replicate 16 0)) 46 6 10 = Some (Some host, Some serv)
    \<and> getaddrinfo silent_resolver (Some host) (Some serv) (Some (plain_hints SOCK_STREAM)) 2 = Ret (None, g)
    \<and> map view (aihead g) = [(SOCK_STREAM, Some (Sockaddr_in6 0x5000 (replicate 16 0)), 28, 0)]"
  using getaddrinfo_reads_getnameinfo [of "Sockaddr_in6 0x5000 (replicate 16 0)" 46 6 10 SOCK_STREAM 2 silent_resolver]
  by (simp add: flag_def)

end
