(* ===== verification/Getaddrinfo_Free.thy ===== *)
theory Getaddrinfo_Free
  imports Getaddrinfo
begin

text \<open>
  \<open>libfree/getaddrinfo.c\<close>: the older, self-contained implementation. It shares the data of
  \<open>libgai\<close> and differs in its checks, in asking the resolver once, and in its error exit: \<open>bad\<close> hands
  \<open>aihead\<close> to \<open>freeaddrinfo\<close>, but \<open>aihead\<close> is first set after the host lookup. The model keeps apart
  an error returned after that point and one returned before, where the behaviour is undefined.
  The parameter \<open>ipv6\<close> says whether the file is compiled with \<open>IPV6\<close>, which depends on macros of the
  system's headers. The lemmas compare it with \<open>libgai\<close>.
\<close>

section \<open>Outcomes\<close>

datatype gai_result =
    Returned "eai option" gai      \<comment> \<open>the value returned, the list in \<open>aihead\<close> (empty after an error)\<close>
  | Undefined eai                  \<comment> \<open>\<open>freeaddrinfo\<close> of an uninitialised pointer on the way to this error\<close>
  | Null_pointer                   \<comment> \<open>\<open>aihead->ai_canonname\<close> with an empty list\<close>

section \<open>The list\<close>

definition getaddrinfo_clone :: "addrinfo \<Rightarrow> nat \<Rightarrow> (addrinfo \<times> nat) option" where
  "getaddrinfo_clone ai m =
     (if m < 2 then None
      else Some (\<lparr>ai_flags = 0, ai_family = ai_family ai, ai_socktype = ai_socktype ai,
        ai_protocol = ai_protocol ai, ai_addrlen = ai_addrlen ai, ai_canonname = None,
        ai_addr = ai_addr ai\<rparr>, m - 2))"

text \<open>The loop over the list: \<open>todo\<close> is the rest, \<open>done\<close> what it leaves behind.\<close>

fun port_loop ::
  "bool \<Rightarrow> u16 \<Rightarrow> int \<Rightarrow> addrinfo list \<Rightarrow> addrinfo list \<Rightarrow> nat \<Rightarrow> nat \<Rightarrow> (addrinfo list \<times> nat \<times> nat) option" where
  "port_loop ipv6 port socktype dn [] nfound m = Some (dn, nfound, m)"
| "port_loop ipv6 port socktype dn (ai # todo) nfound m =
     (let set_port = (\<lambda>ai. if ai_family ai = AF_INET \<or> ai_family ai = AF_INET6 \<and> ipv6
            then ai\<lparr>ai_socktype := socktype, ai_addr := map_option (set_in_port port) (ai_addr ai)\<rparr>
            else ai\<lparr>ai_socktype := socktype\<rparr>);
          found = (if ai_family ai = AF_INET \<or> ai_family ai = AF_INET6 \<and> ipv6 then nfound + 1 else nfound)
      in if ai_flags ai AND AI_CLONE \<noteq> 0 \<and> ai_socktype ai \<noteq> 0 then
           (case getaddrinfo_clone ai m of
              None \<Rightarrow> None
            | Some (new, m1) \<Rightarrow> port_loop ipv6 port socktype (dn @ [ai, set_port new]) todo found m1)
         else if ai_flags ai AND AI_CLONE = 0 \<and> ai_socktype ai \<noteq> socktype then
           port_loop ipv6 port socktype (dn @ [ai]) todo nfound m
         else port_loop ipv6 port socktype (dn @ [set_port ai]) todo found m)"

definition getaddrinfo_port ::
  "bool \<Rightarrow> addrinfo list \<Rightarrow> u16 \<Rightarrow> int \<Rightarrow> nat \<Rightarrow> (addrinfo list \<times> nat \<times> nat) option" where
  "getaddrinfo_port ipv6 ais port socktype m = port_loop ipv6 port socktype [] ais 0 m"

definition getaddrinfo_serv ::
  "resolver \<Rightarrow> bool \<Rightarrow> addrinfo list \<Rightarrow> int \<Rightarrow> string \<Rightarrow> nat \<Rightarrow> eai + addrinfo list \<times> nat" where
  "getaddrinfo_serv env ipv6 ais socktype serv m =
     (if isdigit (first_char serv) \<and> socktype \<noteq> 0 then
        (case getaddrinfo_port ipv6 ais (htons (word_of_int (atoi serv))) socktype m of
           None \<Rightarrow> Inl EAI_MEMORY
         | Some (ais, rc, m) \<Rightarrow> if rc = 0 then Inl EAI_NONAME else Inr (ais, m))
      else
        let named = (\<lambda>proto t (ais, nfound, m).
              if socktype = 0 \<or> socktype = t then
                (case getservbyname env serv proto of
                   None \<Rightarrow> Some (ais, nfound, m)
                 | Some p \<Rightarrow> map_option (\<lambda>(ais, rc, m). (ais, nfound + rc, m))
                     (getaddrinfo_port ipv6 ais p t m))
              else Some (ais, nfound, m))
        in case Option.bind (named ''tcp'' SOCK_STREAM (ais, 0, m)) (named ''udp'' SOCK_DGRAM) of
             None \<Rightarrow> Inl EAI_MEMORY
           | Some (ais, nfound, m) \<Rightarrow>
               if nfound = 0 then Inl (if socktype = 0 then EAI_NONAME else EAI_SERVICE)
               else Inr (ais, m))"

section \<open>The host\<close>

definition getaddrinfo_host :: "resolver \<Rightarrow> bool \<Rightarrow> string \<Rightarrow> int \<Rightarrow> eai + hostent" where
  "getaddrinfo_host env ipv6 host family =
     (let c = first_char host;
          v4 = (if isdigit c then inet_pton AF_INET host else (0, None, None));
          v6 = (if ipv6 \<and> (isxdigit c \<or> c = CHR '':'') then inet_pton AF_INET6 host else (0, None, None));
          numeric = (\<lambda>af a. Inr \<lparr>h_name = take 8191 host, h_addrtype = af, h_addr_list = [a]\<rparr>)
      in if fst v4 = 1 then numeric AF_INET (the (fst (snd v4)))
         else if fst v6 = 1 then numeric AF_INET6 (the (fst (snd v6)))
         else
           case gethostbyname env (ipv6 \<and> family = AF_INET6) host of
             Inl e \<Rightarrow> Inl (host_error e)
           | Inr hptr \<Rightarrow> Inr hptr)"

section \<open>Unix domain names\<close>

text \<open>A failed \<open>calloc\<close> makes it return \<open>NULL\<close>, that is 0, without a result.\<close>

definition addrinfo_local :: "string \<Rightarrow> addrinfo \<Rightarrow> gai \<Rightarrow> eai option \<times> gai" where
  "addrinfo_local path hints g =
     (if ai_socktype hints = 0 then (Some EAI_SOCKTYPE, g)
      else
        case alloc g of
          None \<Rightarrow> (None, g)
        | Some g1 \<Rightarrow>
            (case alloc g1 of
               None \<Rightarrow> (Some EAI_MEMORY, g1)
             | Some g2 \<Rightarrow>
                 (None, g2\<lparr>aihead := [\<lparr>ai_flags = 0, ai_family = AF_UNIX, ai_socktype = ai_socktype hints,
                      ai_protocol = 0, ai_addrlen = 110, ai_canonname = None,
                      ai_addr = Some (Sockaddr_un (take 108 path))\<rparr>],
                    unlinked := unlinked g @ (if ai_flags hints AND AI_PASSIVE \<noteq> 0 then [path] else [])\<rparr>)))"

section \<open>\<open>getaddrinfo\<close>\<close>

text \<open>The checks at the top; the families compiled in depend on \<open>ipv6\<close>.\<close>

definition hints_error :: "bool \<Rightarrow> addrinfo \<Rightarrow> eai option" where
  "hints_error ipv6 hints =
     (let t = ai_socktype hints; family = ai_family hints in
      if ai_flags hints AND NOT (AI_PASSIVE OR AI_CANONNAME) \<noteq> 0 then Some EAI_BADFLAGS
      else if family = 0 then None
      else if family = AF_INET \<or> family = AF_INET6 \<and> ipv6 then
        (if t \<noteq> 0 \<and> t \<noteq> SOCK_STREAM \<and> t \<noteq> SOCK_DGRAM \<and> t \<noteq> SOCK_RAW then Some EAI_SOCKTYPE else None)
      else if family = AF_UNIX then
        (if t \<noteq> 0 \<and> t \<noteq> SOCK_STREAM \<and> t \<noteq> SOCK_DGRAM then Some EAI_SOCKTYPE else None)
      else Some EAI_FAMILY)"

text \<open>The host that is looked up (\<open>None\<close> only for a passive Unix domain socket) and the family.\<close>

definition choose_host ::
  "bool \<Rightarrow> string option \<Rightarrow> string option \<Rightarrow> addrinfo \<Rightarrow> eai + string option \<times> int" where
  "choose_host ipv6 host serv hints =
     (let family = ai_family hints in
      if \<not> given host then
        (if \<not> given serv then Inl EAI_NONAME
         else if ai_flags hints AND AI_PASSIVE \<noteq> 0 then
           (if family = AF_INET then Inr (Some ''0.0.0.0'', family)
            else if family = AF_INET6 \<and> ipv6 then Inr (Some ''0::0'', family)
            else if family = AF_UNIX then
              (if first_char (the serv) \<noteq> CHR ''/'' then Inl EAI_ADDRFAMILY else Inr (host, family))
            else Inl EAI_ADDRFAMILY)
         else Inr (Some ''localhost'', family))
      else if family = 0 then
        (let f4 = (if fst (inet_pton AF_INET (the host)) = 1 then AF_INET else family);
             f6 = (if ipv6 \<and> fst (inet_pton AF_INET6 (the host)) = 1 then AF_INET6 else f4)
         in Inr (host, f6))
      else Inr (host, family))"

text \<open>One structure per address. A family without a case leaves \<open>ai_addr\<close> null.\<close>

fun add_structs :: "bool \<Rightarrow> addrinfo \<Rightarrow> int \<Rightarrow> byte list list \<Rightarrow> gai \<Rightarrow> eai option \<times> gai" where
  "add_structs ipv6 hints family [] g = (None, g)"
| "add_structs ipv6 hints family (a # addrs) g =
     (case alloc g of
        None \<Rightarrow> (Some EAI_MEMORY, g)
      | Some g1 \<Rightarrow>
          let ai = \<lparr>ai_flags = (if ai_socktype hints = 0 then AI_CLONE else 0), ai_family = family,
                    ai_socktype = ai_socktype hints, ai_protocol = ai_protocol hints, ai_addrlen = 0,
                    ai_canonname = None, ai_addr = None\<rparr>;
              sa = (if family = AF_INET then Some (Sockaddr_in 0 (take 4 a), 16)
                    else if family = AF_INET6 \<and> ipv6 then Some (Sockaddr_in6 0 (take 16 a), 28) else None)
          in case sa of
               None \<Rightarrow> add_structs ipv6 hints family addrs (g1\<lparr>aihead := aihead g @ [ai]\<rparr>)
             | Some (sin, sz) \<Rightarrow>
                 (case alloc g1 of
                    None \<Rightarrow> (Some EAI_MEMORY, g1\<lparr>aihead := aihead g @ [ai]\<rparr>)
                  | Some g2 \<Rightarrow> add_structs ipv6 hints family addrs
                      (g2\<lparr>aihead := aihead g @ [ai\<lparr>ai_addr := Some sin, ai_addrlen := sz\<rparr>]\<rparr>)))"

definition freed :: "eai \<Rightarrow> gai \<Rightarrow> gai_result" where
  "freed e g = Returned (Some e) (g\<lparr>aihead := []\<rparr>)"

definition build_list ::
  "resolver \<Rightarrow> bool \<Rightarrow> addrinfo \<Rightarrow> string option \<Rightarrow> hostent \<Rightarrow> gai \<Rightarrow> gai_result" where
  "build_list env ipv6 hints serv hptr g =
     (case add_structs ipv6 hints (h_addrtype hptr) (h_addr_list hptr) g of
        (Some rc, g1) \<Rightarrow> freed rc g1
      | (None, g1) \<Rightarrow>
          let canonname = ai_flags hints AND AI_CANONNAME \<noteq> 0 in
          if canonname \<and> aihead g1 = [] then Null_pointer
          else if canonname \<and> alloc g1 = None then freed EAI_MEMORY g1
          else
            let g2 = (if canonname
                      then (the (alloc g1))\<lparr>aihead := (aihead g1)[0 := (aihead g1 ! 0)\<lparr>ai_canonname := Some (h_name hptr)\<rparr>]\<rparr>
                      else g1)
            in if given serv then
                 (case getaddrinfo_serv env ipv6 (aihead g2) (ai_socktype hints) (the serv) (mem g2) of
                    Inl rc \<Rightarrow> freed rc g2
                  | Inr (ais, m) \<Rightarrow> Returned None (g2\<lparr>aihead := ais, mem := m\<rparr>))
               else Returned None g2)"

definition getaddrinfo_free ::
  "resolver \<Rightarrow> bool \<Rightarrow> string option \<Rightarrow> string option \<Rightarrow> addrinfo option \<Rightarrow> nat \<Rightarrow> gai_result" where
  "getaddrinfo_free env ipv6 host serv hintsptr m =
     (let hints = (case hintsptr of None \<Rightarrow> no_hints | Some h \<Rightarrow> h); g = start_gai m;
          local = (\<lambda>path. case addrinfo_local path hints g of (rc, g1) \<Rightarrow> Returned rc g1)
      in case hints_error ipv6 hints of
           Some e \<Rightarrow> Undefined e
         | None \<Rightarrow>
             (case choose_host ipv6 host serv hints of
                Inl e \<Rightarrow> Undefined e
              | Inr (host, family) \<Rightarrow>
                  if host \<noteq> None \<and> first_char (the host) = CHR ''/'' then local (the host)
                  else if serv \<noteq> None \<and> first_char (the serv) = CHR ''/'' then local (the serv)
                  else
                    (case getaddrinfo_host env ipv6 (the host) family of
                       Inl e \<Rightarrow> Undefined e
                     | Inr hptr \<Rightarrow>
                         if family \<noteq> AF_UNSPEC \<and> family \<noteq> h_addrtype hptr then Undefined EAI_ADDRFAMILY
                         else build_list env ipv6 (hints\<lparr>ai_family := family\<rparr>) serv hptr g)))"


section \<open>Comparison with \<open>libgai\<close>\<close>

lemma getaddrinfo_clone_eq: "getaddrinfo_clone ai m = ga_clone ai m"
  by (cases ai) (simp add: getaddrinfo_clone_def ga_clone_def)

lemma port_loop_eq:
  "port_loop True p t dn ais n m = map_option (\<lambda>(r, k, m'). (dn @ r, n + k, m')) (ga_port ais p t m)"
proof (induction ais arbitrary: dn n m)
  case Nil
  then show ?case by simp
next
  case (Cons ai ais)
  consider "ai_flags ai AND AI_CLONE \<noteq> 0" "ai_socktype ai \<noteq> 0"
    | "ai_flags ai AND AI_CLONE \<noteq> 0" "ai_socktype ai = 0"
    | "ai_flags ai AND AI_CLONE = 0" by blast
  then show ?case
    by cases (auto simp: Cons.IH getaddrinfo_clone_eq ga_clone_def port_entry_def Let_def option.map_comp
        comp_def split_def intro!: option.map_cong)
qed

lemma getaddrinfo_port_eq: "getaddrinfo_port True ais p t m = ga_port ais p t m"
  by (simp add: getaddrinfo_port_def port_loop_eq split_def option.map_ident)



text \<open>
  Every argument error that \<open>libgai\<close> reports makes the old code free a pointer it has not
  initialised: where \<open>ga_echeck\<close> returns an error, \<open>getaddrinfo\<close> of \<open>libgai\<close> returns it with an
  empty list, and \<open>getaddrinfo\<close> of \<open>libfree\<close> reaches \<open>freeaddrinfo\<close> before \<open>aihead\<close> is set. So does
  every host name the resolver does not know.
\<close>

lemma early_errors_undefined:
  "(\<forall>e. ga_echeck host serv (ai_flags hints) (ai_family hints) (ai_socktype hints) = Some e \<longrightarrow>
      (\<exists>g. getaddrinfo env host serv (Some hints) m = Ret (Some e, g) \<and> aihead g = [])
      \<and> (\<exists>e'. getaddrinfo_free env True host serv (Some hints) m = Undefined e'))
   \<and> (\<forall>name. host = Some name \<and> first_char name \<noteq> CHR ''/'' \<and> name \<noteq> []
        \<and> inet_pton4 name = None \<and> inet_pton6 name = None \<and> serv = None
        \<and> gethostbyname env False name = Inl HOST_NOT_FOUND \<longrightarrow>
      getaddrinfo_free env True host serv None m = Undefined EAI_NONAME)"
proof (intro conjI allI impI)
  fix e
  assume e: "ga_echeck host serv (ai_flags hints) (ai_family hints) (ai_socktype hints) = Some e"
  then show "\<exists>g. getaddrinfo env host serv (Some hints) m = Ret (Some e, g) \<and> aihead g = []"
    by (simp add: getaddrinfo_def bad_def Let_def)
  have "hints_error True hints \<noteq> None \<or> (\<exists>e'. choose_host True host serv hints = Inl e')"
    using e by (auto simp: ga_echeck_def hints_error_def choose_host_def Let_def split: if_splits)
  then show "\<exists>e'. getaddrinfo_free env True host serv (Some hints) m = Undefined e'"
    by (auto simp: getaddrinfo_free_def Let_def split: option.splits)
next
  fix name
  assume "host = Some name \<and> first_char name \<noteq> CHR ''/'' \<and> name \<noteq> []
    \<and> inet_pton4 name = None \<and> inet_pton6 name = None \<and> serv = None
    \<and> gethostbyname env False name = Inl HOST_NOT_FOUND"
  then show "getaddrinfo_free env True host serv None m = Undefined EAI_NONAME"
    by (simp add: getaddrinfo_free_def hints_error_def choose_host_def no_hints_def getaddrinfo_host_def
        host_error_def inet_pton_def Let_def)
qed

lemma early_errors_undefined_example:
  "\<exists>e. getaddrinfo_free silent_resolver True None None (Some no_hints) 9 = Undefined e"
proof -
  have "ga_echeck None None (ai_flags no_hints) (ai_family no_hints) (ai_socktype no_hints) = Some EAI_NONAME"
    by (simp add: ga_echeck_def no_hints_def)
  with early_errors_undefined [of None None no_hints silent_resolver 9] show ?thesis by simp
qed

section \<open>\<open>getnameinfo\<close>\<close>

text \<open>\<open>libfree/getnameinfo.c\<close>: no flags, no numeric form. What \<open>strncpy\<close> leaves in a buffer of \<open>n\<close> bytes.\<close>

definition strncpy :: "nat \<Rightarrow> string \<Rightarrow> string" where
  "strncpy n s = take n (s @ replicate n (CHR 0x00))"

definition do_ipv46 :: "resolver \<Rightarrow> nat \<Rightarrow> nat \<Rightarrow> byte list \<Rightarrow> int \<Rightarrow> u16 \<Rightarrow> (string option \<times> string option) option" where
  "do_ipv46 env hostlen servlen aptr family port =
     (case (if hostlen > 0 then map_option (\<lambda>nm. Some (strncpy hostlen nm)) (gethostbyaddr env aptr family) else Some None) of
        None \<Rightarrow> None
      | Some host \<Rightarrow>
          (case (if servlen > 0 then map_option (\<lambda>nm. Some (strncpy servlen nm)) (getservbyport env port None) else Some None) of
             None \<Rightarrow> None
           | Some serv \<Rightarrow> Some (host, serv)))"

definition getnameinfo_free :: "resolver \<Rightarrow> bool \<Rightarrow> sockaddr \<Rightarrow> nat \<Rightarrow> nat \<Rightarrow> (string option \<times> string option) option" where
  "getnameinfo_free env ipv6 sa hostlen servlen =
     (case sa of
        Sockaddr_in port addr \<Rightarrow> do_ipv46 env hostlen servlen addr AF_INET port
      | Sockaddr_in6 port addr \<Rightarrow> if ipv6 then do_ipv46 env hostlen servlen addr AF_INET6 port else None
      | _ \<Rightarrow> None)"

definition c_text :: "string \<Rightarrow> string" where
  "c_text buf = takeWhile (\<lambda>c. c \<noteq> CHR 0x00) buf"

lemma c_text_strncpy:
  assumes "length s < n" "CHR 0x00 \<notin> set s"
  shows "c_text (strncpy n s) = s"
proof -
  have "strncpy n s = s @ replicate (n - length s) (CHR 0x00)" using assms(1) by (simp add: strncpy_def)
  moreover have "n - length s = Suc (n - length s - 1)" using assms(1) by simp
  ultimately have "strncpy n s = s @ CHR 0x00 # replicate (n - length s - 1) (CHR 0x00)" by (metis replicate_Suc)
  moreover have "\<forall>x\<in>set s. x \<noteq> CHR 0x00" using assms(2) by blast
  ultimately show ?thesis by (simp add: c_text_def takeWhile_tail)
qed

text \<open>Where both names are known and fit into their buffers, the old function leaves the texts of \<open>libgai\<close> without flags.\<close>

lemma getnameinfo_free_agrees:
  assumes "sa = Sockaddr_in port addr \<and> family = AF_INET \<or> sa = Sockaddr_in6 port addr \<and> family = AF_INET6"
    and "gethostbyaddr env addr family = Some host" "length host < hostlen" "CHR 0x00 \<notin> set host"
    and "getservbyport env port None = Some serv" "length serv < servlen" "CHR 0x00 \<notin> set serv"
  shows "map_option (map_prod (map_option c_text) (map_option c_text)) (getnameinfo_free env True sa hostlen servlen)
    = getnameinfo env sa hostlen servlen 0"
proof -
  have "getnameinfo env sa hostlen servlen 0 = Some (Some host, Some serv)"
    using assms by (auto simp: getnameinfo_def gn_ipv46_def gn_host_def gn_serv_def flag_def fits_def Let_def)
  moreover have "getnameinfo_free env True sa hostlen servlen = Some (Some (strncpy hostlen host), Some (strncpy servlen serv))"
    using assms by (auto simp: getnameinfo_free_def do_ipv46_def)
  ultimately show ?thesis using c_text_strncpy assms by simp
qed

text \<open>A name as long as its buffer or longer leaves the buffer without a terminating NUL.\<close>

lemma getnameinfo_free_unterminated:
  assumes "gethostbyaddr env addr AF_INET = Some host" "hostlen \<le> length host" "0 < hostlen" "CHR 0x00 \<notin> set host"
    and "getnameinfo_free env ipv6 (Sockaddr_in port addr) hostlen servlen = Some (Some buf, serv)"
  shows "length buf = hostlen \<and> CHR 0x00 \<notin> set buf"
proof -
  have "buf = take hostlen host" using assms by (auto simp: getnameinfo_free_def do_ipv46_def strncpy_def split: option.splits if_splits)
  then show ?thesis using assms(2,4) by (auto dest: in_set_takeD)
qed

end
