(* ===== verification/Rtt.thy ===== *)
theory Rtt
  imports CPrelude Complex_Main
begin

text \<open>
  \<open>lib/rtt.c\<close>, \<open>lib/tv_sub.c\<close> and \<open>rtt/\<close>: a UDP client with timeout, retransmission and sequence
  numbers. The floating-point fields are rational numbers and every C operation rounds its exact
  result: \<open>fl\<close> is the rounding to \<open>float\<close>, \<open>db\<close> the rounding to \<open>double\<close>, both parameters of the
  model (overflow to infinity is left out). What the environment does, that is datagrams and
  \<open>SIGALRM\<close>, is a list of events. The lemmas bound the retransmission timeout and the number of
  transmissions, and show that only the answer to the current request is returned.
\<close>

section \<open>Round-trip times\<close>

record rtt_info =
  rtt_rtt :: rat
  rtt_srtt :: rat
  rtt_rttvar :: rat
  rtt_rto :: rat
  rtt_nrexmt :: int
  rtt_base :: u32

abbreviation (input) RTT_RXTMIN :: rat where "RTT_RXTMIN \<equiv> 2"
abbreviation (input) RTT_RXTMAX :: rat where "RTT_RXTMAX \<equiv> 60"
abbreviation (input) RTT_MAXNREXMT :: int where "RTT_MAXNREXMT \<equiv> 3"

definition RTT_RTOCALC :: "(rat \<Rightarrow> rat) \<Rightarrow> rtt_info \<Rightarrow> rat" where
  "RTT_RTOCALC db r = db (rtt_srtt r + db (4 * rtt_rttvar r))"

definition rtt_minmax :: "rat \<Rightarrow> rat" where
  "rtt_minmax rto = (if rto < RTT_RXTMIN then RTT_RXTMIN else if rto > RTT_RXTMAX then RTT_RXTMAX else rto)"

text \<open>\<open>gettimeofday\<close> answers seconds and microseconds.\<close>

definition rtt_init :: "(rat \<Rightarrow> rat) \<Rightarrow> (rat \<Rightarrow> rat) \<Rightarrow> int \<times> int \<Rightarrow> rtt_info \<Rightarrow> rtt_info" where
  "rtt_init fl db tv r =
     (let r = r\<lparr>rtt_base := word_of_int (fst tv), rtt_rtt := 0, rtt_srtt := 0, rtt_rttvar := 3 / 4\<rparr>
      in r\<lparr>rtt_rto := rtt_minmax (fl (RTT_RTOCALC db r))\<rparr>)"

definition rtt_ts :: "int \<times> int \<Rightarrow> rtt_info \<Rightarrow> u32" where
  "rtt_ts tv r = word_of_int ((fst tv - uint (rtt_base r)) * 1000 + snd tv div 1000)"

definition rtt_newpack :: "rtt_info \<Rightarrow> rtt_info" where
  "rtt_newpack r = r\<lparr>rtt_nrexmt := 0\<rparr>"

definition rtt_start :: "(rat \<Rightarrow> rat) \<Rightarrow> rtt_info \<Rightarrow> int" where
  "rtt_start db r = \<lfloor>db (rtt_rto r + 1 / 2)\<rfloor>"

definition rtt_stop :: "(rat \<Rightarrow> rat) \<Rightarrow> (rat \<Rightarrow> rat) \<Rightarrow> u32 \<Rightarrow> rtt_info \<Rightarrow> rtt_info" where
  "rtt_stop fl db ms r =
     (let r = r\<lparr>rtt_rtt := fl (db (of_int (uint ms) / 1000))\<rparr>;
          delta = fl (rtt_rtt r - rtt_srtt r);
          r = r\<lparr>rtt_srtt := fl (db (rtt_srtt r + db (delta / 8)))\<rparr>;
          delta = (if delta < 0 then - delta else delta);
          r = r\<lparr>rtt_rttvar := fl (db (rtt_rttvar r + db (db (delta - rtt_rttvar r) / 4)))\<rparr>
      in r\<lparr>rtt_rto := rtt_minmax (fl (RTT_RTOCALC db r))\<rparr>)"

definition rtt_timeout :: "(rat \<Rightarrow> rat) \<Rightarrow> rtt_info \<Rightarrow> int \<times> rtt_info" where
  "rtt_timeout fl r =
     (let r = r\<lparr>rtt_rto := fl (rtt_rto r * 2), rtt_nrexmt := rtt_nrexmt r + 1\<rparr>
      in (if rtt_nrexmt r > RTT_MAXNREXMT then -1 else 0, r))"

text \<open>\<open>tv_sub\<close> on pairs of seconds and microseconds.\<close>

definition tv_sub :: "int \<times> int \<Rightarrow> int \<times> int \<Rightarrow> int \<times> int" where
  "tv_sub out_tv in_tv =
     (let usec = snd out_tv - snd in_tv;
          (sec, usec) = (if usec < 0 then (fst out_tv - 1, usec + 1000000) else (fst out_tv, usec))
      in (sec - fst in_tv, usec))"

lemma tv_sub_exact:
  "0 \<le> snd a \<Longrightarrow> snd a < 1000000 \<Longrightarrow> 0 \<le> snd b \<Longrightarrow> snd b < 1000000 \<Longrightarrow>
   fst (tv_sub a b) * 1000000 + snd (tv_sub a b) = (fst a * 1000000 + snd a) - (fst b * 1000000 + snd b)
   \<and> 0 \<le> snd (tv_sub a b) \<and> snd (tv_sub a b) < 1000000"
  by (auto simp: tv_sub_def Let_def)

section \<open>\<open>dg_send_recv\<close>\<close>

text \<open>
  The static state: the estimators, whether they are initialised, and the header that is sent. A
  datagram carries its length, header and data; \<open>now\<close> is the time of the event.
\<close>

record sender =
  rttinfo :: rtt_info
  rttinit :: bool
  seqno :: u32
  sent :: "(u32 \<times> u32 \<times> string) list"   \<comment> \<open>sequence number, timestamp and data of each \<open>sendmsg\<close>\<close>
  alarms :: "int list"                    \<comment> \<open>the arguments of \<open>alarm\<close>\<close>

datatype dg_event =
    Datagram (received: nat) (dg_seq: u32) (dg_ts: u32) (dg_data: string) (now: "int \<times> int")
  | Sigalrm (now: "int \<times> int")

text \<open>From the label \<open>sendagain\<close> to the receive loop.\<close>

definition send_again :: "(rat \<Rightarrow> rat) \<Rightarrow> int \<times> int \<Rightarrow> string \<Rightarrow> sender \<Rightarrow> sender" where
  "send_again db tv outbuff s =
     s\<lparr>sent := sent s @ [(seqno s, rtt_ts tv (rttinfo s), outbuff)],
       alarms := alarms s @ [rtt_start db (rttinfo s)]\<rparr>"

text \<open>The result: the bytes received, or \<open>None\<close> for the value -1 with \<open>errno = ETIMEDOUT\<close>.\<close>

definition dg_on_event ::
  "(rat \<Rightarrow> rat) \<Rightarrow> (rat \<Rightarrow> rat) \<Rightarrow> string \<Rightarrow> dg_event \<Rightarrow> sender \<Rightarrow> (sender \<times> string option) outcome" where
  "dg_on_event fl db outbuff e s =
     (case e of
        Sigalrm tv \<Rightarrow>
          (case rtt_timeout fl (rttinfo s) of
             (rc, r) \<Rightarrow>
               if rc < 0 then Ret (s\<lparr>rttinfo := r, rttinit := False\<rparr>, None)
               else Go (send_again db tv outbuff (s\<lparr>rttinfo := r\<rparr>), None))
      | Datagram n sq ts bytes tv \<Rightarrow>
          if n < 8 \<or> sq \<noteq> seqno s then Go (s, None)
          else Ret (s\<lparr>rttinfo := rtt_stop fl db (rtt_ts tv (rttinfo s) - ts) (rttinfo s),
                      alarms := alarms s @ [0]\<rparr>, Some (take (n - 8) bytes)))"

definition dg_start ::
  "(rat \<Rightarrow> rat) \<Rightarrow> (rat \<Rightarrow> rat) \<Rightarrow> int \<times> int \<Rightarrow> string \<Rightarrow> sender \<Rightarrow> sender" where
  "dg_start fl db tv outbuff s =
     (let s = (if rttinit s then s else s\<lparr>rttinfo := rtt_init fl db tv (rttinfo s), rttinit := True\<rparr>);
          s = s\<lparr>seqno := seqno s + 1, rttinfo := rtt_newpack (rttinfo s)\<rparr>
      in send_again db tv outbuff s)"

definition dg_send_recv ::
  "(rat \<Rightarrow> rat) \<Rightarrow> (rat \<Rightarrow> rat) \<Rightarrow> int \<times> int \<Rightarrow> string \<Rightarrow> dg_event list \<Rightarrow> sender \<Rightarrow> (sender \<times> string option) outcome" where
  "dg_send_recv fl db tv outbuff es s =
     rounds (\<lambda>e r. dg_on_event fl db outbuff e (fst r)) es (dg_start fl db tv outbuff s, None)"

definition Dg_send_recv ::
  "(rat \<Rightarrow> rat) \<Rightarrow> (rat \<Rightarrow> rat) \<Rightarrow> int \<times> int \<Rightarrow> string \<Rightarrow> dg_event list \<Rightarrow> sender \<Rightarrow> (sender \<times> string option) outcome" where
  "Dg_send_recv fl db tv outbuff es s =
     (case dg_send_recv fl db tv outbuff es s of Ret (s, None) \<Rightarrow> Die (s, None) | r \<Rightarrow> r)"


section \<open>Bounds of the timeout\<close>

lemma rtt_minmax_bounds: "2 \<le> rtt_minmax x \<and> rtt_minmax x \<le> 60"
  by (simp add: rtt_minmax_def)

lemma rtt_rto_stop: "rtt_rto (rtt_stop fl db ms r) = rtt_minmax (fl (RTT_RTOCALC db (rtt_stop fl db ms r)))"
  by (simp add: rtt_stop_def RTT_RTOCALC_def Let_def)


text \<open>The static variables at the start of the program.\<close>

definition rtt_zero :: rtt_info where
  "rtt_zero = \<lparr>rtt_rtt = 0, rtt_srtt = 0, rtt_rttvar = 0, rtt_rto = 0, rtt_nrexmt = 0, rtt_base = 0\<rparr>"


section \<open>One request\<close>

definition alarm_count :: "dg_event list \<Rightarrow> nat" where
  "alarm_count es = length (filter (\<lambda>e. case e of Sigalrm _ \<Rightarrow> True | _ \<Rightarrow> False) es)"

text \<open>The events that end the wait for the answer to request \<open>q\<close>, and what they deliver.\<close>

definition answers :: "u32 \<Rightarrow> dg_event \<Rightarrow> string \<Rightarrow> bool" where
  "answers q e reply \<longleftrightarrow> (\<exists>n ts d tv. e = Datagram n q ts d tv \<and> 8 \<le> n \<and> reply = take (n - 8) d)"

lemma alarm_count_simps [simp]:
  "alarm_count [] = 0" "alarm_count (Sigalrm tv # es) = Suc (alarm_count es)"
  "alarm_count (Datagram n q ts d tv # es) = alarm_count es"
  by (simp_all add: alarm_count_def)

lemma answers_simps [simp]:
  "\<not> answers q (Sigalrm tv) b"
  "answers q (Datagram n q' ts d tv) b \<longleftrightarrow> q' = q \<and> 8 \<le> n \<and> b = take (n - 8) d"
  by (auto simp: answers_def)

text \<open>What has happened after some events, \<open>k\<close> transmissions after the first one being allowed.\<close>

definition sent_more :: "string \<Rightarrow> sender \<Rightarrow> sender \<Rightarrow> nat \<Rightarrow> bool" where
  "sent_more outbuff s s' j \<longleftrightarrow> seqno s' = seqno s
     \<and> (\<exists>X. sent s' = sent s @ X \<and> length X = j \<and> (\<forall>x\<in>set X. fst x = seqno s \<and> snd (snd x) = outbuff))"

lemma sent_more_refl: "sent_more outbuff s (s\<lparr>rttinfo := r\<rparr>) 0"
  by (simp add: sent_more_def)

lemma sent_more_again:
  assumes "sent_more outbuff (send_again db tv outbuff (s\<lparr>rttinfo := r\<rparr>)) s' j"
  shows "sent_more outbuff s s' (Suc j)"
  using assms by (auto simp: sent_more_def send_again_def)

lemma dg_rounds:
  assumes "rtt_nrexmt (rttinfo s) = 3 - int k"
  shows "case rounds (\<lambda>e r. dg_on_event fl db outbuff e (fst r)) es (s, None) of
      Go (s', b) \<Rightarrow> alarm_count es \<le> k \<and> (\<forall>e\<in>set es. \<forall>b. \<not> answers (seqno s) e b)
        \<and> sent_more outbuff s s' (alarm_count es)
    | Ret (s', None) \<Rightarrow> k < alarm_count es \<and> \<not> rttinit s' \<and> sent_more outbuff s s' k
    | Ret (s', Some b) \<Rightarrow> (\<exists>e\<in>set es. answers (seqno s) e b) \<and> (\<exists>j\<le>k. sent_more outbuff s s' j)
    | Die _ \<Rightarrow> False"
  using assms
proof (induction es arbitrary: s k)
  case Nil
  then show ?case by (simp add: sent_more_def)
next
  case (Cons e es)
  show ?case
  proof (cases e)
    case (Sigalrm tv)
    let ?r = "snd (rtt_timeout fl (rttinfo s))"
    have r: "rtt_nrexmt ?r = 4 - int k" "fst (rtt_timeout fl (rttinfo s)) = (if k = 0 then -1 else 0)"
      using Cons.prems by (simp_all add: rtt_timeout_def Let_def)
    show ?thesis
    proof (cases k)
      case 0
      then show ?thesis using Sigalrm r by (simp add: dg_on_event_def split_def sent_more_def)
    next
      case (Suc j)
      let ?s = "send_again db tv outbuff (s\<lparr>rttinfo := ?r\<rparr>)"
      have step: "dg_on_event fl db outbuff e s = Go (?s, None)"
        using Sigalrm r Suc by (simp add: dg_on_event_def split_def)
      have "rtt_nrexmt (rttinfo ?s) = 3 - int j" "seqno ?s = seqno s"
        using r Suc by (simp_all add: send_again_def)
      with Cons.IH [of ?s j] show ?thesis
        using Sigalrm Suc step
        by (auto split: outcome.splits prod.splits option.splits intro: sent_more_again)
    qed
  next
    case (Datagram n q ts d tv)
    show ?thesis
    proof (cases "n < 8 \<or> q \<noteq> seqno s")
      case True
      then have "dg_on_event fl db outbuff e s = Go (s, None)" using Datagram by (simp add: dg_on_event_def)
      with Cons.IH [OF Cons.prems] True Datagram show ?thesis
        by (auto split: outcome.splits prod.splits option.splits)
    next
      case False
      then show ?thesis using Datagram
        by (auto simp: dg_on_event_def sent_more_def intro!: exI [of _ 0])
    qed
  qed
qed

lemma dg_start_state:
  "rtt_nrexmt (rttinfo (dg_start fl db tv outbuff s)) = 0" "seqno (dg_start fl db tv outbuff s) = seqno s + 1"
  by (simp_all add: dg_start_def send_again_def rtt_newpack_def Let_def)

lemma dg_start_sent:
  assumes "sent_more outbuff (dg_start fl db tv outbuff s) s' j"
  shows "\<exists>X. sent s' = sent s @ X \<and> length X = Suc j \<and> (\<forall>x\<in>set X. fst x = seqno s + 1 \<and> snd (snd x) = outbuff)"
proof -
  obtain X where X: "sent s' = sent (dg_start fl db tv outbuff s) @ X" "length X = j"
    "\<forall>x\<in>set X. fst x = seqno s + 1 \<and> snd (snd x) = outbuff"
    using assms dg_start_state(2) [of fl db tv outbuff s] by (auto simp: sent_more_def)
  obtain x where "sent (dg_start fl db tv outbuff s) = sent s @ [x]" "fst x = seqno s + 1" "snd (snd x) = outbuff"
    by (auto simp: dg_start_def send_again_def Let_def)
  with X show ?thesis by (intro exI [of _ "x # X"]) auto
qed

text \<open>
  C14 One call of \<open>dg_send_recv\<close>, for every behaviour of the network. It sends the request at most four
  times (once and three retransmissions), always with the next sequence number and the same data. It
  returns a reply only if some datagram had that sequence number and a whole header, and then the
  data of it; it gives up exactly after four timeouts without such a datagram, and then forgets its
  estimators. As long as it waits there were at most three timeouts and no answer: it always ends
  once the answer or the fourth timeout has come.
\<close>

theorem dg_send_recv_correct:
  "case dg_send_recv fl db tv outbuff es s of
      Ret (s', Some reply) \<Rightarrow> (\<exists>e\<in>set es. answers (seqno s + 1) e reply)
        \<and> (\<exists>X. sent s' = sent s @ X \<and> 1 \<le> length X \<and> length X \<le> 4
             \<and> (\<forall>x\<in>set X. fst x = seqno s + 1 \<and> snd (snd x) = outbuff))
    | Ret (s', None) \<Rightarrow> 4 \<le> alarm_count es \<and> \<not> rttinit s'
        \<and> (\<exists>X. sent s' = sent s @ X \<and> length X = 4 \<and> (\<forall>x\<in>set X. fst x = seqno s + 1 \<and> snd (snd x) = outbuff))
    | Go (s', _) \<Rightarrow> alarm_count es \<le> 3 \<and> (\<forall>e\<in>set es. \<forall>b. \<not> answers (seqno s + 1) e b)
        \<and> length (sent s') = length (sent s) + 1 + alarm_count es
    | Die _ \<Rightarrow> False"
proof -
  let ?s = "dg_start fl db tv outbuff s"
  have "rtt_nrexmt (rttinfo ?s) = 3 - int 3" by (simp add: dg_start_state)
  note r = dg_rounds [OF this, where fl = fl and db = db and outbuff = outbuff and es = es, folded dg_send_recv_def]
  show ?thesis
  proof (cases "dg_send_recv fl db tv outbuff es s")
    case (Go x)
    then show ?thesis using r dg_start_sent [of outbuff fl db tv s "fst x" "alarm_count es"]
      by (auto simp: dg_start_state split: prod.splits)
  next
    case (Ret x)
    show ?thesis
    proof (cases "snd x")
      case None
      then show ?thesis using r Ret dg_start_sent [of outbuff fl db tv s "fst x" 3]
        by (auto split: prod.splits)
    next
      case (Some b)
      then obtain j where "sent_more outbuff ?s (fst x) j" "j \<le> 3" "\<exists>e\<in>set es. answers (seqno s + 1) e b"
        using r Ret by (auto simp: dg_start_state split: prod.splits)
      then show ?thesis using Ret Some dg_start_sent [of outbuff fl db tv s "fst x" j]
        by (auto split: prod.splits intro: exI)
    qed
  next
    case (Die x)
    then show ?thesis using r by auto
  qed
qed

definition sender_zero :: sender where
  "sender_zero = \<lparr>rttinfo = rtt_zero, rttinit = False, seqno = 0, sent = [], alarms = []\<rparr>"

theorem dg_send_recv_correct_witness:
  "\<exists>s'. dg_send_recv (\<lambda>x. x) (\<lambda>x. x) (0, 0) ''hi'' [Sigalrm (3, 0), Datagram 10 1 0 ''hi'' (4, 0)] sender_zero
      = Ret (s', Some ''hi'') \<and> 1 \<le> length (sent s') \<and> length (sent s') \<le> 4"
proof -
  let ?es = "[Sigalrm (3, 0), Datagram 10 1 0 ''hi'' (4, 0)]"
  obtain s' where s': "dg_send_recv (\<lambda>x. x) (\<lambda>x. x) (0, 0) ''hi'' ?es sender_zero = Ret (s', Some ''hi'')"
    by (simp add: dg_send_recv_def dg_start_def dg_on_event_def sender_zero_def send_again_def
        rtt_newpack_def rtt_timeout_def Let_def rtt_init_def rtt_zero_def)
  have "sent sender_zero = []" by (simp add: sender_zero_def)
  with dg_send_recv_correct [where fl = "\<lambda>x. x" and db = "\<lambda>x. x" and tv = "(0, 0)" and outbuff = "''hi''"
      and es = ?es and s = sender_zero] s' show ?thesis
    by (intro exI [of _ s']) auto
qed

section \<open>The client loop\<close>

text \<open>\<open>rtt/dg_cli.c\<close>: each line of input with the events during its request; the replies printed, cut
  at the first NUL as \<open>Fputs\<close> does.\<close>

fun dg_cli :: "(rat \<Rightarrow> rat) \<Rightarrow> (rat \<Rightarrow> rat) \<Rightarrow> (string \<times> (int \<times> int) \<times> dg_event list) list \<Rightarrow> sender \<Rightarrow> string
    \<Rightarrow> (sender \<times> string) outcome" where
  "dg_cli fl db [] s printed = Ret (s, printed)"
| "dg_cli fl db ((sendline, tv, es) # input) s printed =
     (case Dg_send_recv fl db tv sendline es s of
        Ret (s, Some recvline) \<Rightarrow>
          dg_cli fl db input s (printed @ takeWhile (\<lambda>c. c \<noteq> CHR 0x00) (take 4096 recvline))
      | Go (s, _) \<Rightarrow> Go (s, printed)
      | r \<Rightarrow> Die (fst (final r), printed))"

end
