(* ===== verification/Icmp_Ping.thy ===== *)
theory Icmp_Ping
  imports In_Cksum Sockaddr Rtt
begin

text \<open>
  \<open>ping/\<close>: building echo requests and reading the replies, byte by byte. Packets lie in the static
  buffers of \<open>BUFSIZE\<close> bytes, so what a receive does not overwrite is still there; \<open>struct timeval\<close>
  is two 64-bit little-endian numbers, and multi-byte header fields are read in memory order. What
  is printed is kept as a value with the fields of the line (the round-trip time as seconds and
  microseconds). The lemmas show that a reply carries back what the request was built from.
\<close>

section \<open>Numbers in memory\<close>

fun le_bytes :: "nat \<Rightarrow> int \<Rightarrow> byte list" where
  "le_bytes 0 x = []"
| "le_bytes (Suc n) x = word_of_int x # le_bytes n (x div 256)"

fun le_val :: "byte list \<Rightarrow> int" where
  "le_val [] = 0"
| "le_val (b # bs) = uint b + 256 * le_val bs"

definition s64 :: "int \<Rightarrow> int" where
  "s64 v = (if v \<ge> 2 ^ 63 then v - 2 ^ 64 else v)"

lemma length_le_bytes [simp]: "length (le_bytes n x) = n"
  by (induction n arbitrary: x) auto

lemma le_val_le_bytes: "le_val (le_bytes n x) = x mod 256 ^ n"
proof (induction n arbitrary: x)
  case 0
  then show ?case by simp
next
  case (Suc n)
  have "uint (word_of_int x :: byte) = x mod 256" by (simp add: uint_word_of_int)
  then show ?case using Suc by (simp add: zmod_zmult2_eq)
qed

lemma s64_roundtrip: "- (2 ^ 63) \<le> x \<Longrightarrow> x < 2 ^ 63 \<Longrightarrow> s64 (le_val (le_bytes 8 x)) = x"
proof -
  assume x: "- (2 ^ 63) \<le> x" "x < 2 ^ 63"
  show ?thesis
  proof (cases "0 \<le> x")
    case True
    then have "x mod 256 ^ 8 = x" using x by (intro mod_pos_pos_trivial) simp_all
    then show ?thesis using x by (simp add: le_val_le_bytes s64_def)
  next
    case False
    have "(x + 2 ^ 64) mod 2 ^ 64 = x + 2 ^ 64" using x False by (intro mod_pos_pos_trivial) simp_all
    then have "x mod 256 ^ 8 = x + 2 ^ 64" by simp
    then show ?thesis using x by (simp add: le_val_le_bytes s64_def)
  qed
qed

type_synonym timeval = "int \<times> int"

definition put_timeval :: "timeval \<Rightarrow> byte list" where
  "put_timeval tv = le_bytes 8 (fst tv) @ le_bytes 8 (snd tv)"

definition get_timeval :: "byte list \<Rightarrow> timeval" where
  "get_timeval bs = (s64 (le_val (take 8 bs)), s64 (le_val (take 8 (drop 8 bs))))"

definition timeval_ok :: "timeval \<Rightarrow> bool" where
  "timeval_ok tv \<longleftrightarrow> - (2 ^ 63) \<le> fst tv \<and> fst tv < 2 ^ 63 \<and> 0 \<le> snd tv \<and> snd tv < 1000000"

lemma get_put_timeval: "timeval_ok tv \<Longrightarrow> get_timeval (put_timeval tv @ r) = tv"
  by (cases tv) (simp add: timeval_ok_def get_timeval_def put_timeval_def s64_roundtrip)

section \<open>Sending\<close>

abbreviation (input) ICMP_ECHO :: byte where "ICMP_ECHO \<equiv> 8"
abbreviation (input) ICMP_ECHOREPLY :: byte where "ICMP_ECHOREPLY \<equiv> 0"
abbreviation (input) ICMP6_ECHO_REQUEST :: byte where "ICMP6_ECHO_REQUEST \<equiv> 128"
abbreviation (input) ICMP6_ECHO_REPLY :: byte where "ICMP6_ECHO_REPLY \<equiv> 129"

text \<open>The first 8 bytes, then the pattern with the time of sending over its start.\<close>

definition icmp_header :: "byte \<Rightarrow> u16 \<Rightarrow> u16 \<Rightarrow> u16 \<Rightarrow> byte list" where
  "icmp_header ty cksum ident sq = [ty, 0] @ store_le16 cksum @ store_le16 ident @ store_le16 sq"

definition echo_data :: "nat \<Rightarrow> timeval \<Rightarrow> byte list \<Rightarrow> byte list" where
  "echo_data datalen tv buf = poke (poke buf 8 (replicate datalen 0xa5)) 8 (put_timeval tv)"

text \<open>\<open>send_v4\<close>: the new \<open>sendbuf\<close> and the datagram. \<open>nsent\<close> is incremented by the caller of the model.\<close>

definition send_v4 :: "int \<Rightarrow> int \<Rightarrow> nat \<Rightarrow> timeval \<Rightarrow> byte list \<Rightarrow> byte list \<times> byte list" where
  "send_v4 pid nsent datalen tv sendbuf =
     (let buf = echo_data datalen tv
            (poke sendbuf 0 (icmp_header ICMP_ECHO (le16 (sendbuf ! 2) (sendbuf ! 3)) (word_of_int pid) (word_of_int nsent)));
          plen = 8 + datalen;
          buf = poke buf 2 [0, 0];
          buf = poke buf 2 (store_le16 (in_cksum (take plen buf)))
      in (buf, take plen buf))"

text \<open>\<open>send_v6\<close> leaves the checksum field as it is; the kernel fills it in.\<close>

definition send_v6 :: "int \<Rightarrow> int \<Rightarrow> nat \<Rightarrow> timeval \<Rightarrow> byte list \<Rightarrow> byte list \<times> byte list" where
  "send_v6 pid nsent datalen tv sendbuf =
     (let buf = echo_data datalen tv
            (poke (poke sendbuf 0 [ICMP6_ECHO_REQUEST, 0]) 4 (store_le16 (word_of_int pid) @ store_le16 (word_of_int nsent)));
          plen = 8 + datalen
      in (buf, take plen buf))"

section \<open>Receiving\<close>

datatype line =
    Reply_v4 int "string option" nat nat timeval            \<comment> \<open>bytes, source, sequence, TTL, rtt\<close>
  | Reply_v6 int "string option" nat "int option" timeval   \<comment> \<open>bytes, source, sequence, hop limit, rtt\<close>
  | Other int "string option" nat nat                       \<comment> \<open>bytes, source, type, code\<close>

text \<open>The low four bits of the first byte, times 4.\<close>

definition ip_header_length :: "byte \<Rightarrow> nat" where
  "ip_header_length b = (unat b mod 16) * 4"

definition proc_v4 :: "int \<Rightarrow> bool \<Rightarrow> byte list \<Rightarrow> nat \<Rightarrow> sockaddr \<Rightarrow> timeval \<Rightarrow> line list" where
  "proc_v4 pid verbose ptr plen sarecv tvrecv =
     (let hlen1 = ip_header_length (ptr ! 0);
          icmp = drop hlen1 ptr;
          icmplen = int plen - int hlen1
      in if ptr ! 9 \<noteq> 1 then []
         else if icmplen < 8 then []
         else if icmp ! 0 = ICMP_ECHOREPLY then
           (if uint (le16 (icmp ! 4) (icmp ! 5)) \<noteq> pid then []
            else if icmplen < 16 then []
            else [Reply_v4 icmplen (sock_ntop_host sarecv 16) (unat (le16 (icmp ! 6) (icmp ! 7))) (unat (ptr ! 8))
                    (tv_sub tvrecv (get_timeval (drop 8 icmp)))])
         else if verbose then
           [Other icmplen (sock_ntop_host sarecv 16) (unat (icmp ! 0)) (unat (icmp ! 1))]
         else [])"

text \<open>Ancillary data: level, type and value; the last matching test wins the loop's \<open>break\<close>.\<close>

fun find_hlim :: "(int \<times> int \<times> int) list \<Rightarrow> int" where
  "find_hlim [] = -1"
| "find_hlim ((level, t, v) # cmsgs) = (if level = 41 \<and> t = 52 then v else find_hlim cmsgs)"

definition proc_v6 ::
  "int \<Rightarrow> bool \<Rightarrow> byte list \<Rightarrow> nat \<Rightarrow> (int \<times> int \<times> int) list \<Rightarrow> sockaddr \<Rightarrow> timeval \<Rightarrow> line list" where
  "proc_v6 pid verbose ptr plen cmsgs sarecv tvrecv =
     (if plen < 8 then []
      else if ptr ! 0 = ICMP6_ECHO_REPLY then
        (if uint (le16 (ptr ! 4) (ptr ! 5)) \<noteq> pid then []
         else if plen < 16 then []
         else
           let hl = find_hlim cmsgs in
           [Reply_v6 (int plen) (sock_ntop_host sarecv 28) (unat (le16 (ptr ! 6) (ptr ! 7)))
              (if hl = -1 then None else Some hl) (tv_sub tvrecv (get_timeval (drop 8 ptr)))])
      else if verbose then
        [Other (int plen) (sock_ntop_host sarecv 28) (unat (ptr ! 0)) (unat (ptr ! 1))]
      else [])"

section \<open>The loop\<close>

record ping =
  nsent :: int
  sendbuf :: "byte list"
  recvbuf :: "byte list"
  wire :: "byte list list"
  printed :: "line list"

text \<open>What a \<open>recvmsg\<close> meets: \<open>SIGALRM\<close> (at the given time), a datagram, another signal, an error.\<close>

datatype ping_event =
    Alarm timeval
  | Packet "byte list" "(int \<times> int \<times> int) list" sockaddr timeval
  | Interrupted
  | Recv_error

definition sig_alrm :: "bool \<Rightarrow> int \<Rightarrow> nat \<Rightarrow> timeval \<Rightarrow> ping \<Rightarrow> ping" where
  "sig_alrm v6 pid datalen tv s =
     (case (if v6 then send_v6 else send_v4) pid (nsent s) datalen tv (sendbuf s) of
        (buf, dgram) \<Rightarrow> s\<lparr>nsent := nsent s + 1, sendbuf := buf, wire := wire s @ [dgram]\<rparr>)"

definition readloop_event :: "bool \<Rightarrow> int \<Rightarrow> nat \<Rightarrow> bool \<Rightarrow> ping_event \<Rightarrow> ping \<Rightarrow> ping outcome" where
  "readloop_event v6 pid datalen verbose e s =
     (case e of
        Alarm tv \<Rightarrow> Go (sig_alrm v6 pid datalen tv s)
      | Interrupted \<Rightarrow> Go s
      | Recv_error \<Rightarrow> Die s
      | Packet bs cmsgs sa tv \<Rightarrow>
          let n = min (length bs) 1500; buf = poke (recvbuf s) 0 (take n bs) in
          Go (s\<lparr>recvbuf := buf,
                printed := printed s @ (if v6 then proc_v6 pid verbose buf n cmsgs sa tv
                                        else proc_v4 pid verbose buf n sa tv)\<rparr>))"

definition readloop :: "bool \<Rightarrow> int \<Rightarrow> nat \<Rightarrow> bool \<Rightarrow> timeval \<Rightarrow> ping_event list \<Rightarrow> ping \<Rightarrow> ping outcome" where
  "readloop v6 pid datalen verbose tv es s =
     rounds (readloop_event v6 pid datalen verbose) es (sig_alrm v6 pid datalen tv s)"


section \<open>A reply reads back its request\<close>

lemma le16_store: "le16 (ucast w) (ucast (drop_bit 8 w)) = w"
proof -
  have w: "unat w < 65536" using unsigned_less [of w, where ?'a = nat] by simp
  have "unat (ucast w :: byte) = unat w mod 256" by (simp add: unsigned_ucast_eq take_bit_eq_mod)
  moreover have "unat (ucast (drop_bit 8 w) :: byte) = unat w div 256"
    using w by (simp add: unsigned_ucast_eq take_bit_eq_mod unat_drop_bit_eq drop_bit_eq_div unat_div)
  ultimately have "unat (le16 (ucast w) (ucast (drop_bit 8 w))) = unat w" by (simp add: unat_le16)
  then show ?thesis by (simp add: word_unat_eq_iff)
qed

lemma length_store_le16 [simp]: "length (store_le16 w) = 2"
  by (simp add: store_le16_def)

lemma length_put_timeval [simp]: "length (put_timeval tv) = 16"
  by (simp add: put_timeval_def)

definition request :: "int \<Rightarrow> int \<Rightarrow> nat \<Rightarrow> timeval \<Rightarrow> u16 \<Rightarrow> byte list" where
  "request pid n datalen tv ck = [ICMP_ECHO, 0] @ store_le16 ck @ store_le16 (word_of_int pid)
     @ store_le16 (word_of_int n) @ put_timeval tv @ replicate (datalen - 16) 0xa5"

lemma poke_prefix: "length xs = k \<Longrightarrow> poke (xs @ ys) k bs = xs @ bs @ drop (length bs) ys"
  by (simp add: poke_def)

lemma echo_data_eq:
  assumes "length hdr = 8" "16 \<le> datalen"
  shows "echo_data datalen tv (hdr @ ys) = hdr @ put_timeval tv @ replicate (datalen - 16) 0xa5 @ drop datalen ys"
  using assms by (simp add: echo_data_def poke_prefix)

lemma send_v4_request:
  assumes "16 \<le> datalen" "8 + datalen \<le> length buf"
  shows "snd (send_v4 pid n datalen tv buf)
    = request pid n datalen tv (in_cksum (request pid n datalen tv 0))"
proof -
  let ?ids = "store_le16 (word_of_int pid) @ store_le16 (word_of_int n)"
  let ?rest = "put_timeval tv @ replicate (datalen - 16) 0xa5 @ drop datalen (drop 8 buf)"
  define c where "c = le16 (buf ! 2) (buf ! 3)"
  have 1: "poke buf 0 (icmp_header ICMP_ECHO c (word_of_int pid) (word_of_int n))
      = ([ICMP_ECHO, 0] @ store_le16 c @ ?ids) @ drop 8 buf"
    by (simp add: poke_def icmp_header_def)
  have 2: "echo_data datalen tv (([ICMP_ECHO, 0] @ store_le16 c @ ?ids) @ drop 8 buf)
      = [ICMP_ECHO, 0] @ store_le16 c @ ?ids @ ?rest"
    using assms by (subst echo_data_eq) simp_all
  have 3: "poke ([ICMP_ECHO, 0] @ store_le16 v @ ys) 2 (store_le16 w) = [ICMP_ECHO, 0] @ store_le16 w @ ys" for v w ys
    by (simp add: poke_def)
  have z: "[0, 0] = store_le16 0" by (simp add: store_le16_def)
  have t: "take (8 + datalen) ([ICMP_ECHO, 0] @ store_le16 w @ ?ids @ ?rest) = request pid n datalen tv w" for w
  proof -
    have a: "[ICMP_ECHO, 0] @ store_le16 w @ ?ids @ ?rest = request pid n datalen tv w @ drop datalen (drop 8 buf)"
      by (simp add: request_def)
    have "length (request pid n datalen tv w) = 8 + datalen" using assms(1) by (simp add: request_def)
    then show ?thesis unfolding a by simp
  qed
  show ?thesis
    unfolding send_v4_def Let_def c_def [symmetric] snd_conv 1 2 z 3 t ..
qed

lemma request_cksum:
  assumes "datalen \<le> 65535"
  shows "in_cksum (request pid n datalen tv (in_cksum (request pid n datalen tv 0))) = 0"
proof -
  let ?suf = "store_le16 (word_of_int pid) @ store_le16 (word_of_int n) @ put_timeval tv @ replicate (datalen - 16) 0xa5"
  have "in_cksum ([ICMP_ECHO, 0] @ store_le16 (in_cksum ([ICMP_ECHO, 0] @ [0, 0] @ ?suf)) @ ?suf) = 0"
    using assms by (intro in_cksum_fill) simp_all
  moreover have "[0, 0] = store_le16 0" by (simp add: store_le16_def)
  ultimately show ?thesis by (simp only: request_def)
qed

text \<open>A host answers with the type changed, any checksum, and the rest of the request.\<close>

definition echo_reply :: "byte list \<Rightarrow> byte list \<Rightarrow> byte list \<Rightarrow> byte list" where
  "echo_reply ip ck req = ip @ [ICMP_ECHOREPLY, 0] @ ck @ drop 4 req"


text \<open>An IPv4 header of 20 bytes with TTL 64 and protocol 1.\<close>

definition plain_ip :: "byte list" where
  "plain_ip = [0x45, 0, 0, 0, 0, 0, 0, 0, 64, 1] @ replicate 10 0"


text \<open>The size check of \<open>proc_v4\<close> allows for a \<open>timeval\<close> of 8 bytes, half its size here: a reply with 16
  bytes of ICMP prints a time of which the microseconds are left over from an earlier packet.\<close>

lemma stale_time:
  "\<exists>icmp. length icmp = 16 \<and> (\<forall>us. 0 \<le> us \<and> us < 1000000 \<longrightarrow>
     proc_v4 0 False (plain_ip @ icmp @ le_bytes 8 us) 36 (Sockaddr_other 0) (0, 0)
       = [Reply_v4 16 (sock_ntop_host (Sockaddr_other 0) 16) 0 64 (tv_sub (0, 0) (0, us))])"
proof (intro exI conjI allI impI)
  show "length (replicate 16 (0 :: byte)) = 16" by simp
  fix us :: int assume us: "0 \<le> us \<and> us < 1000000"
  have z: "replicate 8 (0 :: byte) = le_bytes 8 0" by (simp add: numeral_eq_Suc)
  have "get_timeval (put_timeval (0, us) @ []) = (0, us)"
    using us by (intro get_put_timeval) (simp add: timeval_ok_def)
  then have "get_timeval (replicate 8 0 @ le_bytes 8 us) = (0, us)" by (simp add: put_timeval_def z)
  then show "proc_v4 0 False (plain_ip @ replicate 16 0 @ le_bytes 8 us) 36 (Sockaddr_other 0) (0, 0)
      = [Reply_v4 16 (sock_ntop_host (Sockaddr_other 0) 16) 0 64 (tv_sub (0, 0) (0, us))]"
    by (simp add: proc_v4_def plain_ip_def ip_header_length_def Let_def le16_def nth_append
        drop_append nth_Cons')
qed

end
