(* ===== verification/Traceroute.thy ===== *)
theory Traceroute
  imports Icmp_Ping Getaddrinfo
begin

text \<open>
  \<open>traceroute/\<close>: recognising the ICMP errors that quote our own UDP probes, over the raw bytes of the
  receive buffer, and the loop over TTLs and probes. The verdict of \<open>recv_v4\<close> and \<open>recv_v6\<close> on one
  packet is separated from their loop over the events of the socket. \<open>ret\<close> is an uninitialised local
  variable in both; its value before any assignment is the parameter \<open>junk\<close>. The lemmas say which
  packets end the wait and with what code, and which probes a trace sends.
\<close>

section \<open>ICMP codes\<close>

definition icmpcode_v4 :: "int \<Rightarrow> string" where
  "icmpcode_v4 c =
     (if c = 0 then ''network unreachable''
      else if c = 1 then ''host unreachable''
      else if c = 2 then ''protocol unreachable''
      else if c = 3 then ''port unreachable''
      else if c = 4 then ''fragmentation required but DF bit set''
      else if c = 5 then ''source route failed''
      else if c = 6 then ''destination network unknown''
      else if c = 7 then ''destination host unknown''
      else if c = 8 then ''source host isolated (obsolete)''
      else if c = 9 then ''destination network administratively prohibited''
      else if c = 10 then ''destination host administratively prohibited''
      else if c = 11 then ''network unreachable for TOS''
      else if c = 12 then ''host unreachable for TOS''
      else if c = 13 then ''communication administratively prohibited by filtering''
      else if c = 14 then ''host recedence violation''
      else if c = 15 then ''precedence cutoff in effect''
      else ''[unknown code '' @ fmt_d c @ '']'')"

definition icmpcode_v6 :: "int \<Rightarrow> string" where
  "icmpcode_v6 c =
     (if c = 0 then ''no route to host''
      else if c = 1 then ''administratively prohibited''
      else if c = 2 then ''not a neighbor''
      else if c = 3 then ''address unreachable''
      else if c = 4 then ''port unreachable''
      else ''[unknown code '' @ fmt_d c @ '']'')"

section \<open>One packet\<close>

text \<open>The UDP header at the start of \<open>udp\<close> has our ports.\<close>

definition our_ports :: "u16 \<Rightarrow> u16 \<Rightarrow> int \<Rightarrow> byte list \<Rightarrow> bool" where
  "our_ports sport dport sn udp \<longleftrightarrow>
     le16 (udp ! 0) (udp ! 1) = htons sport \<and> le16 (udp ! 2) (udp ! 3) = htons (dport + word_of_int sn)"

text \<open>
  The body of the loop of \<open>recv_v4\<close> for \<open>n\<close> bytes received into \<open>buf\<close>: \<open>Some ret\<close> for \<open>break\<close>, \<open>None\<close>
  for another round.
\<close>

definition verdict_v4 :: "u16 \<Rightarrow> u16 \<Rightarrow> int \<Rightarrow> byte list \<Rightarrow> nat \<Rightarrow> int option" where
  "verdict_v4 sport dport sn buf n =
     (let hlen1 = ip_header_length (buf ! 0);
          icmp = drop hlen1 buf;
          icmplen = int n - int hlen1;
          hip = drop 8 icmp;
          hlen2 = ip_header_length (hip ! 0);
          udp = drop hlen2 hip;
          long = icmplen \<ge> 8 + 20 \<and> icmplen \<ge> 8 + int hlen2 + 4
      in if icmplen < 8 then None
         else if icmp ! 0 = 11 \<and> icmp ! 1 = 0 then
           (if long \<and> hip ! 9 = 17 \<and> our_ports sport dport sn udp then Some (-2) else None)
         else if icmp ! 0 = 3 then
           (if long \<and> hip ! 9 = 17 \<and> our_ports sport dport sn udp
            then Some (if icmp ! 1 = 3 then -1 else int (unat (icmp ! 1))) else None)
         else None)"

text \<open>\<open>recv_v6\<close>: the \<open>break\<close> of the first case is outside the \<open>if\<close>.\<close>

definition verdict_v6 :: "int \<Rightarrow> u16 \<Rightarrow> u16 \<Rightarrow> int \<Rightarrow> byte list \<Rightarrow> nat \<Rightarrow> int option" where
  "verdict_v6 junk sport dport sn buf n =
     (let hip6 = drop 8 buf; udp = drop 40 hip6;
          ours = (hip6 ! 6 = 17 \<and> our_ports sport dport sn udp)
      in if n < 8 then None
         else if buf ! 0 = 3 \<and> buf ! 1 = 0 then
           (if n < 8 + 40 + 4 then None else Some (if ours then -2 else junk))
         else if buf ! 0 = 1 then
           (if n < 8 + 40 + 4 then None
            else if ours then Some (if buf ! 1 = 4 then -1 else int (unat (buf ! 1)))
            else None)
         else None)"

section \<open>Waiting for the answer to a probe\<close>

datatype recv_event =
    Got "byte list" sockaddr      \<comment> \<open>\<open>recvfrom\<close> returns a datagram\<close>
  | Alarm_rang                    \<comment> \<open>\<open>SIGALRM\<close>, which also interrupts \<open>recvfrom\<close>\<close>
  | Signal_other                  \<comment> \<open>\<open>EINTR\<close> for another reason\<close>
  | Failed

record receiver =
  recvbuf :: "byte list"
  sarecv :: sockaddr
  gotalarm :: bool

definition recv_event :: "(byte list \<Rightarrow> nat \<Rightarrow> int option) \<Rightarrow> recv_event \<Rightarrow> receiver \<Rightarrow> (receiver \<times> int) outcome" where
  "recv_event verdict e s =
     (if gotalarm s then Ret (s, -3)
      else
        case e of
          Alarm_rang \<Rightarrow> Go (s\<lparr>gotalarm := True\<rparr>, 0)
        | Signal_other \<Rightarrow> Go (s, 0)
        | Failed \<Rightarrow> Die (s, 0)
        | Got bs sa \<Rightarrow>
            let n = min (length bs) 1500; s = s\<lparr>recvbuf := poke (recvbuf s) 0 (take n bs), sarecv := sa\<rparr> in
            (case verdict (recvbuf s) n of None \<Rightarrow> Go (s, 0) | Some ret \<Rightarrow> Ret (s, ret)))"

text \<open>The loop of both functions; the test of \<open>gotalarm\<close> at its head is also made when no event follows.\<close>

definition recv_probe :: "(byte list \<Rightarrow> nat \<Rightarrow> int option) \<Rightarrow> recv_event list \<Rightarrow> receiver \<Rightarrow> (receiver \<times> int) outcome" where
  "recv_probe verdict es s =
     (case rounds (\<lambda>e r. recv_event verdict e (fst r)) es (s\<lparr>gotalarm := False\<rparr>, 0) of
        Go (s', r) \<Rightarrow> if gotalarm s' then Ret (s', -3) else Go (s', r)
      | r \<Rightarrow> r)"

definition recv_v4 :: "u16 \<Rightarrow> u16 \<Rightarrow> int \<Rightarrow> recv_event list \<Rightarrow> receiver \<Rightarrow> (receiver \<times> int) outcome" where
  "recv_v4 sport dport sn = recv_probe (verdict_v4 sport dport sn)"

definition recv_v6 :: "int \<Rightarrow> u16 \<Rightarrow> u16 \<Rightarrow> int \<Rightarrow> recv_event list \<Rightarrow> receiver \<Rightarrow> (receiver \<times> int) outcome" where
  "recv_v6 junk sport dport sn = recv_probe (verdict_v6 junk sport dport sn)"

section \<open>The trace\<close>

text \<open>What the trace prints; a round-trip time is kept as seconds and microseconds.\<close>

datatype trace_out =
    Ttl int
  | Star
  | Router "string option" "string option"   \<comment> \<open>host name, if \<open>getnameinfo\<close> finds one, and address\<close>
  | Time timeval
  | Icmp string
  | Newline

record tracer =
  seqn :: int
  dn :: int
  salast :: sockaddr
  probes :: "(int \<times> int \<times> u16) list"       \<comment> \<open>TTL, sequence number and destination port of each probe\<close>
  shown :: "trace_out list"

text \<open>The answer to the probe with a sequence number: the code of \<open>recv\<close>, who sent it, and the times
  of sending and receiving.\<close>

record probe_answer =
  rcode :: int
  router :: sockaddr
  tv_send :: timeval
  tv_recv :: timeval

definition trace_probe ::
  "resolver \<Rightarrow> (int \<Rightarrow> string) \<Rightarrow> u16 \<Rightarrow> (int \<Rightarrow> probe_answer) \<Rightarrow> int \<Rightarrow> tracer \<Rightarrow> tracer" where
  "trace_probe env icmpcode dport answer hop s =
     (let s = s\<lparr>seqn := seqn s + 1\<rparr>;
          s = s\<lparr>probes := probes s @ [(hop, seqn s, dport + word_of_int (seqn s))]\<rparr>;
          a = answer (seqn s)
      in if rcode a = -3 then s\<lparr>shown := shown s @ [Star]\<rparr>
         else
           let new = sock_cmp_addr (router a) (salast s) \<noteq> 0;
               host = (case getnameinfo env (router a) 1025 0 0 of Some (Some str, _) \<Rightarrow> Some str | _ \<Rightarrow> None);
               s = (if new then s\<lparr>salast := router a, shown := shown s @ [Router host (sock_ntop_host (router a) 16)]\<rparr> else s);
               s = s\<lparr>shown := shown s @ [Time (tv_sub (tv_recv a) (tv_send a))]\<rparr>
           in if rcode a = -1 then s\<lparr>dn := dn s + 1\<rparr>
              else if rcode a \<ge> 0 then s\<lparr>shown := shown s @ [Icmp (icmpcode (rcode a))]\<rparr>
              else s)"

text \<open>\<open>bzero(pr->salast)\<close> also clears the family, so it equals no address.\<close>

definition trace_hop ::
  "resolver \<Rightarrow> (int \<Rightarrow> string) \<Rightarrow> u16 \<Rightarrow> nat \<Rightarrow> (int \<Rightarrow> probe_answer) \<Rightarrow> int \<Rightarrow> tracer \<Rightarrow> tracer" where
  "trace_hop env icmpcode dport nprobes answer hop s =
     (let s = s\<lparr>salast := Sockaddr_other 0, shown := shown s @ [Ttl hop]\<rparr>;
          s = (trace_probe env icmpcode dport answer hop ^^ nprobes) s
      in s\<lparr>shown := shown s @ [Newline]\<rparr>)"

text \<open>\<open>for (ttl = 1; ttl <= max_ttl && done == 0; ttl++)\<close>, by recursion on the TTLs that are left.\<close>

fun trace_hops ::
  "resolver \<Rightarrow> (int \<Rightarrow> string) \<Rightarrow> u16 \<Rightarrow> nat \<Rightarrow> (int \<Rightarrow> probe_answer) \<Rightarrow> int list \<Rightarrow> tracer \<Rightarrow> tracer" where
  "trace_hops env icmpcode dport nprobes answer [] s = s"
| "trace_hops env icmpcode dport nprobes answer (hop # ttls) s =
     (if dn s \<noteq> 0 then s
      else trace_hops env icmpcode dport nprobes answer ttls
             (trace_hop env icmpcode dport nprobes answer hop s))"

definition traceloop ::
  "resolver \<Rightarrow> (int \<Rightarrow> string) \<Rightarrow> u16 \<Rightarrow> nat \<Rightarrow> int \<Rightarrow> (int \<Rightarrow> probe_answer) \<Rightarrow> tracer" where
  "traceloop env icmpcode dport nprobes max_ttl answer =
     trace_hops env icmpcode dport nprobes answer [1..max_ttl]
       \<lparr>seqn = 0, dn = 0, salast = Sockaddr_other 0, probes = [], shown = []\<rparr>"


section \<open>Which packets answer a probe\<close>

text \<open>The ports on the wire are big-endian.\<close>

definition wire_ports :: "byte list \<Rightarrow> nat \<times> nat" where
  "wire_ports udp = (256 * unat (udp ! 0) + unat (udp ! 1), 256 * unat (udp ! 2) + unat (udp ! 3))"

lemma htons_le16: "unat (htons (le16 hi lo)) = 256 * unat hi + unat lo"
proof -
  have "unat hi < 256" using unsigned_less [of hi, where ?'a = nat] by simp
  then show ?thesis by (simp add: unat_htons unat_le16)
qed

lemma le16_htons: "le16 hi lo = htons p \<longleftrightarrow> 256 * unat hi + unat lo = unat p"
  by (metis htons_htons htons_le16 word_unat_eq_iff)

lemma our_ports_wire:
  "our_ports sport dport sn udp \<longleftrightarrow> wire_ports udp = (unat sport, unat (dport + word_of_int sn))"
  by (simp add: our_ports_def wire_ports_def le16_htons)

lemma wire_ports_append: "4 \<le> length udp \<Longrightarrow> wire_ports (udp @ stale) = wire_ports udp"
proof -
  assume "4 \<le> length udp"
  then have "(udp @ stale) ! i = udp ! i" if "i < 4" for i using that by (simp add: nth_append)
  then show ?thesis by (simp add: wire_ports_def)
qed

definition ipv4_header :: "byte list \<Rightarrow> bool" where
  "ipv4_header h \<longleftrightarrow> 20 \<le> length h \<and> length h = ip_header_length (h ! 0)"

text \<open>An ICMP error: type, code, six more bytes, then the quoted IP header and the start of its data.\<close>

definition icmp_error :: "byte \<Rightarrow> byte \<Rightarrow> byte list \<Rightarrow> byte list \<Rightarrow> byte list \<Rightarrow> byte list" where
  "icmp_error ty cd fill inner udp = [ty, cd] @ fill @ inner @ udp"

lemma verdict_v4_error:
  assumes ip: "ipv4_header ip" and inner: "ipv4_header inner" and "length fill = 6" "4 \<le> length udp"
  shows "verdict_v4 sport dport sn (ip @ icmp_error ty cd fill inner udp @ stale)
      (length (ip @ icmp_error ty cd fill inner udp))
    = (if inner ! 9 = 17 \<and> wire_ports udp = (unat sport, unat (dport + word_of_int sn))
       then if ty = 11 \<and> cd = 0 then Some (-2)
            else if ty = 3 then Some (if cd = 3 then -1 else int (unat cd)) else None
       else None)"
proof -
  let ?buf = "ip @ icmp_error ty cd fill inner udp @ stale"
  have h: "?buf ! 0 = ip ! 0" "length ip = ip_header_length (ip ! 0)" "20 \<le> length ip"
    using ip by (auto simp: ipv4_header_def nth_append)
  have icmp: "drop (length ip) ?buf = [ty, cd] @ fill @ inner @ udp @ stale"
    by (simp add: icmp_error_def)
  obtain f1 f2 f3 f4 f5 f6 where f: "fill = [f1, f2, f3, f4, f5, f6]"
    using \<open>length fill = 6\<close> by (auto simp: length_Suc_conv numeral_eq_Suc)
  have hip: "drop 8 ([ty, cd] @ fill @ inner @ udp @ stale) = inner @ udp @ stale" by (simp add: f)
  have i: "(inner @ udp @ stale) ! 0 = inner ! 0" "(inner @ udp @ stale) ! 9 = inner ! 9"
    "length inner = ip_header_length (inner ! 0)" "20 \<le> length inner"
    using inner by (auto simp: ipv4_header_def nth_append)
  have u: "drop (length inner) (inner @ udp @ stale) = udp @ stale" by simp
  have p: "our_ports sport dport sn (udp @ stale) \<longleftrightarrow> wire_ports udp = (unat sport, unat (dport + word_of_int sn))"
    using \<open>4 \<le> length udp\<close> by (simp add: our_ports_wire wire_ports_append)
  have len: "int (length (ip @ icmp_error ty cd fill inner udp)) - int (length ip) = 8 + int (length inner) + int (length udp)"
    by (simp add: icmp_error_def f)
  have b: "([ty, cd] @ fill @ inner @ udp @ stale) ! 0 = ty" "([ty, cd] @ fill @ inner @ udp @ stale) ! 1 = cd" by simp_all
  show ?thesis
    unfolding verdict_v4_def Let_def h(1) h(2) [symmetric] icmp hip i(1,2) i(3) [symmetric] u p len b
    using i(4) \<open>4 \<le> length udp\<close> by auto
qed

lemma verdict_v6_error:
  assumes "length inner = 40" "length fill = 6" "4 \<le> length udp"
  shows "verdict_v6 junk sport dport sn (icmp_error ty cd fill inner udp @ stale)
      (length (icmp_error ty cd fill inner udp))
    = (let ours = (inner ! 6 = 17 \<and> wire_ports udp = (unat sport, unat (dport + word_of_int sn)))
       in if ty = 3 \<and> cd = 0 then Some (if ours then -2 else junk)
          else if ty = 1 \<and> ours then Some (if cd = 4 then -1 else int (unat cd))
          else None)"
proof -
  let ?buf = "icmp_error ty cd fill inner udp @ stale"
  obtain f1 f2 f3 f4 f5 f6 where f: "fill = [f1, f2, f3, f4, f5, f6]"
    using \<open>length fill = 6\<close> by (auto simp: length_Suc_conv numeral_eq_Suc)
  have hip: "drop 8 ?buf = inner @ udp @ stale" by (simp add: icmp_error_def f)
  have i: "(inner @ udp @ stale) ! 6 = inner ! 6" "drop 40 (inner @ udp @ stale) = udp @ stale"
    using assms(1) by (simp_all add: nth_append)
  have p: "our_ports sport dport sn (udp @ stale) \<longleftrightarrow> wire_ports udp = (unat sport, unat (dport + word_of_int sn))"
    using assms(3) by (simp add: our_ports_wire wire_ports_append)
  have len: "length (icmp_error ty cd fill inner udp) = 48 + length udp"
    using assms(1) by (simp add: icmp_error_def f)
  have b: "?buf ! 0 = ty" "?buf ! 1 = cd" by (simp_all add: icmp_error_def)
  show ?thesis
    unfolding verdict_v6_def Let_def hip i p len b using assms(3) by auto
qed

text \<open>
  C23 Which ICMP errors end the wait for a probe. With IPv4, a well-formed error (any IP options before
  it and inside it, any bytes left in the buffer behind it) gives -2 exactly when it is a time
  exceeded in transit that quotes a UDP header with our source port and the destination port of
  this probe, -1 when it is a port unreachable that does, the code for the other unreachable errors
  that do, and is ignored otherwise. With IPv6 the same holds for unreachable errors, but every
  time-exceeded error ends the wait, and one that quotes another flow returns the uninitialised
  \<open>ret\<close>.
\<close>

theorem icmp_errors_for_probes:
  assumes "ipv4_header ip" "ipv4_header inner" "length fill = 6" "4 \<le> length udp" "length inner6 = 40"
  shows "verdict_v4 sport dport sn (ip @ icmp_error ty cd fill inner udp @ stale)
      (length (ip @ icmp_error ty cd fill inner udp))
    = (if inner ! 9 = 17 \<and> wire_ports udp = (unat sport, unat (dport + word_of_int sn))
       then if ty = 11 \<and> cd = 0 then Some (-2)
            else if ty = 3 then Some (if cd = 3 then -1 else int (unat cd)) else None
       else None)
   \<and> verdict_v6 junk sport dport sn (icmp_error ty cd fill inner6 udp @ stale)
      (length (icmp_error ty cd fill inner6 udp))
    = (let ours = (inner6 ! 6 = 17 \<and> wire_ports udp = (unat sport, unat (dport + word_of_int sn)))
       in if ty = 3 \<and> cd = 0 then Some (if ours then -2 else junk)
          else if ty = 1 \<and> ours then Some (if cd = 4 then -1 else int (unat cd))
          else None)"
  using verdict_v4_error [OF assms(1-4)] verdict_v6_error [OF assms(5,3,4)] by (rule conjI)

theorem icmp_errors_for_probes_witness:
  "verdict_v4 40000 33434 1 (plain_ip @ icmp_error 11 0 (replicate 6 0) (plain_ip[9 := 17]) [0x9c, 0x40, 0x82, 0x9b] @ [])
     (length (plain_ip @ icmp_error 11 0 (replicate 6 0) (plain_ip[9 := 17]) [0x9c, 0x40, 0x82, 0x9b])) = Some (-2)
   \<and> verdict_v6 99 40000 33434 1 (icmp_error 3 0 (replicate 6 0) (replicate 40 0) [0, 53, 0, 53] @ [])
     (length (icmp_error 3 0 (replicate 6 0) (replicate 40 0) [0, 53, 0, 53])) = Some 99"
proof (rule conjI)
  have ip: "ipv4_header plain_ip" "ipv4_header (plain_ip[9 := 17])"
    by (simp_all add: ipv4_header_def plain_ip_def ip_header_length_def)
  note t = icmp_errors_for_probes [OF ip, where fill = "replicate 6 0" and ?inner6.0 = "replicate 40 0"
      and sport = 40000 and dport = 33434 and sn = 1 and stale = "[]" and junk = 99]
  show "verdict_v4 40000 33434 1 (plain_ip @ icmp_error 11 0 (replicate 6 0) (plain_ip[9 := 17]) [0x9c, 0x40, 0x82, 0x9b] @ [])
     (length (plain_ip @ icmp_error 11 0 (replicate 6 0) (plain_ip[9 := 17]) [0x9c, 0x40, 0x82, 0x9b])) = Some (-2)"
    by (subst conjunct1 [OF t]) (simp_all add: wire_ports_def plain_ip_def)
  show "verdict_v6 99 40000 33434 1 (icmp_error 3 0 (replicate 6 0) (replicate 40 0) [0, 53, 0, 53] @ [])
     (length (icmp_error 3 0 (replicate 6 0) (replicate 40 0) [0, 53, 0, 53])) = Some 99"
    by (subst conjunct2 [OF t]) (simp_all add: wire_ports_def Let_def)
qed

section \<open>Which probes a trace sends\<close>

text \<open>The sequence numbers of the probes with one TTL, and whether one of them reached the target.\<close>

definition hop_seqs :: "nat \<Rightarrow> int \<Rightarrow> int list" where
  "hop_seqs nprobes hop = map (\<lambda>k. (hop - 1) * int nprobes + int k) [1..<nprobes + 1]"

definition reached :: "nat \<Rightarrow> (int \<Rightarrow> probe_answer) \<Rightarrow> int \<Rightarrow> bool" where
  "reached nprobes answer hop \<longleftrightarrow> (\<exists>q\<in>set (hop_seqs nprobes hop). rcode (answer q) = -1)"

lemma reached_iff:
  "reached nprobes answer hop \<longleftrightarrow> (\<exists>k\<in>{1..<nprobes + 1}. rcode (answer ((hop - 1) * int nprobes + int k)) = -1)"
  by (simp only: reached_def hop_seqs_def set_map set_upt bex_simps)

lemma trace_probe_fields:
  "seqn (trace_probe env icmpcode dport answer hop s) = seqn s + 1"
  "probes (trace_probe env icmpcode dport answer hop s)
     = probes s @ [(hop, seqn s + 1, dport + word_of_int (seqn s + 1))]"
  "dn (trace_probe env icmpcode dport answer hop s) = dn s + (if rcode (answer (seqn s + 1)) = -1 then 1 else 0)"
  by (simp_all add: trace_probe_def Let_def)

lemma trace_probes:
  assumes "0 \<le> dn s"
  shows "seqn ((trace_probe env icmpcode dport answer hop ^^ j) s) = seqn s + int j
    \<and> map (\<lambda>(t, q, _). (t, q)) (probes ((trace_probe env icmpcode dport answer hop ^^ j) s))
        = map (\<lambda>(t, q, _). (t, q)) (probes s) @ map (\<lambda>k. (hop, seqn s + int k)) [1..<j + 1]
    \<and> dn s \<le> dn ((trace_probe env icmpcode dport answer hop ^^ j) s)
    \<and> (dn ((trace_probe env icmpcode dport answer hop ^^ j) s) = 0
        \<longleftrightarrow> dn s = 0 \<and> (\<forall>k\<in>{1..<j + 1}. rcode (answer (seqn s + int k)) \<noteq> -1))"
proof (induction j)
  case 0
  then show ?case by simp
next
  case (Suc j)
  have "{1..<Suc j + 1} = insert (Suc j) {1..<j + 1}" by auto
  with Suc assms show ?case by (auto simp: trace_probe_fields ac_simps)
qed

lemma trace_hop_fields:
  assumes "dn s = 0" "seqn s = (hop - 1) * int nprobes"
  shows "seqn (trace_hop env icmpcode dport nprobes answer hop s) = hop * int nprobes"
    "map (\<lambda>(t, q, _). (t, q)) (probes (trace_hop env icmpcode dport nprobes answer hop s))
       = map (\<lambda>(t, q, _). (t, q)) (probes s) @ map (Pair hop) (hop_seqs nprobes hop)"
    "dn (trace_hop env icmpcode dport nprobes answer hop s) = 0 \<longleftrightarrow> \<not> reached nprobes answer hop"
proof -
  let ?s = "s\<lparr>salast := Sockaddr_other 0, shown := shown s @ [Ttl hop]\<rparr>"
  have "0 \<le> dn ?s" using assms by simp
  note t = trace_probes [OF this, where j = nprobes and env = env and icmpcode = icmpcode and dport = dport and answer = answer and hop = hop]
  show "seqn (trace_hop env icmpcode dport nprobes answer hop s) = hop * int nprobes"
    using t assms(2) by (simp add: trace_hop_def Let_def algebra_simps)
  show "map (\<lambda>(t, q, _). (t, q)) (probes (trace_hop env icmpcode dport nprobes answer hop s))
       = map (\<lambda>(t, q, _). (t, q)) (probes s) @ map (Pair hop) (hop_seqs nprobes hop)"
    using t assms(2) by (simp add: trace_hop_def hop_seqs_def comp_def Let_def)
  show "dn (trace_hop env icmpcode dport nprobes answer hop s) = 0 \<longleftrightarrow> \<not> reached nprobes answer hop"
    using t assms by (simp add: trace_hop_def reached_iff Let_def)
qed

lemma trace_hops_probes:
  assumes "dn s = 0" "seqn s = (first - 1) * int nprobes"
  shows "\<exists>T\<ge>first - 1. T \<le> max (first - 1) maxt
    \<and> map (\<lambda>(t, q, _). (t, q)) (probes (trace_hops env icmpcode dport nprobes answer [first..maxt] s))
        = map (\<lambda>(t, q, _). (t, q)) (probes s) @ concat (map (\<lambda>t. map (Pair t) (hop_seqs nprobes t)) [first..T])
    \<and> (T < maxt \<longrightarrow> first \<le> T \<and> reached nprobes answer T)
    \<and> (\<forall>t. first \<le> t \<and> t < T \<longrightarrow> \<not> reached nprobes answer t)"
  using assms
proof (induction "nat (maxt - first + 1)" arbitrary: first s)
  case 0
  then show ?case by (intro exI [of _ "first - 1"]) auto
next
  case (Suc n)
  then have le: "first \<le> maxt" by simp
  let ?s = "trace_hop env icmpcode dport nprobes answer first s"
  have l: "[first..maxt] = first # [first + 1..maxt]" using le by (rule upto_rec1)
  have step: "trace_hops env icmpcode dport nprobes answer [first..maxt] s
      = trace_hops env icmpcode dport nprobes answer [first + 1..maxt] ?s"
    using Suc.prems(1) by (simp add: l)
  note f = trace_hop_fields [OF Suc.prems, where env = env and icmpcode = icmpcode and dport = dport and answer = answer]
  show ?case
  proof (cases "reached nprobes answer first")
    case True
    then have "dn ?s \<noteq> 0" using f(3) by simp
    then have "trace_hops env icmpcode dport nprobes answer [first + 1..maxt] ?s = ?s"
      by (cases "[first + 1..maxt]") simp_all
    then show ?thesis
      using le True f(2) step by (intro exI [of _ first]) (auto simp: max_def)
  next
    case False
    have "n = nat (maxt - (first + 1) + 1)" using Suc.hyps(2) by simp
    from Suc.hyps(1) [OF this, of ?s] False f(1,3) obtain T where T: "first \<le> T" "T \<le> max first maxt"
      "map (\<lambda>(t, q, _). (t, q)) (probes (trace_hops env icmpcode dport nprobes answer [first + 1..maxt] ?s))
        = map (\<lambda>(t, q, _). (t, q)) (probes ?s) @ concat (map (\<lambda>t. map (Pair t) (hop_seqs nprobes t)) [first + 1..T])"
      "T < maxt \<longrightarrow> first + 1 \<le> T \<and> reached nprobes answer T"
      "\<forall>t. first + 1 \<le> t \<and> t < T \<longrightarrow> \<not> reached nprobes answer t" by auto
    have "[first..T] = first # [first + 1..T]" using T(1) by (rule upto_rec1)
    moreover have "\<not> reached nprobes answer t" if "first \<le> t" "t < T" for t
      using T(5) False that by (cases "t = first") auto
    ultimately show ?thesis
      using T le f(2) step by (intro exI [of _ T]) (auto simp: max_def)
  qed
qed



end
