(* ===== verification/Select_Server.thy ===== *)
theory Select_Server
  imports CPrelude
begin

text \<open>
  \<open>tcpcliserv/tcpservselect01.c\<close> and \<open>tcpcliserv/tcpservpoll01.c\<close>: the single-process echo servers
  over \<open>select\<close> and \<open>poll\<close>. One round of the server loop is a function of the server's state and of
  what the kernel answers in that round. \<open>Go\<close> is the next round, \<open>Die\<close> an exit through \<open>err_sys\<close> or
  \<open>err_quit\<close>, and \<open>Ret\<close> a \<open>read\<close> that blocks, so that the server hangs. The lemmas compare the loop,
  which stops scanning when \<open>nready\<close> reaches 0, with one that looks at every slot.
\<close>

section \<open>Scanning the slots\<close>

text \<open>
  \<open>for (i = 0; i <= maxi; i++)\<close> over the slots, serving the ready ones and leaving the loop when
  \<open>--nready <= 0\<close>.
\<close>

fun scan ::
  "('c \<Rightarrow> bool) \<Rightarrow> ('c \<Rightarrow> 's \<Rightarrow> ('c \<times> 's) outcome) \<Rightarrow> int \<Rightarrow> 'c list \<Rightarrow> 's \<Rightarrow> ('c list \<times> 's) outcome" where
  "scan ready serve nready [] s = Go ([], s)"
| "scan ready serve nready (c # cs) s =
     (if \<not> ready c then
        (case scan ready serve nready cs s of
           Go (cs', s') \<Rightarrow> Go (c # cs', s') | Ret (cs', s') \<Rightarrow> Ret (c # cs', s') | Die (cs', s') \<Rightarrow> Die (c # cs', s'))
      else
        case serve c s of
          Ret (c', s') \<Rightarrow> Ret (c' # cs, s')
        | Die (c', s') \<Rightarrow> Die (c' # cs, s')
        | Go (c', s') \<Rightarrow>
            if nready - 1 \<le> 0 then Go (c' # cs, s')
            else
              (case scan ready serve (nready - 1) cs s' of
                 Go (cs', s'') \<Rightarrow> Go (c' # cs', s'') | Ret (cs', s'') \<Rightarrow> Ret (c' # cs', s'')
               | Die (cs', s'') \<Rightarrow> Die (c' # cs', s'')))"

text \<open>When \<open>nready\<close> covers the ready slots and serving succeeds, the scan serves each of them once, in
  the order of the slots.\<close>

lemma scan_serves_all:
  assumes "\<And>c s. c \<in> set cs \<Longrightarrow> ready c \<Longrightarrow> serve c s = Go (after c, log c s)"
    and "int (length (filter ready cs)) \<le> nready"
  shows "scan ready serve nready cs s =
    Go (map (\<lambda>c. if ready c then after c else c) cs, fold log (filter ready cs) s)"
  using assms
proof (induction cs arbitrary: nready s)
  case Nil
  then show ?case by simp
next
  case (Cons c cs)
  have rest: "map (\<lambda>c. if ready c then after c else c) cs = cs" if "filter ready cs = []"
    using that by (induction cs) (auto split: if_splits)
  show ?case
  proof (cases "ready c")
    case True
    have n: "int (length (filter ready cs)) \<le> nready - 1" using Cons.prems(2) True by simp
    have s: "serve c s = Go (after c, log c s)" using Cons.prems(1) [of c s] True by simp
    show ?thesis
    proof (cases "nready - 1 \<le> 0")
      case True
      then have "filter ready cs = []" using n by (cases "filter ready cs") auto
      then show ?thesis using s True \<open>ready c\<close> rest by simp
    next
      case False
      then show ?thesis using s \<open>ready c\<close> Cons.IH [OF _ n, of "log c s"] Cons.prems(1) by simp
    qed
  next
    case False
    then show ?thesis using Cons.IH [of nready s] Cons.prems by simp
  qed
qed

section \<open>The \<open>select\<close> server\<close>

abbreviation (input) FD_SETSIZE :: nat where "FD_SETSIZE \<equiv> 1024"

datatype read_result = Bytes string | Eof | Reset | Read_error | Blocks

record server =
  listenfd :: int
  client :: "int list"
  maxi :: int
  maxfd :: int
  allset :: "int set"
  served :: "(int \<times> string) list"   \<comment> \<open>what was echoed, per descriptor\<close>
  closed :: "int list"
  overrun :: bool                    \<comment> \<open>\<open>FD_SET\<close> of a descriptor outside the \<open>fd_set\<close>\<close>

definition server_start :: "int \<Rightarrow> server" where
  "server_start lfd = \<lparr>listenfd = lfd, client = replicate FD_SETSIZE (-1), maxi = -1, maxfd = lfd,
     allset = {lfd}, served = [], closed = [], overrun = False\<rparr>"

text \<open>The kernel's part of a round: the ready descriptors in \<open>rset\<close> and their number, the
  connection \<open>accept\<close> returns, what \<open>read\<close> returns per descriptor.\<close>

record answer =
  rset :: "int set"
  nready :: int
  connfd :: int
  reads :: "int \<Rightarrow> read_result"

text \<open>The first free slot: \<open>for (i = 0; i < FD_SETSIZE; i++) if (client[i] < 0)\<close>.\<close>

fun free_slot :: "int list \<Rightarrow> nat option" where
  "free_slot [] = None"
| "free_slot (c # cs) = (if c < 0 then Some 0 else map_option Suc (free_slot cs))"

definition new_connection :: "int \<Rightarrow> server \<Rightarrow> server option" where
  "new_connection fd s =
     (case free_slot (client s) of
        None \<Rightarrow> None
      | Some i \<Rightarrow>
          Some (s\<lparr>client := (client s)[i := fd], allset := insert fd (allset s),
                  overrun := overrun s \<or> fd \<ge> int FD_SETSIZE,
                  maxfd := (if fd > maxfd s then fd else maxfd s),
                  maxi := (if int i > maxi s then int i else maxi s)\<rparr>))"

text \<open>The body for a client that is ready; \<open>Read\<close> exits on every error.\<close>

definition serve_client :: "(int \<Rightarrow> read_result) \<Rightarrow> int \<Rightarrow> server \<Rightarrow> (int \<times> server) outcome" where
  "serve_client rd sockfd s =
     (case rd sockfd of
        Eof \<Rightarrow> Go (-1, s\<lparr>closed := closed s @ [sockfd], allset := allset s - {sockfd}\<rparr>)
      | Bytes buf \<Rightarrow> Go (sockfd, s\<lparr>served := served s @ [(sockfd, buf)]\<rparr>)
      | Blocks \<Rightarrow> Ret (sockfd, s)
      | _ \<Rightarrow> Die (sockfd, s))"

definition check_clients :: "answer \<Rightarrow> int \<Rightarrow> server \<Rightarrow> server outcome" where
  "check_clients a count s =
     (let n = nat (maxi s + 1);
          store = (\<lambda>(cs, t). t\<lparr>client := cs @ drop n (client s)\<rparr>)
      in case scan (\<lambda>c. c \<ge> 0 \<and> c \<in> rset a) (serve_client (reads a)) count (take n (client s)) s of
           Go r \<Rightarrow> Go (store r) | Ret r \<Rightarrow> Ret (store r) | Die r \<Rightarrow> Die (store r))"

definition select_round :: "answer \<Rightarrow> server \<Rightarrow> server outcome" where
  "select_round a s =
     (if listenfd s \<in> rset a then
        (case new_connection (connfd a) s of
           None \<Rightarrow> Die s
         | Some s1 \<Rightarrow> if nready a - 1 \<le> 0 then Go s1 else check_clients a (nready a - 1) s1)
      else check_clients a (nready a) s)"

subsection \<open>The slot table\<close>

definition clients :: "server \<Rightarrow> int set" where
  "clients s = {c \<in> set (client s). c \<ge> 0}"

definition server_ok :: "server \<Rightarrow> bool" where
  "server_ok s \<longleftrightarrow> length (client s) = FD_SETSIZE \<and> 0 \<le> listenfd s \<and> listenfd s \<notin> clients s
     \<and> distinct (filter (\<lambda>c. c \<ge> 0) (client s))
     \<and> allset s = insert (listenfd s) (clients s)
     \<and> (\<forall>fd\<in>allset s. fd \<le> maxfd s)
     \<and> -1 \<le> maxi s \<and> (\<forall>i<FD_SETSIZE. client s ! i \<ge> 0 \<longrightarrow> int i \<le> maxi s)"

text \<open>What \<open>select\<close>, \<open>accept\<close> and a \<open>read\<close> from a ready descriptor promise.\<close>

definition answer_ok :: "answer \<Rightarrow> server \<Rightarrow> bool" where
  "answer_ok a s \<longleftrightarrow> rset a \<subseteq> allset s \<and> nready a = int (card (rset a)) \<and> 0 < nready a
     \<and> 0 \<le> connfd a \<and> connfd a \<notin> allset s
     \<and> (\<forall>fd\<in>rset a \<inter> clients s. reads a fd = Eof \<or> (\<exists>buf. reads a fd = Bytes buf))"


subsection \<open>One round against a round without shortcuts\<close>

text \<open>The reference: put the new connection into the first free slot, then look at every slot.\<close>

definition place :: "int \<Rightarrow> int list \<Rightarrow> int list" where
  "place fd cs = (case free_slot cs of None \<Rightarrow> cs | Some i \<Rightarrow> cs[i := fd])"

definition round_clients :: "answer \<Rightarrow> server \<Rightarrow> int list" where
  "round_clients a s =
     map (\<lambda>c. if c \<in> rset a \<and> c \<ge> 0 \<and> reads a c = Eof then -1 else c)
       (if listenfd s \<in> rset a then place (connfd a) (client s) else client s)"

definition echo_of :: "(int \<Rightarrow> read_result) \<Rightarrow> int \<Rightarrow> (int \<times> string) list" where
  "echo_of rd c = (case rd c of Bytes buf \<Rightarrow> [(c, buf)] | _ \<Rightarrow> [])"

definition round_served :: "answer \<Rightarrow> server \<Rightarrow> (int \<times> string) list" where
  "round_served a s = concat (map (echo_of (reads a)) (filter (\<lambda>c. c \<in> rset a \<and> c \<ge> 0) (client s)))"

definition log_client :: "(int \<Rightarrow> read_result) \<Rightarrow> int \<Rightarrow> server \<Rightarrow> server" where
  "log_client rd c s =
     (if rd c = Eof then s\<lparr>closed := closed s @ [c], allset := allset s - {c}\<rparr>
      else s\<lparr>served := served s @ echo_of rd c\<rparr>)"

lemma free_slot_Some: "free_slot cs = Some i \<Longrightarrow> i < length cs \<and> cs ! i < 0 \<and> (\<forall>j<i. cs ! j \<ge> 0)"
proof (induction cs arbitrary: i)
  case Nil
  then show ?case by simp
next
  case (Cons c cs)
  then show ?case by (auto split: if_splits simp: nth_Cons less_Suc_eq_0_disj split: nat.splits)
qed

lemma free_slot_None: "free_slot cs = None \<longleftrightarrow> (\<forall>c\<in>set cs. c \<ge> 0)"
  by (induction cs) auto

lemma fold_log_client:
  "client (fold (log_client rd) cs s) = client s" "maxi (fold (log_client rd) cs s) = maxi s"
  "maxfd (fold (log_client rd) cs s) = maxfd s" "listenfd (fold (log_client rd) cs s) = listenfd s"
  "overrun (fold (log_client rd) cs s) = overrun s"
  "served (fold (log_client rd) cs s) = served s @ concat (map (echo_of rd) cs)"
  "closed (fold (log_client rd) cs s) = closed s @ filter (\<lambda>c. rd c = Eof) cs"
  "allset (fold (log_client rd) cs s) = allset s - {c \<in> set cs. rd c = Eof}"
  by (induction cs arbitrary: s) (auto simp: log_client_def echo_of_def)

lemma filter_beyond:
  assumes "\<forall>i<length cs. cs ! i \<ge> 0 \<longrightarrow> i < n"
  shows "filter (\<lambda>c. c \<ge> 0) (drop n cs) = ([] :: int list)"
proof -
  have "\<not> cs ! (n + k) \<ge> 0" if "k < length cs - n" for k
    using assms that by (auto dest: spec [of _ "n + k"])
  then show ?thesis by (auto simp: filter_empty_conv in_set_conv_nth)
qed

text \<open>Scanning up to \<open>maxi\<close> reaches every client.\<close>

lemma check_clients_all:
  assumes len: "\<forall>i<length (client s). client s ! i \<ge> 0 \<longrightarrow> int i \<le> maxi s" and maxi: "-1 \<le> maxi s"
    and count: "int (length (filter (\<lambda>c. c \<in> rset a \<and> c \<ge> 0) (client s))) \<le> count"
    and ok: "\<forall>c\<in>set (client s). c \<ge> 0 \<and> c \<in> rset a \<longrightarrow> reads a c = Eof \<or> (\<exists>buf. reads a c = Bytes buf)"
  shows "check_clients a count s =
    Go ((fold (log_client (reads a)) (filter (\<lambda>c. c \<in> rset a \<and> c \<ge> 0) (client s)) s)
        \<lparr>client := map (\<lambda>c. if c \<in> rset a \<and> c \<ge> 0 \<and> reads a c = Eof then -1 else c) (client s)\<rparr>)"
proof -
  let ?n = "nat (maxi s + 1)" and ?ready = "\<lambda>c. c \<ge> 0 \<and> c \<in> rset a"
  let ?after = "\<lambda>c. if reads a c = Eof then -1 else c"
  have beyond: "filter (\<lambda>c. c \<ge> 0) (drop ?n (client s)) = []"
    using len maxi by (intro filter_beyond) auto
  have tail: "filter ?ready (drop ?n (client s)) = []"
    using beyond by (auto simp: filter_empty_conv)
  have split: "client s = take ?n (client s) @ drop ?n (client s)" by simp
  have ready: "filter ?ready (take ?n (client s)) = filter ?ready (client s)"
    using tail by (subst (2) split) (simp only: filter_append append_Nil2)
  have same: "filter (\<lambda>c. c \<in> rset a \<and> c \<ge> 0) (client s) = filter ?ready (client s)"
    by (rule filter_cong) auto
  have "scan ?ready (serve_client (reads a)) count (take ?n (client s)) s
      = Go (map (\<lambda>c. if ?ready c then ?after c else c) (take ?n (client s)),
            fold (log_client (reads a)) (filter ?ready (take ?n (client s))) s)"
  proof (rule scan_serves_all)
    fix c t assume "c \<in> set (take ?n (client s))" "?ready c"
    then have "reads a c = Eof \<or> (\<exists>buf. reads a c = Bytes buf)" using ok by (blast dest: in_set_takeD)
    then show "serve_client (reads a) c t = Go (?after c, log_client (reads a) c t)"
      by (auto simp: serve_client_def log_client_def echo_of_def)
  next
    show "int (length (filter ?ready (take ?n (client s)))) \<le> count"
      using count by (simp only: ready same)
  qed
  moreover have "map (\<lambda>c. if ?ready c then ?after c else c) (take ?n (client s)) @ drop ?n (client s)
      = map (\<lambda>c. if c \<in> rset a \<and> c \<ge> 0 \<and> reads a c = Eof then -1 else c) (client s)"
  proof -
    let ?F = "\<lambda>c. if c \<in> rset a \<and> c \<ge> 0 \<and> reads a c = Eof then -1 else c"
    have 1: "map ?F (drop ?n (client s)) = drop ?n (client s)"
      using tail by (intro map_idI) (auto simp: filter_empty_conv)
    have 2: "map (\<lambda>c. if ?ready c then ?after c else c) (take ?n (client s)) = map ?F (take ?n (client s))"
      by (rule map_cong) auto
    have "map ?F (client s) = map ?F (take ?n (client s) @ drop ?n (client s))" by simp
    then show ?thesis by (simp only: map_append 1 2)
  qed
  ultimately show ?thesis
    by (simp only: check_clients_def Let_def outcome.case prod.case ready same)
qed

subsection \<open>The table stays consistent\<close>

lemma filter_update_hidden:
  assumes "i < length xs" "\<not> P (xs ! i)" "\<not> P y"
  shows "filter P (xs[i := y]) = filter P xs"
  using assms by (subst (2) id_take_nth_drop [OF assms(1)]) (simp add: upd_conv_take_nth_drop)

lemma distinct_filter_update:
  assumes "i < length xs" "\<not> P (xs ! i)" "y \<notin> set xs" "distinct (filter P xs)"
  shows "distinct (filter P (xs[i := y]))"
proof -
  have xs: "xs = take i xs @ xs ! i # drop (Suc i) xs" using assms(1) by (rule id_take_nth_drop)
  have "y \<notin> set (take i xs)" "y \<notin> set (drop (Suc i) xs)"
    using assms(3) by (blast dest: in_set_takeD in_set_dropD)+
  moreover have "distinct (filter P (take i xs) @ filter P (drop (Suc i) xs))"
    using assms(2,4) by (subst (asm) xs) simp
  ultimately show ?thesis using assms(1) by (auto simp: upd_conv_take_nth_drop)
qed

lemma set_update_hidden:
  assumes "i < length xs" "\<not> P (xs ! i)" "P y"
  shows "{x \<in> set (xs[i := y]). P x} = insert y {x \<in> set xs. P x}"
proof -
  have xs: "set xs = set (take i xs) \<union> {xs ! i} \<union> set (drop (Suc i) xs)"
    by (subst id_take_nth_drop [OF assms(1)]) auto
  have "set (xs[i := y]) = set (take i xs) \<union> {y} \<union> set (drop (Suc i) xs)"
    using assms(1) by (auto simp: upd_conv_take_nth_drop)
  then show ?thesis unfolding xs using assms(2,3) by blast
qed

lemma server_okD:
  assumes "server_ok s"
  shows "length (client s) = FD_SETSIZE" "0 \<le> listenfd s" "listenfd s \<notin> clients s"
    "distinct (filter (\<lambda>c. c \<ge> 0) (client s))" "allset s = insert (listenfd s) (clients s)"
    "\<forall>fd\<in>allset s. fd \<le> maxfd s" "-1 \<le> maxi s" "\<forall>i<FD_SETSIZE. client s ! i \<ge> 0 \<longrightarrow> int i \<le> maxi s"
  using assms unfolding server_ok_def by blast+

lemma server_start_ok: "0 \<le> lfd \<Longrightarrow> server_ok (server_start lfd)"
  by (auto simp: server_ok_def server_start_def clients_def)

lemma new_connection_ok:
  assumes ok: "server_ok s" and new: "new_connection fd s = Some s1" and fd: "0 \<le> fd" "fd \<notin> allset s"
  shows "server_ok s1 \<and> client s1 = place fd (client s) \<and> listenfd s1 = listenfd s
    \<and> overrun s1 = (overrun s \<or> fd \<ge> int FD_SETSIZE)
    \<and> served s1 = served s \<and> clients s1 = insert fd (clients s) \<and> allset s1 = insert fd (allset s)"
proof -
  note D = server_okD [OF ok]
  obtain i where i: "free_slot (client s) = Some i" using new by (auto simp: new_connection_def split: option.splits)
  then have s1: "s1 = s\<lparr>client := (client s)[i := fd], allset := insert fd (allset s),
      overrun := overrun s \<or> fd \<ge> int FD_SETSIZE, maxfd := (if fd > maxfd s then fd else maxfd s),
      maxi := (if int i > maxi s then int i else maxi s)\<rparr>"
    using new by (simp add: new_connection_def)
  have slot: "i < length (client s)" "client s ! i < 0" using free_slot_Some [OF i] by auto
  have notin: "fd \<notin> set (client s)" using fd D(5) by (auto simp: clients_def)
  have cl: "clients s1 = insert fd (clients s)"
    using slot fd(1) set_update_hidden [of i "client s" "\<lambda>c. c \<ge> 0" fd] by (simp add: clients_def s1)
  have "distinct (filter (\<lambda>c. c \<ge> 0) ((client s)[i := fd]))"
    using slot notin D(4) by (intro distinct_filter_update) auto
  moreover have "\<forall>j<FD_SETSIZE. client s1 ! j \<ge> 0 \<longrightarrow> int j \<le> maxi s1"
    using D(1,8) by (auto simp: s1 nth_list_update [OF slot(1)])
  ultimately have "server_ok s1"
    using D cl fd by (auto simp: server_ok_def s1)
  then show ?thesis using cl i by (simp add: s1 place_def)
qed

lemma filter_closed:
  "filter (\<lambda>c. c \<ge> 0) (map (\<lambda>c. if P c then -1 else c) cs) = filter (\<lambda>c. c \<ge> 0 \<and> \<not> P c) (cs :: int list)"
  by (induction cs) auto

lemma close_ok:
  assumes ok: "server_ok s"
    and s': "s' = (fold (log_client rd) (filter (\<lambda>c. c \<in> R \<and> c \<ge> 0) (client s)) s)
        \<lparr>client := map (\<lambda>c. if c \<in> R \<and> c \<ge> 0 \<and> rd c = Eof then -1 else c) (client s)\<rparr>"
  shows "server_ok s'"
proof -
  note D = server_okD [OF ok]
  have f: "filter (\<lambda>c. c \<ge> 0) (client s') = filter (\<lambda>c. c \<ge> 0 \<and> \<not> (c \<in> R \<and> c \<ge> 0 \<and> rd c = Eof)) (client s)"
    by (simp add: s' filter_closed)
  have cl: "clients s' = clients s - {c \<in> clients s. c \<in> R \<and> rd c = Eof}"
    by (auto simp: s' clients_def)
  have listen: "listenfd s' = listenfd s" "maxfd s' = maxfd s" "maxi s' = maxi s"
    by (simp_all add: s' fold_log_client)
  have "distinct (filter (\<lambda>c. c \<ge> 0) (client s'))"
  proof -
    have "filter (\<lambda>c. c \<ge> 0) (client s') = filter (\<lambda>c. \<not> (c \<in> R \<and> c \<ge> 0 \<and> rd c = Eof)) (filter (\<lambda>c. c \<ge> 0) (client s))"
      unfolding f filter_filter by (rule filter_cong) auto
    then show ?thesis using D(4) by (simp only: distinct_filter)
  qed
  moreover have "allset s' = insert (listenfd s') (clients s')"
  proof -
    have "allset s' = allset s - {c \<in> set (filter (\<lambda>c. c \<in> R \<and> c \<ge> 0) (client s)). rd c = Eof}"
      by (simp add: s' fold_log_client)
    also have "{c \<in> set (filter (\<lambda>c. c \<in> R \<and> c \<ge> 0) (client s)). rd c = Eof}
        = {c \<in> clients s. c \<in> R \<and> rd c = Eof}"
      by (auto simp: clients_def)
    finally have "allset s' = allset s - {c \<in> clients s. c \<in> R \<and> rd c = Eof}" .
    moreover have "listenfd s \<notin> {c \<in> clients s. c \<in> R \<and> rd c = Eof}" using D(3) by simp
    ultimately show ?thesis by (simp only: D(5) cl listen insert_Diff_if if_False)
  qed
  moreover have "\<forall>i<FD_SETSIZE. client s' ! i \<ge> 0 \<longrightarrow> int i \<le> maxi s'"
    using D(1,8) by (auto simp: s' fold_log_client)
  ultimately show ?thesis
    using D cl listen by (auto simp: server_ok_def s')
qed

text \<open>Exactly the ready descriptors other than the listening one are ready clients.\<close>

lemma ready_clients:
  assumes ok: "server_ok s" and a: "answer_ok a s"
  shows "length (filter (\<lambda>c. c \<in> rset a \<and> c \<ge> 0) (client s)) = card (rset a - {listenfd s})"
proof -
  have "filter (\<lambda>c. c \<in> rset a \<and> c \<ge> 0) (client s) = filter (\<lambda>c. c \<in> rset a) (filter (\<lambda>c. c \<ge> 0) (client s))"
    unfolding filter_filter by (rule filter_cong) auto
  then have "distinct (filter (\<lambda>c. c \<in> rset a \<and> c \<ge> 0) (client s))"
    using server_okD(4) [OF ok] by (simp only: distinct_filter)
  moreover have "set (filter (\<lambda>c. c \<in> rset a \<and> c \<ge> 0) (client s)) = rset a - {listenfd s}"
    using a server_okD(3,5) [OF ok] by (auto simp: answer_ok_def clients_def)
  ultimately show ?thesis using distinct_card by fastforce
qed

lemma round_ok:
  assumes ok: "server_ok s" and a: "answer_ok a s"
    and free: "listenfd s \<in> rset a \<Longrightarrow> free_slot (client s) \<noteq> None"
  shows "\<exists>s'. select_round a s = Go s' \<and> server_ok s' \<and> client s' = round_clients a s
    \<and> served s' = served s @ round_served a s \<and> listenfd s' = listenfd s
    \<and> overrun s' = (overrun s \<or> listenfd s \<in> rset a \<and> connfd a \<ge> int FD_SETSIZE)
    \<and> clients s' = (if listenfd s \<in> rset a then insert (connfd a) (clients s) else clients s)
        - {c \<in> clients s. c \<in> rset a \<and> reads a c = Eof}"
proof -
  note D = server_okD [OF ok]
  have fin: "finite (rset a)" using a by (auto simp: answer_ok_def intro: card_ge_0_finite)
  have reads: "\<forall>c\<in>set (client s). c \<ge> 0 \<and> c \<in> rset a \<longrightarrow> reads a c = Eof \<or> (\<exists>buf. reads a c = Bytes buf)"
    using a by (auto simp: answer_ok_def clients_def)
  show ?thesis
  proof (cases "listenfd s \<in> rset a")
    case False
    have n: "int (length (filter (\<lambda>c. c \<in> rset a \<and> c \<ge> 0) (client s))) \<le> nready a"
      using a False by (simp add: ready_clients [OF ok a] answer_ok_def)
    have "\<forall>i<length (client s). client s ! i \<ge> 0 \<longrightarrow> int i \<le> maxi s" using D(1,8) by simp
    note c = check_clients_all [OF this D(7) n reads]
    show ?thesis
      using c False close_ok [OF ok refl, where rd = "reads a" and R = "rset a"]
      by (auto simp: select_round_def round_clients_def round_served_def fold_log_client clients_def)
  next
    case True
    then obtain s1 where new: "new_connection (connfd a) s = Some s1"
      using free by (auto simp: new_connection_def)
    have fd: "0 \<le> connfd a" "connfd a \<notin> allset s" "connfd a \<notin> rset a" using a by (auto simp: answer_ok_def)
    note N = new_connection_ok [OF ok new fd(1,2)]
    then have ok1: "server_ok s1" and cl1: "client s1 = place (connfd a) (client s)" by auto
    note D1 = server_okD [OF ok1]
    have same: "filter (\<lambda>c. c \<in> rset a \<and> c \<ge> 0) (client s1) = filter (\<lambda>c. c \<in> rset a \<and> c \<ge> 0) (client s)"
      using free_slot_Some fd(3) free True
      by (auto simp: cl1 place_def split: option.splits intro!: filter_update_hidden)
        (meson free_slot_Some not_le)
    have count: "int (length (filter (\<lambda>c. c \<in> rset a \<and> c \<ge> 0) (client s1))) = nready a - 1"
      using a True fin by (simp add: same ready_clients [OF ok a] answer_ok_def card_Diff_singleton_if)
    have reads1: "\<forall>c\<in>set (client s1). c \<ge> 0 \<and> c \<in> rset a \<longrightarrow> reads a c = Eof \<or> (\<exists>buf. reads a c = Bytes buf)"
    proof -
      have "{c \<in> set (client s1). c \<in> rset a \<and> c \<ge> 0} = {c \<in> set (client s). c \<in> rset a \<and> c \<ge> 0}"
        using arg_cong [OF same, of set] by simp
      then show ?thesis using reads by blast
    qed
    have bound: "\<forall>i<length (client s1). client s1 ! i \<ge> 0 \<longrightarrow> int i \<le> maxi s1" using D1(1,8) by simp
    show ?thesis
    proof (cases "nready a - 1 \<le> 0")
      case none: True
      then have none': "filter (\<lambda>c. c \<in> rset a \<and> c \<ge> 0) (client s1) = []"
        using count unfolding length_0_conv [symmetric] by linarith
      then have "map (\<lambda>c. if c \<in> rset a \<and> c \<ge> 0 \<and> reads a c = Eof then -1 else c) (client s1) = client s1"
        by (intro map_idI) (auto simp: filter_empty_conv)
      moreover have "{c \<in> clients s. c \<in> rset a \<and> reads a c = Eof} = {}"
        using none' unfolding same by (auto simp: filter_empty_conv clients_def)
      ultimately show ?thesis
        using new none True N none' unfolding same
        by (auto simp: select_round_def round_clients_def round_served_def cl1)
    next
      case False
      have "int (length (filter (\<lambda>c. c \<in> rset a \<and> c \<ge> 0) (client s1))) \<le> nready a - 1" using count by simp
      note c = check_clients_all [OF bound D1(7) this reads1]
      have "client (fold (log_client (reads a)) (filter (\<lambda>c. c \<in> rset a \<and> c \<ge> 0) (client s1)) s1) = client s1"
        by (simp add: fold_log_client)
      show ?thesis
        using c False new True N close_ok [OF ok1 refl, where rd = "reads a" and R = "rset a"] fd
        by (auto simp: select_round_def round_clients_def round_served_def fold_log_client same [unfolded cl1] clients_def cl1)
    qed
  qed
qed

lemma round_full: "listenfd s \<in> rset a \<Longrightarrow> free_slot (client s) = None \<Longrightarrow> select_round a s = Die s"
  by (simp add: select_round_def new_connection_def)

section \<open>The server over many rounds\<close>

inductive server_run :: "int \<Rightarrow> server \<Rightarrow> bool" for lfd where
  start: "server_run lfd (server_start lfd)"
| round: "server_run lfd s \<Longrightarrow> answer_ok a s \<Longrightarrow> select_round a s = Go s' \<Longrightarrow> server_run lfd s'"

lemma server_run_ok:
  assumes "server_run lfd s" "0 \<le> lfd" "lfd < int FD_SETSIZE"
  shows "server_ok s \<and> listenfd s = lfd \<and> (overrun s \<or> (\<forall>c\<in>clients s. c < int FD_SETSIZE))"
  using assms
proof (induction rule: server_run.induct)
  case start
  then show ?case using server_start_ok [of lfd] by (auto simp: server_start_def clients_def)
next
  case (round s a s')
  then have "listenfd s \<in> rset a \<Longrightarrow> free_slot (client s) \<noteq> None" using round_full [of s a] by auto
  with round round_ok [of s a] show ?case by auto
qed


lemma clients_fit:
  assumes ok: "server_ok s" and few: "\<forall>c\<in>clients s. c < int FD_SETSIZE" "listenfd s < int FD_SETSIZE"
  shows "free_slot (client s) \<noteq> None"
proof
  assume "free_slot (client s) = None"
  then have all: "\<forall>c\<in>set (client s). c \<ge> 0" by (simp add: free_slot_None)
  then have cs: "clients s = set (client s)" "filter (\<lambda>c. c \<ge> 0) (client s) = client s"
    by (auto simp: clients_def)
  have "distinct (client s)" using server_okD(4) [OF ok] cs(2) by simp
  then have "card (clients s) = FD_SETSIZE" using server_okD(1) [OF ok] by (simp add: cs(1) distinct_card)
  then have "card (insert (listenfd s) (clients s)) = Suc FD_SETSIZE"
    using server_okD(3) [OF ok] by (simp add: cs(1))
  moreover have "insert (listenfd s) (clients s) \<subseteq> {0..<int FD_SETSIZE}"
    using few server_okD(2) [OF ok] all cs(1) by auto
  then have "card (insert (listenfd s) (clients s)) \<le> FD_SETSIZE"
    using card_mono [of "{0..<int FD_SETSIZE}"] by simp
  ultimately show False by simp
qed

text \<open>
  The check for too many clients comes too late. A state the loop can reach without having called
  \<open>FD_SET\<close> on a descriptor outside the \<open>fd_set\<close> always has a free slot, so \<open>err_quit\<close> is never called
  in it; and the next connection whose descriptor is \<open>FD_SETSIZE\<close> or more is put into a slot and
  into \<open>allset\<close>, beyond its end.
\<close>

lemma too_many_clients_late:
  assumes "server_run lfd s" "0 \<le> lfd" "lfd < int FD_SETSIZE" "\<not> overrun s" "answer_ok a s"
  shows "\<exists>s'. select_round a s = Go s' \<and> overrun s' = (lfd \<in> rset a \<and> int FD_SETSIZE \<le> connfd a)"
proof -
  have s: "server_ok s" "listenfd s = lfd" "\<forall>c\<in>clients s. c < int FD_SETSIZE"
    using server_run_ok [OF assms(1-3)] assms(4) by auto
  then have "free_slot (client s) \<noteq> None" using assms(3) by (intro clients_fit) auto
  then show ?thesis using round_ok [OF s(1) assms(5)] s(2) assms(4) by auto
qed

text \<open>A server with descriptor 3 whose first two connections are 4 and 1024.\<close>

definition first_answer :: answer where
  "first_answer = \<lparr>rset = {3}, nready = 1, connfd = 4, reads = (\<lambda>_. Blocks)\<rparr>"

definition second_answer :: answer where
  "second_answer = \<lparr>rset = {3, 4}, nready = 2, connfd = 1024, reads = (\<lambda>_. Bytes ''hello'')\<rparr>"

lemma first_round:
  "\<exists>s. server_run 3 s \<and> \<not> overrun s \<and> answer_ok second_answer s \<and> 4 \<in> clients s \<and> served s = []
     \<and> (\<exists>c\<in>set (client s). c < 0)"
proof -
  let ?s = "server_start 3"
  have ok: "server_ok ?s" "answer_ok first_answer ?s" "free_slot (client ?s) \<noteq> None"
    using server_start_ok [of 3]
    by (auto simp: server_start_def answer_ok_def first_answer_def clients_def free_slot_None)
  have zero: "clients ?s = {}" "listenfd ?s = 3" "served ?s = []" "\<not> overrun ?s"
    "rset first_answer = {3}" "connfd first_answer = 4" "\<And>c. reads first_answer c = Blocks"
    "filter (\<lambda>c. c = 3 \<and> 0 \<le> c) (client ?s) = []"
    by (auto simp: server_start_def first_answer_def clients_def)
  obtain s where s: "select_round first_answer ?s = Go s" "server_ok s" "clients s = {4}"
    "listenfd s = 3" "\<not> overrun s" "served s = []"
    using round_ok [OF ok(1,2)] ok(3) zero by (auto simp: round_served_def)
  have run: "server_run 3 s" by (rule server_run.round [OF server_run.start ok(2) s(1)])
  have "answer_ok second_answer s"
    using server_okD(5) [OF s(2)] s(3,4) by (auto simp: answer_ok_def second_answer_def)
  moreover have "free_slot (client s) \<noteq> None" using s by (intro clients_fit) auto
  then have "\<exists>c\<in>set (client s). c < 0" by (metis free_slot_None not_le)
  ultimately show ?thesis using s run by auto
qed


lemma too_many_clients_late_example:
  "\<exists>s s'. server_run 3 s \<and> \<not> overrun s \<and> select_round second_answer s = Go s' \<and> overrun s'"
proof -
  obtain s where s: "server_run 3 s" "\<not> overrun s" "answer_ok second_answer s"
    using first_round by blast
  from too_many_clients_late [OF s(1) _ _ s(2,3)] show ?thesis
    using s by (auto simp: second_answer_def)
qed

end
