(* ===== verification/Poll_Server.thy ===== *)
theory Poll_Server
  imports Select_Server
begin

unbundle bit_operations_syntax

text \<open>
  \<open>tcpcliserv/tcpservpoll01.c\<close>: the same server over \<open>poll\<close>. A slot keeps the \<open>revents\<close> of the last
  \<open>poll\<close> that saw it; the slot beyond \<open>maxi\<close> that a new connection takes has never been seen, so its
  \<open>revents\<close> is whatever the uninitialised array holds. \<open>OPEN_MAX\<close> is the length of the array. The
  lemmas show that the countdown of \<open>nready\<close> keeps the server from acting on that value, and when
  it does not.
\<close>

section \<open>The server\<close>

abbreviation (input) POLLRDNORM :: u16 where "POLLRDNORM \<equiv> 0x40"
abbreviation (input) POLLERR :: u16 where "POLLERR \<equiv> 8"
abbreviation (input) POLLHUP :: u16 where "POLLHUP \<equiv> 0x10"

record pollfd =
  fd :: int
  revents :: u16

record pserver =
  slots :: "pollfd list"
  pmaxi :: int
  pserved :: "(int \<times> string) list"
  pclosed :: "int list"

text \<open>\<open>junk\<close> is the uninitialised content of the array.\<close>

definition poll_start :: "int \<Rightarrow> u16 list \<Rightarrow> pserver" where
  "poll_start lfd junk =
     \<lparr>slots = (map (\<lambda>r. \<lparr>fd = -1, revents = r\<rparr>) junk)[0 := \<lparr>fd = lfd, revents = junk ! 0\<rparr>],
      pmaxi = 0, pserved = [], pclosed = []\<rparr>"

record panswer =
  prevents :: "int \<Rightarrow> u16"
  pnready :: int
  pconnfd :: int
  preads :: "int \<Rightarrow> read_result"

text \<open>\<open>poll\<close> writes the \<open>revents\<close> of the slots up to \<open>maxi\<close>, 0 where the descriptor is negative.\<close>

definition poll_slots :: "panswer \<Rightarrow> int \<Rightarrow> pollfd list \<Rightarrow> pollfd list" where
  "poll_slots a n cs =
     map (\<lambda>c. c\<lparr>revents := (if fd c < 0 then 0 else prevents a (fd c))\<rparr>) (take (nat (n + 1)) cs)
     @ drop (nat (n + 1)) cs"

fun free_pollfd :: "pollfd list \<Rightarrow> nat option" where
  "free_pollfd [] = None"
| "free_pollfd (c # cs) = (if fd c < 0 then Some 0 else map_option Suc (free_pollfd cs))"

definition poll_accept :: "int \<Rightarrow> pserver \<Rightarrow> pserver option" where
  "poll_accept newfd s =
     (case free_pollfd (drop 1 (slots s)) of
        None \<Rightarrow> None
      | Some i \<Rightarrow>
          Some (s\<lparr>slots := (slots s)[Suc i := (slots s ! Suc i)\<lparr>fd := newfd\<rparr>],
                  pmaxi := (if int (Suc i) > pmaxi s then int (Suc i) else pmaxi s)\<rparr>))"

definition poll_ready :: "pollfd \<Rightarrow> bool" where
  "poll_ready c \<longleftrightarrow> fd c \<ge> 0 \<and> revents c AND (POLLRDNORM OR POLLERR) \<noteq> 0"

definition poll_serve :: "(int \<Rightarrow> read_result) \<Rightarrow> pollfd \<Rightarrow> pserver \<Rightarrow> (pollfd \<times> pserver) outcome" where
  "poll_serve rd c s =
     (case rd (fd c) of
        Reset \<Rightarrow> Go (c\<lparr>fd := -1\<rparr>, s\<lparr>pclosed := pclosed s @ [fd c]\<rparr>)
      | Eof \<Rightarrow> Go (c\<lparr>fd := -1\<rparr>, s\<lparr>pclosed := pclosed s @ [fd c]\<rparr>)
      | Bytes buf \<Rightarrow> Go (c, s\<lparr>pserved := pserved s @ [(fd c, buf)]\<rparr>)
      | Read_error \<Rightarrow> Die (c, s)
      | Blocks \<Rightarrow> Ret (c, s))"

definition poll_check :: "panswer \<Rightarrow> int \<Rightarrow> pserver \<Rightarrow> pserver outcome" where
  "poll_check a count s =
     (let n = nat (pmaxi s);
          store = (\<lambda>(cs, t). t\<lparr>slots := hd (slots s) # cs @ drop (Suc n) (slots s)\<rparr>)
      in case scan poll_ready (poll_serve (preads a)) count (take n (drop 1 (slots s))) s of
           Go r \<Rightarrow> Go (store r) | Ret r \<Rightarrow> Ret (store r) | Die r \<Rightarrow> Die (store r))"

definition poll_round :: "panswer \<Rightarrow> pserver \<Rightarrow> pserver outcome" where
  "poll_round a s =
     (let s = s\<lparr>slots := poll_slots a (pmaxi s) (slots s)\<rparr> in
      if revents (hd (slots s)) AND POLLRDNORM \<noteq> 0 then
        (case poll_accept (pconnfd a) s of
           None \<Rightarrow> Die s
         | Some s1 \<Rightarrow> if pnready a - 1 \<le> 0 then Go s1 else poll_check a (pnready a - 1) s1)
      else poll_check a (pnready a) s)"


section \<open>The countdown\<close>

text \<open>When \<open>nready\<close> is exactly the number of ready slots of a part, the scan does not look beyond it.\<close>

lemma scan_exact:
  assumes "\<And>c s. c \<in> set cs \<Longrightarrow> ready c \<Longrightarrow> serve c s = Go (after c, log c s)"
    and "int (length (filter ready cs)) = k" "0 < k"
  shows "scan ready serve k (cs @ ds) s =
    Go (map (\<lambda>c. if ready c then after c else c) cs @ ds, fold log (filter ready cs) s)"
  using assms
proof (induction cs arbitrary: k s)
  case Nil
  then show ?case by simp
next
  case (Cons c cs)
  show ?case
  proof (cases "ready c")
    case True
    have n: "int (length (filter ready cs)) = k - 1" using Cons.prems(2) True by simp
    have sv: "serve c s = Go (after c, log c s)" using Cons.prems(1) [of c s] True by simp
    show ?thesis
    proof (cases "k - 1 \<le> 0")
      case stop: True
      then have f: "filter ready cs = []" using n unfolding length_0_conv [symmetric] by linarith
      then have "map (\<lambda>c. if ready c then after c else c) cs = cs"
        by (intro map_idI) (auto simp: filter_empty_conv)
      then show ?thesis using sv stop True f by simp
    next
      case False
      then show ?thesis using sv True Cons.IH [OF _ n, of "log c s"] Cons.prems(1) by simp
    qed
  next
    case False
    then show ?thesis using Cons.IH [of k s] Cons.prems by simp
  qed
qed

section \<open>One round\<close>

definition polled :: "panswer \<Rightarrow> pserver \<Rightarrow> pollfd list" where
  "polled a s = map (\<lambda>c. c\<lparr>revents := (if fd c < 0 then 0 else prevents a (fd c))\<rparr>)
     (take (nat (pmaxi s)) (tl (slots s)))"

definition poll_ok :: "pserver \<Rightarrow> bool" where
  "poll_ok s \<longleftrightarrow> slots s \<noteq> [] \<and> 0 \<le> fd (hd (slots s)) \<and> 0 \<le> pmaxi s
     \<and> nat (pmaxi s) < length (slots s) \<and> (\<forall>c\<in>set (drop (nat (pmaxi s)) (tl (slots s))). fd c < 0)"

text \<open>
  What \<open>poll\<close> promises, and the assumption the code makes: a slot that is counted in \<open>nready\<close> has
  one of the two bits the loop tests.
\<close>

definition panswer_ok :: "panswer \<Rightarrow> pserver \<Rightarrow> bool" where
  "panswer_ok a s \<longleftrightarrow>
     (\<forall>c\<in>set (polled a s). revents c \<noteq> 0 \<longrightarrow> poll_ready c)
     \<and> (prevents a (fd (hd (slots s))) \<noteq> 0 \<longrightarrow> prevents a (fd (hd (slots s))) AND POLLRDNORM \<noteq> 0)
     \<and> pnready a = int (length (filter poll_ready (polled a s)))
         + (if prevents a (fd (hd (slots s))) \<noteq> 0 then 1 else 0)
     \<and> 0 < pnready a \<and> 0 \<le> pconnfd a
     \<and> (\<forall>c\<in>set (polled a s). poll_ready c \<longrightarrow>
          preads a (fd c) = Eof \<or> preads a (fd c) = Reset \<or> (\<exists>buf. preads a (fd c) = Bytes buf))"

definition poll_after :: "(int \<Rightarrow> read_result) \<Rightarrow> pollfd \<Rightarrow> pollfd" where
  "poll_after rd c = (if rd (fd c) = Eof \<or> rd (fd c) = Reset then c\<lparr>fd := -1\<rparr> else c)"

definition poll_log :: "(int \<Rightarrow> read_result) \<Rightarrow> pollfd \<Rightarrow> pserver \<Rightarrow> pserver" where
  "poll_log rd c s =
     (if rd (fd c) = Eof \<or> rd (fd c) = Reset then s\<lparr>pclosed := pclosed s @ [fd c]\<rparr>
      else s\<lparr>pserved := pserved s @ echo_of rd (fd c)\<rparr>)"

lemma poll_serve_log:
  "rd (fd c) = Eof \<or> rd (fd c) = Reset \<or> (\<exists>buf. rd (fd c) = Bytes buf) \<Longrightarrow>
   poll_serve rd c s = Go (poll_after rd c, poll_log rd c s)"
  by (auto simp: poll_serve_def poll_after_def poll_log_def echo_of_def)

lemma fold_poll_log:
  "slots (fold (poll_log rd) cs s) = slots s" "pmaxi (fold (poll_log rd) cs s) = pmaxi s"
  "pserved (fold (poll_log rd) cs s) = pserved s @ concat (map (\<lambda>c. echo_of rd (fd c)) cs)"
  "pclosed (fold (poll_log rd) cs s) =
     pclosed s @ map fd (filter (\<lambda>c. rd (fd c) = Eof \<or> rd (fd c) = Reset) cs)"
  by (induction cs arbitrary: s) (auto simp: poll_log_def echo_of_def)

lemma free_pollfd_Some: "free_pollfd cs = Some i \<Longrightarrow> i < length cs \<and> fd (cs ! i) < 0 \<and> (\<forall>j<i. fd (cs ! j) \<ge> 0)"
proof (induction cs arbitrary: i)
  case (Cons c cs)
  then show ?case by (auto split: if_splits simp: nth_Cons less_Suc_eq_0_disj split: nat.splits)
qed simp

lemma free_pollfd_None: "free_pollfd cs = None \<longleftrightarrow> (\<forall>c\<in>set cs. fd c \<ge> 0)"
  by (induction cs) auto

text \<open>The check when the ready slots are those of \<open>cs\<close>, at most \<open>ds\<close> following before \<open>maxi\<close>.\<close>

lemma poll_check_exact:
  assumes s: "slots s = c0 # cs @ ds @ rest" "nat (pmaxi s) = length (cs @ ds)"
    and count: "int (length (filter poll_ready cs)) = n" "0 < n"
    and ok: "\<forall>c\<in>set cs. poll_ready c \<longrightarrow>
      preads a (fd c) = Eof \<or> preads a (fd c) = Reset \<or> (\<exists>buf. preads a (fd c) = Bytes buf)"
  shows "poll_check a n s = Go ((fold (poll_log (preads a)) (filter poll_ready cs) s)
    \<lparr>slots := c0 # map (\<lambda>c. if poll_ready c then poll_after (preads a) c else c) cs @ ds @ rest\<rparr>)"
proof -
  have "scan poll_ready (poll_serve (preads a)) n (cs @ ds) s
      = Go (map (\<lambda>c. if poll_ready c then poll_after (preads a) c else c) cs @ ds,
          fold (poll_log (preads a)) (filter poll_ready cs) s)"
    using ok count by (intro scan_exact) (auto simp: poll_serve_log)
  then show ?thesis using s by (simp add: poll_check_def Let_def)
qed

text \<open>The outcome of a round: what is echoed, what is closed, and a table that is consistent again.\<close>

definition poll_outcome :: "panswer \<Rightarrow> pserver \<Rightarrow> pserver \<Rightarrow> bool" where
  "poll_outcome a s s' \<longleftrightarrow> poll_ok s'
     \<and> pserved s' = pserved s @ concat (map (\<lambda>c. echo_of (preads a) (fd c)) (filter poll_ready (polled a s)))
     \<and> pclosed s' = pclosed s @ map fd (filter (\<lambda>c. preads a (fd c) = Eof \<or> preads a (fd c) = Reset)
         (filter poll_ready (polled a s)))"

lemma poll_outcome_checked:
  assumes s1: "slots s1 = lc # cs @ ds @ rest" "nat (pmaxi s1) = length (cs @ ds)" "0 \<le> pmaxi s1" "0 \<le> fd lc"
    "\<forall>c\<in>set rest. fd c < 0" "pserved s1 = pserved s" "pclosed s1 = pclosed s"
    and ready: "filter poll_ready cs = filter poll_ready (polled a s)"
    and ok: "\<forall>c\<in>set (polled a s). poll_ready c \<longrightarrow>
      preads a (fd c) = Eof \<or> preads a (fd c) = Reset \<or> (\<exists>buf. preads a (fd c) = Bytes buf)"
    and count: "int (length (filter poll_ready (polled a s))) = n" "0 < n"
  shows "\<exists>s'. poll_check a n s1 = Go s' \<and> poll_outcome a s s'"
proof -
  have "\<forall>c\<in>set cs. poll_ready c \<longrightarrow>
      preads a (fd c) = Eof \<or> preads a (fd c) = Reset \<or> (\<exists>buf. preads a (fd c) = Bytes buf)"
  proof (intro ballI impI)
    fix c assume "c \<in> set cs" "poll_ready c"
    then have "c \<in> set (filter poll_ready (polled a s))" by (simp add: ready [symmetric])
    then show "preads a (fd c) = Eof \<or> preads a (fd c) = Reset \<or> (\<exists>buf. preads a (fd c) = Bytes buf)"
      using ok by auto
  qed
  note c = poll_check_exact [OF s1(1,2) _ count(2) this, unfolded ready, OF count(1)]
  show ?thesis
    unfolding c using s1 by (intro exI [of _ _]) (auto simp: poll_outcome_def poll_ok_def fold_poll_log)
qed

lemma poll_round_ok:
  assumes ok: "poll_ok s" and a: "panswer_ok a s" and free: "\<exists>c\<in>set (tl (slots s)). fd c < 0"
  shows "\<exists>s'. poll_round a s = Go s' \<and> poll_outcome a s s'"
proof -
  obtain c0 cs where cs: "slots s = c0 # cs" using ok by (cases "slots s") (auto simp: poll_ok_def)
  let ?n = "nat (pmaxi s)" and ?P = "polled a s"
  define c0' where "c0' = c0\<lparr>revents := prevents a (fd c0)\<rparr>"
  define R where "R = drop ?n cs"
  have s: "0 \<le> fd c0" "0 \<le> pmaxi s" "?n \<le> length cs" "\<forall>c\<in>set R. fd c < 0"
    using ok by (auto simp: poll_ok_def cs R_def)
  have len: "length ?P = ?n" using s(3) by (simp add: polled_def cs)
  have P0: "fd c < 0 \<Longrightarrow> c \<in> set ?P \<Longrightarrow> revents c = 0" for c
    by (auto simp: polled_def)
  let ?S = "s\<lparr>slots := c0' # ?P @ R\<rparr>"
  have S: "s\<lparr>slots := poll_slots a (pmaxi s) (slots s)\<rparr> = ?S"
    using s by (simp add: poll_slots_def cs c0'_def R_def polled_def nat_add_distrib)
  have reads: "\<forall>c\<in>set ?P. poll_ready c \<longrightarrow>
      preads a (fd c) = Eof \<or> preads a (fd c) = Reset \<or> (\<exists>buf. preads a (fd c) = Bytes buf)"
    using a by (auto simp: panswer_ok_def)
  have c0: "prevents a (fd c0) \<noteq> 0 \<longleftrightarrow> revents c0' AND POLLRDNORM \<noteq> 0"
    using a by (auto simp: panswer_ok_def cs c0'_def)
  have count: "pnready a = int (length (filter poll_ready ?P)) + (if revents c0' AND POLLRDNORM \<noteq> 0 then 1 else 0)"
    "0 < pnready a"
    using a c0 by (auto simp: panswer_ok_def cs)
  show ?thesis
  proof (cases "revents c0' AND POLLRDNORM \<noteq> 0")
    case False
    then have r: "poll_round a s = poll_check a (pnready a) ?S"
      unfolding poll_round_def S Let_def by simp
    show ?thesis unfolding r
      using s len count False reads
      by (intro poll_outcome_checked [where ds = "[]" and lc = c0' and cs = ?P and rest = R]) (auto simp: c0'_def)
  next
    case True
    have n: "int (length (filter poll_ready ?P)) = pnready a - 1" using count True by simp
    have "map fd (?P @ R) = map fd cs"
    proof -
      have "map fd ?P = map fd (take ?n cs)" by (simp add: polled_def cs comp_def)
      then show ?thesis by (simp only: map_append R_def) (simp add: flip: map_append)
    qed
    then have set: "fd ` set (?P @ R) = fd ` set cs" by (metis list.set_map)
    obtain c where "c \<in> set cs" "fd c < 0" using free by (auto simp: cs)
    then have "fd c \<in> fd ` set (?P @ R)" by (simp only: set imageI)
    then obtain d where "d \<in> set (?P @ R)" "fd d = fd c" by (metis imageE)
    with \<open>fd c < 0\<close> have "\<exists>c\<in>set (?P @ R). fd c < 0" by metis
    then obtain i where i: "free_pollfd (?P @ R) = Some i"
      by (metis free_pollfd_None not_le option.exhaust)
    note slot = free_pollfd_Some [OF i]
    let ?new = "((?P @ R) ! i)\<lparr>fd := pconnfd a\<rparr>"
    let ?S1 = "?S\<lparr>slots := c0' # (?P @ R)[i := ?new], pmaxi := (if int (Suc i) > pmaxi s then int (Suc i) else pmaxi s)\<rparr>"
    have acc: "poll_accept (pconnfd a) ?S = Some ?S1" by (simp add: poll_accept_def i)
    have r: "poll_round a s = (if pnready a - 1 \<le> 0 then Go ?S1 else poll_check a (pnready a - 1) ?S1)"
      using True unfolding poll_round_def S Let_def acc by simp
    have neg: "\<not> poll_ready ((?P @ R) ! i)" using slot by (simp add: poll_ready_def)
    show ?thesis
    proof (cases "i < ?n")
      case True
      have new: "\<not> poll_ready ?new" "i < length ?P" "fd (?P ! i) < 0"
        using slot True len P0 [of "?P ! i"] by (auto simp: poll_ready_def nth_append)
      have cs1: "slots ?S1 = c0' # ?P[i := ?new] @ [] @ R" using new(2) by (simp add: list_update_append1)
      have mx: "pmaxi ?S1 = pmaxi s" using True by simp
      have same: "filter poll_ready (?P[i := ?new]) = filter poll_ready ?P"
        using new neg by (intro filter_update_hidden) (auto simp: nth_append)
      show ?thesis
      proof (cases "pnready a - 1 \<le> 0")
        case stop: True
        then have none: "filter poll_ready ?P = []" using n unfolding length_0_conv [symmetric] by linarith
        have "poll_outcome a s ?S1"
          using s len cs1 mx by (auto simp: poll_outcome_def none poll_ok_def c0'_def)
        then show ?thesis using r stop by auto
      next
        case False
        then show ?thesis unfolding r
          using cs1 mx same reads n s len
          by (simp only: if_False)
            (intro poll_outcome_checked [where ds = "[]" and lc = c0' and cs = "?P[i := ?new]" and rest = R],
             auto simp: c0'_def)
      qed
    next
      case False
      have "i = ?n"
      proof (rule ccontr)
        assume "i \<noteq> ?n"
        then have "?n < i" "?n < length (?P @ R)" using False slot by auto
        then have "fd ((?P @ R) ! ?n) \<ge> 0" "(?P @ R) ! ?n \<in> set R"
          using slot len by (auto simp: nth_append)
        then show False using s(4) by auto
      qed
      then obtain x R' where R: "R = x # R'" using slot len by (cases R) auto
      have cs1: "slots ?S1 = c0' # ?P @ [x\<lparr>fd := pconnfd a\<rparr>] @ R'"
        using \<open>i = ?n\<close> len by (simp add: R list_update_append nth_append)
      have mx: "nat (pmaxi ?S1) = length (?P @ [x\<lparr>fd := pconnfd a\<rparr>])" "0 \<le> pmaxi ?S1"
        using \<open>i = ?n\<close> len s(2) by auto
      show ?thesis
      proof (cases "pnready a - 1 \<le> 0")
        case stop: True
        then have none: "filter poll_ready ?P = []" using n unfolding length_0_conv [symmetric] by linarith
        have "poll_outcome a s ?S1"
          using s len cs1 mx R by (auto simp: poll_outcome_def none poll_ok_def c0'_def)
        then show ?thesis using r stop by auto
      next
        case False
        then show ?thesis unfolding r
          using cs1 mx reads n s R
          by (simp only: if_False)
            (intro poll_outcome_checked [where ds = "[x\<lparr>fd := pconnfd a\<rparr>]" and lc = c0' and cs = ?P and rest = R'],
             auto simp: c0'_def)
      qed
    qed
  qed
qed

text \<open>
  C34 One round of the \<open>poll\<close> server. If every descriptor \<open>poll\<close> counts has one of the two bits the
  loop tests, then whatever the uninitialised \<open>revents\<close> of the slot a new connection takes holds, the
  round reads exactly the clients that are ready, each once and in the order of their slots, echoes
  what they sent, frees the slots of those that closed or reset, and leaves the table consistent; in
  particular it never reads the new connection.
\<close>

theorem poll_round_serves:
  assumes "poll_ok s" "panswer_ok a s" "\<exists>c\<in>set (tl (slots s)). fd c < 0"
  shows "\<exists>s'. poll_round a s = Go s' \<and> poll_ok s'
     \<and> pserved s' = pserved s @ concat (map (\<lambda>c. echo_of (preads a) (fd c)) (filter poll_ready (polled a s)))
     \<and> pclosed s' = pclosed s @ map fd (filter (\<lambda>c. preads a (fd c) = Eof \<or> preads a (fd c) = Reset)
         (filter poll_ready (polled a s)))"
  using poll_round_ok [OF assms] by (simp only: poll_outcome_def)

text \<open>A server whose one client is ready while a second one connects into an unseen slot.\<close>

definition one_client :: pserver where
  "one_client = \<lparr>slots = [\<lparr>fd = 3, revents = 0\<rparr>, \<lparr>fd = 4, revents = 0\<rparr>, \<lparr>fd = -1, revents = 0x40\<rparr>],
     pmaxi = 1, pserved = [], pclosed = []\<rparr>"

definition poll_answer :: "u16 \<Rightarrow> panswer" where
  "poll_answer r = \<lparr>prevents = (\<lambda>f. if f = 3 then POLLRDNORM else r), pnready = 2, pconnfd = 5,
     preads = (\<lambda>f. if f = 4 then Bytes ''hi'' else Blocks)\<rparr>"

theorem poll_round_serves_witness:
  "\<exists>s'. poll_round (poll_answer POLLRDNORM) one_client = Go s' \<and> poll_ok s' \<and> pserved s' = [(4, ''hi'')]"
proof -
  have "poll_ok one_client" by (simp add: poll_ok_def one_client_def)
  moreover have "panswer_ok (poll_answer POLLRDNORM) one_client"
    by (simp add: panswer_ok_def polled_def one_client_def poll_answer_def poll_ready_def)
  moreover have "\<exists>c\<in>set (tl (slots one_client)). fd c < 0" by (simp add: one_client_def)
  ultimately have "\<exists>s'. poll_round (poll_answer POLLRDNORM) one_client = Go s' \<and> poll_ok s'
     \<and> pserved s' = pserved one_client @ concat (map (\<lambda>c. echo_of (preads (poll_answer POLLRDNORM)) (fd c))
         (filter poll_ready (polled (poll_answer POLLRDNORM) one_client)))"
    using poll_round_serves [of one_client "poll_answer POLLRDNORM"] by blast
  moreover have "pserved one_client @ concat (map (\<lambda>c. echo_of (preads (poll_answer POLLRDNORM)) (fd c))
         (filter poll_ready (polled (poll_answer POLLRDNORM) one_client))) = [(4, ''hi'')]"
    by (simp add: polled_def one_client_def poll_answer_def poll_ready_def echo_of_def)
  ultimately show ?thesis by (simp only:)
qed

text \<open>Without that assumption the countdown does not reach 0 in time: the client has only \<open>POLLHUP\<close>,
  and the server reads the new connection and hangs.\<close>

lemma poll_round_hangs: "\<exists>s'. poll_round (poll_answer POLLHUP) one_client = Ret s'"
  by (simp add: poll_round_def poll_slots_def poll_accept_def poll_check_def one_client_def poll_answer_def
      poll_ready_def poll_serve_def Let_def)

end
