(* ===== verification/Stream_IO.thy ===== *)
theory Stream_IO
  imports CPrelude
begin

text \<open>
  Reading and writing byte streams: \<open>lib/readn.c\<close>, \<open>lib/writen.c\<close>, \<open>lib/readline.c\<close> and its
  variants in \<open>test/\<close>, \<open>threads/\<close>, \<open>server/\<close>, and \<open>sock/writen.c\<close>. The kernel is a script: the list
  of what the next \<open>read\<close>s find (a chunk of data that is there, or an error), and the list of how
  many bytes the next \<open>write\<close>s take. A \<open>read\<close> past the end of its script is at the end of file; a
  \<open>write\<close> past the end of its script has not returned, which is \<open>None\<close>.
\<close>

section \<open>The two system calls\<close>

datatype rd = Chunk "byte list" | RdErr errno

datatype wr = Accept nat | WrErr errno

text \<open>\<open>read(fd, ptr, k)\<close>: an error, or the bytes stored (none at the end of file).\<close>

fun sys_read :: "nat \<Rightarrow> rd list \<Rightarrow> (errno + byte list) \<times> rd list" where
  "sys_read k [] = (Inr [], [])"
| "sys_read k (Chunk bs # inp) =
     (Inr (take k bs), if drop k bs = [] then inp else Chunk (drop k bs) # inp)"
| "sys_read k (RdErr e # inp) = (Inl e, inp)"

text \<open>What the script delivers before it ends: the bytes, and the error it ends with, if any.\<close>

fun content :: "rd list \<Rightarrow> byte list" where
  "content [] = []"
| "content (Chunk bs # inp) = bs @ content inp"
| "content (RdErr e # inp) = (if e = EINTR then content inp else [])"

fun fate :: "rd list \<Rightarrow> errno option" where
  "fate [] = None"
| "fate (Chunk bs # inp) = fate inp"
| "fate (RdErr e # inp) = (if e = EINTR then fate inp else Some e)"

text \<open>\<open>read\<close> returns 0 only at the end of file, so the chunks of a script are not empty.\<close>

definition proper :: "rd list \<Rightarrow> bool" where
  "proper inp \<longleftrightarrow> Chunk [] \<notin> set inp"

fun weight :: "rd list \<Rightarrow> nat" where
  "weight [] = 0"
| "weight (Chunk bs # inp) = length bs + 1 + weight inp"
| "weight (RdErr e # inp) = 1 + weight inp"

lemma proper_simps [simp]:
  "proper []" "proper (Chunk bs # inp) \<longleftrightarrow> bs \<noteq> [] \<and> proper inp" "proper (RdErr e # inp) \<longleftrightarrow> proper inp"
  by (auto simp: proper_def)

lemma sys_read_proper: "sys_read k inp = (r, inp') \<Longrightarrow> proper inp \<Longrightarrow> proper inp'"
  by (cases "(k, inp)" rule: sys_read.cases) (auto split: if_splits)

lemma sys_read_weight: "sys_read k inp = (r, inp') \<Longrightarrow> 0 < k \<Longrightarrow> inp \<noteq> [] \<Longrightarrow> weight inp' < weight inp"
  by (cases "(k, inp)" rule: sys_read.cases) (auto split: if_splits)

lemma sys_read_data:
  assumes "sys_read k inp = (Inr bs, inp')" "0 < k" "proper inp"
  shows "length bs \<le> k" "content inp = bs @ content inp'" "fate inp' = fate inp"
    "bs = [] \<longleftrightarrow> inp = []"
  using assms by (cases "(k, inp)" rule: sys_read.cases; auto split: if_splits)+

lemma sys_read_error:
  assumes "sys_read k inp = (Inl e, inp')"
  shows "content inp = (if e = EINTR then content inp' else [])"
    "fate inp = (if e = EINTR then fate inp' else Some e)"
  using assms by (cases "(k, inp)" rule: sys_read.cases; auto)+

section \<open>\<open>readn\<close>\<close>

text \<open>The result: the return value, the bytes stored at \<open>vptr\<close>, the script left.\<close>

function readn_loop :: "nat \<Rightarrow> nat \<Rightarrow> byte list \<Rightarrow> rd list \<Rightarrow> int \<times> byte list \<times> rd list" where
  "readn_loop n nleft buf inp =
     (if nleft > 0 then
        (case sys_read nleft inp of
           (Inl e, inp') \<Rightarrow> if e = EINTR then readn_loop n nleft buf inp' else (-1, buf, inp')
         | (Inr bs, inp') \<Rightarrow>
             if bs = [] then (int (n - nleft), buf, inp')
             else readn_loop n (nleft - length bs) (buf @ bs) inp')
      else (int (n - nleft), buf, inp))"
  by auto
termination
proof (relation "measure (\<lambda>(n, nleft, buf, inp). nleft + length inp)", goal_cases)
  case 1
  then show ?case by simp
next
  case (2 n nleft buf inp r inp' e)
  then show ?case by (cases "(nleft, inp)" rule: sys_read.cases) (auto split: if_splits)
next
  case (3 n nleft buf inp r inp' bs)
  then show ?case by (cases "(nleft, inp)" rule: sys_read.cases) (auto split: if_splits)
qed

declare readn_loop.simps [simp del]

definition readn :: "nat \<Rightarrow> rd list \<Rightarrow> int \<times> byte list \<times> rd list" where
  "readn n inp = readn_loop n n [] inp"

lemma readn_loop_result:
  assumes "proper inp" "nleft \<le> n" "readn_loop n nleft buf inp = (r, out, inp')"
  shows "out = buf @ take nleft (content inp) \<and> proper inp' \<and>
    (if length (content inp) < nleft \<and> fate inp \<noteq> None then r = -1
     else r = int (n - nleft + length (take nleft (content inp)))
          \<and> content inp' = drop nleft (content inp) \<and> fate inp' = fate inp)"
  using assms
proof (induction n nleft buf inp rule: readn_loop.induct)
  case (1 n nleft buf inp)
  note res = 1(5)
  show ?case
  proof (cases "nleft = 0")
    case True
    then show ?thesis using res 1(3) by (auto simp: readn_loop.simps [of n 0])
  next
    case pos: False
    obtain x inp1 where rd: "sys_read nleft inp = (x, inp1)" by (cases "sys_read nleft inp")
    have ok: "proper inp1" using sys_read_proper [OF rd 1(3)] .
    show ?thesis
    proof (cases x)
      case (Inl e)
      show ?thesis
      proof (cases "e = EINTR")
        case True
        then have "readn_loop n nleft buf inp1 = (r, out, inp')"
          using res pos rd Inl by (simp add: readn_loop.simps [of n nleft buf inp])
        then show ?thesis using 1(1) [OF _ rd [symmetric] Inl True] pos rd Inl True ok 1(4) sys_read_error [of nleft inp e inp1]
          by auto
      next
        case False
        then show ?thesis using res pos rd Inl ok sys_read_error [of nleft inp e inp1]
          by (auto simp: readn_loop.simps [of n nleft buf inp])
      qed
    next
      case (Inr bs)
      note data = sys_read_data [OF rd [unfolded Inr] _ 1(3)]
      show ?thesis
      proof (cases "bs = []")
        case True
        then have "(r, out, inp') = (int (n - nleft), buf, inp1)"
          using res pos rd Inr by (simp add: readn_loop.simps [of n nleft buf inp])
        then show ?thesis using pos True ok data by auto
      next
        case False
        then have step: "readn_loop n (nleft - length bs) (buf @ bs) inp1 = (r, out, inp')"
          using res pos rd Inr by (simp add: readn_loop.simps [of n nleft buf inp])
        have k: "length bs \<le> nleft" "content inp = bs @ content inp1" "fate inp1 = fate inp"
          using data pos by simp_all
        have "n - (nleft - length bs) = n - nleft + length bs"
          "length (content inp1) < nleft - length bs \<longleftrightarrow> length (content inp) < nleft"
          using k(1,2) 1(4) by auto
        then show ?thesis using 1(2) [OF _ rd [symmetric] Inr False ok _ step] pos 1(4) k
          by (simp add: add.assoc split: if_splits)
      qed
    qed
  qed
qed


section \<open>\<open>writen\<close>\<close>

text \<open>The result is the return value, the bytes the kernel has taken, and the script left.\<close>

fun writen_loop :: "nat \<Rightarrow> byte list \<Rightarrow> byte list \<Rightarrow> wr list \<Rightarrow> (int \<times> byte list \<times> wr list) option" where
  "writen_loop n [] sent outp = Some (int n, sent, outp)"
| "writen_loop n (b # ptr) sent [] = None"
| "writen_loop n (b # ptr) sent (Accept m # outp) =
     (let nwritten = min m (length (b # ptr)) in
      if nwritten = 0 then Some (-1, sent, outp)
      else writen_loop n (drop nwritten (b # ptr)) (sent @ take nwritten (b # ptr)) outp)"
| "writen_loop n (b # ptr) sent (WrErr e # outp) =
     (if e = EINTR then writen_loop n (b # ptr) sent outp else Some (-1, sent, outp))"

definition writen :: "byte list \<Rightarrow> wr list \<Rightarrow> (int \<times> byte list \<times> wr list) option" where
  "writen bs outp = writen_loop (length bs) bs [] outp"

text \<open>What makes \<open>writen\<close> give up, and how many rounds a script grants before.\<close>

fun refuses :: "wr \<Rightarrow> bool" where
  "refuses (Accept m) \<longleftrightarrow> m = 0"
| "refuses (WrErr e) \<longleftrightarrow> e \<noteq> EINTR"

lemma writen_loop_result:
  assumes "writen_loop n ptr sent outp = Some (r, out, outp')"
  shows "(r = int n \<and> out = sent @ ptr) \<or>
         (r = -1 \<and> (\<exists>k < length ptr. out = sent @ take k ptr) \<and> (\<exists>w \<in> set outp. refuses w))"
  using assms
proof (induction n ptr sent outp rule: writen_loop.induct)
  case (3 n b ptr sent m outp)
  show ?case
  proof (cases "min m (length (b # ptr)) = 0")
    case True
    then show ?thesis using 3(2) by (auto simp: Let_def)
  next
    case False
    let ?k = "min m (length (b # ptr))"
    have drop: "(sent @ take ?k (b # ptr)) @ take j (drop ?k (b # ptr)) = sent @ take (?k + j) (b # ptr)" for j
      by (simp add: take_add)
    have "writen_loop n (drop ?k (b # ptr)) (sent @ take ?k (b # ptr)) outp = Some (r, out, outp')"
      using 3(2) False by (simp only: writen_loop.simps Let_def if_False)
    with 3(1) [OF refl] False consider
      "r = int n" "out = (sent @ take ?k (b # ptr)) @ drop ?k (b # ptr)"
      | j where "r = -1" "j < length (drop ?k (b # ptr))"
          "out = (sent @ take ?k (b # ptr)) @ take j (drop ?k (b # ptr))" "\<exists>w\<in>set outp. refuses w"
      by blast
    then show ?thesis
    proof cases
      case 1
      then show ?thesis by simp
    next
      case 2
      then have "?k + j < length (b # ptr)" by simp
      with 2 show ?thesis by (auto simp only: drop intro!: exI [of _ "?k + j"] list.set_intros)
    qed
  qed
qed (auto split: if_splits)

lemma writen_loop_returns:
  assumes "\<forall>w\<in>set outp. \<not> refuses w" "length ptr \<le> length (filter (\<lambda>w. w \<noteq> WrErr EINTR) outp)"
  shows "\<exists>outp'. writen_loop n ptr sent outp = Some (int n, sent @ ptr, outp')"
  using assms
proof (induction n ptr sent outp rule: writen_loop.induct)
  case (3 n b ptr sent m outp)
  let ?k = "min m (length (b # ptr))"
  have "?k \<noteq> 0" using 3(2) by simp
  moreover have "length (drop ?k (b # ptr)) \<le> length (filter (\<lambda>w. w \<noteq> WrErr EINTR) outp)"
    using 3(2,3) by auto
  ultimately obtain outp' where
    "writen_loop n (drop ?k (b # ptr)) (sent @ take ?k (b # ptr)) outp
      = Some (int n, (sent @ take ?k (b # ptr)) @ drop ?k (b # ptr), outp')"
    using 3(1) [OF refl] 3(2) by auto
  then show ?case using \<open>?k \<noteq> 0\<close> by (simp only: writen_loop.simps Let_def if_False append_assoc append_take_drop_id) blast
qed auto


section \<open>\<open>readline\<close>\<close>

text \<open>
  The loop all the variants share. \<open>next\<close> delivers one byte: 1 with the byte, 0 at the end of
  file, or an error. \<open>buf\<close> is what is stored at \<open>vptr\<close>, without the NUL that every return but the
  error one adds.
\<close>

function readline_loop ::
  "('s \<Rightarrow> (errno + byte option) \<times> 's) \<Rightarrow> nat \<Rightarrow> nat \<Rightarrow> byte list \<Rightarrow> 's \<Rightarrow> int \<times> byte list \<times> 's" where
  "readline_loop next maxlen n buf s =
     (if n < maxlen then
        (case next s of
           (Inr (Some c), s') \<Rightarrow>
             if c = 10 then (int n, buf @ [c], s') else readline_loop next maxlen (n + 1) (buf @ [c]) s'
         | (Inr None, s') \<Rightarrow> (int n - 1, buf, s')
         | (Inl e, s') \<Rightarrow> (-1, buf, s'))
      else (int n, buf, s))"
  by auto
termination by (relation "measure (\<lambda>(next, maxlen, n, buf, s). maxlen - n)") auto

declare readline_loop.simps [simp del]

text \<open>The static buffer of \<open>lib/readline.c\<close>.\<close>

record rline =
  read_cnt :: int
  read_ptr :: nat
  read_buf :: "byte list"

abbreviation MAXLINE :: nat where "MAXLINE \<equiv> 4096"

text \<open>\<open>again: read(...)\<close>, repeated while a signal interrupts it.\<close>

fun read_again :: "nat \<Rightarrow> rd list \<Rightarrow> (errno + byte list) \<times> rd list" where
  "read_again k (RdErr EINTR # inp) = read_again k inp"
| "read_again k inp = sys_read k inp"

definition take_byte :: "rline \<Rightarrow> byte \<times> rline" where
  "take_byte rl = (read_buf rl ! read_ptr rl, rl\<lparr>read_cnt := read_cnt rl - 1, read_ptr := read_ptr rl + 1\<rparr>)"

definition my_read :: "rline \<times> rd list \<Rightarrow> (errno + byte option) \<times> rline \<times> rd list" where
  "my_read = (\<lambda>(rl, inp).
     if read_cnt rl \<le> 0 then
       (case read_again MAXLINE inp of
          (Inl e, inp') \<Rightarrow> (Inl e, rl\<lparr>read_cnt := -1\<rparr>, inp')
        | (Inr bs, inp') \<Rightarrow>
            if bs = [] then (Inr None, rl\<lparr>read_cnt := 0\<rparr>, inp')
            else
              let rl' = rl\<lparr>read_cnt := int (length bs), read_buf := poke (read_buf rl) 0 bs, read_ptr := 0\<rparr>
              in (Inr (Some (fst (take_byte rl'))), snd (take_byte rl'), inp'))
     else (Inr (Some (fst (take_byte rl))), snd (take_byte rl), inp))"

definition readline :: "nat \<Rightarrow> rline \<times> rd list \<Rightarrow> int \<times> byte list \<times> rline \<times> rd list" where
  "readline maxlen s = readline_loop my_read maxlen 1 [] s"

definition rline_init :: rline where
  "rline_init = \<lparr>read_cnt = 0, read_ptr = 0, read_buf = replicate MAXLINE 0\<rparr>"

text \<open>\<open>readlinebuf\<close>: the bytes read but not yet delivered.\<close>

definition readlinebuf :: "rline \<Rightarrow> int \<times> nat option" where
  "readlinebuf rl = (read_cnt rl, if read_cnt rl \<noteq> 0 then Some (read_ptr rl) else None)"

text \<open>\<open>test/readline1.c\<close> reads one byte at a time from the kernel; \<open>server/readline.c\<close> does so too,
  without restarting an interrupted \<open>read\<close>.\<close>

definition byte_of :: "(errno + byte list) \<times> rd list \<Rightarrow> (errno + byte option) \<times> rd list" where
  "byte_of r = (case r of
     (Inl e, inp') \<Rightarrow> (Inl e, inp')
   | (Inr bs, inp') \<Rightarrow> (Inr (case bs of [] \<Rightarrow> None | c # _ \<Rightarrow> Some c), inp'))"

definition readline_slow :: "nat \<Rightarrow> rd list \<Rightarrow> int \<times> byte list \<times> rd list" where
  "readline_slow maxlen inp = readline_loop (\<lambda>i. byte_of (read_again 1 i)) maxlen 1 [] inp"

text \<open>\<open>threads/readline.c\<close> keeps one buffer per thread, allocated at the thread's first call.\<close>

definition readline_tsd ::
  "nat \<Rightarrow> nat \<Rightarrow> (nat \<Rightarrow> rline option) \<Rightarrow> rd list \<Rightarrow> int \<times> byte list \<times> (nat \<Rightarrow> rline option) \<times> rd list" where
  "readline_tsd tid maxlen tsd inp =
     (let rl = (case tsd tid of None \<Rightarrow> rline_init | Some rl \<Rightarrow> rl);
          (r, buf, rl', inp') = readline_loop my_read maxlen 1 [] (rl, inp)
      in (r, buf, tsd(tid \<mapsto> rl'), inp'))"

text \<open>The line a stream starts with, of at most \<open>k\<close> bytes.\<close>

fun cut_line :: "nat \<Rightarrow> byte list \<Rightarrow> byte list" where
  "cut_line 0 bs = []"
| "cut_line (Suc k) [] = []"
| "cut_line (Suc k) (b # bs) = b # (if b = 10 then [] else cut_line k bs)"

lemma cut_line_prefix: "take (length (cut_line k bs)) bs = cut_line k bs"
  by (induction k bs rule: cut_line.induct) auto

lemma length_cut_line: "length (cut_line k bs) \<le> k" "length (cut_line k bs) \<le> length bs"
  by (induction k bs rule: cut_line.induct) auto

subsection \<open>The interface to a source of bytes\<close>

text \<open>What \<open>readline\<close> relies on: the bytes still to come, and the error that ends them, if any.\<close>

locale byte_source =
  fixes getb :: "'s \<Rightarrow> (errno + byte option) \<times> 's"
    and ok :: "'s \<Rightarrow> bool"
    and bytes :: "'s \<Rightarrow> byte list"
    and ends :: "'s \<Rightarrow> errno option"
  assumes getb_data: "ok s \<Longrightarrow> bytes s = b # bs \<Longrightarrow>
      \<exists>s'. getb s = (Inr (Some b), s') \<and> ok s' \<and> bytes s' = bs \<and> ends s' = ends s"
    and getb_eof: "ok s \<Longrightarrow> bytes s = [] \<Longrightarrow> ends s = None \<Longrightarrow>
      \<exists>s'. getb s = (Inr None, s') \<and> ok s' \<and> bytes s' = [] \<and> ends s' = None"
    and getb_error: "ok s \<Longrightarrow> bytes s = [] \<Longrightarrow> ends s = Some e \<Longrightarrow> \<exists>s'. getb s = (Inl e, s') \<and> ok s'"
begin

lemma loop_line:
  assumes "ok s" "1 \<le> n" "n \<le> maxlen"
    and "cut_line (maxlen - n) (bytes s) \<noteq> bytes s \<or> ends s = None"
  shows "\<exists>s'. readline_loop getb maxlen n buf s =
      (let line = cut_line (maxlen - n) (bytes s) in
       (if (line \<noteq> [] \<and> last line = 10) \<or> length line < maxlen - n then int (n - 1 + length line) else int maxlen,
        buf @ line, s'))
     \<and> ok s' \<and> bytes s' = drop (length (cut_line (maxlen - n) (bytes s))) (bytes s) \<and> ends s' = ends s"
  using assms
proof (induction "maxlen - n" arbitrary: n buf s)
  case 0
  then show ?case by (simp add: readline_loop.simps [of getb n n buf s])
next
  case (Suc k)
  then have lt: "n < maxlen" and k: "maxlen - n = Suc k" "maxlen - Suc n = k" by simp_all
  show ?case
  proof (cases "bytes s")
    case Nil
    then obtain s' where "getb s = (Inr None, s')" "ok s'" "bytes s' = []" "ends s' = None" "ends s = None"
      using getb_eof Suc.prems by (auto simp: k)
    then show ?thesis using lt Nil Suc.prems(2)
      by (simp add: readline_loop.simps [of getb maxlen n buf s] k of_nat_diff)
  next
    case (Cons b bs)
    then obtain s' where s': "getb s = (Inr (Some b), s')" "ok s'" "bytes s' = bs" "ends s' = ends s"
      using getb_data Suc.prems(1) by blast
    show ?thesis
    proof (cases "b = 10")
      case True
      then show ?thesis using s' lt Cons Suc.prems(2)
        by (simp add: readline_loop.simps [of getb maxlen n buf s] k)
    next
      case False
      have "readline_loop getb maxlen n buf s = readline_loop getb maxlen (Suc n) (buf @ [b]) s'"
        using s' lt False by (simp add: readline_loop.simps [of getb maxlen n buf s])
      moreover have "cut_line (maxlen - Suc n) (bytes s') \<noteq> bytes s' \<or> ends s' = None"
        using Suc.prems(4) s' Cons False by (simp add: k)
      ultimately show ?thesis
        using Suc.hyps(1) [of "Suc n" s' "buf @ [b]"] k(2) s' lt Cons False Suc.prems(2)
        by (auto simp: k Let_def split: if_splits)
    qed
  qed
qed

lemma loop_error:
  assumes "ok s" "1 \<le> n" "ends s = Some e" "length (bytes s) < maxlen - n" "10 \<notin> set (bytes s)"
  shows "\<exists>s'. readline_loop getb maxlen n buf s = (-1, buf @ bytes s, s') \<and> ok s'"
  using assms
proof (induction "bytes s" arbitrary: n buf s)
  case Nil
  then obtain s' where "getb s = (Inl e, s')" "ok s'" using getb_error by metis
  then show ?case using Nil by (simp add: readline_loop.simps [of getb maxlen n buf s])
next
  case (Cons b bs)
  then obtain s' where s': "getb s = (Inr (Some b), s')" "ok s'" "bytes s' = bs" "ends s' = ends s"
    using getb_data by metis
  have b: "bytes s = b # bs" using Cons.hyps(2) by simp
  then have "b \<noteq> 10" "n < maxlen" using Cons.prems(4,5) by auto
  then have "readline_loop getb maxlen n buf s = readline_loop getb maxlen (Suc n) (buf @ [b]) s'"
    using s' by (simp add: readline_loop.simps [of getb maxlen n buf s])
  then show ?case
    using Cons.hyps(1) [of s' "Suc n" "buf @ [b]"] Cons.prems s' b by auto
qed

end

lemma read_again_cases:
  assumes "proper inp" "0 < k"
  obtains (err) e inp' where "read_again k inp = (Inl e, inp')" "proper inp'" "content inp = []" "fate inp = Some e"
  | (eof) inp' where "read_again k inp = (Inr [], inp')" "proper inp'" "content inp = []" "fate inp = None"
      "content inp' = []" "fate inp' = None"
  | (data) bs inp' where "read_again k inp = (Inr bs, inp')" "proper inp'" "bs \<noteq> []" "length bs \<le> k"
      "content inp = bs @ content inp'" "fate inp' = fate inp"
proof -
  have "(\<exists>e inp'. read_again k inp = (Inl e, inp') \<and> proper inp' \<and> content inp = [] \<and> fate inp = Some e)
    \<or> (\<exists>inp'. read_again k inp = (Inr [], inp') \<and> proper inp' \<and> content inp = [] \<and> fate inp = None
          \<and> content inp' = [] \<and> fate inp' = None)
    \<or> (\<exists>bs inp'. read_again k inp = (Inr bs, inp') \<and> proper inp' \<and> bs \<noteq> [] \<and> length bs \<le> k
          \<and> content inp = bs @ content inp' \<and> fate inp' = fate inp)"
    using assms by (induction k inp rule: read_again.induct) auto
  then show thesis using err eof data by blast
qed

interpretation slow: byte_source "\<lambda>i. byte_of (read_again 1 i)" proper content fate
proof (unfold_locales, goal_cases)
  case (1 s b bs)
  show ?case using 1(1) zero_less_one
  proof (cases rule: read_again_cases)
    case (data bs' inp')
    then show ?thesis using 1(2) by (cases bs') (auto simp: byte_of_def)
  qed (use 1 in auto)
next
  case (2 s)
  show ?case using 2(1) zero_less_one
    by (cases rule: read_again_cases) (use 2 in \<open>auto simp: byte_of_def\<close>)
next
  case (3 s e)
  show ?case using 3(1) zero_less_one
    by (cases rule: read_again_cases) (use 3 in \<open>auto simp: byte_of_def\<close>)
qed

text \<open>The buffered source: what is left in the buffer comes before what the kernel still has.\<close>

definition rline_ok :: "rline \<times> rd list \<Rightarrow> bool" where
  "rline_ok s \<longleftrightarrow> proper (snd s) \<and> length (read_buf (fst s)) = MAXLINE
     \<and> (0 < read_cnt (fst s) \<longrightarrow> read_ptr (fst s) + nat (read_cnt (fst s)) \<le> MAXLINE)"

definition rline_bytes :: "rline \<times> rd list \<Rightarrow> byte list" where
  "rline_bytes s = take (nat (read_cnt (fst s))) (drop (read_ptr (fst s)) (read_buf (fst s))) @ content (snd s)"

lemma take_byte_result:
  assumes "rline_ok (rl, inp)" "0 < read_cnt rl" "rline_bytes (rl, inp) = b # bs"
  shows "fst (take_byte rl) = b" "rline_ok (snd (take_byte rl), inp)" "rline_bytes (snd (take_byte rl), inp) = bs"
proof -
  let ?m = "nat (read_cnt rl)" and ?p = "read_ptr rl" and ?B = "read_buf rl"
  have m: "?m = Suc (nat (read_cnt rl - 1))" "?p < length ?B"
    using assms(1,2) by (auto simp: rline_ok_def)
  then have d: "drop ?p ?B = ?B ! ?p # drop (Suc ?p) ?B" by (simp add: Cons_nth_drop_Suc)
  then have split: "rline_bytes (rl, inp) = ?B ! ?p # take (nat (read_cnt rl - 1)) (drop (Suc ?p) ?B) @ content inp"
    by (simp only: rline_bytes_def fst_conv snd_conv m(1) take_Suc_Cons append_Cons)
  show "fst (take_byte rl) = b" "rline_bytes (snd (take_byte rl), inp) = bs"
    using split assms(3) by (simp_all add: take_byte_def rline_bytes_def)
  show "rline_ok (snd (take_byte rl), inp)"
    using assms(1,2) by (auto simp: rline_ok_def take_byte_def)
qed

lemma my_read_result:
  assumes "rline_ok (rl, inp)"
  shows "\<exists>r s'. my_read (rl, inp) = (r, s') \<and> rline_ok s' \<and>
    (case rline_bytes (rl, inp) of
       b # bs \<Rightarrow> r = Inr (Some b) \<and> rline_bytes s' = bs \<and> fate (snd s') = fate inp
     | [] \<Rightarrow> (case fate inp of None \<Rightarrow> r = Inr None \<and> rline_bytes s' = [] \<and> fate (snd s') = None
               | Some e \<Rightarrow> r = Inl e))"
proof (cases "read_cnt rl \<le> 0")
  case False
  then have "rline_bytes (rl, inp) \<noteq> []" using assms by (auto simp: rline_ok_def rline_bytes_def)
  then obtain b bs where b: "rline_bytes (rl, inp) = b # bs" by (cases "rline_bytes (rl, inp)") auto
  then show ?thesis using False take_byte_result [OF assms _ b] by (simp add: my_read_def)
next
  case True
  have bytes: "rline_bytes (rl, inp) = content inp" using True by (simp add: rline_bytes_def)
  have "proper inp" "(0::nat) < MAXLINE" using assms by (simp_all add: rline_ok_def)
  then show ?thesis
  proof (cases rule: read_again_cases)
    case (err e inp')
    then show ?thesis using True bytes assms by (simp add: my_read_def rline_ok_def)
  next
    case (eof inp')
    then show ?thesis using True bytes assms by (simp add: my_read_def rline_ok_def rline_bytes_def)
  next
    case (data bs inp')
    then obtain b bs' where Cons: "bs = b # bs'" by (cases bs) auto
    define rl' where "rl' = rl\<lparr>read_cnt := int (length bs), read_buf := poke (read_buf rl) 0 bs, read_ptr := 0\<rparr>"
    have "rline_ok (rl', inp')" "0 < read_cnt rl'" "rline_bytes (rl', inp') = bs @ content inp'"
      using assms data by (auto simp: rl'_def rline_ok_def rline_bytes_def poke_def)
    from take_byte_result [OF this(1,2) this(3) [unfolded Cons append_Cons]] show ?thesis
      using True data bytes by (simp add: my_read_def Let_def flip: rl'_def) (simp add: Cons)
  qed
qed

interpretation buffered: byte_source my_read rline_ok rline_bytes "\<lambda>s. fate (snd s)"
proof (unfold_locales, goal_cases)
  case (1 s b bs)
  then show ?case using my_read_result [of "fst s" "snd s"] by auto
next
  case (2 s)
  then show ?case using my_read_result [of "fst s" "snd s"] by auto
next
  case (3 s e)
  then show ?case using my_read_result [of "fst s" "snd s"] by auto
qed


section \<open>Two variants with defects\<close>

text \<open>\<open>server/readline.c\<close>: no restart after a signal, and at the end of file after some data it
  falls out of the loop and returns \<open>n\<close>, one more than it has stored.\<close>

function readline_server_loop :: "nat \<Rightarrow> nat \<Rightarrow> byte list \<Rightarrow> rd list \<Rightarrow> int \<times> byte list \<times> rd list" where
  "readline_server_loop maxlen n buf inp =
     (if n < maxlen then
        (case sys_read 1 inp of
           (Inl e, inp') \<Rightarrow> (-1, buf, inp')
         | (Inr bs, inp') \<Rightarrow>
             (case bs of
                [] \<Rightarrow> if n = 1 then (0, buf, inp') else (int n, buf, inp')
              | c # _ \<Rightarrow> if c = 10 then (int n, buf @ [c], inp')
                         else readline_server_loop maxlen (n + 1) (buf @ [c]) inp'))
      else (int n, buf, inp))"
  by auto
termination by (relation "measure (\<lambda>(maxlen, n, buf, inp). maxlen - n)") auto

declare readline_server_loop.simps [simp del]

definition readline_server :: "nat \<Rightarrow> rd list \<Rightarrow> int \<times> byte list \<times> rd list" where
  "readline_server maxlen inp = readline_server_loop maxlen 1 [] inp"

text \<open>\<open>sock/writen.c\<close>: \<open>nwritten\<close> is a \<open>size_t\<close>, so the -1 of a failed \<open>write\<close> is a large count that
  is never \<open>\<le> 0\<close>. The state is \<open>nleft\<close> and the distance of \<open>ptr\<close> from \<open>vptr\<close>, both modulo
  \<open>2 ^ 64\<close>; \<open>None\<close> is a call that has not returned when the script ends.\<close>

fun sock_writen_loop :: "u64 \<Rightarrow> u64 \<Rightarrow> u64 \<Rightarrow> wr list \<Rightarrow> int option" where
  "sock_writen_loop n nleft ptr [] = (if nleft > 0 then None else Some (sint n))"
| "sock_writen_loop n nleft ptr (w # outp) =
     (if nleft > 0 then
        let nwritten = (case w of Accept m \<Rightarrow> min (of_nat m) nleft | WrErr e \<Rightarrow> - 1)
        in if nwritten \<le> 0 then Some (sint nwritten)
           else sock_writen_loop n (nleft - nwritten) (ptr + nwritten) outp
      else Some (sint n))"

definition sock_writen :: "u64 \<Rightarrow> wr list \<Rightarrow> int option" where
  "sock_writen n outp = sock_writen_loop n n 0 outp"

section \<open>Correctness\<close>

text \<open>
  \<open>readn\<close> stores the first \<open>n\<close> bytes of the stream, however the kernel cuts it into chunks and
  however often a signal interrupts it. It returns how many there were (fewer than \<open>n\<close> only at the
  end of file) and leaves the rest unread, or returns -1 when an error comes before the \<open>n\<close>th byte.
\<close>

lemma readn_prefix:
  assumes "proper inp" "readn n inp = (r, out, inp')"
  shows "out = take n (content inp) \<and>
    (if length (content inp) < n \<and> fate inp \<noteq> None then r = -1
     else r = int (length out) \<and> content inp' = drop n (content inp) \<and> fate inp' = fate inp)"
  using readn_loop_result [OF assms(1) order_refl assms(2) [unfolded readn_def]] by auto

lemma readn_prefix_example:
  "readn 3 [Chunk [1, 2], RdErr EINTR, Chunk [3, 4]] = (3, [1, 2, 3], [Chunk [4]])
   \<and> content [Chunk [4]] = drop 3 (content [Chunk [1, 2], RdErr EINTR, Chunk [3, 4]])"
proof -
  have r: "readn 3 [Chunk [1, 2], RdErr EINTR, Chunk [3, 4]] = (3, [1, 2, 3], [Chunk [4]])" by code_simp
  have p: "proper [Chunk [1, 2], RdErr EINTR, Chunk [3, 4]]"
    and f: "fate [Chunk [1, 2], RdErr EINTR, Chunk [3, 4]] = None" by simp_all
  show ?thesis using readn_prefix [OF p r] r by (simp only: f simp_thms if_False)
qed

text \<open>
  When \<open>writen\<close> returns, either it returns \<open>n\<close> and the kernel has taken all the bytes in order,
  or it returns -1, the kernel has taken a proper prefix, and some \<open>write\<close> failed or took nothing.
  It does return, with \<open>n\<close>, once no write fails and there are as many successful writes as bytes.
\<close>

lemma writen_all_or_error:
  "(writen bs outp = Some (r, out, outp') \<longrightarrow>
      (r = int (length bs) \<and> out = bs) \<or>
      (r = -1 \<and> (\<exists>k < length bs. out = take k bs) \<and> (\<exists>w \<in> set outp. refuses w)))
   \<and> ((\<forall>w\<in>set outp. \<not> refuses w) \<and> length bs \<le> length (filter (\<lambda>w. w \<noteq> WrErr EINTR) outp) \<longrightarrow>
      (\<exists>outp'. writen bs outp = Some (int (length bs), bs, outp')))"
  using writen_loop_result [of "length bs" bs "[]" outp r out outp']
    writen_loop_returns [of outp bs "length bs" "[]"]
  by (auto simp: writen_def)

lemma writen_all_or_error_example:
  "\<exists>outp'. writen [1, 2, 3] [Accept 1, WrErr EINTR, Accept 1, Accept 7] = Some (int (length [1, 2, 3 :: byte]), [1, 2, 3], outp')"
  by (rule mp [OF conjunct2 [OF writen_all_or_error]]) simp

text \<open>
  C31 \<open>readline\<close> returns the next line whatever the buffering: from every state of its static
  buffer it stores the bytes up to and with the first newline of what the buffer and the kernel hold,
  at most \<open>maxlen - 1\<close> of them, and leaves the rest for the next call. The byte-at-a-time version
  stores the same bytes and returns the same value. The value is the number of bytes stored, except
  that a line cut at \<open>maxlen - 1\<close> bytes returns \<open>maxlen\<close>.
\<close>

theorem readline_next_line:
  assumes "rline_ok s" "fate (snd s) = None" "1 \<le> maxlen"
    and "proper inp" "content inp = rline_bytes s" "fate inp = None"
  shows "let line = cut_line (maxlen - 1) (rline_bytes s);
             r = (if (line \<noteq> [] \<and> last line = 10) \<or> length line < maxlen - 1
                  then int (length line) else int maxlen)
         in (\<exists>s'. readline maxlen s = (r, line, s') \<and> rline_ok s' \<and> fate (snd s') = None
               \<and> rline_bytes s' = drop (length line) (rline_bytes s))
          \<and> (\<exists>inp'. readline_slow maxlen inp = (r, line, inp')
               \<and> content inp' = drop (length line) (content inp))"
  using buffered.loop_line [of s 1 maxlen "[]"] slow.loop_line [of inp 1 maxlen "[]"] assms
  by (fastforce simp: readline_def readline_slow_def Let_def)

theorem readline_next_line_witness:
  "\<exists>s'. readline 80 (rline_init, [Chunk [97], Chunk [98, 10, 99]]) = (3, [97, 98, 10], s')
     \<and> rline_bytes s' = [99]"
proof -
  let ?inp = "[Chunk [97], Chunk [98, 10, 99]]"
  have init: "rline_ok (rline_init, ?inp)" "rline_bytes (rline_init, ?inp) = [97, 98, 10, 99]"
    by (simp_all add: rline_ok_def rline_init_def rline_bytes_def)
  have cut: "cut_line (80 - 1) [97, 98, 10, 99] = [97, 98, 10]" by code_simp
  show ?thesis using readline_next_line [of "(rline_init, ?inp)" 80 ?inp] init cut
    by (auto simp: Let_def)
qed

text \<open>
  In \<open>threads/readline.c\<close> the threads do not disturb each other: a call by one thread leaves
  the buffers of all others as they are, and stores the next line of its own buffer and the input.
\<close>

lemma readline_tsd_isolated:
  assumes "\<forall>t rl. tsd t = Some rl \<longrightarrow> rline_ok (rl, [])" "proper inp" "fate inp = None" "1 \<le> maxlen"
    and "readline_tsd t maxlen tsd inp = (r, buf, tsd', inp')"
  shows "(\<forall>u. u \<noteq> t \<longrightarrow> tsd' u = tsd u) \<and> (\<forall>u rl. tsd' u = Some rl \<longrightarrow> rline_ok (rl, []))
    \<and> (\<exists>rl'. tsd' t = Some rl' \<and>
         buf @ rline_bytes (rl', inp') = rline_bytes (case tsd t of None \<Rightarrow> rline_init | Some rl \<Rightarrow> rl, inp)
         \<and> buf = cut_line (maxlen - 1) (buf @ rline_bytes (rl', inp')))"
proof -
  let ?rl = "case tsd t of None \<Rightarrow> rline_init | Some rl \<Rightarrow> rl"
  have "rline_ok (?rl, inp)"
    using assms(1,2) by (auto simp: rline_ok_def rline_init_def split: option.split)
  then obtain rl' where rl': "readline_loop my_read maxlen 1 [] (?rl, inp) = (r, buf, rl', inp')"
      "tsd' = tsd(t \<mapsto> rl')" "rline_ok (rl', inp')" "buf = cut_line (maxlen - 1) (rline_bytes (?rl, inp))"
      "rline_bytes (rl', inp') = drop (length buf) (rline_bytes (?rl, inp))"
    using buffered.loop_line [of "(?rl, inp)" 1 maxlen "[]"] assms(3-5)
    by (auto simp: readline_tsd_def Let_def split: prod.splits if_splits)
  have "buf @ rline_bytes (rl', inp') = rline_bytes (?rl, inp)"
    using rl'(4,5) cut_line_prefix [of "maxlen - 1" "rline_bytes (?rl, inp)"] by (metis append_take_drop_id)
  moreover have "\<forall>u rl. tsd' u = Some rl \<longrightarrow> rline_ok (rl, [])"
    using assms(1) rl'(2,3) by (auto simp: rline_ok_def)
  ultimately show ?thesis using rl'(2,4) by auto
qed

lemma readline_tsd_isolated_example:
  "case readline_tsd 7 80 Map.empty [Chunk [104, 10, 105]] of (r, buf, tsd', inp') \<Rightarrow>
     tsd' 8 = None \<and> (\<exists>rl'. tsd' 7 = Some rl' \<and> buf @ rline_bytes (rl', inp') = [104, 10, 105])"
proof -
  obtain r buf tsd' inp' where c: "readline_tsd 7 80 Map.empty [Chunk [104, 10, 105]] = (r, buf, tsd', inp')"
    by (metis prod_cases4)
  have "rline_bytes (rline_init, [Chunk [104, 10, 105]]) = [104, 10, 105]"
    by (simp add: rline_bytes_def rline_init_def)
  then show ?thesis using readline_tsd_isolated [OF _ _ _ _ c] by (auto simp: c)
qed

lemma sock_writen_loop_result: "sock_writen_loop n nleft ptr outp = Some r \<Longrightarrow> r = sint n \<or> r = 0"
  by (induction n nleft ptr outp rule: sock_writen_loop.induct) (auto simp: Let_def split: if_splits)

lemma readline_server_eof:
  assumes "10 \<notin> set bs" "n + length bs < maxlen" "1 \<le> n" "n \<noteq> 1 \<or> bs \<noteq> []"
  shows "readline_server_loop maxlen n buf (if bs = [] then [] else [Chunk bs]) = (int (n + length bs), buf @ bs, [])"
  using assms
proof (induction bs arbitrary: n buf)
  case Nil
  then show ?case by (simp add: readline_server_loop.simps [of maxlen n])
next
  case (Cons b bs)
  have "readline_server_loop maxlen (Suc n) (buf @ [b]) (if bs = [] then [] else [Chunk bs])
      = (int (Suc n + length bs), (buf @ [b]) @ bs, [])"
    by (rule Cons.IH) (use Cons.prems in auto)
  then show ?case using Cons.prems
    by (cases "bs = []") (simp_all add: readline_server_loop.simps [of maxlen n])
qed

text \<open>
  The defects of the two variants. \<open>sock/writen.c\<close> never reports a failed \<open>write\<close>: whatever the
  script, if it returns for \<open>n < 2 ^ 63\<close> then it returns \<open>n\<close> or 0. And \<open>server/readline.c\<close>, at the
  end of file after \<open>k \<ge> 1\<close> bytes without a newline, returns \<open>k + 1\<close>.
\<close>

lemma variants_lose_errors:
  "(sock_writen (of_nat n) outp = Some r \<and> n < 2 ^ 63 \<longrightarrow> r = int n \<or> r = 0)
   \<and> (10 \<notin> set bs \<and> bs \<noteq> [] \<and> length bs + 1 < maxlen \<longrightarrow>
       readline_server maxlen [Chunk bs] = (int (length bs) + 1, bs, []))"
proof -
  have "sint (of_nat n :: u64) = int n" if "n < 2 ^ 63"
    using that by (simp add: signed_of_nat signed_take_bit_int_eq_self)
  then show ?thesis
    using sock_writen_loop_result [of "of_nat n" "of_nat n" 0 outp r] readline_server_eof [of bs 1 maxlen "[]"]
    by (auto simp: sock_writen_def readline_server_def)
qed

lemma variants_lose_errors_example:
  "sock_writen 5 [WrErr ECONNRESET, Accept 6] = Some 5
   \<and> readline_server 80 [Chunk [97, 98]] = (int (length [97, 98 :: byte]) + 1, [97, 98], [])"
proof
  show "sock_writen 5 [WrErr ECONNRESET, Accept 6] = Some 5" by code_simp
  show "readline_server 80 [Chunk [97, 98]] = (int (length [97, 98 :: byte]) + 1, [97, 98], [])"
    by (rule mp [OF conjunct2 [OF variants_lose_errors]]) simp
qed

end
