(* ===== verification/Echo_Clients.thy ===== *)
theory Echo_Clients
  imports Stream_IO
begin

text \<open>
  The client and server loops that copy between a terminal and a socket: \<open>lib/str_echo.c\<close>,
  \<open>lib/str_cli.c\<close>, \<open>select/strcliselect02.c\<close> and the non-blocking \<open>nonblock/strclinonb.c\<close>.
  One round of a \<open>select\<close> loop is a function of the state and of what the kernel answers in that round.
\<close>

section \<open>The echo server: \<open>str_echo\<close>\<close>

text \<open>\<open>None\<close> is a call blocked in \<open>write\<close> at the end of its script. The result is how it ended and
  what was written to the socket.\<close>

function str_echo :: "byte list \<Rightarrow> rd list \<Rightarrow> wr list \<Rightarrow> (byte list) outcome option" where
  "str_echo sent inp outp =
     (case sys_read MAXLINE inp of
        (Inl e, inp') \<Rightarrow> if e = EINTR then str_echo sent inp' outp else Some (Die sent)
      | (Inr buf, inp') \<Rightarrow>
          if buf = [] then Some (Ret sent)
          else (case writen buf outp of
                  None \<Rightarrow> None
                | Some (r, out, outp') \<Rightarrow>
                    if r \<noteq> int (length buf) then Some (Die (sent @ out))
                    else str_echo (sent @ out) inp' outp'))"
  by auto
termination
proof (relation "measure (\<lambda>(sent, inp, outp). weight inp)", goal_cases)
  case 1
  then show ?case by simp
next
  case (2 sent inp outp r inp' e)
  then show ?case using sys_read_weight [of MAXLINE inp "Inl e" inp'] by (cases inp) auto
next
  case (3 sent inp outp r inp' buf)
  then show ?case using sys_read_weight [of MAXLINE inp "Inr buf" inp'] by (cases inp) auto
qed

declare str_echo.simps [simp del]

lemma writen_success:
  assumes "writen bs outp = Some (r, out, outp')" "r = int (length bs)"
  shows "out = bs"
  using writen_loop_result [of "length bs" bs "[]" outp r out outp'] assms by (auto simp: writen_def)

lemma writen_prefix:
  assumes "writen bs outp = Some (r, out, outp')"
  shows "\<exists>k. out = take k bs"
  using writen_loop_result [of "length bs" bs "[]" outp r out outp'] assms
  by (auto simp: writen_def intro: exI [of _ "length bs"])

lemma str_echo_copies:
  assumes "proper inp" "str_echo sent inp outp = Some res"
  shows "case res of Ret out \<Rightarrow> out = sent @ content inp \<and> fate inp = None
    | Die out \<Rightarrow> \<exists>k. out = sent @ take k (content inp) | Go out \<Rightarrow> False"
  using assms
proof (induction sent inp outp rule: str_echo.induct)
  case (1 sent inp outp)
  obtain x inp1 where rd: "sys_read MAXLINE inp = (x, inp1)" by (cases "sys_read MAXLINE inp")
  have ok: "proper inp1" using sys_read_proper [OF rd 1(3)] .
  show ?case
  proof (cases x)
    case (Inl e)
    show ?thesis
    proof (cases "e = EINTR")
      case True
      then have "str_echo sent inp1 outp = Some res"
        using 1(4) rd Inl by (simp add: str_echo.simps [of sent inp outp])
      then show ?thesis using 1(1) [OF rd [symmetric] Inl True ok] True sys_read_error [OF rd [unfolded Inl]]
        by (cases res) auto
    next
      case False
      then have "res = Die sent" using 1(4) rd Inl by (simp add: str_echo.simps [of sent inp outp])
      then show ?thesis by (auto intro: exI [of _ 0])
    qed
  next
    case (Inr buf)
    note data = sys_read_data [OF rd [unfolded Inr] _ 1(3)]
    show ?thesis
    proof (cases "buf = []")
      case True
      then have "res = Ret sent" using 1(4) rd Inr by (simp add: str_echo.simps [of sent inp outp])
      then show ?thesis using data True by simp
    next
      case False
      then obtain r out outp1 where w: "writen buf outp = Some (r, out, outp1)"
        using 1(4) rd Inr by (auto simp: str_echo.simps [of sent inp outp] split: option.splits)
      show ?thesis
      proof (cases "r = int (length buf)")
        case True
        then have "str_echo (sent @ buf) inp1 outp1 = Some res"
          using 1(4) rd Inr False w writen_success [OF w] by (simp add: str_echo.simps [of sent inp outp])
        moreover have "out = buf" using writen_success [OF w True] .
        ultimately show ?thesis
          using 1(2) [OF rd [symmetric] Inr False w refl refl] True ok data
          by (auto split: outcome.splits intro: exI [of _ "length buf + _"])
      next
        case r: False
        then have "res = Die (sent @ out)"
          using 1(4) rd Inr False w by (simp add: str_echo.simps [of sent inp outp])
        moreover obtain k where "out = take k buf" using writen_prefix [OF w] by blast
        ultimately show ?thesis using data
          by (auto intro!: exI [of _ "min k (length buf)"] simp: min_def)
      qed
    qed
  qed
qed


section \<open>The stop-and-wait client: \<open>str_cli\<close>\<close>

text \<open>\<open>strlen\<close> and \<open>Fputs\<close> stop at a NUL. The terminal is the list of what \<open>Fgets\<close> stores at each
  call; the result is how the call ended, what was sent and what was printed.\<close>

definition cstr :: "byte list \<Rightarrow> byte list" where
  "cstr bs = takeWhile (\<lambda>b. b \<noteq> 0) bs"

fun str_cli ::
  "byte list \<Rightarrow> byte list \<Rightarrow> byte list list \<Rightarrow> rline \<times> rd list \<Rightarrow> wr list \<Rightarrow> (byte list \<times> byte list) outcome option"
where
  "str_cli sent shown [] sock outp = Some (Ret (sent, shown))"
| "str_cli sent shown (sendline # fp) sock outp =
     (case writen (cstr sendline) outp of
        None \<Rightarrow> None
      | Some (r, out, outp') \<Rightarrow>
          if r \<noteq> int (length (cstr sendline)) then Some (Die (sent @ out, shown))
          else (case readline MAXLINE sock of
                  (n, recvline, sock') \<Rightarrow>
                    if n < 0 then Some (Die (sent @ out, shown))
                    else if n = 0 then Some (Die (sent @ out, shown))
                    else str_cli (sent @ out) (shown @ cstr recvline) fp sock' outp'))"

text \<open>A line of text: no NUL, one newline, at its end.\<close>

definition text_line :: "byte list \<Rightarrow> bool" where
  "text_line l \<longleftrightarrow> (\<exists>t. l = t @ [10] \<and> 10 \<notin> set t \<and> 0 \<notin> set t) \<and> length l < MAXLINE"

lemma cut_line_text: "10 \<notin> set t \<Longrightarrow> length t < k \<Longrightarrow> cut_line k (t @ 10 # r) = t @ [10]"
proof (induction t arbitrary: k)
  case Nil
  then show ?case by (cases k) auto
next
  case (Cons a t)
  then show ?case by (cases k) auto
qed

lemma cstr_text: "text_line l \<Longrightarrow> cstr l = l"
  by (auto simp: text_line_def cstr_def takeWhile_eq_all_conv)

lemma readline_text:
  assumes "rline_ok s" "fate (snd s) = None" "text_line l" "rline_bytes s = l @ r"
  shows "\<exists>s'. readline MAXLINE s = (int (length l), l, s') \<and> rline_ok s' \<and> fate (snd s') = None \<and> rline_bytes s' = r"
proof -
  obtain t where t: "l = t @ [10]" "10 \<notin> set t" "length t < MAXLINE - 1"
    using assms(3) by (auto simp: text_line_def)
  then have "cut_line (MAXLINE - 1) (rline_bytes s) = l" using cut_line_text [OF t(2,3)] assms(4) by simp
  then show ?thesis
    using buffered.loop_line [OF assms(1), of 1 MAXLINE "[]"] assms t(1)
    by (auto simp: readline_def Let_def)
qed

lemma writen_loop_script: "writen_loop n ptr sent outp = Some (r, out, outp') \<Longrightarrow> set outp' \<subseteq> set outp"
  by (induction n ptr sent outp rule: writen_loop.induct) (auto simp: Let_def split: if_splits)

lemma str_cli_lines:
  assumes "rline_ok sock" "fate (snd sock) = None" "\<forall>l\<in>set fp. text_line l"
    and "rline_bytes sock = concat replies @ r" "length replies = length fp" "\<forall>l\<in>set replies. text_line l"
    and "str_cli sent shown fp sock outp = Some res"
  shows "case res of Ret (out, shown') \<Rightarrow> out = sent @ concat fp \<and> shown' = shown @ concat replies
    | Die (out, shown') \<Rightarrow> \<exists>w\<in>set outp. refuses w | Go _ \<Rightarrow> False"
  using assms
proof (induction fp arbitrary: replies sent shown sock outp)
  case Nil
  then show ?case by auto
next
  case (Cons l fp)
  then obtain q qs where q: "replies = q # qs" "text_line q" "\<forall>l\<in>set qs. text_line l" "length qs = length fp"
    by (cases replies) auto
  have l: "cstr l = l" "\<forall>l\<in>set fp. text_line l" using Cons.prems(3) cstr_text by auto
  obtain k out outp1 where w: "writen l outp = Some (k, out, outp1)"
    using Cons.prems(7) l by (auto split: option.splits)
  show ?case
  proof (cases "k = int (length l)")
    case True
    then have out: "out = l" using writen_success [OF w] by simp
    obtain s' where s': "readline MAXLINE sock = (int (length q), q, s')" "rline_ok s'" "fate (snd s') = None"
      "rline_bytes s' = concat qs @ r"
      using readline_text [OF Cons.prems(1,2) q(2)] Cons.prems(4) q(1) by auto
    have "q \<noteq> []" using q(2) by (auto simp: text_line_def)
    then have "str_cli (sent @ l) (shown @ q) fp s' outp1 = Some res"
      using Cons.prems(7) l w s' True out cstr_text [OF q(2)] by simp
    from Cons.IH [OF s'(2,3) l(2) s'(4) q(4,3) this] show ?thesis
      using w q(1) writen_loop_script [of "length l" l "[]" outp] by (auto simp: writen_def split: outcome.splits)
  next
    case False
    then have "res = Die (sent @ out, shown)" using Cons.prems(7) l w by simp
    then show ?thesis
      using writen_loop_result [of "length l" l "[]" outp k out outp1] w False by (auto simp: writen_def)
  qed
qed


section \<open>The \<open>select\<close> client: \<open>strcliselect02\<close>\<close>

text \<open>Ghost fields record what the kernel has been given: bytes read from the terminal, sent, received,
  shown, and the number of FINs.\<close>

record copies =
  typed :: "byte list"
  sent :: "byte list"
  received :: "byte list"
  shown :: "byte list"
  fins :: nat

record sel02 = copies +
  stdineof :: bool

text \<open>One round's answers: which descriptors are ready, what the two reads find, and whether the two
  writes take all they are given.\<close>

record sel02_env =
  sock_ready :: bool
  std_ready :: bool
  sock_rd :: "errno + byte list"
  std_rd :: "errno + byte list"
  out_ok :: bool
  sock_ok :: bool

definition sel02_sock :: "sel02_env \<Rightarrow> sel02 \<Rightarrow> sel02 outcome" where
  "sel02_sock e st =
     (if \<not> sock_ready e then Go st
      else case sock_rd e of
        Inl _ \<Rightarrow> Die st
      | Inr bs \<Rightarrow>
          (let buf = take MAXLINE bs in
           if buf = [] then (if stdineof st then Ret st else Die st)
           else if out_ok e then Go (st\<lparr>received := received st @ buf, shown := shown st @ buf\<rparr>)
           else Die (st\<lparr>received := received st @ buf\<rparr>)))"

definition sel02_stdin :: "sel02_env \<Rightarrow> sel02 \<Rightarrow> sel02 outcome" where
  "sel02_stdin e st =
     (if stdineof st \<or> \<not> std_ready e then Go st
      else case std_rd e of
        Inl _ \<Rightarrow> Die st
      | Inr bs \<Rightarrow>
          (let buf = take MAXLINE bs in
           if buf = [] then Go (st\<lparr>stdineof := True, fins := fins st + 1\<rparr>)
           else if sock_ok e then Go (st\<lparr>typed := typed st @ buf, sent := sent st @ buf\<rparr>)
           else Die (st\<lparr>typed := typed st @ buf\<rparr>)))"

definition sel02_round :: "sel02_env \<Rightarrow> sel02 \<Rightarrow> sel02 outcome" where
  "sel02_round e st = (case sel02_sock e st of Go st' \<Rightarrow> sel02_stdin e st' | r \<Rightarrow> r)"

definition sel02_init :: sel02 where
  "sel02_init = \<lparr>typed = [], sent = [], received = [], shown = [], fins = 0, stdineof = False\<rparr>"

definition sel02_inv :: "sel02 \<Rightarrow> bool" where
  "sel02_inv st \<longleftrightarrow> sent st = typed st \<and> shown st = received st \<and> fins st = (if stdineof st then 1 else 0)"

lemma sel02_round_inv:
  "sel02_inv st \<Longrightarrow>
   (case sel02_round e st of Go st' \<Rightarrow> sel02_inv st' | Ret st' \<Rightarrow> sel02_inv st' \<and> stdineof st' | Die st' \<Rightarrow> True)"
  by (auto simp: sel02_round_def sel02_sock_def sel02_stdin_def sel02_inv_def Let_def
      split: sum.splits outcome.splits if_splits)

section \<open>The non-blocking client: \<open>strclinonb\<close>\<close>

text \<open>The two buffers with their pointers as offsets: \<open>to\<close> from the terminal to the socket, \<open>fr\<close> from
  the socket to standard output.\<close>

record nonb = sel02 +
  to :: "byte list"
  toiptr :: nat
  tooptr :: nat
  fr :: "byte list"
  friptr :: nat
  froptr :: nat

text \<open>The answers: readiness of the four descriptor bits, and the result of each call. A \<open>write\<close>
  offered \<open>n\<close> bytes takes at most \<open>n\<close>.\<close>

record nonb_env =
  r_stdin :: bool
  r_sock :: bool
  w_sock :: bool
  w_stdout :: bool
  rd_stdin :: "errno + byte list"
  rd_sock :: "errno + byte list"
  wr_stdout :: "errno + nat"
  wr_sock :: "errno + nat"

definition nonb_read_stdin :: "nonb_env \<Rightarrow> nonb \<Rightarrow> bool \<Rightarrow> (nonb \<times> bool) outcome" where
  "nonb_read_stdin e st wsock =
     (case rd_stdin e of
        Inl er \<Rightarrow> if er \<noteq> EWOULDBLOCK then Die (st, wsock) else Go (st, wsock)
      | Inr bs \<Rightarrow>
          (let buf = take (MAXLINE - toiptr st) bs in
           if buf = [] then
             (let st = st\<lparr>stdineof := True\<rparr> in
              Go (if tooptr st = toiptr st then st\<lparr>fins := fins st + 1\<rparr> else st, wsock))
           else Go (st\<lparr>typed := typed st @ buf, to := poke (to st) (toiptr st) buf,
                     toiptr := toiptr st + length buf\<rparr>, True)))"

definition nonb_read_sock :: "nonb_env \<Rightarrow> nonb \<Rightarrow> bool \<Rightarrow> (nonb \<times> bool) outcome" where
  "nonb_read_sock e st wout =
     (case rd_sock e of
        Inl er \<Rightarrow> if er \<noteq> EWOULDBLOCK then Die (st, wout) else Go (st, wout)
      | Inr bs \<Rightarrow>
          (let buf = take (MAXLINE - friptr st) bs in
           if buf = [] then (if stdineof st then Ret (st, wout) else Die (st, wout))
           else Go (st\<lparr>received := received st @ buf, fr := poke (fr st) (friptr st) buf,
                     friptr := friptr st + length buf\<rparr>, True)))"

definition nonb_write_stdout :: "nonb_env \<Rightarrow> nonb \<Rightarrow> nonb outcome" where
  "nonb_write_stdout e st =
     (case wr_stdout e of
        Inl er \<Rightarrow> if er \<noteq> EWOULDBLOCK then Die st else Go st
      | Inr m \<Rightarrow>
          (let nwritten = min m (friptr st - froptr st);
               st = st\<lparr>shown := shown st @ take nwritten (drop (froptr st) (fr st)), froptr := froptr st + nwritten\<rparr>
           in Go (if froptr st = friptr st then st\<lparr>froptr := 0, friptr := 0\<rparr> else st)))"

definition nonb_write_sock :: "nonb_env \<Rightarrow> nonb \<Rightarrow> nonb outcome" where
  "nonb_write_sock e st =
     (case wr_sock e of
        Inl er \<Rightarrow> if er \<noteq> EWOULDBLOCK then Die st else Go st
      | Inr m \<Rightarrow>
          (let nwritten = min m (toiptr st - tooptr st);
               st = st\<lparr>sent := sent st @ take nwritten (drop (tooptr st) (to st)), tooptr := tooptr st + nwritten\<rparr>
           in Go (if tooptr st = toiptr st then
                    (let st = st\<lparr>tooptr := 0, toiptr := 0\<rparr> in if stdineof st then st\<lparr>fins := fins st + 1\<rparr> else st)
                  else st)))"

text \<open>One round: \<open>select\<close> sets only bits that were asked for.\<close>

definition nonb_round :: "nonb_env \<Rightarrow> nonb \<Rightarrow> nonb outcome" where
  "nonb_round e st =
     (let rstdin = (r_stdin e \<and> \<not> stdineof st \<and> toiptr st < MAXLINE);
          rsock = (r_sock e \<and> friptr st < MAXLINE);
          wsock = (w_sock e \<and> tooptr st \<noteq> toiptr st);
          wout = (w_stdout e \<and> froptr st \<noteq> friptr st)
      in case (if rstdin then nonb_read_stdin e st wsock else Go (st, wsock)) of
           Die (st, _) \<Rightarrow> Die st | Ret (st, _) \<Rightarrow> Ret st
         | Go (st, wsock) \<Rightarrow>
             (case (if rsock then nonb_read_sock e st wout else Go (st, wout)) of
                Die (st, _) \<Rightarrow> Die st | Ret (st, _) \<Rightarrow> Ret st
              | Go (st, wout) \<Rightarrow>
                  (case (if wout \<and> friptr st - froptr st > 0 then nonb_write_stdout e st else Go st) of
                     Go st \<Rightarrow> if wsock \<and> toiptr st - tooptr st > 0 then nonb_write_sock e st else Go st
                   | r \<Rightarrow> r)))"

definition nonb_init :: nonb where
  "nonb_init = \<lparr>typed = [], sent = [], received = [], shown = [], fins = 0, stdineof = False,
     to = replicate MAXLINE 0, toiptr = 0, tooptr = 0, fr = replicate MAXLINE 0, friptr = 0, froptr = 0\<rparr>"

text \<open>What is in the buffers is what has been read and not yet written, and the FIN goes out once,
  after everything typed.\<close>

definition nonb_inv :: "nonb \<Rightarrow> bool" where
  "nonb_inv st \<longleftrightarrow>
     length (to st) = MAXLINE \<and> length (fr st) = MAXLINE
     \<and> tooptr st \<le> toiptr st \<and> toiptr st \<le> MAXLINE \<and> froptr st \<le> friptr st \<and> friptr st \<le> MAXLINE
     \<and> typed st = sent st @ take (toiptr st - tooptr st) (drop (tooptr st) (to st))
     \<and> received st = shown st @ take (friptr st - froptr st) (drop (froptr st) (fr st))
     \<and> fins st = (if stdineof st \<and> tooptr st = toiptr st then 1 else 0)"

lemma drop_poke_window:
  assumes "i \<le> j" "j + length bs \<le> length buf"
  shows "take (j + length bs - i) (drop i (poke buf j bs)) = take (j - i) (drop i buf) @ bs"
proof -
  have "length (take (j - i) (drop i buf)) = j - i" using assms by simp
  moreover have "drop i (poke buf j bs) = take (j - i) (drop i buf) @ bs @ drop (j + length bs) buf"
    using assms by (simp add: poke_def drop_take)
  moreover have "j + length bs - i = (j - i) + length bs" using assms by simp
  ultimately show ?thesis by simp
qed

lemma window_split: "m \<le> n \<Longrightarrow> take m (drop i xs) @ take (n - m) (drop (i + m) xs) = take n (drop i xs)"
proof -
  assume "m \<le> n"
  then obtain k where "n = m + k" by (auto dest: le_Suc_ex)
  then show ?thesis by (simp only: take_add drop_drop diff_add_inverse add.commute [of m i])
qed


lemma nonb_read_stdin_inv:
  assumes "nonb_inv st" "\<not> stdineof st" "toiptr st < MAXLINE"
  shows "case nonb_read_stdin e st w of Go (st', _) \<Rightarrow> nonb_inv st' \<and> friptr st' = friptr st
    | Ret _ \<Rightarrow> False | Die _ \<Rightarrow> True"
proof (cases "rd_stdin e")
  case (Inl er)
  then show ?thesis using assms by (simp add: nonb_read_stdin_def)
next
  case (Inr bs)
  define buf where "buf = take (MAXLINE - toiptr st) bs"
  have "toiptr st + length buf \<le> length (to st)" "tooptr st \<le> toiptr st"
    using assms by (auto simp: buf_def nonb_inv_def)
  then show ?thesis using assms Inr drop_poke_window [of "tooptr st" "toiptr st" buf "to st"]
    by (auto simp: nonb_read_stdin_def nonb_inv_def Let_def buf_def [symmetric])
qed

lemma nonb_read_sock_inv:
  assumes "nonb_inv st" "friptr st < MAXLINE"
  shows "case nonb_read_sock e st w of Go (st', _) \<Rightarrow> nonb_inv st'
    | Ret (st', _) \<Rightarrow> st' = st \<and> stdineof st | Die _ \<Rightarrow> True"
proof (cases "rd_sock e")
  case (Inl er)
  then show ?thesis using assms by (simp add: nonb_read_sock_def)
next
  case (Inr bs)
  define buf where "buf = take (MAXLINE - friptr st) bs"
  have "friptr st + length buf \<le> length (fr st)" "froptr st \<le> friptr st"
    using assms by (auto simp: buf_def nonb_inv_def)
  then show ?thesis using assms Inr drop_poke_window [of "froptr st" "friptr st" buf "fr st"]
    by (auto simp: nonb_read_sock_def nonb_inv_def Let_def buf_def [symmetric])
qed

lemma nonb_write_stdout_inv:
  assumes "nonb_inv st"
  shows "case nonb_write_stdout e st of Go st' \<Rightarrow> nonb_inv st' | Ret _ \<Rightarrow> False | Die _ \<Rightarrow> True"
proof (cases "wr_stdout e")
  case (Inl er)
  then show ?thesis using assms by (simp add: nonb_write_stdout_def)
next
  case (Inr m)
  define k where "k = min m (friptr st - froptr st)"
  have k: "k \<le> friptr st - froptr st" by (simp add: k_def)
  have "take k (drop (froptr st) (fr st)) @ take (friptr st - (froptr st + k)) (drop (froptr st + k) (fr st))
      = take (friptr st - froptr st) (drop (froptr st) (fr st))"
    using window_split [OF k, of "froptr st" "fr st"] by simp
  then show ?thesis using assms Inr k
    by (auto simp: nonb_write_stdout_def nonb_inv_def Let_def k_def [symmetric])
qed

lemma nonb_write_sock_inv:
  assumes "nonb_inv st" "tooptr st < toiptr st"
  shows "case nonb_write_sock e st of Go st' \<Rightarrow> nonb_inv st' | Ret _ \<Rightarrow> False | Die _ \<Rightarrow> True"
proof (cases "wr_sock e")
  case (Inl er)
  then show ?thesis using assms by (simp add: nonb_write_sock_def)
next
  case (Inr m)
  define k where "k = min m (toiptr st - tooptr st)"
  have k: "k \<le> toiptr st - tooptr st" by (simp add: k_def)
  have "take k (drop (tooptr st) (to st)) @ take (toiptr st - (tooptr st + k)) (drop (tooptr st + k) (to st))
      = take (toiptr st - tooptr st) (drop (tooptr st) (to st))"
    using window_split [OF k, of "tooptr st" "to st"] by simp
  then show ?thesis using assms Inr k
    by (auto simp: nonb_write_sock_def nonb_inv_def Let_def k_def [symmetric])
qed

lemma nonb_round_inv:
  assumes "nonb_inv st"
  shows "case nonb_round e st of Go st' \<Rightarrow> nonb_inv st' | Ret st' \<Rightarrow> nonb_inv st' \<and> stdineof st' | Die st' \<Rightarrow> True"
proof -
  let ?s1 = "if r_stdin e \<and> \<not> stdineof st \<and> toiptr st < MAXLINE
    then nonb_read_stdin e st (w_sock e \<and> tooptr st \<noteq> toiptr st) else Go (st, w_sock e \<and> tooptr st \<noteq> toiptr st)"
  have s1: "case ?s1 of Go (st', _) \<Rightarrow> nonb_inv st' \<and> friptr st' = friptr st | Ret _ \<Rightarrow> False | Die _ \<Rightarrow> True"
    using nonb_read_stdin_inv [OF assms] assms by auto
  show ?thesis
  proof (cases ?s1)
    case (Go p)
    obtain st1 w1 where p: "p = (st1, w1)" by (cases p)
    have i1: "nonb_inv st1" "friptr st1 = friptr st" using s1 Go p by simp_all
    let ?o = "w_stdout e \<and> froptr st \<noteq> friptr st"
    let ?s2 = "if r_sock e \<and> friptr st < MAXLINE then nonb_read_sock e st1 ?o else Go (st1, ?o)"
    have s2: "case ?s2 of Go (st', _) \<Rightarrow> nonb_inv st' | Ret (st', _) \<Rightarrow> nonb_inv st' \<and> stdineof st' | Die _ \<Rightarrow> True"
      using nonb_read_sock_inv [OF i1(1), of e ?o] i1 by (auto split: outcome.splits)
    show ?thesis
    proof (cases ?s2)
      case g2: (Go q)
      obtain st2 w2 where q: "q = (st2, w2)" by (cases q)
      have i2: "nonb_inv st2" using s2 g2 q by simp
      let ?s3 = "if w2 \<and> friptr st2 - froptr st2 > 0 then nonb_write_stdout e st2 else Go st2"
      have s3: "case ?s3 of Go st' \<Rightarrow> nonb_inv st' | Ret _ \<Rightarrow> False | Die _ \<Rightarrow> True"
        using nonb_write_stdout_inv [OF i2] i2 by simp
      have "nonb_round e st = (case ?s3 of Go st' \<Rightarrow>
          if w1 \<and> toiptr st' - tooptr st' > 0 then nonb_write_sock e st' else Go st' | r \<Rightarrow> r)"
        using Go p g2 q by (simp add: nonb_round_def)
      moreover have "case (if w1 \<and> toiptr s - tooptr s > 0 then nonb_write_sock e s else Go s) of
          Go s \<Rightarrow> nonb_inv s | Ret s \<Rightarrow> nonb_inv s \<and> stdineof s | Die _ \<Rightarrow> True" if "nonb_inv s" for s
        using nonb_write_sock_inv [OF that, of e] that by (cases "nonb_write_sock e s") auto
      ultimately show ?thesis using s3 by (cases ?s3) simp_all
    qed (use Go p s2 in \<open>auto simp: nonb_round_def\<close>)
  qed (use s1 in \<open>auto simp: nonb_round_def\<close>)
qed


section \<open>Correctness\<close>

text \<open>
  The echo server copies exactly: when \<open>str_echo\<close> returns it has written back every byte of the
  stream, in order and once, whatever the chunks, the partial writes and the signals; when it exits
  with an error it has written back a prefix.
\<close>

lemma str_echo_correct:
  assumes "proper inp" "str_echo [] inp outp = Some res"
  shows "case res of Ret out \<Rightarrow> out = content inp \<and> fate inp = None
    | Die out \<Rightarrow> \<exists>k. out = take k (content inp) | Go out \<Rightarrow> False"
  using str_echo_copies [OF assms] by (cases res) auto

lemma str_echo_correct_example:
  "str_echo [] [Chunk [1, 2], RdErr EINTR, Chunk [3]] [Accept 1, WrErr EINTR, Accept 9, Accept 1]
     = Some (Ret [1, 2, 3]) \<and> content [Chunk [1, 2], RdErr EINTR, Chunk [3]] = [1, 2, 3]"
proof -
  have r: "str_echo [] [Chunk [1, 2], RdErr EINTR, Chunk [3]] [Accept 1, WrErr EINTR, Accept 9, Accept 1]
     = Some (Ret [1, 2, 3])" by code_simp
  have p: "proper [Chunk [1, 2], RdErr EINTR, Chunk [3]]" by simp
  show ?thesis using str_echo_correct [OF p r] r by simp
qed

text \<open>
  The stop-and-wait client: if the peer answers every text line typed with one text line (of fewer
  than \<open>MAXLINE\<close> bytes, without NULs), in whatever chunks, then when \<open>str_cli\<close> returns it has sent
  exactly what was typed and printed exactly the answers; it exits early only if a write fails.
\<close>

lemma str_cli_correct:
  assumes "proper inp" "fate inp = None" "content inp = concat replies @ r"
    and "\<forall>l\<in>set fp \<union> set replies. text_line l" "length replies = length fp"
    and "str_cli [] [] fp (rline_init, inp) outp = Some res"
  shows "case res of Ret (out, printed) \<Rightarrow> out = concat fp \<and> printed = concat replies
    | Die _ \<Rightarrow> \<exists>w\<in>set outp. refuses w | Go _ \<Rightarrow> False"
proof -
  have "rline_ok (rline_init, inp)" "rline_bytes (rline_init, inp) = concat replies @ r"
    using assms(1,3) by (simp_all add: rline_ok_def rline_init_def rline_bytes_def)
  from str_cli_lines [OF this(1) _ _ this(2) assms(5) _ assms(6)] assms(2,4) show ?thesis
    by (cases res) auto
qed

lemma str_cli_correct_example:
  "str_cli [] [] [[104, 10]] (rline_init, [Chunk [111], Chunk [10]]) [Accept 2] = Some (Ret ([104, 10], [111, 10]))
   \<and> [104, 10 :: byte] = concat [[104, 10]]"
proof -
  have r: "str_cli [] [] [[104, 10]] (rline_init, [Chunk [111], Chunk [10]]) [Accept 2] = Some (Ret ([104, 10], [111, 10]))"
    by code_simp
  have t: "\<forall>l\<in>set [[104, 10]] \<union> set [[111, 10]]. text_line l"
    by (auto simp: text_line_def)
  have "proper [Chunk [111], Chunk [10]]" "fate [Chunk [111], Chunk [10]] = None"
    "content [Chunk [111], Chunk [10]] = concat [[111, 10]] @ []" "length [[111, 10 :: byte]] = length [[104, 10 :: byte]]"
    by simp_all
  from str_cli_correct [OF this(1,2,3) t this(4) r] show ?thesis using r by simp
qed

text \<open>
  The \<open>select\<close> client \<open>strcliselect02\<close>, in every run: what is sent is what was typed, what is
  shown is what was received, and one FIN is sent, at the end of the terminal's input; it returns
  normally only after that FIN and the server's.
\<close>

lemma sel02_copies:
  "case rounds sel02_round es sel02_init of
     Go st \<Rightarrow> sent st = typed st \<and> shown st = received st \<and> fins st = (if stdineof st then 1 else 0)
   | Ret st \<Rightarrow> sent st = typed st \<and> shown st = received st \<and> fins st = 1
   | Die st \<Rightarrow> True"
proof -
  have "sel02_inv sel02_init" by (simp add: sel02_inv_def sel02_init_def)
  from rounds_invariant [where f = sel02_round and I = sel02_inv and R = "\<lambda>st. sel02_inv st \<and> stdineof st"
      and D = "\<lambda>_. True" and es = es, OF sel02_round_inv this]
  show ?thesis by (auto simp: sel02_inv_def split: outcome.splits)
qed

text \<open>
  C33 The non-blocking client, in every run of ready sets, partial reads and writes and
  \<open>EWOULDBLOCK\<close>s: both pointer pairs stay inside their buffers; what has been sent, with what waits in
  \<open>to\<close>, is what was typed, and what has been shown, with what waits in \<open>fr\<close>, is what was received;
  exactly one FIN is sent, when the terminal has ended and everything typed is on its way.
\<close>

theorem nonb_copies:
  "case rounds nonb_round es nonb_init of
     Go st \<Rightarrow> nonb_inv st | Ret st \<Rightarrow> nonb_inv st \<and> stdineof st | Die st \<Rightarrow> True"
proof -
  have "nonb_inv nonb_init" by (simp add: nonb_inv_def nonb_init_def)
  from rounds_invariant [where f = nonb_round and I = nonb_inv and R = "\<lambda>st. nonb_inv st \<and> stdineof st"
      and D = "\<lambda>_. True" and es = es, OF nonb_round_inv this]
  show ?thesis .
qed

definition idle_env :: nonb_env where
  "idle_env = \<lparr>r_stdin = False, r_sock = False, w_sock = False, w_stdout = False, rd_stdin = Inr [],
     rd_sock = Inr [], wr_stdout = Inl EWOULDBLOCK, wr_sock = Inr 0\<rparr>"

text \<open>
  A normal return of the non-blocking client can lose data: for every reply \<open>bs\<close> that fits the
  buffer there is a run in which the terminal ends, the whole reply is received, standard output is
  not ready, the server closes, and \<open>str_cli\<close> returns with nothing of the reply shown.
\<close>

lemma nonb_loses_reply:
  assumes "bs \<noteq> []" "length bs < MAXLINE"
  shows "\<exists>es st. rounds nonb_round es nonb_init = Ret st \<and> received st = bs \<and> shown st = [] \<and> fins st = 1"
proof -
  let ?es = "[idle_env\<lparr>r_stdin := True\<rparr>, idle_env\<lparr>r_sock := True, rd_sock := Inr bs\<rparr>, idle_env\<lparr>r_sock := True\<rparr>]"
  have "\<exists>st. rounds nonb_round ?es nonb_init = Ret st \<and> received st = bs \<and> shown st = [] \<and> fins st = 1"
    using assms by (simp add: nonb_round_def nonb_read_stdin_def nonb_read_sock_def nonb_write_stdout_def
        nonb_init_def idle_env_def Let_def)
  then show ?thesis by blast
qed

lemma nonb_loses_reply_example:
  "\<exists>es st. rounds nonb_round es nonb_init = Ret st \<and> received st = [111, 107] \<and> shown st = [] \<and> fins st = 1"
  by (rule nonb_loses_reply) simp_all

end
