(* ===== verification/Uno_Cards.thy ===== *)
theory Uno_Cards
  imports CPrelude "HOL-Library.Multiset" "HOL-Library.Monad_Syntax"
begin

text \<open>
  \<open>tcpcliserv/final_server.c\<close>, the cards of the UNO game server: the deck and its shuffle, whose turn
  is next, the messages to a room, drawing cards. A seat is a number below 10 of a room's arrays; a
  connection is an index of \<open>conns\<close>. A message is recorded with the index of the connection it goes to;
  the copies the server logs on descriptor 0 are left out, and so is the failure of a \<open>Writen\<close>, which
  ends the process. The values of \<open>rand\<close> are a parameter: \<open>rnd i\<close> is the value drawn at position \<open>i\<close>.
\<close>

section \<open>The deck\<close>

definition cards :: "string list" where
  "cards =
    [''0r'', ''0y'', ''0g'', ''0b'', ''1r'', ''1r'', ''1y'', ''1y'', ''1g'', ''1g'', ''1b'', ''1b'',
     ''2r'', ''2r'', ''2y'', ''2y'', ''2g'', ''2g'', ''2b'', ''2b'', ''3r'', ''3r'', ''3y'', ''3y'',
     ''3g'', ''3g'', ''3b'', ''3b'', ''4r'', ''4r'', ''4y'', ''4y'', ''4g'', ''4g'', ''4b'', ''4b'',
     ''5r'', ''5r'', ''5y'', ''5y'', ''5g'', ''5g'', ''5b'', ''5b'', ''6r'', ''6r'', ''6y'', ''6y'',
     ''6g'', ''6g'', ''6b'', ''6b'', ''7r'', ''7r'', ''7y'', ''7y'', ''7g'', ''7g'', ''7b'', ''7b'',
     ''8r'', ''8r'', ''8y'', ''8y'', ''8g'', ''8g'', ''8b'', ''8b'', ''9r'', ''9r'', ''9y'', ''9y'',
     ''9g'', ''9g'', ''9b'', ''9b'', ''ar'', ''ar'', ''ay'', ''ay'', ''ag'', ''ag'', ''ab'', ''ab'',
     ''br'', ''br'', ''by'', ''by'', ''bg'', ''bg'', ''bb'', ''bb'', ''cr'', ''cr'', ''cy'', ''cy'',
     ''cg'', ''cg'', ''cb'', ''cb'', ''dx'', ''dx'', ''dx'', ''dx'', ''ex'', ''ex'', ''ex'', ''ex'']"

definition score :: "int list" where
  "score =
    [0, 0, 0, 0, 1, 1, 1, 1, 1, 1, 1, 1, 2, 2, 2, 2, 2, 2, 2, 2,
     3, 3, 3, 3, 3, 3, 3, 3, 4, 4, 4, 4, 4, 4, 4, 4, 5, 5, 5, 5,
     5, 5, 5, 5, 6, 6, 6, 6, 6, 6, 6, 6, 7, 7, 7, 7, 7, 7, 7, 7,
     8, 8, 8, 8, 8, 8, 8, 8, 9, 9, 9, 9, 9, 9, 9, 9, 20, 20, 20, 20,
     20, 20, 20, 20, 20, 20, 20, 20, 20, 20, 20, 20, 20, 20, 20, 20, 20, 20, 20, 20,
     50, 50, 50, 50, 50, 50, 50, 50]"

lemma length_cards: "length cards = 108" "length score = 108"
  by (simp_all add: cards_def score_def)

text \<open>\<open>shuffle\<close> first overwrites the array with \<open>0 .. size - 1\<close>, whatever it held.\<close>

definition shuffle_init :: "nat list \<Rightarrow> nat \<Rightarrow> nat list" where
  "shuffle_init arr sz = foldl (\<lambda>a i. a[i := i]) arr [0..<sz]"

definition shuffle_step :: "(nat \<Rightarrow> nat) \<Rightarrow> nat list \<Rightarrow> nat \<Rightarrow> nat list" where
  "shuffle_step rnd arr i =
     (let j = rnd i mod (i + 1); temp = arr ! i; arr = arr[i := arr ! j] in arr[j := temp])"

definition shuffle :: "(nat \<Rightarrow> nat) \<Rightarrow> nat list \<Rightarrow> nat \<Rightarrow> nat list" where
  "shuffle rnd arr sz = foldl (shuffle_step rnd) (shuffle_init arr sz) (rev [1..<sz])"

lemma shuffle_init_eq:
  "sz \<le> length arr \<Longrightarrow> shuffle_init arr sz = [0..<sz] @ drop sz arr"
proof (induction sz)
  case 0
  then show ?case by (simp add: shuffle_init_def)
next
  case (Suc n)
  then have "shuffle_init arr (Suc n) = (shuffle_init arr n)[n := n]" by (simp add: shuffle_init_def)
  with Suc show ?case by (simp add: list_update_append Cons_nth_drop_Suc [symmetric])
qed

lemma shuffle_steps:
  assumes "\<forall>i\<in>set js. i < n" "n \<le> length arr"
  shows "length (foldl (shuffle_step rnd) arr js) = length arr
    \<and> mset (take n (foldl (shuffle_step rnd) arr js)) = mset (take n arr)
    \<and> drop n (foldl (shuffle_step rnd) arr js) = drop n arr"
  using assms
proof (induction js arbitrary: arr)
  case Nil
  then show ?case by simp
next
  case (Cons i js)
  let ?j = "rnd i mod (i + 1)"
  have i: "i < n" "?j < n" using Cons.prems(1) by (auto intro: le_less_trans [of _ i])
  have step: "shuffle_step rnd arr i = arr[i := arr ! ?j, ?j := arr ! i]"
    by (simp add: shuffle_step_def Let_def)
  have "take n (shuffle_step rnd arr i) = (take n arr)[i := take n arr ! ?j, ?j := take n arr ! i]"
    using i by (simp add: step take_update_swap)
  then have "mset (take n (shuffle_step rnd arr i)) = mset (take n arr)"
    using i Cons.prems(2) mset_swap [of ?j "take n arr" i] by simp
  moreover have "drop n (shuffle_step rnd arr i) = drop n arr" "length (shuffle_step rnd arr i) = length arr"
    using i by (simp_all add: step)
  ultimately show ?case using Cons.IH [of "shuffle_step rnd arr i"] Cons.prems by simp
qed

lemma shuffle_perm:
  assumes "sz \<le> length arr"
  shows "length (shuffle rnd arr sz) = length arr" "mset (take sz (shuffle rnd arr sz)) = mset [0..<sz]"
    "drop sz (shuffle rnd arr sz) = drop sz arr"
  using shuffle_steps [of "rev [1..<sz]" sz "shuffle_init arr sz" rnd] assms
  by (simp_all add: shuffle_def shuffle_init_eq)

lemma shuffle_deck:
  assumes "sz \<le> length arr"
  shows "distinct (take sz (shuffle rnd arr sz))" "set (take sz (shuffle rnd arr sz)) = {0..<sz}"
proof -
  note m = shuffle_perm(2) [OF assms, of rnd]
  show "distinct (take sz (shuffle rnd arr sz))" using m by (metis distinct_upt mset_eq_imp_distinct_iff)
  show "set (take sz (shuffle rnd arr sz)) = {0..<sz}" using m by (metis mset_eq_setD set_upt)
qed


section \<open>The state of a game\<close>

text \<open>The locals of \<open>GameStart\<close> and what it changes of the globals: \<open>conns[].state\<close>, the connections
  closed, \<open>global_player_num\<close>. The names do not change during a game. An empty seat has \<open>used\<close> -1,
  a player who has left has \<open>hand_num\<close> -1.\<close>

type_synonym msg = "nat \<times> string"

record game =
  cname :: "nat \<Rightarrow> string"
  used :: "nat \<Rightarrow> int"
  hand :: "nat \<Rightarrow> nat \<Rightarrow> bool"
  hand_num :: "nat \<Rightarrow> int"
  card_seq :: "nat list"
  card_num :: nat
  whose_round :: nat
  turn :: int
  table_card :: nat
  colour :: char
  card_id :: nat
  player_num :: int
  is_uno :: "nat \<Rightarrow> bool"
  have_uno :: int
  time_stamp :: "nat \<Rightarrow> int"
  cstate :: "nat \<Rightarrow> int"
  closed :: "nat list"
  global_player_num :: int
  out :: "msg list"

abbreviation NL :: char where "NL \<equiv> CHR 0x0A"

definition seat_conn :: "game \<Rightarrow> nat \<Rightarrow> nat" where
  "seat_conn g i = nat (used g i)"

definition seat_name :: "game \<Rightarrow> nat \<Rightarrow> string" where
  "seat_name g i = cname g (seat_conn g i)"

section \<open>Messages\<close>

definition SendToEveryone :: "int \<Rightarrow> string \<Rightarrow> (nat \<Rightarrow> int) \<Rightarrow> msg list" where
  "SendToEveryone who line us =
     map (\<lambda>i. (nat (us i), line)) (filter (\<lambda>i. int i \<noteq> who \<and> us i \<noteq> -1) [0..<10])"

definition SendToEveryoneInGame :: "int \<Rightarrow> string \<Rightarrow> (nat \<Rightarrow> int) \<Rightarrow> (nat \<Rightarrow> int) \<Rightarrow> msg list" where
  "SendToEveryoneInGame who line us hn =
     map (\<lambda>i. (nat (us i), line)) (filter (\<lambda>i. int i \<noteq> who \<and> us i \<noteq> -1 \<and> hn i \<noteq> -1) [0..<10])"

definition tell_game :: "int \<Rightarrow> string \<Rightarrow> game \<Rightarrow> game" where
  "tell_game who line g = g\<lparr>out := out g @ SendToEveryoneInGame who line (used g) (hand_num g)\<rparr>"

definition tell :: "nat \<Rightarrow> string \<Rightarrow> game \<Rightarrow> game" where
  "tell c line g = g\<lparr>out := out g @ [(c, line)]\<rparr>"

text \<open>\<open>StartRound\<close>: the header with the table card, the deck size, the direction, whose turn it is and
  all hand sizes, followed for each player by his own cards.\<close>

definition round_header :: "string \<Rightarrow> game \<Rightarrow> string" where
  "round_header name g =
     ''10 '' @ name @ '' '' @ fmt_d (int (card_num g)) @ '' '' @ fmt_d (turn g) @ '' '' @ seat_name g (whose_round g)
     @ concat (map (\<lambda>i. '' '' @ fmt_d (hand_num g i)) (filter (\<lambda>i. used g i \<noteq> -1) [0..<10]))"

definition StartRound :: "string \<Rightarrow> game \<Rightarrow> game" where
  "StartRound name g =
     g\<lparr>out := out g @
       map (\<lambda>i. (seat_conn g i,
                 round_header name g @ concat (map (\<lambda>j. '' '' @ cards ! j) (filter (hand g i) [0..<108])) @ [NL]))
         (filter (\<lambda>i. used g i \<noteq> -1 \<and> hand_num g i \<noteq> -1) [0..<10])\<rparr>"

section \<open>Whose turn is next\<close>

text \<open>The loop over \<open>j\<close>; the fuel counts its rounds.\<close>

fun switch_loop :: "nat \<Rightarrow> nat \<Rightarrow> nat \<Rightarrow> (nat \<Rightarrow> int) \<Rightarrow> nat \<Rightarrow> nat option" where
  "switch_loop 0 d w hn j = None"
| "switch_loop (Suc k) d w hn j =
     (if j = w then Some w
      else if hn j = -1 then switch_loop k d w hn ((j + d) mod 10)
      else Some j)"

definition SwitchToNextPlayer :: "nat \<Rightarrow> (nat \<Rightarrow> int) \<Rightarrow> int \<Rightarrow> nat" where
  "SwitchToNextPlayer w hn t =
     (let d = (if t = 0 then 1 else 9) in
      case switch_loop 10 d w hn ((w + d) mod 10) of Some j \<Rightarrow> j | None \<Rightarrow> 10)"

text \<open>The player at distance \<open>k\<close> in the direction of play.\<close>

definition seat_at :: "nat \<Rightarrow> int \<Rightarrow> nat \<Rightarrow> nat" where
  "seat_at w t k = (w + k * (if t = 0 then 1 else 9)) mod 10"

lemma turn_moves:
  assumes "w < 10" "1 \<le> i" "i < 10" "d = 1 \<or> d = (9::nat)"
  shows "(w + i * d) mod 10 \<noteq> w"
  using assms(4)
proof
  assume d: "d = 1"
  show ?thesis
  proof (cases "w + i < 10")
    case False
    then have "(w + i) mod 10 = w + i - 10" using assms by (simp add: le_mod_geq)
    moreover have "w + i - 10 \<noteq> w" using assms(3) False by linarith
    ultimately show ?thesis using d by simp
  qed (use d assms in simp)
next
  assume d: "d = 9"
  show ?thesis
  proof (cases "i \<le> w")
    case True
    then have "w + i * 9 = (w - i) + i * 10" by simp
    then have "(w + i * 9) mod 10 = w - i" using assms by (simp only: mod_mult_self1) simp
    then show ?thesis using d assms True by simp
  next
    case False
    then have "w + i * 9 = (w + 10 - i) + (i - 1) * 10" using assms by simp
    then have "(w + i * 9) mod 10 = w + 10 - i" using assms False by (simp only: mod_mult_self1) simp
    then show ?thesis using d assms False by simp
  qed
qed

lemma switch_loop_seats:
  assumes "w < 10" "d = 1 \<or> d = 9"
  shows "\<exists>k. 1 \<le> k \<and> k \<le> 10 \<and> switch_loop 10 d w hn ((w + d) mod 10) = Some ((w + k * d) mod 10)
    \<and> (\<forall>i. 1 \<le> i \<and> i < k \<longrightarrow> hn ((w + i * d) mod 10) = -1)
    \<and> (k < 10 \<longrightarrow> hn ((w + k * d) mod 10) \<noteq> -1)"
proof -
  have ret: "(w + 10 * d) mod 10 = w" using assms(1) by simp
  have ne: "(w + i * d) mod 10 \<noteq> w" if "1 \<le> i" "i < 10" for i
    by (rule turn_moves) (use that assms in auto)
  have "\<exists>k. i \<le> k \<and> k \<le> 10 \<and> switch_loop (11 - i) d w hn ((w + i * d) mod 10) = Some ((w + k * d) mod 10)
      \<and> (\<forall>i'. i \<le> i' \<and> i' < k \<longrightarrow> hn ((w + i' * d) mod 10) = -1)
      \<and> (k < 10 \<longrightarrow> hn ((w + k * d) mod 10) \<noteq> -1)" if "1 \<le> i" "i \<le> 10" for i
    using that
  proof (induction "10 - i" arbitrary: i)
    case 0
    then have "i = 10" by simp
    then show ?case using ret by (intro exI [of _ 10]) simp
  next
    case (Suc m)
    then have i: "i < 10" "11 - i = Suc (11 - Suc i)" by simp_all
    have step: "((w + i * d) mod 10 + d) mod 10 = (w + Suc i * d) mod 10"
      by (simp only: mod_add_left_eq) (simp add: algebra_simps)
    show ?case
    proof (cases "hn ((w + i * d) mod 10) = -1")
      case True
      have "m = 10 - Suc i" "1 \<le> Suc i" "Suc i \<le> 10" using Suc(2) i(1) by simp_all
      from Suc(1) [OF this] obtain k where k: "Suc i \<le> k" "k \<le> 10"
        "switch_loop (11 - Suc i) d w hn ((w + Suc i * d) mod 10) = Some ((w + k * d) mod 10)"
        "\<forall>i'. Suc i \<le> i' \<and> i' < k \<longrightarrow> hn ((w + i' * d) mod 10) = -1" "k < 10 \<longrightarrow> hn ((w + k * d) mod 10) \<noteq> -1"
        by blast
      have "switch_loop (11 - i) d w hn ((w + i * d) mod 10) = Some ((w + k * d) mod 10)"
        using k(3) True ne [OF Suc.prems(1) i(1)] by (simp only: i(2) switch_loop.simps step if_False if_True simp_thms)
      moreover have "\<forall>i'. i \<le> i' \<and> i' < k \<longrightarrow> hn ((w + i' * d) mod 10) = -1"
        using k(4) True by (metis Suc_leI le_neq_implies_less)
      ultimately show ?thesis using k by (intro exI [of _ k]) simp
    next
      case False
      then have "switch_loop (11 - i) d w hn ((w + i * d) mod 10) = Some ((w + i * d) mod 10)"
        using ne [OF Suc.prems(1) i(1)] by (simp only: i(2) switch_loop.simps if_False simp_thms)
      then show ?thesis using False i(1) by (intro exI [of _ i]) simp
    qed
  qed
  from this [of 1] show ?thesis by simp
qed


lemma switch_seat:
  assumes "w < 10"
  shows "\<exists>k. 1 \<le> k \<and> k \<le> 10 \<and> SwitchToNextPlayer w hn t = seat_at w t k
    \<and> (\<forall>i. 1 \<le> i \<and> i < k \<longrightarrow> hn (seat_at w t i) = -1) \<and> (k < 10 \<longrightarrow> hn (seat_at w t k) \<noteq> -1)"
proof -
  let ?d = "if t = 0 then 1 else 9 :: nat"
  have "?d = 1 \<or> ?d = 9" by simp
  from switch_loop_seats [OF assms this, of hn]
  obtain k where k: "1 \<le> k" "k \<le> 10" "switch_loop 10 ?d w hn ((w + ?d) mod 10) = Some ((w + k * ?d) mod 10)"
    "\<forall>i. 1 \<le> i \<and> i < k \<longrightarrow> hn ((w + i * ?d) mod 10) = -1" "k < 10 \<longrightarrow> hn ((w + k * ?d) mod 10) \<noteq> -1"
    by blast
  have "SwitchToNextPlayer w hn t = seat_at w t k"
    by (simp only: SwitchToNextPlayer_def Let_def k(3) option.case seat_at_def)
  with k(1,2,4,5) show ?thesis unfolding seat_at_def by blast
qed

lemma seat_at_ten: "w < 10 \<Longrightarrow> seat_at w t 10 = w"
  by (simp add: seat_at_def)

lemma switch_below: "w < 10 \<Longrightarrow> SwitchToNextPlayer w hn t < 10"
  using switch_seat [of w hn t] by (auto simp: seat_at_def)

lemma switch_active:
  assumes "w < 10" "hn w \<noteq> -1"
  shows "hn (SwitchToNextPlayer w hn t) \<noteq> -1"
  using switch_seat [OF assms(1), of hn t] assms seat_at_ten [OF assms(1)] by (metis le_neq_implies_less)

lemma seat_at_onto:
  assumes "w < 10" "j < 10" "j \<noteq> w"
  shows "\<exists>i. 1 \<le> i \<and> i < 10 \<and> seat_at w t i = j"
proof (cases "t = 0")
  case True
  define i where "i = (if w < j then j - w else j + 10 - w)"
  have "w + i = j \<or> w + i = j + 10" "1 \<le> i" "i < 10" using assms by (auto simp: i_def)
  then show ?thesis using True assms(2) by (intro exI [of _ i]) (auto simp: seat_at_def)
next
  case False
  define i where "i = (if j < w then w - j else w + 10 - j)"
  have i: "1 \<le> i" "i < 10" using assms by (auto simp: i_def)
  have "w + i * 9 = j + (if j < w then i else i - 1) * 10" using assms by (auto simp: i_def)
  then have "(w + i * 9) mod 10 = j" using assms(2) by simp
  then show ?thesis using False i by (intro exI [of _ i]) (simp add: seat_at_def)
qed

lemma switch_finds:
  assumes "w < 10" "j < 10" "j \<noteq> w" "hn j \<noteq> -1"
  shows "hn (SwitchToNextPlayer w hn t) \<noteq> -1"
proof -
  obtain i where i: "1 \<le> i" "i < 10" "seat_at w t i = j" using seat_at_onto [OF assms(1-3)] by blast
  obtain k where k: "1 \<le> k" "k \<le> 10" "SwitchToNextPlayer w hn t = seat_at w t k"
    "\<forall>i. 1 \<le> i \<and> i < k \<longrightarrow> hn (seat_at w t i) = -1" "k < 10 \<longrightarrow> hn (seat_at w t k) \<noteq> -1"
    using switch_seat [OF assms(1), of hn t] by blast
  have "\<not> i < k" using k(4) i assms(4) by auto
  then have "k < 10" using i(2) by simp
  then show ?thesis using k(3,5) by simp
qed

section \<open>Drawing cards\<close>

text \<open>When the deck is empty: the cards nobody in the game holds are collected in \<open>card_seq\<close>, and the
  first \<open>card_num\<close> entries are shuffled, which is where they are overwritten.\<close>

definition reshuffle :: "(nat \<Rightarrow> nat) \<Rightarrow> (nat \<Rightarrow> bool) \<Rightarrow> game \<Rightarrow> (nat \<Rightarrow> bool) \<times> game" where
  "reshuffle rnd adopted g =
     (let g = tell_game (-1) (''20'' @ [NL]) g;
          adopted = (\<lambda>q. adopted q \<or> list_ex (\<lambda>j. hand_num g j \<noteq> -1 \<and> hand g j q) [0..<10]);
          free = filter (\<lambda>j. \<not> adopted j) [0..<108];
          g = g\<lparr>card_seq := poke (card_seq g) 0 free, card_num := length free\<rparr>
      in (adopted, g\<lparr>card_seq := shuffle rnd (card_seq g) (card_num g)\<rparr>))"

definition draw_card :: "nat \<Rightarrow> game \<Rightarrow> game" where
  "draw_card w g =
     (let c = card_seq g ! (card_num g - 1);
          g = g\<lparr>hand := (hand g)(w := (hand g w)(c := True))\<rparr>;
          g = tell (seat_conn g w) (''12 '' @ cards ! c @ [NL]) g
      in g\<lparr>hand_num := (hand_num g)(w := hand_num g w + 1), card_num := card_num g - 1,
           is_uno := (is_uno g)(w := False)\<rparr>)"

text \<open>\<open>None\<close> is a read of \<open>card_seq[-1]\<close>, with all 108 cards in hands.\<close>

fun give_loop :: "(nat \<Rightarrow> nat) \<Rightarrow> nat \<Rightarrow> nat \<Rightarrow> (nat \<Rightarrow> bool) \<Rightarrow> game \<Rightarrow> game option" where
  "give_loop rnd 0 w adopted g = Some g"
| "give_loop rnd (Suc how_many) w adopted g =
     (let (adopted, g) = (if card_num g = 0 then reshuffle rnd adopted g else (adopted, g)) in
      if card_num g = 0 then None
      else give_loop rnd how_many w adopted (draw_card w g))"

definition GiveCardToPlayer :: "(nat \<Rightarrow> nat) \<Rightarrow> nat \<Rightarrow> nat \<Rightarrow> game \<Rightarrow> game option" where
  "GiveCardToPlayer rnd w how_many g = give_loop rnd how_many w (\<lambda>_. False) g"

section \<open>Every card is in one place\<close>

definition deck :: "game \<Rightarrow> nat list" where
  "deck g = take (card_num g) (card_seq g)"

text \<open>The deck has no card twice and none that someone holds, no card is held twice, and \<open>hand_num\<close>
  of a player in the game counts his cards.\<close>

definition cards_ok :: "game \<Rightarrow> bool" where
  "cards_ok g \<longleftrightarrow>
     length (card_seq g) = 108 \<and> card_num g \<le> 108 \<and> distinct (deck g) \<and> set (deck g) \<subseteq> {0..<108}
     \<and> (\<forall>c\<in>set (deck g). \<forall>i. \<not> hand g i c)
     \<and> (\<forall>i j c. hand g i c \<longrightarrow> hand g j c \<longrightarrow> i = j)
     \<and> (\<forall>i c. hand g i c \<longrightarrow> c < 108)
     \<and> (\<forall>i. hand_num g i \<noteq> -1 \<longrightarrow> hand_num g i = int (card {c. hand g i c}))"

lemma cards_okD:
  assumes "cards_ok g"
  shows "length (card_seq g) = 108" "card_num g \<le> 108" "distinct (deck g)" "set (deck g) \<subseteq> {0..<108}"
    "c \<in> set (deck g) \<Longrightarrow> \<not> hand g i c" "hand g i c \<Longrightarrow> hand g j c \<Longrightarrow> i = j" "hand g i c \<Longrightarrow> c < 108"
    "hand_num g i \<noteq> -1 \<Longrightarrow> hand_num g i = int (card {c. hand g i c})"
  using assms unfolding cards_ok_def by blast+

text \<open>A changed state is in order when its deck is part of the old one and its hands are the old ones,
  up to counts that are checked.\<close>

lemma cards_ok_subdeck:
  assumes "cards_ok g" "length (card_seq g') = 108" "card_num g' \<le> 108" "distinct (deck g')"
    "set (deck g') \<subseteq> set (deck g)" "hand g' = hand g"
    "\<And>i. hand_num g' i \<noteq> -1 \<Longrightarrow> hand_num g' i \<noteq> hand_num g i \<Longrightarrow> hand_num g' i = int (card {c. hand g i c})"
  shows "cards_ok g'"
proof -
  have "hand_num g' i = int (card {c. hand g i c})" if "hand_num g' i \<noteq> -1" for i
    using assms(7) [OF that] cards_okD(8) [OF assms(1), of i] that by metis
  moreover have "set (deck g') \<subseteq> {0..<108}" using assms(5) cards_okD(4) [OF assms(1)] by (rule subset_trans)
  moreover have "\<forall>c\<in>set (deck g'). \<forall>i. \<not> hand g i c" using assms(5) cards_okD(5) [OF assms(1)] by blast
  ultimately show ?thesis
    using assms(2-4) cards_okD(6,7) [OF assms(1)] unfolding cards_ok_def assms(6) by blast
qed

lemma hand_finite: "cards_ok g \<Longrightarrow> finite {c. hand g i c}"
  by (rule finite_subset [of _ "{0..<108}"]) (auto dest: cards_okD(7))

text \<open>The fields \<open>cards_ok\<close> depends on.\<close>

lemma cards_ok_cong:
  "card_seq g = card_seq g' \<Longrightarrow> card_num g = card_num g' \<Longrightarrow> hand g = hand g' \<Longrightarrow> hand_num g = hand_num g'
    \<Longrightarrow> cards_ok g = cards_ok g'"
  by (simp add: cards_ok_def deck_def)

lemma tell_game_simps [simp]:
  "card_seq (tell_game w l g) = card_seq g" "card_num (tell_game w l g) = card_num g"
  "hand (tell_game w l g) = hand g" "hand_num (tell_game w l g) = hand_num g"
  "used (tell_game w l g) = used g" "cname (tell_game w l g) = cname g"
  "whose_round (tell_game w l g) = whose_round g" "is_uno (tell_game w l g) = is_uno g"
  "have_uno (tell_game w l g) = have_uno g" "player_num (tell_game w l g) = player_num g"
  by (simp_all add: tell_game_def)

lemma tell_simps [simp]:
  "card_seq (tell c l g) = card_seq g" "card_num (tell c l g) = card_num g"
  "hand (tell c l g) = hand g" "hand_num (tell c l g) = hand_num g" "used (tell c l g) = used g"
  "whose_round (tell c l g) = whose_round g" "player_num (tell c l g) = player_num g"
  by (simp_all add: tell_def)

lemma StartRound_simps [simp]:
  "card_seq (StartRound c g) = card_seq g" "card_num (StartRound c g) = card_num g"
  "hand (StartRound c g) = hand g" "hand_num (StartRound c g) = hand_num g" "used (StartRound c g) = used g"
  "whose_round (StartRound c g) = whose_round g" "player_num (StartRound c g) = player_num g"
  "have_uno (StartRound c g) = have_uno g"
  by (simp_all add: StartRound_def)

lemma deck_draw:
  assumes "cards_ok g" "0 < card_num g"
  shows "deck g = take (card_num g - 1) (card_seq g) @ [card_seq g ! (card_num g - 1)]"
proof -
  have "card_num g - 1 < length (card_seq g)" "card_num g = Suc (card_num g - 1)"
    using cards_okD(1,2) [OF assms(1)] assms(2) by auto
  then show ?thesis unfolding deck_def by (metis take_Suc_conv_app_nth)
qed

lemma draw_card_fields:
  "card_seq (draw_card w g) = card_seq g" "card_num (draw_card w g) = card_num g - 1"
  "hand_num (draw_card w g) = (hand_num g)(w := hand_num g w + 1)"
  "hand (draw_card w g) = (hand g)(w := (hand g w)(card_seq g ! (card_num g - 1) := True))"
  "used (draw_card w g) = used g" "whose_round (draw_card w g) = whose_round g"
  "player_num (draw_card w g) = player_num g" "turn (draw_card w g) = turn g" "have_uno (draw_card w g) = have_uno g"
  by (simp_all add: draw_card_def Let_def tell_def)

text \<open>A card goes from the end of the deck to a hand; \<open>hand_num\<close> follows, or is still -1.\<close>

lemma move_card_ok:
  assumes "cards_ok g" "0 < card_num g"
    and g': "card_seq g' = card_seq g" "card_num g' = card_num g - 1"
      "hand g' = (hand g)(w := (hand g w)(card_seq g ! (card_num g - 1) := True))"
      "hand_num g' = (hand_num g)(w := x)" "x = -1 \<or> hand_num g w \<noteq> -1 \<and> x = hand_num g w + 1"
  shows "cards_ok g'" "card {c. hand g' w c} = card {c. hand g w c} + 1"
proof -
  let ?c = "card_seq g ! (card_num g - 1)" and ?D = "take (card_num g - 1) (card_seq g)"
  have d: "deck g = ?D @ [?c]" by (rule deck_draw [OF assms(1,2)])
  have d': "deck g' = ?D" by (simp add: deck_def g')
  note ok = cards_okD [OF assms(1)]
  have c: "?c \<notin> set ?D" "?c < 108" "\<forall>i. \<not> hand g i ?c" "distinct ?D" "set ?D \<subseteq> {0..<108}"
    "\<forall>c\<in>set ?D. \<forall>i. \<not> hand g i c"
    using ok(3-5) unfolding d by auto
  have "{c. ((hand g w)(?c := True)) c} = insert ?c {c. hand g w c}" by auto
  then have one: "card {c. ((hand g w)(?c := True)) c} = card {c. hand g w c} + 1"
    using c(3) hand_finite [OF assms(1), of w] by simp
  then show "card {c. hand g' w c} = card {c. hand g w c} + 1" by (simp add: g')
  have "hand_num g i = int (card {c. hand g i c})" if "hand_num g i \<noteq> -1" for i
    using ok(8) that .
  with one have num: "\<forall>i. hand_num g' i \<noteq> -1 \<longrightarrow> hand_num g' i = int (card {c. hand g' i c})"
    using g'(5) by (auto simp: g'(3,4))
  have own: "\<forall>i j c. hand g' i c \<longrightarrow> hand g' j c \<longrightarrow> i = j"
    using ok(6) c(3) by (auto simp: g')
  have below: "\<forall>i c. hand g' i c \<longrightarrow> c < 108"
    using ok(7) c(2) by (auto simp: g')
  have apart: "\<forall>c\<in>set ?D. \<forall>i. \<not> hand g' i c"
    using c(1,6) by (auto simp: g')
  have "length (card_seq g) = 108" "card_num g - 1 \<le> 108" using ok(1,2) by linarith+
  with num own below apart c(4,5) show "cards_ok g'"
    unfolding cards_ok_def d' g'(1,2) by (intro conjI)
qed

lemma draw_card_ok:
  assumes "cards_ok g" "0 < card_num g" "hand_num g w \<noteq> -1"
  shows "cards_ok (draw_card w g)"
  by (rule move_card_ok(1) [OF assms(1,2) draw_card_fields(1,2,4,3)]) (use assms(3) in simp)

text \<open>A player throws a card away.\<close>

lemma throw_card_ok:
  assumes "cards_ok g" "hand g w c"
    and g': "card_seq g' = card_seq g" "card_num g' = card_num g" "hand g' = (hand g)(w := (hand g w)(c := False))"
      "hand_num g' = (hand_num g)(w := hand_num g w - 1)" "hand_num g w \<noteq> -1"
  shows "cards_ok g'" "1 \<le> hand_num g w"
proof -
  note ok = cards_okD [OF assms(1)]
  have "{c'. ((hand g w)(c := False)) c'} = {c'. hand g w c'} - {c}" by auto
  moreover have "0 < card {c'. hand g w c'}" using assms(2) hand_finite [OF assms(1), of w] by (auto simp: card_gt_0_iff)
  ultimately have one: "int (card {c'. ((hand g w)(c := False)) c'}) = int (card {c'. hand g w c'}) - 1"
    using assms(2) by simp
  have hn: "hand_num g i = int (card {c. hand g i c})" if "hand_num g i \<noteq> -1" for i
    using ok(8) that .
  show "1 \<le> hand_num g w" using hn [OF g'(5)] \<open>0 < card _\<close> by linarith
  have "\<forall>i. hand_num g' i \<noteq> -1 \<longrightarrow> hand_num g' i = int (card {c. hand g' i c})"
  proof (intro allI impI)
    fix i
    assume i: "hand_num g' i \<noteq> -1"
    show "hand_num g' i = int (card {c. hand g' i c})"
    proof (cases "i = w")
      case True
      have "hand_num g w - 1 = int (card {c'. ((hand g w)(c := False)) c'})" using one hn [OF g'(5)] by linarith
      then show ?thesis unfolding True g'(3,4) fun_upd_same .
    next
      case False
      then show ?thesis using hn [of i] i by (simp add: g'(3,4))
    qed
  qed
  moreover have "deck g' = deck g" by (simp add: deck_def g')
  moreover have "\<forall>c\<in>set (deck g). \<forall>i. \<not> hand g' i c" "\<forall>i c. hand g' i c \<longrightarrow> c < 108"
    "\<forall>i j c. hand g' i c \<longrightarrow> hand g' j c \<longrightarrow> i = j"
    using ok(5-7) by (auto simp: g'(3))
  ultimately show "cards_ok g'" using ok(1-4) unfolding cards_ok_def g'(1,2) by (simp only:)
qed

lemma give_loop_ok:
  assumes "cards_ok g" "n \<le> card_num g" "hand_num g w \<noteq> -1" "0 \<le> hand_num g w"
  shows "\<exists>g'. give_loop rnd n w ad g = Some g' \<and> cards_ok g' \<and> card_num g' = card_num g - n
    \<and> hand_num g' = (hand_num g)(w := hand_num g w + int n) \<and> used g' = used g
    \<and> whose_round g' = whose_round g \<and> player_num g' = player_num g \<and> turn g' = turn g \<and> have_uno g' = have_uno g"
  using assms
proof (induction n arbitrary: g)
  case 0
  then show ?case by simp
next
  case (Suc n)
  let ?g = "draw_card w g"
  have "cards_ok ?g" "n \<le> card_num ?g" "hand_num ?g w \<noteq> -1" "0 \<le> hand_num ?g w"
    using Suc.prems draw_card_ok [of g w] by (auto simp: draw_card_fields)
  from Suc.IH [OF this] show ?case using Suc.prems by (auto simp: draw_card_fields fun_eq_iff)
qed

lemma hand_num_nonneg: "cards_ok g \<Longrightarrow> hand_num g w \<noteq> -1 \<Longrightarrow> 0 \<le> hand_num g w"
  by (metis cards_ok_def of_nat_0_le_iff)


section \<open>Correctness\<close>

text \<open>
  Whatever the values of \<open>rand\<close> and whatever the array held, \<open>shuffle\<close> leaves a permutation of
  \<open>0 .. size - 1\<close> in the first \<open>size\<close> places and the rest of the array as it was.
\<close>

lemma shuffle_permutation:
  "sz \<le> length arr \<Longrightarrow>
   mset (take sz (shuffle rnd arr sz)) = mset [0..<sz] \<and> drop sz (shuffle rnd arr sz) = drop sz arr
   \<and> length (shuffle rnd arr sz) = length arr"
  using shuffle_perm [of sz arr rnd] by blast

lemma shuffle_permutation_example:
  "mset (take 3 (shuffle (\<lambda>i. i * i) [7, 7, 7, 7] 3)) = mset [0..<3]"
  using shuffle_permutation [of 3 "[7, 7, 7, 7]" "\<lambda>i. i * i"] by simp

text \<open>
  \<open>SwitchToNextPlayer\<close> ends after at most ten rounds and returns the nearest seat in the direction
  of play whose player is still in the game, skipping those who left; the same seat when no other
  player is left.
\<close>

lemma switch_next_player:
  "w < 10 \<Longrightarrow>
   \<exists>k. 1 \<le> k \<and> k \<le> 10 \<and> SwitchToNextPlayer w hn t = seat_at w t k
     \<and> (\<forall>i. 1 \<le> i \<and> i < k \<longrightarrow> hn (seat_at w t i) = -1)
     \<and> (k < 10 \<longrightarrow> hn (seat_at w t k) \<noteq> -1) \<and> seat_at w t 10 = w"
  using switch_seat [of w hn t] seat_at_ten [of w t] by simp

lemma switch_next_player_example:
  "SwitchToNextPlayer 8 (\<lambda>i. if i = 8 \<or> i = 2 then 5 else -1) 0 = 2"
proof -
  define hn :: "nat \<Rightarrow> int" where "hn = (\<lambda>i. if i = 8 \<or> i = 2 then 5 else -1)"
  have "(8::nat) < 10" by simp
  from switch_next_player [OF this, of hn 0]
  obtain k where k: "1 \<le> k" "k \<le> 10" "SwitchToNextPlayer 8 hn 0 = seat_at 8 0 k"
    "\<forall>i. 1 \<le> i \<and> i < k \<longrightarrow> hn (seat_at 8 0 i) = -1" "k < 10 \<longrightarrow> hn (seat_at 8 0 k) \<noteq> -1"
    by blast
  have "\<not> 4 < k" using k(4) [rule_format, of 4] by (auto simp: seat_at_def hn_def)
  then have "k = 1 \<or> k = 2 \<or> k = 3 \<or> k = 4" using k(1) by linarith
  then have "k = 4" using k(5) by (elim disjE) (simp_all add: seat_at_def hn_def)
  then show ?thesis using k(3) by (simp add: seat_at_def hn_def)
qed

text \<open>
  Drawing cards while the deck lasts: \<open>GiveCardToPlayer\<close> succeeds, takes \<open>how_many\<close> cards off the
  deck, adds them to the player's count, and keeps every card in one place.
\<close>

lemma give_cards:
  assumes "cards_ok g" "n \<le> card_num g" "hand_num g w \<noteq> -1"
  shows "\<exists>g'. GiveCardToPlayer rnd w n g = Some g' \<and> cards_ok g' \<and> card_num g' = card_num g - n
    \<and> hand_num g' = (hand_num g)(w := hand_num g w + int n)"
  using give_loop_ok [OF assms hand_num_nonneg [OF assms(1,3)], of rnd "\<lambda>_. False"]
  by (auto simp: GiveCardToPlayer_def)

definition sample_game :: game where
  "sample_game = \<lparr>cname = (\<lambda>c. ''p'' @ fmt_d (int c)), used = (\<lambda>i. if i < 2 then int i + 5 else -1),
     hand = (\<lambda>i c. i = 0 \<and> c = 50), hand_num = (\<lambda>i. if i = 0 then 1 else if i = 1 then 0 else -1),
     card_seq = [0..<108], card_num = 3, whose_round = 0, turn = 0, table_card = 60, colour = CHR ''r'',
     card_id = 0, player_num = 2, is_uno = (\<lambda>_. False), have_uno = -1, time_stamp = (\<lambda>_. 2 ^ 63 - 1),
     cstate = (\<lambda>_. 2), closed = [], global_player_num = 2, out = []\<rparr>"

lemma sample_game_ok: "cards_ok sample_game"
proof -
  have "{c. i = 0 \<and> c = (50::nat)} = (if i = 0 then {50} else {})" for i :: nat by auto
  then show ?thesis by (auto simp: cards_ok_def sample_game_def deck_def)
qed

lemma give_cards_example:
  "\<exists>g'. GiveCardToPlayer id 1 2 sample_game = Some g' \<and> card_num g' = 1"
  using give_cards [OF sample_game_ok, of 2 1 id] by (auto simp: sample_game_def)

lemma reshuffle_result:
  assumes "length (card_seq g) = 108" "reshuffle rnd ad g = (ad', g')"
  shows "card_num g' = length (filter (\<lambda>j. \<not> ad' j) [0..<108]) \<and> set (deck g') = {0..<card_num g'}
    \<and> hand g' = hand g \<and> (\<forall>q. ad' q \<longleftrightarrow> ad q \<or> (\<exists>j<10. hand_num g j \<noteq> -1 \<and> hand g j q))"
proof -
  let ?ad = "\<lambda>q. ad q \<or> list_ex (\<lambda>j. hand_num g j \<noteq> -1 \<and> hand g j q) [0..<10]"
  let ?free = "filter (\<lambda>j. \<not> ?ad j) [0..<108]"
  have le: "length ?free \<le> 108" using length_filter_le [of _ "[0..<108]"] by simp
  have "ad' = ?ad" "card_num g' = length ?free" "hand g' = hand g"
    "card_seq g' = shuffle rnd (poke (card_seq g) 0 ?free) (length ?free)"
    using assms(2) by (auto simp: reshuffle_def Let_def)
  moreover have "length (poke (card_seq g) 0 ?free) = 108" using le assms(1) by (simp add: poke_def)
  ultimately show ?thesis
    using shuffle_deck(2) [of "length ?free" "poke (card_seq g) 0 ?free" rnd] le
    by (auto simp: deck_def list_ex_iff)
qed

text \<open>
  C39 When the deck runs out, \<open>reshuffle\<close> finds the \<open>n\<close> cards no player holds, but \<open>shuffle\<close>
  overwrites them: the new deck is exactly the cards \<open>0 .. n - 1\<close>, whoever holds them. So any
  card below \<open>n\<close> in a player's hand is in the new deck again, and any free card from \<open>n\<close> on is lost.
\<close>

theorem reshuffle_ignores_hands:
  assumes "length (card_seq g) = 108" "reshuffle rnd (\<lambda>_. False) g = (ad', g')"
  shows "(let free = filter (\<lambda>c. \<not> (\<exists>i<10. hand_num g i \<noteq> -1 \<and> hand g i c)) [0..<108] in
      card_num g' = length free \<and> set (deck g') = {0..<length free}
      \<and> (\<forall>i c. hand g i c \<and> c < length free \<longrightarrow> c \<in> set (deck g') \<and> hand g' i c)
      \<and> (\<forall>c \<in> set free. length free \<le> c \<longrightarrow> c \<notin> set (deck g')))"
  using reshuffle_result [OF assms] by (auto simp: Let_def)

theorem reshuffle_ignores_hands_witness:
  "50 \<in> set (deck (snd (reshuffle id (\<lambda>_. False) sample_game))) \<and> hand (snd (reshuffle id (\<lambda>_. False) sample_game)) 0 50"
proof -
  obtain ad' g' where r: "reshuffle id (\<lambda>_. False) sample_game = (ad', g')" by force
  have held: "(\<exists>i<10. hand_num sample_game i \<noteq> -1 \<and> hand sample_game i c) \<longleftrightarrow> c = 50" for c
    by (auto simp: sample_game_def)
  have len: "length (card_seq sample_game) = 108" and h: "hand sample_game 0 50" by (simp_all add: sample_game_def)
  have "length (filter (\<lambda>c. \<not> c = 50) [0..<108]) = 107" by code_simp
  then show ?thesis
    using reshuffle_ignores_hands [OF len r] h by (simp add: held r Let_def)
qed

end
