(* ===== verification/Uno_Game.thy ===== *)
theory Uno_Game
  imports Uno_Cards
begin

text \<open>
  \<open>GameStart\<close> of \<open>tcpcliserv/final_server.c\<close>: dealing, the opening, and the \<open>select\<close> loop with the
  handling of every message. A round is given by what \<open>readline\<close> delivers at each seat \<open>select\<close> reports:
  its return value and the line. \<open>None\<close> is undefined behaviour of the C code: a NULL from \<open>strtok\<close>
  dereferenced, or an array read at index -1. The timestamps of the messages stay below \<open>2 ^ 63\<close>, so
  \<open>strtol\<close> is \<open>atoi\<close> without bounds.
\<close>

section \<open>Dealing\<close>

text \<open>Seven cards to every taken seat, from the end of \<open>card_seq\<close>.\<close>

definition deal_seat :: "game \<Rightarrow> nat \<Rightarrow> game" where
  "deal_seat g i =
     (if used g i = -1 then g
      else
        let g = foldl (\<lambda>g j. g\<lparr>hand := (hand g)(i := (hand g i)(card_seq g ! (card_num g - 1) := True)),
                                card_num := card_num g - 1\<rparr>) g [0..<7]
        in g\<lparr>hand_num := (hand_num g)(i := 7)\<rparr>)"

definition deal :: "game \<Rightarrow> game" where
  "deal g = foldl deal_seat (g\<lparr>hand := (\<lambda>_ _. False), hand_num := (\<lambda>_. -1)\<rparr>) [0..<10]"

text \<open>Cards are turned until one is not wild. The recursion is over the size of the deck; with an
  empty deck the code would read \<open>card_seq[-1]\<close>.\<close>

fun turn_first :: "nat \<Rightarrow> game \<Rightarrow> game option" where
  "turn_first 0 g = None"
| "turn_first (Suc n) g =
     (let t = card_seq g ! (card_num g - 1);
          g = g\<lparr>table_card := t, card_num := card_num g - 1, colour := cards ! t ! 1\<rparr>
      in if t < 100 then Some g else turn_first n g)"

text \<open>The \<open>k\<close>th taken seat, where \<open>k\<close> is \<open>rand() % player_num\<close>; \<open>k\<close> itself if there is none.\<close>

fun kth_seat :: "(nat \<Rightarrow> int) \<Rightarrow> nat \<Rightarrow> nat \<Rightarrow> nat list \<Rightarrow> nat" where
  "kth_seat us k j [] = k"
| "kth_seat us k j (i # is') =
     (if us i = -1 then kth_seat us k j is'
      else if j = k then i else kth_seat us k (j + 1) is')"

definition nine_line :: "game \<Rightarrow> string" where
  "nine_line g =
     ''9'' @ concat (map (\<lambda>i. '' '' @ seat_name g i) (filter (\<lambda>i. used g i \<noteq> -1) [0..<10])) @ [NL]"

text \<open>\<open>sprintf(buffer, "%s", cards[table_card]); buffer[1] = colour;\<close>\<close>

definition table_text :: "game \<Rightarrow> string" where
  "table_text g = (cards ! table_card g)[1 := colour g]"

definition game_open :: "(nat \<Rightarrow> nat) \<Rightarrow> nat \<Rightarrow> game \<Rightarrow> game option" where
  "game_open rnd first g =
     (let g = g\<lparr>card_num := 108, card_seq := shuffle rnd (card_seq g) 108, turn := 0\<rparr>;
          g = deal g
      in case turn_first (card_num g) g of
           None \<Rightarrow> None
         | Some g \<Rightarrow>
             (let g = g\<lparr>whose_round := kth_seat (used g) (first mod nat (player_num g)) 0 [0..<10]\<rparr>;
                  g = g\<lparr>out := out g @ SendToEveryone (-1) (nine_line g) (used g)\<rparr>;
                  g = StartRound (cards ! table_card g) g
              in Some (g\<lparr>is_uno := (\<lambda>_. False)\<rparr>)))"

section \<open>One message\<close>

definition char_at :: "string \<Rightarrow> nat \<Rightarrow> char" where
  "char_at s k = (if k < length s then s ! k else CHR 0x00)"

text \<open>The winner's score: every card in any hand.\<close>

definition total_score :: "game \<Rightarrow> int" where
  "total_score g =
     foldl (\<lambda>a k. if used g k = -1 then a
                   else foldl (\<lambda>a q. if hand g k q then a + score ! q else a) a [0..<108]) 0 [0..<10]"

definition win_line :: "game \<Rightarrow> nat \<Rightarrow> string" where
  "win_line g j = ''15 '' @ seat_name g j @ '' '' @ fmt_d (total_score g) @ [NL]"

text \<open>A player leaves, with \<open>8\<close> or at the end of his stream.\<close>

definition game_leave :: "nat \<Rightarrow> int \<Rightarrow> game \<Rightarrow> game outcome" where
  "game_leave i n g =
     (let g = g\<lparr>hand_num := (hand_num g)(i := -1), player_num := player_num g - 1\<rparr>;
          line = ''7 '' @ seat_name g i @ [NL];
          c = seat_conn g i;
          g = (if n = 0 then g\<lparr>closed := closed g @ [c], cstate := (cstate g)(c := 0),
                               global_player_num := global_player_num g - 1\<rparr>
               else g\<lparr>cstate := (cstate g)(c := 1)\<rparr>);
          g = tell_game (int i) line g
      in if player_num g < 2 then
           Ret (foldl (\<lambda>g j. if hand_num g j \<noteq> -1
                              then (tell (seat_conn g j) (win_line g j) g)\<lparr>cstate := (cstate g)(seat_conn g j := 1)\<rparr>
                              else g) g [0..<10])
         else if i = whose_round g then
           (let g = g\<lparr>whose_round := SwitchToNextPlayer (whose_round g) (hand_num g) (turn g)\<rparr>
            in Go (StartRound (table_text g) g))
         else Go g)"

text \<open>The card of that name in the player's hand, if he has one; a wild card has \<open>x\<close> for its colour.\<close>

definition wild_name :: "string \<Rightarrow> bool" where
  "wild_name s \<longleftrightarrow> char_at s 0 = CHR ''d'' \<or> char_at s 0 = CHR ''e''"

definition find_card :: "game \<Rightarrow> nat \<Rightarrow> string \<Rightarrow> nat option" where
  "find_card g i name =
     (let buffer2 = (if wild_name name then name[1 := CHR ''x''] else name)
      in find (\<lambda>j. hand g i j \<and> cards ! j = buffer2) [0..<108])"

definition next_turn :: "game \<Rightarrow> game" where
  "next_turn g = g\<lparr>whose_round := SwitchToNextPlayer (whose_round g) (hand_num g) (turn g)\<rparr>"

text \<open>What the card on the table makes of the turn.\<close>

definition card_effect :: "(nat \<Rightarrow> nat) \<Rightarrow> game \<Rightarrow> game option" where
  "card_effect rnd g =
     (let t = table_card g in
      if 76 \<le> t \<and> t < 84 then Some (next_turn (next_turn g))
      else if 84 \<le> t \<and> t < 92 then
        (let g = g\<lparr>turn := (turn g + 1) mod 2\<rparr> in Some (if player_num g > 2 then next_turn g else g))
      else if 92 \<le> t \<and> t < 100 then
        (let g = next_turn g in map_option next_turn (GiveCardToPlayer rnd (whose_round g) 2 g))
      else if 104 \<le> t \<and> t < 108 then
        (let g = next_turn g in map_option next_turn (GiveCardToPlayer rnd (whose_round g) 4 g))
      else Some (next_turn g))"

text \<open>A card is played. There is no check whose turn it is, nor that the card is in the hand: a card
  the player does not hold plays the last card again, from \<open>card_id\<close>.\<close>

definition game_play :: "(nat \<Rightarrow> nat) \<Rightarrow> nat \<Rightarrow> string \<Rightarrow> game \<Rightarrow> game outcome option" where
  "game_play rnd i line g =
     (case tokens line of
        _ # card_name # _ \<Rightarrow>
          if wild_name card_name \<and> length card_name < 2 then None
          else
            (let g = (case find_card g i card_name of
                        Some j \<Rightarrow> g\<lparr>card_id := j, hand := (hand g)(i := (hand g i)(j := False)),
                                     hand_num := (hand_num g)(i := hand_num g i - 1)\<rparr>
                      | None \<Rightarrow> g);
                 g = g\<lparr>table_card := card_id g, colour := char_at card_name 1\<rparr>
             in if hand_num g i \<le> 0 then
                  (let g = tell_game (-1) (win_line g i) g
                   in Some (Ret (g\<lparr>cstate := (\<lambda>c. if \<exists>j\<in>set [0..<10]. hand_num g j \<noteq> -1 \<and> seat_conn g j = c
                                                   then 1 else cstate g c)\<rparr>)))
                else map_option (\<lambda>g. Go (StartRound card_name g)) (card_effect rnd g))
      | _ \<Rightarrow> None)"

definition game_skip :: "(nat \<Rightarrow> nat) \<Rightarrow> game \<Rightarrow> game option" where
  "game_skip rnd g =
     (case GiveCardToPlayer rnd (whose_round g) 1 g of
        None \<Rightarrow> None
      | Some g \<Rightarrow> (let g = next_turn g in Some (StartRound (table_text g) g)))"

definition LONG_MAX :: int where "LONG_MAX = 2 ^ 63 - 1"

text \<open>\<open>11\<close>: the player calls UNO for himself.\<close>

definition game_uno :: "(nat \<Rightarrow> nat) \<Rightarrow> nat \<Rightarrow> string \<Rightarrow> game \<Rightarrow> game option" where
  "game_uno rnd i line g =
     (case tokens line of
        _ # valid # rest \<Rightarrow>
          if char_at valid 0 = CHR ''0'' then
            (case GiveCardToPlayer rnd i 2 g of
               None \<Rightarrow> None
             | Some g \<Rightarrow> Some (tell_game (-1) (''11 '' @ seat_name g i @ [NL]) g))
          else if \<not> is_uno g i \<and> hand_num g i = 1 then
            (let g = g\<lparr>have_uno := int i\<rparr> in
             if time_stamp g i = LONG_MAX then
               (case rest of
                  [] \<Rightarrow> None
                | stamp # _ \<Rightarrow> Some (g\<lparr>time_stamp := (time_stamp g)(i := atoi stamp)\<rparr>))
             else Some g)
          else Some g
      | _ \<Rightarrow> None)"

text \<open>\<open>12\<close>: the player calls UNO on another. The name is looked up in \<open>conns[j].name\<close> with the seat
  \<open>j\<close> as the index, not \<open>conns[used[j]].name\<close>.\<close>

definition catch_target :: "game \<Rightarrow> string \<Rightarrow> int" where
  "catch_target g name =
     (if have_uno g = -1 then
        (case find (\<lambda>j. hand_num g j \<noteq> -1 \<and> cname g j = name) [0..<10] of Some j \<Rightarrow> int j | None \<Rightarrow> -1)
      else have_uno g)"

definition game_catch :: "(nat \<Rightarrow> nat) \<Rightarrow> nat \<Rightarrow> string \<Rightarrow> game \<Rightarrow> game option" where
  "game_catch rnd i line g =
     (case tokens line of
        _ # valid # name # rest \<Rightarrow>
          if char_at valid 0 = CHR ''0'' then
            (case GiveCardToPlayer rnd i 2 g of
               None \<Rightarrow> None
             | Some g \<Rightarrow> Some (tell_game (-1) (''19 '' @ seat_name g i @ '' '' @ name @ [NL]) g))
          else
            (let h = catch_target g name
             in if h = -1 then None
                else if \<not> is_uno g (nat h) \<and> hand_num g (nat h) = 1 then
                  (if time_stamp g i = LONG_MAX then
                     (case rest of
                        [] \<Rightarrow> None
                      | stamp # _ \<Rightarrow> Some (g\<lparr>have_uno := h, time_stamp := (time_stamp g)(i := atoi stamp)\<rparr>))
                   else Some (g\<lparr>have_uno := h\<rparr>))
                else Some (g\<lparr>have_uno := -1\<rparr>))
      | _ \<Rightarrow> None)"

text \<open>The dispatch on the first characters of the line.\<close>

definition seat_event :: "(nat \<Rightarrow> nat) \<Rightarrow> nat \<Rightarrow> int \<Rightarrow> string \<Rightarrow> game \<Rightarrow> game outcome option" where
  "seat_event rnd i n recvline g =
     (if n = 0 \<or> char_at recvline 0 = CHR ''8'' then Some (game_leave i n g)
      else if char_at recvline 0 = CHR ''2'' \<and> char_at recvline 1 = CHR ''1'' then Some (Go (tell_game (-1) recvline g))
      else
        (let line = takeWhile (\<lambda>c. c \<noteq> NL) recvline in
         if char_at line 0 = CHR ''9'' then game_play rnd i line g
         else if char_at line 0 = CHR ''1'' \<and> char_at line 1 = CHR ''0'' then map_option Go (game_skip rnd g)
         else if char_at line 0 = CHR ''1'' \<and> char_at line 1 = CHR ''1'' then map_option Go (game_uno rnd i line g)
         else if char_at line 0 = CHR ''1'' \<and> char_at line 1 = CHR ''2'' then map_option Go (game_catch rnd i line g)
         else Some (Go g)))"

section \<open>One round of the loop\<close>

text \<open>The seats in order; a seat whose player is out of the game is passed over.\<close>

fun seat_events :: "(nat \<Rightarrow> nat) \<Rightarrow> (nat \<Rightarrow> (int \<times> string) option) \<Rightarrow> nat list \<Rightarrow> game \<Rightarrow> game outcome option" where
  "seat_events rnd ev [] g = Some (Go g)"
| "seat_events rnd ev (i # is') g =
     (if used g i = -1 \<or> hand_num g i = -1 then seat_events rnd ev is' g
      else case ev i of
        None \<Rightarrow> seat_events rnd ev is' g
      | Some (n, line) \<Rightarrow>
          (case seat_event rnd i n line g of
             Some (Go g') \<Rightarrow> seat_events rnd ev is' g'
           | r \<Rightarrow> r))"

text \<open>Who was first when someone called UNO; on a tie the player with one card wins.\<close>

definition fastest_seat :: "game \<Rightarrow> nat" where
  "fastest_seat g =
     foldl (\<lambda>f i. if hand_num g i = -1 then f
                   else if time_stamp g i < time_stamp g f then i
                   else if time_stamp g i = time_stamp g f \<and> int i = have_uno g then i
                   else f) 0 [1..<10]"

definition settle_uno :: "(nat \<Rightarrow> nat) \<Rightarrow> game \<Rightarrow> game option" where
  "settle_uno rnd g =
     (if have_uno g = -1 then Some g
      else
        let h = nat (have_uno g); f = fastest_seat g in
        if f = h then
          (let g = tell_game (-1) (''14 '' @ seat_name g h @ [NL]) (g\<lparr>is_uno := (is_uno g)(h := True)\<rparr>)
           in Some (g\<lparr>have_uno := -1\<rparr>))
        else
          (case GiveCardToPlayer rnd h 2 g of
             None \<Rightarrow> None
           | Some g \<Rightarrow>
               (let g = tell_game (-1) (''13 '' @ cname g h @ '' '' @ cname g f @ [NL]) g
                in Some (g\<lparr>have_uno := -1\<rparr>))))"

definition game_round ::
  "(nat \<Rightarrow> nat) \<Rightarrow> (nat \<Rightarrow> (int \<times> string) option) \<Rightarrow> game \<Rightarrow> game outcome option" where
  "game_round rnd ev g =
     (let g = g\<lparr>have_uno := -1, time_stamp := (\<lambda>_. LONG_MAX)\<rparr> in
      case seat_events rnd ev [0..<10] g of
        Some (Go g) \<Rightarrow> map_option Go (settle_uno rnd g)
      | r \<Rightarrow> r)"


section \<open>The invariant of a game\<close>

definition game_ok :: "game \<Rightarrow> bool" where
  "game_ok g \<longleftrightarrow> cards_ok g \<and> whose_round g < 10 \<and> hand_num g (whose_round g) \<noteq> -1
     \<and> (\<forall>i. hand_num g i \<noteq> -1 \<longrightarrow> i < 10 \<and> used g i \<noteq> -1)
     \<and> player_num g = int (card {i. hand_num g i \<noteq> -1})"

text \<open>What one step may do besides: draw at most \<open>n\<close> cards, and keep who is in the game.\<close>

definition within :: "nat \<Rightarrow> game \<Rightarrow> game \<Rightarrow> bool" where
  "within n g g' \<longleftrightarrow> game_ok g' \<and> card_num g \<le> card_num g' + n
     \<and> (\<forall>i. hand_num g' i = -1 \<longleftrightarrow> hand_num g i = -1)"

lemma game_ok_cong:
  "game_ok g \<Longrightarrow> card_seq g' = card_seq g \<Longrightarrow> card_num g' = card_num g \<Longrightarrow> hand g' = hand g \<Longrightarrow>
   hand_num g' = hand_num g \<Longrightarrow> whose_round g' = whose_round g \<Longrightarrow> used g' = used g \<Longrightarrow>
   player_num g' = player_num g \<Longrightarrow> game_ok g'"
  unfolding game_ok_def using cards_ok_cong [of g' g] by simp

lemma withinI: "game_ok g' \<Longrightarrow> card_num g \<le> card_num g' + n \<Longrightarrow> hand_num g' = hand_num g \<Longrightarrow> within n g g'"
  by (simp add: within_def)

lemma within_trans: "within m g g' \<Longrightarrow> within n g' g'' \<Longrightarrow> within (m + n) g g''"
  by (auto simp: within_def)

lemma within_mono: "within m g g' \<Longrightarrow> m \<le> n \<Longrightarrow> within n g g'"
  by (auto simp: within_def)

lemma next_turn_simps [simp]:
  "card_seq (next_turn g) = card_seq g" "card_num (next_turn g) = card_num g" "hand (next_turn g) = hand g"
  "hand_num (next_turn g) = hand_num g" "used (next_turn g) = used g" "player_num (next_turn g) = player_num g"
  "have_uno (next_turn g) = have_uno g"
  by (simp_all add: next_turn_def)

lemma next_turn_ok: "game_ok g \<Longrightarrow> game_ok (next_turn g)"
  unfolding game_ok_def using cards_ok_cong [of "next_turn g" g]
  by (simp add: next_turn_def switch_below switch_active)

lemma give_within:
  assumes "game_ok g" "n \<le> card_num g" "hand_num g w \<noteq> -1"
  shows "\<exists>g'. GiveCardToPlayer rnd w n g = Some g' \<and> within n g g' \<and> whose_round g' = whose_round g
    \<and> have_uno g' = have_uno g"
proof -
  have ok: "cards_ok g" using assms(1) by (simp add: game_ok_def)
  have nonneg: "0 \<le> hand_num g w" by (rule hand_num_nonneg [OF ok assms(3)])
  obtain g' where g': "GiveCardToPlayer rnd w n g = Some g'" "cards_ok g'" "card_num g' = card_num g - n"
    "hand_num g' = (hand_num g)(w := hand_num g w + int n)" "used g' = used g" "whose_round g' = whose_round g"
    "player_num g' = player_num g" "have_uno g' = have_uno g"
    using give_loop_ok [OF ok assms(2,3) nonneg, of rnd "\<lambda>_. False"] by (auto simp: GiveCardToPlayer_def)
  have same: "hand_num g' i = -1 \<longleftrightarrow> hand_num g i = -1" for i using nonneg assms(3) by (auto simp: g'(4))
  have "game_ok g'" using assms(1) g'(2) unfolding game_ok_def g'(5-7) same by blast
  then have "within n g g'" using g'(3) assms(2) same by (simp add: within_def)
  then show ?thesis using g'(1,6,8) by blast
qed

lemma card_effect_within:
  assumes "game_ok g" "4 \<le> card_num g"
  shows "\<exists>g'. card_effect rnd g = Some g' \<and> within 4 g g' \<and> have_uno g' = have_uno g"
proof -
  note nt = next_turn_ok [OF assms(1)]
  have draw: "\<exists>g'. map_option next_turn (GiveCardToPlayer rnd (whose_round (next_turn g)) n (next_turn g)) = Some g'
      \<and> within 4 g g' \<and> have_uno g' = have_uno g" if "n \<le> 4" for n
  proof -
    have "n \<le> card_num (next_turn g)" "hand_num (next_turn g) (whose_round (next_turn g)) \<noteq> -1"
      using that assms(2) nt unfolding game_ok_def by simp_all
    from give_within [OF nt this] obtain g1 where g1:
      "GiveCardToPlayer rnd (whose_round (next_turn g)) n (next_turn g) = Some g1" "within n (next_turn g) g1"
      "have_uno g1 = have_uno g" by auto
    then have "game_ok (next_turn g1)" using next_turn_ok by (auto simp: within_def)
    with g1 that show ?thesis by (auto simp: within_def)
  qed
  have flip: "game_ok (g\<lparr>turn := t\<rparr>)" for t by (rule game_ok_cong [OF assms(1)]) simp_all
  have plain: "within 4 g (next_turn g)" "within 4 g (next_turn (next_turn g))"
    "within 4 g (g\<lparr>turn := t\<rparr>)" "within 4 g (next_turn (g\<lparr>turn := t\<rparr>))" for t
    using nt next_turn_ok [OF nt] flip next_turn_ok [OF flip] by (auto intro!: withinI)
  show ?thesis
    unfolding card_effect_def Let_def using draw [of 2] draw [of 4] plain by auto
qed


lemma StartRound_within: "within n g g' \<Longrightarrow> within n g (StartRound c g')"
  unfolding within_def by (auto intro: game_ok_cong)

lemma tell_game_within: "within n g g' \<Longrightarrow> within n g (tell_game w l g')"
  unfolding within_def by (auto intro: game_ok_cong)

lemma skip_within:
  assumes "game_ok g" "4 \<le> card_num g"
  shows "\<exists>g'. game_skip rnd g = Some g' \<and> within 4 g g' \<and> have_uno g' = have_uno g"
proof -
  have "1 \<le> card_num g" "hand_num g (whose_round g) \<noteq> -1" using assms by (simp_all add: game_ok_def)
  from give_within [OF assms(1) this] obtain g1 where g1:
    "GiveCardToPlayer rnd (whose_round g) 1 g = Some g1" "within 1 g g1" "have_uno g1 = have_uno g" by auto
  have "game_ok (next_turn g1)" using g1(2) by (auto simp: within_def next_turn_ok)
  then have "within 4 g (next_turn g1)" using g1(2) by (auto simp: within_def)
  then show ?thesis using g1 by (simp add: game_skip_def Let_def StartRound_within)
qed

text \<open>A step that only changes what the two UNO messages change.\<close>

lemma within_refl: "game_ok g \<Longrightarrow> card_seq g' = card_seq g \<Longrightarrow> card_num g' = card_num g \<Longrightarrow> hand g' = hand g \<Longrightarrow>
   hand_num g' = hand_num g \<Longrightarrow> whose_round g' = whose_round g \<Longrightarrow> used g' = used g \<Longrightarrow>
   player_num g' = player_num g \<Longrightarrow> within n g g'"
  by (intro withinI game_ok_cong [of g g']) simp_all

definition uno_ok :: "game \<Rightarrow> bool" where
  "uno_ok g \<longleftrightarrow> have_uno g = -1 \<or> (0 \<le> have_uno g \<and> hand_num g (nat (have_uno g)) \<noteq> -1)"

lemma uno_ok_within: "within n g g' \<Longrightarrow> have_uno g' = have_uno g \<Longrightarrow> uno_ok g \<Longrightarrow> uno_ok g'"
  by (auto simp: within_def uno_ok_def)

lemma game_uno_within:
  assumes "game_ok g" "4 \<le> card_num g" "hand_num g i \<noteq> -1" "game_uno rnd i line g = Some g'"
  shows "within 4 g g' \<and> (uno_ok g \<longrightarrow> uno_ok g')"
proof -
  have n: "2 \<le> card_num g" using assms(2) by simp
  from give_within [OF assms(1) n assms(3)] obtain g1 where
    g1: "GiveCardToPlayer rnd i 2 g = Some g1" "within 2 g g1" "have_uno g1 = have_uno g" by blast
  have t: "within 4 g (tell_game (-1) l g1)" "uno_ok g \<Longrightarrow> uno_ok (tell_game (-1) l g1)" for l
    using within_mono [OF tell_game_within [OF g1(2)]] uno_ok_within [OF g1(2,3)]
    by (simp_all add: uno_ok_def)
  have same: "within 4 g g" by (rule within_refl) (simp_all add: assms(1))
  have set: "within 4 g (g\<lparr>have_uno := int i\<rparr>)" "within 4 g (g\<lparr>have_uno := int i, time_stamp := ts\<rparr>)" for ts
    by (rule within_refl, simp_all add: assms(1))+
  show ?thesis using assms(3,4) g1(1) t same set
    by (auto simp: game_uno_def Let_def uno_ok_def split: list.splits if_splits)
qed

lemma game_catch_within:
  assumes "game_ok g" "4 \<le> card_num g" "hand_num g i \<noteq> -1" "game_catch rnd i line g = Some g'"
  shows "within 4 g g' \<and> (uno_ok g \<longrightarrow> uno_ok g')"
proof -
  have n: "2 \<le> card_num g" using assms(2) by simp
  from give_within [OF assms(1) n assms(3)] obtain g1 where
    g1: "GiveCardToPlayer rnd i 2 g = Some g1" "within 2 g g1" "have_uno g1 = have_uno g" by blast
  have t: "within 4 g (tell_game (-1) l g1)" "uno_ok g \<Longrightarrow> uno_ok (tell_game (-1) l g1)" for l
    using within_mono [OF tell_game_within [OF g1(2)]] uno_ok_within [OF g1(2,3)]
    by (simp_all add: uno_ok_def)
  have set: "within 4 g (g\<lparr>have_uno := h\<rparr>)" "within 4 g (g\<lparr>have_uno := h, time_stamp := ts\<rparr>)" for h ts
    by (rule within_refl, simp_all add: assms(1))+
  have h: "uno_ok g \<longrightarrow> catch_target g name = -1 \<or>
      (0 \<le> catch_target g name \<and> hand_num g (nat (catch_target g name)) \<noteq> -1)" for name
    by (auto simp: catch_target_def uno_ok_def find_Some_iff split: option.splits)
  show ?thesis
  proof (cases "tokens line")
    case Nil
    then show ?thesis using assms(4) by (simp add: game_catch_def)
  next
    case (Cons a l)
    then obtain valid name rest where tok: "tokens line = a # valid # name # rest"
      using assms(4) by (auto simp: game_catch_def split: list.splits)
    show ?thesis
    proof (cases "char_at valid 0 = CHR ''0''")
      case True
      then show ?thesis using assms(4) tok g1(1) t by (auto simp: game_catch_def)
    next
      case False
      then have "catch_target g name \<noteq> -1"
        "g' = g\<lparr>have_uno := -1\<rparr> \<or> g' = g\<lparr>have_uno := catch_target g name\<rparr>
         \<or> (\<exists>ts. g' = g\<lparr>have_uno := catch_target g name, time_stamp := ts\<rparr>)"
        using assms(4) tok unfolding game_catch_def Let_def by (auto split: if_splits list.splits)
      then show ?thesis using set h [of name] by (auto simp: uno_ok_def)
    qed
  qed
qed


text \<open>A card played that does not end the game: the state \<open>h\<close> before the effect of the card.\<close>

lemma game_play_laid:
  assumes "game_ok g" "hand_num g i \<noteq> -1" "game_play rnd i line g = Some (Go g')"
  obtains name h where "name = tokens line ! 1" "2 \<le> length (tokens line)"
    "map_option (StartRound name) (card_effect rnd h) = Some g'" "game_ok h"
    "0 < hand_num h i" "\<And>k. k \<noteq> i \<Longrightarrow> hand_num h k = hand_num g k" "used h = used g" "cname h = cname g"
    "card_num h = card_num g" "have_uno h = have_uno g" "turn h = turn g" "out h = out g" "card_id h = table_card h"
    "table_card h < 108 \<or> table_card h = card_id g" "colour h = char_at name 1"
proof -
  have ok: "cards_ok g" using assms(1) by (simp add: game_ok_def)
  obtain a name rest where tok: "tokens line = a # name # rest"
    using assms(3) by (auto simp: game_play_def split: list.splits)
  define g1 where "g1 = (case find_card g i name of
      Some j \<Rightarrow> g\<lparr>card_id := j, hand := (hand g)(i := (hand g i)(j := False)), hand_num := (hand_num g)(i := hand_num g i - 1)\<rparr>
    | None \<Rightarrow> g)"
  define g2 where "g2 = g1\<lparr>table_card := card_id g1, colour := char_at name 1\<rparr>"
  have res: "\<not> hand_num g2 i \<le> 0" "map_option (\<lambda>g. Go (StartRound name g)) (card_effect rnd g2) = Some (Go g')"
    using assms(3) tok by (auto simp: game_play_def Let_def g1_def [symmetric] g2_def split: if_splits)
  have same: "used g2 = used g" "whose_round g2 = whose_round g" "player_num g2 = player_num g" "cname g2 = cname g"
    "card_num g2 = card_num g" "have_uno g2 = have_uno g" "turn g2 = turn g" "out g2 = out g" "card_id g2 = table_card g2"
    "colour g2 = char_at name 1"
    by (simp_all add: g2_def g1_def split: option.split)
  have cards: "cards_ok g2 \<and> (\<forall>k. k \<noteq> i \<longrightarrow> hand_num g2 k = hand_num g k) \<and> (table_card g2 < 108 \<or> table_card g2 = card_id g)"
  proof (cases "find_card g i name")
    case None
    then show ?thesis using ok cards_ok_cong [of g2 g] by (simp add: g2_def g1_def)
  next
    case (Some j)
    then have j: "hand g i j" "j < 108" by (auto simp: find_card_def Let_def find_Some_iff simp del: upt_Suc)
    moreover have "card_seq g2 = card_seq g" "card_num g2 = card_num g"
      "hand g2 = (hand g)(i := (hand g i)(j := False))" "hand_num g2 = (hand_num g)(i := hand_num g i - 1)" "table_card g2 = j"
      using Some by (simp_all add: g2_def g1_def)
    ultimately show ?thesis using throw_card_ok(1) [OF ok _ _ _ _ _ assms(2)] by auto
  qed
  have act: "hand_num g2 k = -1 \<longleftrightarrow> hand_num g k = -1" for k using cards res(1) assms(2) by (cases "k = i") auto
  have "game_ok g2" using assms(1) cards unfolding game_ok_def same act by blast
  then show thesis using that [of name g2] tok res cards same by (auto simp: map_option_case split: option.splits)
qed

lemma game_play_within:
  assumes "game_ok g" "4 \<le> card_num g" "hand_num g i \<noteq> -1" "game_play rnd i line g = Some (Go g')"
  shows "within 4 g g' \<and> (uno_ok g \<longrightarrow> uno_ok g')"
proof -
  obtain name h where h: "map_option (StartRound name) (card_effect rnd h) = Some g'" "game_ok h" "0 < hand_num h i"
    "\<And>k. k \<noteq> i \<Longrightarrow> hand_num h k = hand_num g k" "card_num h = card_num g" "have_uno h = have_uno g"
    using game_play_laid [OF assms(1,3,4)] by metis
  have "hand_num h k = -1 \<longleftrightarrow> hand_num g k = -1" for k using h(3,4) assms(3) by (cases "k = i") auto
  then have w: "within 0 g h" using h(2,5) by (simp add: within_def)
  obtain g3 where g3: "card_effect rnd h = Some g3" "within 4 h g3" "have_uno g3 = have_uno h"
    using card_effect_within [OF h(2), of rnd] assms(2) h(5) by auto
  have w3: "within 4 g g3" using within_trans [OF w g3(2)] by simp
  have "g' = StartRound name g3" using h(1) g3(1) by simp
  then show ?thesis using StartRound_within [OF w3] uno_ok_within [OF w3] g3(3) h(6)
    by (simp add: uno_ok_def)
qed

text \<open>A player leaves and the game goes on.\<close>

lemma game_leave_ok:
  assumes "game_ok g" "hand_num g i \<noteq> -1" "game_leave i n g = Go g'"
  shows "game_ok g' \<and> card_num g' = card_num g \<and> hand_num g' = (hand_num g)(i := -1)"
proof -
  define g1 where "g1 = g\<lparr>hand_num := (hand_num g)(i := -1), player_num := player_num g - 1\<rparr>"
  have ok: "cards_ok g" using assms(1) by (simp add: game_ok_def)
  have two: "\<not> player_num g1 < 2"
    and g': "card_seq g' = card_seq g1" "card_num g' = card_num g1" "hand g' = hand g1" "hand_num g' = hand_num g1"
      "used g' = used g1" "player_num g' = player_num g1"
      "whose_round g' = (if i = whose_round g then SwitchToNextPlayer (whose_round g) (hand_num g1) (turn g) else whose_round g)"
    using assms(3) by (auto simp: game_leave_def Let_def g1_def tell_game_def split: if_splits)
  have "cards_ok g1"
    using ok unfolding cards_ok_def g1_def deck_def by (simp add: fun_upd_def)
  then have c: "cards_ok g'" using cards_ok_cong [of g' g1] g' by simp
  let ?A = "{k. hand_num g k \<noteq> -1}" and ?B = "{k. hand_num g1 k \<noteq> -1}"
  have fin: "finite ?A" by (rule finite_subset [of _ "{0..<10}"]) (use assms(1) in \<open>auto simp: game_ok_def\<close>)
  have B: "?B = ?A - {i}" by (auto simp: g1_def)
  have "player_num g = int (card ?A)" "i \<in> ?A" using assms(1,2) unfolding game_ok_def by blast+
  then have num: "player_num g1 = int (card ?B)"
    using fin card_gt_0_iff [of ?A] by (subst B) (auto simp: g1_def)
  then have "2 \<le> card ?B" using two by simp
  then have "\<not> ?B \<subseteq> {whose_round g}" using card_mono [of "{whose_round g}" ?B] by auto
  then obtain j where j: "j \<noteq> whose_round g" "hand_num g1 j \<noteq> -1" by auto
  then have "j < 10" using assms(1) B by (auto simp: game_ok_def)
  have w: "whose_round g < 10" "hand_num g (whose_round g) \<noteq> -1" using assms(1) by (simp_all add: game_ok_def)
  have turn: "whose_round g' < 10 \<and> hand_num g1 (whose_round g') \<noteq> -1"
    using switch_below [OF w(1)] switch_finds [where hn = "hand_num g1" and t = "turn g", OF w(1) \<open>j < 10\<close> j] w by (auto simp: g' g1_def)
  have "\<forall>k. hand_num g1 k \<noteq> -1 \<longrightarrow> k < 10 \<and> used g1 k \<noteq> -1"
    using assms(1) by (auto simp: game_ok_def g1_def)
  then have "game_ok g'" using c turn num unfolding game_ok_def g' by blast
  then show ?thesis by (simp add: g') (simp add: g1_def)
qed


lemma seat_event_within:
  assumes "game_ok g" "4 \<le> card_num g" "hand_num g i \<noteq> -1" "seat_event rnd i n line g = Some (Go g')"
  shows "game_ok g' \<and> card_num g \<le> card_num g' + 4
    \<and> (if n = 0 \<or> char_at line 0 = CHR ''8'' then hand_num g' = (hand_num g)(i := -1)
       else within 4 g g' \<and> (uno_ok g \<longrightarrow> uno_ok g'))"
proof (cases "n = 0 \<or> char_at line 0 = CHR ''8''")
  case True
  then have "game_leave i n g = Go g'" using assms(4) by (simp add: seat_event_def)
  from game_leave_ok [OF assms(1,3) this] show ?thesis using True by simp
next
  case False
  have chat: "within 4 g (tell_game (-1) line g) \<and> (uno_ok g \<longrightarrow> uno_ok (tell_game (-1) line g))"
    using tell_game_within [OF within_refl [OF assms(1)]] by (simp add: uno_ok_def)
  have none: "within 4 g g" by (rule within_refl) (simp_all add: assms(1))
  let ?l = "takeWhile (\<lambda>c. c \<noteq> NL) line"
  obtain gs where skip: "game_skip rnd g = Some gs" "within 4 g gs" "have_uno gs = have_uno g"
    using skip_within [OF assms(1,2), of rnd] by blast
  have "within 4 g g' \<and> (uno_ok g \<longrightarrow> uno_ok g')"
    using assms(4) False chat none skip uno_ok_within [OF skip(2,3)]
      game_play_within [OF assms(1-3), of rnd ?l g'] game_uno_within [OF assms(1-3), of rnd ?l g']
      game_catch_within [OF assms(1-3), of rnd ?l g']
    by (auto simp: seat_event_def Let_def split: if_splits)
  then show ?thesis using False by (auto simp: within_def)
qed

text \<open>Some player leaves in the round.\<close>

definition leaves :: "(nat \<Rightarrow> (int \<times> string) option) \<Rightarrow> bool" where
  "leaves ev \<longleftrightarrow> (\<exists>i n line. ev i = Some (n, line) \<and> (n = 0 \<or> char_at line 0 = CHR ''8''))"

lemma seat_events_ok:
  assumes "game_ok g" "4 * length js \<le> card_num g" "seat_events rnd ev js g = Some (Go g')"
  shows "game_ok g' \<and> card_num g \<le> card_num g' + 4 * length js \<and> (uno_ok g \<longrightarrow> leaves ev \<or> uno_ok g')"
  using assms
proof (induction js arbitrary: g)
  case Nil
  then show ?case by simp
next
  case (Cons i js)
  show ?case
  proof (cases "used g i = -1 \<or> hand_num g i = -1 \<or> ev i = None")
    case True
    then have "seat_events rnd ev js g = Some (Go g')" using Cons.prems(3) by (auto split: option.splits if_splits)
    with Cons.IH [OF Cons.prems(1) _ this] Cons.prems(2) show ?thesis by simp
  next
    case False
    then obtain n line where e: "ev i = Some (n, line)" by auto
    obtain g1 where g1: "seat_event rnd i n line g = Some (Go g1)" "seat_events rnd ev js g1 = Some (Go g')"
      using Cons.prems(3) False e by (auto split: option.splits outcome.splits)
    have "4 \<le> card_num g" "hand_num g i \<noteq> -1" using Cons.prems(2) False by simp_all
    from seat_event_within [OF Cons.prems(1) this g1(1)]
    have s: "game_ok g1" "card_num g \<le> card_num g1 + 4" "leaves ev \<or> (uno_ok g \<longrightarrow> uno_ok g1)"
      using e by (auto simp: leaves_def split: if_splits)
    have "4 * length js \<le> card_num g1" using s(2) Cons.prems(2) by simp
    from Cons.IH [OF s(1) this g1(2)] s show ?thesis by auto
  qed
qed

lemma settle_ok:
  assumes "game_ok g" "2 \<le> card_num g" "uno_ok g"
  shows "\<exists>g'. settle_uno rnd g = Some g' \<and> within 2 g g'"
proof (cases "have_uno g = -1")
  case True
  then show ?thesis using assms(1) within_refl [OF assms(1)] by (auto simp: settle_uno_def)
next
  case False
  then have h: "hand_num g (nat (have_uno g)) \<noteq> -1" using assms(3) by (simp add: uno_ok_def)
  from give_within [OF assms(1,2) h] obtain g1 where
    g1: "GiveCardToPlayer rnd (nat (have_uno g)) 2 g = Some g1" "within 2 g g1" by blast
  have "game_ok g1" using g1(2) by (simp add: within_def)
  then have w1: "within 2 g ((tell_game (-1) l g1)\<lparr>have_uno := -1\<rparr>)" for l
    using g1(2) by (auto simp: within_def intro: game_ok_cong)
  have w2: "within 2 g ((tell_game (-1) l (g\<lparr>is_uno := u\<rparr>))\<lparr>have_uno := -1\<rparr>)" for l u
    by (rule within_refl [OF assms(1)]) simp_all
  show ?thesis using False g1(1) w1 w2 by (simp add: settle_uno_def Let_def)
qed


section \<open>The opening\<close>

definition deal_one :: "nat \<Rightarrow> game \<Rightarrow> game" where
  "deal_one i g = g\<lparr>hand := (hand g)(i := (hand g i)(card_seq g ! (card_num g - 1) := True)),
                   card_num := card_num g - 1\<rparr>"

lemma deal_one_fields:
  "card_seq (deal_one i g) = card_seq g" "card_num (deal_one i g) = card_num g - 1"
  "hand (deal_one i g) = (hand g)(i := (hand g i)(card_seq g ! (card_num g - 1) := True))"
  "hand_num (deal_one i g) = hand_num g" "used (deal_one i g) = used g" "player_num (deal_one i g) = player_num g"
  by (simp_all add: deal_one_def)

lemma deal_seven:
  assumes "cards_ok g" "k \<le> card_num g" "hand_num g i = -1"
  defines "g' \<equiv> foldl (\<lambda>g j. deal_one i g) g [0..<k]"
  shows "cards_ok g' \<and> card_num g' = card_num g - k \<and> hand_num g' = hand_num g \<and> used g' = used g
    \<and> player_num g' = player_num g \<and> card {c. hand g' i c} = card {c. hand g i c} + k \<and> (\<forall>j. j \<noteq> i \<longrightarrow> hand g' j = hand g j)"
  unfolding g'_def using assms(1-3)
proof (induction k)
  case 0
  then show ?case by simp
next
  case (Suc k)
  let ?g = "foldl (\<lambda>g j. deal_one i g) g [0..<k]"
  have h: "cards_ok ?g" "card_num ?g = card_num g - k" "hand_num ?g = hand_num g" "used ?g = used g"
    "player_num ?g = player_num g" "card {c. hand ?g i c} = card {c. hand g i c} + k" "\<forall>j. j \<noteq> i \<longrightarrow> hand ?g j = hand g j"
    using Suc by simp_all
  have pos: "0 < card_num ?g" using Suc.prems(2) h(2) by simp
  have num: "hand_num (deal_one i ?g) = (hand_num ?g)(i := -1)"
    using h(3) Suc.prems(3) by (auto simp: deal_one_fields)
  note m = move_card_ok [OF h(1) pos deal_one_fields(1,2,3) num]
  show ?case using m h by (simp add: deal_one_fields)
qed

definition dealt :: "nat \<Rightarrow> game \<Rightarrow> bool" where
  "dealt n g \<longleftrightarrow> cards_ok g \<and> 108 \<le> card_num g + 7 * n
     \<and> (\<forall>j. hand_num g j = (if j < n \<and> used g j \<noteq> -1 then 7 else -1)) \<and> (\<forall>j c. n \<le> j \<longrightarrow> \<not> hand g j c)"

lemma deal_seat_dealt:
  assumes "dealt n g" "n < 10"
  shows "dealt (Suc n) (deal_seat g n) \<and> used (deal_seat g n) = used g \<and> player_num (deal_seat g n) = player_num g"
proof (cases "used g n = -1")
  case True
  then show ?thesis using assms(1) by (auto simp: deal_seat_def dealt_def less_Suc_eq)
next
  case False
  let ?g = "foldl (\<lambda>g j. deal_one n g) g [0..<7]"
  have g: "cards_ok g" "7 \<le> card_num g" "hand_num g n = -1" "\<not> hand g n c" for c
    using assms unfolding dealt_def by auto
  note d = deal_seven [OF g(1-3)]
  have seven: "card {c. hand ?g n c} = 7" using d g(4) by simp
  have eq: "deal_seat g n = ?g\<lparr>hand_num := (hand_num g)(n := 7)\<rparr>"
    using False d by (simp add: deal_seat_def Let_def deal_one_def)
  have "cards_ok (deal_seat g n)"
    by (rule cards_ok_subdeck [of ?g])
       (use d seven cards_okD(1-3) [of ?g] in \<open>auto simp: eq deck_def split: if_splits\<close>)
  moreover have "hand_num (deal_seat g n) j = (if j < Suc n \<and> used g j \<noteq> -1 then 7 else -1)" for j
    using False assms(1) by (auto simp: eq dealt_def less_Suc_eq)
  moreover have "\<not> hand (deal_seat g n) j c" if "Suc n \<le> j" for j c
  proof -
    have "hand ?g j = hand g j" using d that by auto
    then show ?thesis using assms(1) that by (auto simp: eq dealt_def)
  qed
  moreover have "108 \<le> card_num (deal_seat g n) + 7 * Suc n" "used (deal_seat g n) = used g"
    "player_num (deal_seat g n) = player_num g"
    using assms(1) d g(2) by (auto simp: eq dealt_def)
  ultimately show ?thesis by (simp add: dealt_def)
qed

lemma deal_dealt:
  assumes "length (card_seq g) = 108" "card_num g = 108" "set (card_seq g) = {0..<108}" "distinct (card_seq g)"
  shows "dealt 10 (deal g) \<and> used (deal g) = used g \<and> player_num (deal g) = player_num g"
proof -
  let ?g = "g\<lparr>hand := (\<lambda>_ _. False), hand_num := (\<lambda>_. -1)\<rparr>"
  have "dealt n (foldl deal_seat ?g [0..<n]) \<and> used (foldl deal_seat ?g [0..<n]) = used g
    \<and> player_num (foldl deal_seat ?g [0..<n]) = player_num g" if "n \<le> 10" for n
    using that
  proof (induction n)
    case 0
    show ?case using assms by (simp add: dealt_def cards_ok_def deck_def)
  next
    case (Suc n)
    then show ?case using deal_seat_dealt [of n "foldl deal_seat ?g [0..<n]"] by simp
  qed
  from this [of 10] show ?thesis by (simp add: deal_def)
qed

lemma turn_first_result:
  assumes "cards_ok g" "n = card_num g" "\<exists>c\<in>set (deck g). c < 100"
  shows "\<exists>g'. turn_first n g = Some g' \<and> cards_ok g' \<and> hand_num g' = hand_num g \<and> hand g' = hand g
    \<and> used g' = used g \<and> player_num g' = player_num g \<and> table_card g' < 100 \<and> table_card g' \<notin> set (deck g')"
  using assms
proof (induction n arbitrary: g)
  case 0
  then show ?case by (simp add: deck_def)
next
  case (Suc n)
  let ?t = "card_seq g ! (card_num g - 1)"
  let ?g = "g\<lparr>table_card := ?t, card_num := card_num g - 1, colour := cards ! ?t ! 1\<rparr>"
  have d: "deck g = deck ?g @ [?t]" using deck_draw [OF Suc.prems(1)] Suc.prems(2) by (simp add: deck_def)
  have ok: "cards_ok ?g"
    by (rule cards_ok_subdeck [OF Suc.prems(1)])
       (use cards_okD(1-3) [OF Suc.prems(1)] d in auto)
  show ?case
  proof (cases "?t < 100")
    case True
    have "?t \<notin> set (deck ?g)" using cards_okD(3) [OF Suc.prems(1)] unfolding d by simp
    then show ?thesis using True ok by (simp add: Let_def)
  next
    case False
    then have "\<exists>c\<in>set (deck ?g). c < 100" using Suc.prems(3) unfolding d by auto
    moreover have "n = card_num ?g" using Suc.prems(2) by simp
    ultimately obtain g' where "turn_first n ?g = Some g'" "cards_ok g'" "hand_num g' = hand_num g" "hand g' = hand g"
      "used g' = used g" "player_num g' = player_num g" "table_card g' < 100" "table_card g' \<notin> set (deck g')"
      using Suc.IH [OF ok] by auto
    then show ?thesis using False by (simp add: Let_def)
  qed
qed

lemma kth_seat_taken:
  "j \<le> k \<Longrightarrow> k < j + length (filter (\<lambda>i. us i \<noteq> -1) js) \<Longrightarrow> kth_seat us k j js \<in> set js \<and> us (kth_seat us k j js) \<noteq> -1"
  by (induction js arbitrary: j) (auto split: if_splits)


section \<open>Correctness\<close>

lemma open_ok:
  assumes "length (card_seq g) = 108" "\<forall>i. used g i \<noteq> -1 \<longrightarrow> i < 10"
    and "player_num g = int (card {i. used g i \<noteq> -1})" "0 < player_num g"
  shows "\<exists>g'. game_open rnd first g = Some g' \<and> game_ok g' \<and> (\<forall>i. used g i \<noteq> -1 \<longrightarrow> hand_num g' i = 7)
    \<and> table_card g' < 100 \<and> table_card g' \<notin> set (deck g')"
proof -
  define g1 where "g1 = g\<lparr>card_num := 108, card_seq := shuffle rnd (card_seq g) 108, turn := 0\<rparr>"
  have "length (card_seq g1) = 108" "set (card_seq g1) = {0..<108}" "distinct (card_seq g1)"
    using shuffle_perm(1) [of 108 "card_seq g" rnd] shuffle_deck [of 108 "card_seq g" rnd] assms(1)
    by (simp_all add: g1_def)
  then have d: "dealt 10 (deal g1)" "used (deal g1) = used g" "player_num (deal g1) = player_num g"
    using deal_dealt [of g1] by (simp_all add: g1_def)
  have ok: "cards_ok (deal g1)" "38 \<le> card_num (deal g1)" using d(1) by (simp_all add: dealt_def)
  note cok = cards_okD(1-4) [OF ok(1)]
  have "card (set (deck (deal g1))) = card_num (deal g1)"
    using distinct_card [OF cok(3)] cok(1,2) by (simp add: deck_def)
  then have "\<not> set (deck (deal g1)) \<subseteq> {100..<108}"
    using ok(2) card_mono [of "{100..<108}" "set (deck (deal g1))"] by auto
  then have "\<exists>c\<in>set (deck (deal g1)). c < 100" using cok(4) by force
  from turn_first_result [OF ok(1) refl this] obtain g2 where g2:
    "turn_first (card_num (deal g1)) (deal g1) = Some g2" "cards_ok g2" "hand_num g2 = hand_num (deal g1)"
    "used g2 = used g" "player_num g2 = player_num g" "table_card g2 < 100" "table_card g2 \<notin> set (deck g2)"
    using d by auto
  define w where "w = kth_seat (used g) (first mod nat (player_num g)) 0 [0..<10]"
  have act: "hand_num g2 i \<noteq> -1 \<longleftrightarrow> used g i \<noteq> -1" "used g i \<noteq> -1 \<longrightarrow> hand_num g2 i = 7" for i
    using d assms(2) by (auto simp: g2(3) dealt_def)
  have "length (filter (\<lambda>i. used g i \<noteq> -1) [0..<10]) = card {i. used g i \<noteq> -1}"
  proof -
    have "set (filter (\<lambda>i. used g i \<noteq> -1) [0..<10]) = {i. used g i \<noteq> -1}" using assms(2) by auto
    then show ?thesis using distinct_card [of "filter (\<lambda>i. used g i \<noteq> -1) [0..<10]"] by simp
  qed
  then have "first mod nat (player_num g) < 0 + length (filter (\<lambda>i. used g i \<noteq> -1) [0..<10])"
    using assms(3,4) by simp
  from kth_seat_taken [OF le0 this] have w: "w < 10" "used g w \<noteq> -1" by (simp_all add: w_def)
  define g3 where "g3 = g2\<lparr>whose_round := w\<rparr>"
  have "cards_ok g3" using g2(2) cards_ok_cong [of g3 g2] by (simp add: g3_def)
  then have ok3: "game_ok g3"
    using assms(2,3) w act g2(4,5) unfolding game_ok_def by (simp add: g3_def)
  let ?g' = "StartRound (cards ! table_card g3) (g3\<lparr>out := out g3 @ SendToEveryone (-1) (nine_line g3) (used g3)\<rparr>)\<lparr>is_uno := (\<lambda>_. False)\<rparr>"
  have "game_open rnd first g = Some ?g'"
    using g2(1) by (simp add: game_open_def Let_def g1_def [symmetric] g3_def w_def g2(4,5))
  moreover have "game_ok ?g'" by (rule game_ok_cong [OF ok3]) simp_all
  moreover have "table_card ?g' < 100" "deck ?g' = deck g2" "table_card ?g' = table_card g2"
    using g2(6) by (simp_all add: StartRound_def deck_def g3_def)
  ultimately show ?thesis using act g2(7) by (auto simp: g3_def)
qed

text \<open>
  C12 The opening of a game, for every room of 1 to 10 players and all random numbers: each player gets
  seven cards, no card twice; the first card on the table is not wild and in no one's hand; the
  player to start is one of the room. The search for a card that is not wild ends before the deck.
\<close>

theorem game_open_deals:
  assumes "length (card_seq g) = 108" "\<forall>i. used g i \<noteq> -1 \<longrightarrow> i < 10"
    and "player_num g = int (card {i. used g i \<noteq> -1})" "0 < player_num g"
  shows "\<exists>g'. game_open rnd first g = Some g' \<and> game_ok g' \<and> (\<forall>i. used g i \<noteq> -1 \<longrightarrow> hand_num g' i = 7)
    \<and> table_card g' < 100 \<and> table_card g' \<notin> set (deck g')"
  by (rule open_ok [OF assms])

lemma sample_room: "{i. used sample_game i \<noteq> -1} = {0, 1}"
  by (auto simp: sample_game_def)

theorem game_open_deals_witness:
  "\<exists>g'. game_open id 5 sample_game = Some g' \<and> game_ok g' \<and> hand_num g' 0 = 7"
proof -
  have "length (card_seq sample_game) = 108" "player_num sample_game = 2" by (simp_all add: sample_game_def)
  moreover have "\<forall>i. used sample_game i \<noteq> -1 \<longrightarrow> i < 10" "used sample_game 0 \<noteq> -1"
    by (auto simp: sample_game_def)
  ultimately show ?thesis using game_open_deals [of sample_game id 5] by (auto simp: sample_room)
qed


definition sample_full :: game where
  "sample_full = sample_game\<lparr>card_num := 50\<rparr>"

lemma sample_full_ok: "game_ok sample_full"
proof -
  have "{c. i = 0 \<and> c = (50::nat)} = (if i = 0 then {50} else {})" for i :: nat by auto
  moreover have "{i. hand_num sample_full i \<noteq> -1} = {0, 1}" by (auto simp: sample_full_def sample_game_def)
  ultimately show ?thesis
    by (auto simp: game_ok_def cards_ok_def sample_full_def sample_game_def deck_def)
qed


text \<open>
  A player who has left comes back: if a player was called out with one card and leaves in the
  same round, and another player's call was earlier, settling the call deals him two cards although
  his \<open>hand_num\<close> is -1; the count becomes 1, so the server takes him for a player again.
\<close>

lemma uno_call_revives:
  assumes "hand_num g h = -1" "have_uno g = int h" "fastest_seat g \<noteq> h" "2 \<le> card_num g"
  shows "\<exists>g'. settle_uno rnd g = Some g' \<and> hand_num g' h = 1"
proof -
  have "card_num (draw_card h g) = card_num g - 1" by (rule draw_card_fields)
  then have "GiveCardToPlayer rnd h 2 g = Some (draw_card h (draw_card h g))"
    using assms(4) by (simp add: GiveCardToPlayer_def numeral_2_eq_2)
  then show ?thesis using assms(1-3) by (simp add: settle_uno_def Let_def draw_card_fields)
qed

lemma uno_call_revives_example:
  "\<exists>g'. settle_uno id (sample_full\<lparr>have_uno := 3, time_stamp := (\<lambda>i. if i = 1 then 9 else LONG_MAX)\<rparr>) = Some g'
     \<and> hand_num g' 3 = 1"
proof -
  have f: "fastest_seat (sample_full\<lparr>have_uno := 3, time_stamp := (\<lambda>i. if i = 1 then 9 else LONG_MAX)\<rparr>) \<noteq> 3"
    by code_simp
  show ?thesis by (rule uno_call_revives [OF _ _ f]) (simp_all add: sample_full_def sample_game_def)
qed

end
