(* ===== verification/Uno_Lobby.thy ===== *)
theory Uno_Lobby
  imports Uno_Game
begin

text \<open>
  The lobby and the rooms of \<open>tcpcliserv/final_server.c\<close>: the connection table, logging in, the handler
  threads (\<open>GetInRoom\<close>) that create rooms and put players into them, the room threads (\<open>RoomProcess\<close>)
  that admit players, let them leave and run the game, and the dispatch of \<open>main\<close>. The shared state is
  one record. A critical section under \<open>room_data_lock\<close> is one function, so the interleavings of the
  threads are the sequences of these functions. \<open>None\<close> is undefined behaviour of the C code: an array
  index out of range, a name that overflows its 32 bytes, a client's text used as a format, a NULL
  from \<open>strtok\<close>.
\<close>

section \<open>The shared state\<close>

abbreviation MAXPLAYER :: nat where "MAXPLAYER \<equiv> 45"

record room =
  new_player :: int
  room_players :: int
  players :: "nat \<Rightarrow> int"
  room_used :: int
  in_game :: int
  random :: int

record room_thread_args =
  arg_room_no :: int
  arg_owner :: int
  arg_random :: int

text \<open>\<open>conns[i].state\<close>: 0 free, 1 in the lobby, 2 in a room.\<close>

record lobby =
  conn_state :: "nat \<Rightarrow> int"
  conn_name :: "nat \<Rightarrow> string"
  room_data :: "nat \<Rightarrow> room"
  room_arg :: "nat \<Rightarrow> room_thread_args"
  handler_arg :: "nat \<Rightarrow> room_thread_args"
  room_working :: "nat \<Rightarrow> int"
  handler_working :: "nat \<Rightarrow> int"
  players_online :: int
  room_num :: int
  used_list :: "nat list"
  closed_conns :: "nat list"
  sent_lines :: "msg list"

definition empty_room :: room where
  "empty_room = \<lparr>new_player = 0, room_players = 0, players = (\<lambda>_. -1), room_used = 0, in_game = 0, random = 0\<rparr>"

definition lobby_init :: lobby where
  "lobby_init = \<lparr>conn_state = (\<lambda>_. 0), conn_name = (\<lambda>_. []), room_data = (\<lambda>_. empty_room),
     room_arg = (\<lambda>_. \<lparr>arg_room_no = 0, arg_owner = 0, arg_random = 0\<rparr>),
     handler_arg = (\<lambda>_. \<lparr>arg_room_no = 0, arg_owner = 0, arg_random = 0\<rparr>),
     room_working = (\<lambda>_. 0), handler_working = (\<lambda>_. 0), players_online = 0, room_num = 0,
     used_list = [], closed_conns = [], sent_lines = []\<rparr>"

section \<open>Connections\<close>

definition FindEmpty :: "lobby \<Rightarrow> int" where
  "FindEmpty s = (case find (\<lambda>i. conn_state s i = 0) [0..<MAXPLAYER] of Some i \<Rightarrow> int i | None \<Rightarrow> -1)"

definition HandleLogin :: "string \<Rightarrow> nat \<Rightarrow> lobby \<Rightarrow> bool" where
  "HandleLogin user this_id s =
     (\<not> list_ex (\<lambda>i. conn_state s i \<noteq> 0 \<and> i \<noteq> this_id \<and> conn_name s i = user) [0..<MAXPLAYER])"

definition say :: "nat \<Rightarrow> string \<Rightarrow> lobby \<Rightarrow> lobby" where
  "say c line s = s\<lparr>sent_lines := sent_lines s @ [(c, line)]\<rparr>"

text \<open>A new connection takes the first free entry.\<close>

definition accept_conn :: "lobby \<Rightarrow> lobby" where
  "accept_conn s =
     (let index = FindEmpty s in
      if index < 0 then s
      else s\<lparr>conn_state := (conn_state s)(nat index := 1), used_list := used_list s @ [nat index],
             players_online := players_online s + 1\<rparr>)"

text \<open>Before every \<open>select\<close> the entries of closed connections leave the list.\<close>

definition purge_list :: "lobby \<Rightarrow> lobby" where
  "purge_list s = s\<lparr>used_list := filter (\<lambda>i. conn_state s i \<noteq> 0) (used_list s)\<rparr>"

definition lobby_eof :: "nat \<Rightarrow> lobby \<Rightarrow> lobby" where
  "lobby_eof c s = s\<lparr>conn_state := (conn_state s)(c := 0), players_online := players_online s - 1,
     closed_conns := closed_conns s @ [c]\<rparr>"

definition set_name :: "nat \<Rightarrow> string \<Rightarrow> lobby \<Rightarrow> lobby option" where
  "set_name c name s = (if length name < 32 then Some (s\<lparr>conn_name := (conn_name s)(c := name)\<rparr>) else None)"

text \<open>A request handed to the handler thread of the connection.\<close>

definition to_handler :: "nat \<Rightarrow> int \<Rightarrow> int \<Rightarrow> lobby \<Rightarrow> lobby" where
  "to_handler c room_no rnd s =
     s\<lparr>handler_arg := (handler_arg s)(c := \<lparr>arg_room_no = room_no, arg_owner = int c, arg_random = rnd\<rparr>),
       conn_state := (conn_state s)(c := 2), handler_working := (handler_working s)(c := 1)\<rparr>"

text \<open>One line from a connection in the lobby.\<close>

definition lobby_line :: "nat \<Rightarrow> string \<Rightarrow> lobby \<Rightarrow> lobby option" where
  "lobby_line c recvline s =
     (case filter (\<lambda>t. t \<noteq> []) (split_at NL recvline) of
        [] \<Rightarrow> None
      | line # _ \<Rightarrow>
     (case tokens line of
        [] \<Rightarrow> None
      | op # args \<Rightarrow>
          if op = ''1'' then Some (say c (''1'' @ [NL]) s)
          else if \<not> isdigit (hd op) then
            (if CHR ''%'' \<in> set op then None
             else case set_name c op s of
               None \<Rightarrow> None
             | Some s \<Rightarrow>
                 (case args of
                    [] \<Rightarrow> None
                  | opop # _ \<Rightarrow> Some (if opop = ''1'' then say c (''4 '' @ op @ [NL]) s else s)))
          else if op = ''2'' then
            (case args of
               [] \<Rightarrow> None
             | login # rest \<Rightarrow>
                 if login = ''1'' then
                   (case rest of
                      [] \<Rightarrow> None
                    | user # _ \<Rightarrow>
                        if HandleLogin user c s
                        then map_option (say c (''2'' @ [NL] @ ''4 '' @ user @ [NL])) (set_name c user s)
                        else Some (say c (''3'' @ [NL]) s))
                 else Some (say c (''3'' @ [NL]) s))
          else if op = ''3'' then Some (to_handler c (-1) 0 s)
          else if op = ''4'' then
            (case args of [] \<Rightarrow> None | str_room_no # _ \<Rightarrow> Some (to_handler c (atoi str_room_no) 0 s))
          else if op = ''5'' then Some (to_handler c (-1) 1 s)
          else Some s))"

section \<open>The handler threads: \<open>GetInRoom\<close>\<close>

definition upd_room :: "nat \<Rightarrow> (room \<Rightarrow> room) \<Rightarrow> lobby \<Rightarrow> lobby" where
  "upd_room r f s = s\<lparr>room_data := (room_data s)(r := f (room_data s r))\<rparr>"

definition free_seat :: "room \<Rightarrow> nat" where
  "free_seat rd = (case find (\<lambda>i. players rd i = -1) [0..<10] of Some i \<Rightarrow> i | None \<Rightarrow> 10)"

text \<open>The player is put into the first free seat; \<open>None\<close> if there is none, which would write past the
  array.\<close>

definition put_player :: "nat \<Rightarrow> int \<Rightarrow> lobby \<Rightarrow> lobby option" where
  "put_player r p s =
     (let i = free_seat (room_data s r) in
      if i = 10 then None
      else Some (upd_room r (\<lambda>rd. rd\<lparr>room_players := room_players rd + 1, players := (players rd)(i := p),
                                     new_player := 1\<rparr>) (s\<lparr>room_num := room_num s + 1\<rparr>)))"

text \<open>The request is refused and the player goes back to the lobby.\<close>

definition refuse :: "nat \<Rightarrow> nat \<Rightarrow> string \<Rightarrow> lobby \<Rightarrow> lobby" where
  "refuse tid c code s =
     (say c (code @ [NL]) s)\<lparr>handler_working := (handler_working s)(tid := 0),
                              conn_state := (conn_state s)(c := 1)\<rparr>"

text \<open>A new room with its first player, and its room thread set to work.\<close>

definition open_room :: "nat \<Rightarrow> nat \<Rightarrow> int \<Rightarrow> int \<Rightarrow> lobby \<Rightarrow> lobby" where
  "open_room tid r rnd p s =
     (upd_room r (\<lambda>rd. rd\<lparr>room_used := 1, room_players := 1, random := rnd, players := (players rd)(0 := p),
                           in_game := 0, new_player := 1\<rparr>) s)
     \<lparr>room_num := room_num s + 1,
      room_arg := (room_arg s)(r := \<lparr>arg_room_no = int r, arg_owner = 0, arg_random = 1\<rparr>),
      room_working := (room_working s)(r := 1), handler_working := (handler_working s)(tid := 0)\<rparr>"

text \<open>One round of the loop that looks for a random room. The result says whether the loop ends.
  The rooms are searched without the lock, so the search sees \<open>seen\<close>, the rooms at an earlier time.\<close>

definition find_random :: "(nat \<Rightarrow> room) \<Rightarrow> nat option" where
  "find_random seen = find (\<lambda>i. in_game (seen i) = 0 \<and> random (seen i) = 1) [0..<MAXPLAYER]"

definition find_unused :: "(nat \<Rightarrow> room) \<Rightarrow> nat option" where
  "find_unused seen = find (\<lambda>i. room_used (seen i) = 0) [0..<MAXPLAYER]"

definition join_random :: "nat \<Rightarrow> (nat \<Rightarrow> room) \<Rightarrow> lobby \<Rightarrow> (bool \<times> lobby) option" where
  "join_random tid seen s =
     (let p = arg_owner (handler_arg s tid) in
      case find_random seen of
        Some r \<Rightarrow>
          if room_used (room_data s r) = 0 \<or> in_game (room_data s r) = 1 \<or> room_players (room_data s r) \<ge> 9
          then Some (False, s)
          else map_option (\<lambda>s. (True, s\<lparr>handler_working := (handler_working s)(tid := 0)\<rparr>)) (put_player r p s)
      | None \<Rightarrow>
          (case find_unused seen of
             None \<Rightarrow> Some (True, refuse tid (nat p) ''17'' s)
           | Some r \<Rightarrow> if room_used (room_data s r) = 1 then Some (False, s)
                       else Some (True, open_room tid r 1 p s)))"

definition create_room :: "nat \<Rightarrow> (nat \<Rightarrow> room) \<Rightarrow> lobby \<Rightarrow> bool \<times> lobby" where
  "create_room tid seen s =
     (let p = arg_owner (handler_arg s tid) in
      case find_unused seen of
        None \<Rightarrow> (True, refuse tid (nat p) ''17'' s)
      | Some r \<Rightarrow> if room_used (room_data s r) = 1 then (False, s) else (True, open_room tid r 0 p s))"

text \<open>A room joined by its number, which comes from the client unchecked.\<close>

definition join_room :: "nat \<Rightarrow> lobby \<Rightarrow> lobby option" where
  "join_room tid s =
     (let n = arg_room_no (handler_arg s tid); p = arg_owner (handler_arg s tid); r = nat n in
      if n < 0 \<or> int MAXPLAYER \<le> n then None
      else if room_used (room_data s r) = 0 \<or> random (room_data s r) = 1 then Some (refuse tid (nat p) ''16'' s)
      else if in_game (room_data s r) = 1 then Some (refuse tid (nat p) ''18'' s)
      else if room_players (room_data s r) \<ge> 9 then Some (refuse tid (nat p) ''17'' s)
      else map_option (\<lambda>s. s\<lparr>handler_working := (handler_working s)(tid := 0)\<rparr>) (put_player r p s))"

definition GetInRoom :: "nat \<Rightarrow> (nat \<Rightarrow> room) \<Rightarrow> lobby \<Rightarrow> (bool \<times> lobby) option" where
  "GetInRoom tid seen s =
     (if handler_working s tid = 0 then Some (True, s)
      else if arg_random (handler_arg s tid) = 1 then join_random tid seen s
      else if arg_room_no (handler_arg s tid) = -1 then Some (create_room tid seen s)
      else map_option (\<lambda>s. (True, s)) (join_room tid s))"


section \<open>The room threads: \<open>RoomProcess\<close>\<close>

text \<open>The locals of a room thread at work; \<open>seats\<close> is the thread's copy \<open>used[]\<close> of the players.\<close>

record rlocal =
  seats :: "nat \<Rightarrow> int"
  owner :: nat
  num_players :: int

definition room_start :: "nat \<Rightarrow> lobby \<Rightarrow> rlocal" where
  "room_start tid s = \<lparr>seats = (\<lambda>_. -1), owner = nat (arg_owner (room_arg s tid)), num_players = 0\<rparr>"

text \<open>A player found in \<open>players[]\<close> but not yet in \<open>used[]\<close> is told who is in the room (the first nine
  seats, the owner first), and the others are told of him.\<close>

definition admit_seat :: "nat \<Rightarrow> rlocal \<times> lobby \<Rightarrow> nat \<Rightarrow> (rlocal \<times> lobby) option" where
  "admit_seat r = (\<lambda>(l, s) i.
     let rd = room_data s r; p = players rd i in
     if p = -1 \<or> conn_state s (nat p) \<noteq> 2 \<or> seats l i \<noteq> -1 then Some (l, s)
     else if players rd (owner l) = -1 then None
     else
       let name = (\<lambda>j. conn_name s (nat (players rd j)));
           line = ''5 '' @ fmt_d (int r) @ '' '' @ name (owner l)
             @ concat (map (\<lambda>j. '' '' @ name j) (filter (\<lambda>j. seats l j \<noteq> -1 \<and> j \<noteq> owner l) [0..<9])) @ [NL];
           l = l\<lparr>num_players := room_players rd, seats := (seats l)(i := p)\<rparr>
       in Some (l, s\<lparr>sent_lines := sent_lines s @ [(nat p, line)]
                   @ SendToEveryone (int i) (''6 '' @ name i @ [NL]) (seats l)\<rparr>))"

fun admit_seats :: "nat \<Rightarrow> nat list \<Rightarrow> rlocal \<times> lobby \<Rightarrow> (rlocal \<times> lobby) option" where
  "admit_seats r [] ls = Some ls"
| "admit_seats r (i # is') ls =
     (case admit_seat r ls i of None \<Rightarrow> None | Some ls \<Rightarrow> admit_seats r is' ls)"

definition room_admit :: "nat \<Rightarrow> rlocal \<times> lobby \<Rightarrow> (rlocal \<times> lobby) option" where
  "room_admit r ls =
     (if new_player (room_data (snd ls) r) = 1 then
        map_option (\<lambda>(l, s). (l, upd_room r (\<lambda>rd. rd\<lparr>new_player := 0\<rparr>) s)) (admit_seats r [0..<10] ls)
      else Some ls)"

text \<open>A player leaves the room. \<open>Ret\<close> is the end of the thread's work: the room is empty.\<close>

definition leave_room :: "nat \<Rightarrow> nat \<Rightarrow> int \<Rightarrow> rlocal \<times> lobby \<Rightarrow> (rlocal \<times> lobby) outcome" where
  "leave_room r i n = (\<lambda>(l, s).
     let c = nat (seats l i);
         s = (if n = 0 then s\<lparr>closed_conns := closed_conns s @ [c], conn_state := (conn_state s)(c := 0),
                              players_online := players_online s - 1\<rparr>
              else s\<lparr>conn_state := (conn_state s)(c := 1)\<rparr>);
         s = upd_room r (\<lambda>rd. rd\<lparr>players := (players rd)(i := -1), room_players := room_players rd - 1\<rparr>) s
     in if room_players (room_data s r) = 0 then
          Ret (l, (upd_room r (\<lambda>rd. rd\<lparr>room_used := 0\<rparr>) s)\<lparr>room_working := (room_working s)(r := 0)\<rparr>)
        else
          let l = l\<lparr>num_players := room_players (room_data s r)\<rparr>;
              l' = (if i = owner l then
                      (case find (\<lambda>j. j \<noteq> i \<and> seats l j \<noteq> -1) [0..<10] of
                         Some j \<Rightarrow> l\<lparr>owner := j\<rparr> | None \<Rightarrow> l)
                    else l);
              line = (if i = owner l then ''8 '' @ conn_name s (nat (seats l (owner l'))) @ [NL]
                      else ''7 '' @ conn_name s c @ [NL])
          in Go (l'\<lparr>seats := (seats l')(i := -1)\<rparr>,
                 s\<lparr>sent_lines := sent_lines s @ SendToEveryone (int i) line (seats l)\<rparr>))"

text \<open>The game of a room: the locals of \<open>GameStart\<close> from the room, a script of its rounds, and its
  effect on the lobby. \<open>junk\<close> is what the uninitialised \<open>card_seq\<close> and \<open>card_id\<close> hold.\<close>

definition new_game :: "nat list \<times> nat \<Rightarrow> rlocal \<Rightarrow> lobby \<Rightarrow> game" where
  "new_game junk l s =
     \<lparr>cname = conn_name s, used = seats l, hand = (\<lambda>_ _. False), hand_num = (\<lambda>_. -1), card_seq = fst junk,
      card_num = 108, whose_round = 0, turn = 0, table_card = 0, colour = CHR ''r'', card_id = snd junk,
      player_num = num_players l, is_uno = (\<lambda>_. False), have_uno = -1, time_stamp = (\<lambda>_. LONG_MAX),
      cstate = conn_state s, closed = [], global_player_num = players_online s, out = []\<rparr>"

fun game_rounds :: "((nat \<Rightarrow> nat) \<times> (nat \<Rightarrow> (int \<times> string) option)) list \<Rightarrow> game \<Rightarrow> game outcome option" where
  "game_rounds [] g = Some (Go g)"
| "game_rounds ((rnd, ev) # es) g =
     (case game_round rnd ev g of Some (Go g) \<Rightarrow> game_rounds es g | r \<Rightarrow> r)"

definition game_effect :: "rlocal \<Rightarrow> game \<Rightarrow> lobby \<Rightarrow> lobby" where
  "game_effect l g s =
     s\<lparr>conn_state := (\<lambda>c. if \<exists>i\<in>set [0..<10]. seats l i = int c then cstate g c else conn_state s c),
       closed_conns := closed_conns s @ closed g, players_online := global_player_num g,
       sent_lines := sent_lines s @ out g\<rparr>"

text \<open>\<open>7\<close>: the game is started if there are two players; when it returns the room is cleared and the
  thread's work ends. A script that does not end the game leaves the thread inside it (\<open>Go\<close>).\<close>

definition start_game ::
  "nat list \<times> nat \<Rightarrow> (nat \<Rightarrow> nat) \<Rightarrow> nat \<Rightarrow> ((nat \<Rightarrow> nat) \<times> (nat \<Rightarrow> (int \<times> string) option)) list \<Rightarrow>
   nat \<Rightarrow> rlocal \<times> lobby \<Rightarrow> (rlocal \<times> lobby) outcome option" where
  "start_game junk rnd first es r = (\<lambda>(l, s).
     if num_players l < 2 then
       Some (Go (l, s\<lparr>sent_lines := sent_lines s @ SendToEveryone (-1) (''19'' @ [NL]) (seats l)\<rparr>))
     else
       let s = upd_room r (\<lambda>rd. rd\<lparr>in_game := 1\<rparr>) s in
       case game_open rnd first (new_game junk l s) of
         None \<Rightarrow> None
       | Some g \<Rightarrow>
           (case game_rounds es g of
              None \<Rightarrow> None
            | Some (Ret g) \<Rightarrow>
                Some (Ret (l, (upd_room r (\<lambda>rd. rd\<lparr>room_players := 0, room_used := 0, in_game := 0, random := 0,
                                  players := (\<lambda>i. if i < 10 then -1 else players rd i)\<rparr>) (game_effect l g s))
                                \<lparr>room_working := (room_working s)(r := 0)\<rparr>))
            | Some _ \<Rightarrow> None))"

text \<open>After the work: \<open>room_data[room_no].random = 0; room_num--;\<close>\<close>

definition room_end :: "nat \<Rightarrow> lobby \<Rightarrow> lobby" where
  "room_end r s = (upd_room r (\<lambda>rd. rd\<lparr>random := 0\<rparr>) s)\<lparr>room_num := room_num s - 1\<rparr>"


section \<open>The server as a step relation\<close>

text \<open>Any thread may make the next step. A room thread that ends its work notices it before the room is
  opened again.\<close>

type_synonym server = "lobby \<times> (nat \<Rightarrow> rlocal option)"

inductive server_step :: "server \<Rightarrow> server \<Rightarrow> bool" where
  accept: "server_step (s, L) (accept_conn s, L)"
| purge: "server_step (s, L) (purge_list s, L)"
| eof: "conn_state s c = 1 \<Longrightarrow> server_step (s, L) (lobby_eof c s, L)"
| line: "conn_state s c = 1 \<Longrightarrow> lobby_line c t s = Some s' \<Longrightarrow> server_step (s, L) (s', L)"
| handler: "GetInRoom tid seen s = Some (b, s') \<Longrightarrow> server_step (s, L) (s', L)"
| begin_work: "r < MAXPLAYER \<Longrightarrow> room_working s r = 1 \<Longrightarrow> L r = None \<Longrightarrow>
    server_step (s, L) (s, L(r := Some (room_start r s)))"
| admit: "L r = Some l \<Longrightarrow> room_admit r (l, s) = Some (l', s') \<Longrightarrow> server_step (s, L) (s', L(r := Some l'))"
| leave: "L r = Some l \<Longrightarrow> seats l i \<noteq> -1 \<Longrightarrow> leave_room r i n (l, s) = Go (l', s') \<Longrightarrow>
    server_step (s, L) (s', L(r := Some l'))"
| empty: "L r = Some l \<Longrightarrow> seats l i \<noteq> -1 \<Longrightarrow> leave_room r i n (l, s) = Ret (l', s') \<Longrightarrow>
    server_step (s, L) (room_end r s', L(r := None))"
| alone: "L r = Some l \<Longrightarrow> start_game junk rnd first es r (l, s) = Some (Go (l', s')) \<Longrightarrow>
    server_step (s, L) (s', L(r := Some l'))"
| game_over: "L r = Some l \<Longrightarrow> start_game junk rnd first es r (l, s) = Some (Ret (l', s')) \<Longrightarrow>
    server_step (s, L) (room_end r s', L(r := None))"

inductive reachable :: "server \<Rightarrow> bool" where
  initially: "reachable (lobby_init, Map.empty)"
| afterwards: "reachable x \<Longrightarrow> server_step x y \<Longrightarrow> reachable y"

section \<open>The rooms stay in order\<close>

definition headcount :: "(nat \<Rightarrow> int) \<Rightarrow> int" where
  "headcount p = int (card {i. i < 10 \<and> p i \<noteq> -1})"

definition room_ok :: "room \<Rightarrow> bool" where
  "room_ok rd \<longleftrightarrow> room_players rd = headcount (players rd) \<and> room_players rd \<le> 9
     \<and> (room_used rd = 0 \<and> room_players rd = 0 \<or> room_used rd = 1 \<and> 1 \<le> room_players rd)"

definition server_ok :: "server \<Rightarrow> bool" where
  "server_ok x \<longleftrightarrow> (case x of (s, L) \<Rightarrow>
     (\<forall>r<MAXPLAYER. room_ok (room_data s r))
     \<and> (\<forall>t. 0 \<le> arg_owner (handler_arg s t))
     \<and> (\<forall>r<MAXPLAYER. room_working s r = 1 \<longrightarrow> room_used (room_data s r) = 1)
     \<and> (\<forall>r l. L r = Some l \<longrightarrow> r < MAXPLAYER \<and> room_used (room_data s r) = 1
           \<and> (\<forall>i. seats l i \<noteq> -1 \<longrightarrow> i < 10 \<and> players (room_data s r) i = seats l i)))"

lemma room_ok_same:
  "room_ok rd \<Longrightarrow> room_players rd' = room_players rd \<Longrightarrow> players rd' = players rd \<Longrightarrow> room_used rd' = room_used rd
    \<Longrightarrow> room_ok rd'"
  unfolding room_ok_def by metis

lemma seats_finite: "finite {i. i < (10::nat) \<and> P i}"
  by (rule finite_subset [of _ "{..<10}"]) auto

lemma headcount_put: "i < 10 \<Longrightarrow> p i = -1 \<Longrightarrow> x \<noteq> -1 \<Longrightarrow> headcount (p(i := x)) = headcount p + 1"
proof -
  assume a: "i < 10" "p i = -1" "x \<noteq> -1"
  then have "{j. j < 10 \<and> (p(i := x)) j \<noteq> -1} = insert i {j. j < 10 \<and> p j \<noteq> -1}" by auto
  then show ?thesis using a seats_finite by (simp add: headcount_def)
qed

lemma headcount_remove: "i < 10 \<Longrightarrow> p i \<noteq> -1 \<Longrightarrow> headcount (p(i := -1)) = headcount p - 1"
  using headcount_put [of i "p(i := -1)" "p i"] by simp

lemma headcount_nonneg: "0 \<le> headcount p"
  by (simp add: headcount_def)

lemma headcount_zero: "headcount p = 0 \<longleftrightarrow> (\<forall>i<10. p i = -1)"
  using seats_finite by (auto simp: headcount_def)

lemma headcount_first: "headcount p = 0 \<Longrightarrow> x \<noteq> -1 \<Longrightarrow> headcount (p(0 := x)) = 1"
  using headcount_put [of 0 p x] by (simp add: headcount_zero)

lemma headcount_free: "headcount p \<le> 9 \<Longrightarrow> \<exists>i<10. p i = -1"
proof (rule ccontr)
  assume h: "headcount p \<le> 9" and "\<not> (\<exists>i<10. p i = -1)"
  then have "{i. i < 10 \<and> p i \<noteq> -1} = {..<10}" by auto
  then show False using h by (simp add: headcount_def)
qed

lemma free_seat_free:
  assumes "room_ok rd"
  shows "free_seat rd < 10 \<and> players rd (free_seat rd) = -1"
proof -
  obtain i where i: "i < 10" "players rd i = -1" using headcount_free [of "players rd"] assms by (auto simp: room_ok_def)
  have "find (\<lambda>i. players rd i = -1) [0..<10] \<noteq> None"
    unfolding find_None_iff using i by auto
  then obtain j where j: "find (\<lambda>i. players rd i = -1) [0..<10] = Some j" by blast
  then have "j < 10 \<and> players rd j = -1" by (auto simp: find_Some_iff)
  then show ?thesis using j by (simp add: free_seat_def)
qed

lemma put_player_room:
  assumes "room_ok (room_data s r)" "room_used (room_data s r) = 1" "room_players (room_data s r) < 9" "0 \<le> p"
  shows "\<exists>s'. put_player r p s = Some s' \<and> room_ok (room_data s' r) \<and> room_used (room_data s' r) = 1
    \<and> (\<forall>q. q \<noteq> r \<longrightarrow> room_data s' q = room_data s q) \<and> handler_arg s' = handler_arg s \<and> room_working s' = room_working s
    \<and> (\<forall>i. players (room_data s r) i \<noteq> -1 \<longrightarrow> players (room_data s' r) i = players (room_data s r) i)"
  using assms free_seat_free [OF assms(1)] headcount_put [of "free_seat (room_data s r)" "players (room_data s r)" p]
  by (auto simp: put_player_def Let_def upd_room_def room_ok_def)

lemma open_room_room:
  assumes "room_ok (room_data s r)" "room_used (room_data s r) \<noteq> 1" "0 \<le> p"
  shows "room_ok (room_data (open_room tid r x p s) r) \<and> room_used (room_data (open_room tid r x p s) r) = 1
    \<and> (\<forall>q. q \<noteq> r \<longrightarrow> room_data (open_room tid r x p s) q = room_data s q)
    \<and> handler_arg (open_room tid r x p s) = handler_arg s
    \<and> room_working (open_room tid r x p s) = (room_working s)(r := 1)"
  using assms headcount_first [of "players (room_data s r)" p]
  by (auto simp: open_room_def upd_room_def room_ok_def)

lemma leave_room_room:
  assumes "room_ok (room_data s r)" "i < 10" "players (room_data s r) i \<noteq> -1" "room_used (room_data s r) = 1"
  shows "case leave_room r i n (l, s) of
      Go (l', s') \<Rightarrow> room_ok (room_data s' r) \<and> room_used (room_data s' r) = 1 \<and> room_working s' = room_working s
        \<and> players (room_data s' r) = (players (room_data s r))(i := -1) \<and> seats l' = (seats l)(i := -1)
        \<and> (\<forall>q. q \<noteq> r \<longrightarrow> room_data s' q = room_data s q) \<and> handler_arg s' = handler_arg s
    | Ret (l', s') \<Rightarrow> room_ok (room_data s' r) \<and> room_working s' = (room_working s)(r := 0)
        \<and> (\<forall>q. q \<noteq> r \<longrightarrow> room_data s' q = room_data s q) \<and> handler_arg s' = handler_arg s
    | Die _ \<Rightarrow> False"
proof (cases "room_players (room_data s r) = 1")
  case True
  then show ?thesis using assms headcount_remove [of i "players (room_data s r)"]
    by (simp add: leave_room_def Let_def upd_room_def room_ok_def)
next
  case False
  then have "room_players (room_data s r) - 1 \<noteq> 0" "1 \<le> room_players (room_data s r) - 1"
    using assms(1,4) by (auto simp: room_ok_def)
  then show ?thesis using assms headcount_remove [of i "players (room_data s r)"]
    by (simp add: leave_room_def Let_def upd_room_def room_ok_def split: option.split)
qed


text \<open>A step that touches one room.\<close>

definition local_ok :: "nat \<Rightarrow> lobby \<Rightarrow> rlocal option \<Rightarrow> bool" where
  "local_ok r s lo \<longleftrightarrow> (\<forall>l. lo = Some l \<longrightarrow> r < MAXPLAYER \<and> room_used (room_data s r) = 1
     \<and> (\<forall>i. seats l i \<noteq> -1 \<longrightarrow> i < 10 \<and> players (room_data s r) i = seats l i))"

lemma server_ok_alt:
  "server_ok (s, L) \<longleftrightarrow> (\<forall>r<MAXPLAYER. room_ok (room_data s r)) \<and> (\<forall>t. 0 \<le> arg_owner (handler_arg s t))
     \<and> (\<forall>r<MAXPLAYER. room_working s r = 1 \<longrightarrow> room_used (room_data s r) = 1) \<and> (\<forall>r. local_ok r s (L r))"
  by (auto simp: server_ok_def local_ok_def)

lemma one_room:
  assumes "server_ok (s, L)" "room_ok (room_data s' r)" "\<forall>q. q \<noteq> r \<longrightarrow> room_data s' q = room_data s q"
    and "handler_arg s' = handler_arg s" "\<forall>q. q \<noteq> r \<longrightarrow> room_working s' q = room_working s q"
    and "room_working s' r = 1 \<longrightarrow> room_used (room_data s' r) = 1" "local_ok r s' lo"
  shows "server_ok (s', L(r := lo))"
proof -
  have "room_ok (room_data s' q)" if "q < MAXPLAYER" for q
    using assms(1-3) that by (cases "q = r") (simp_all add: server_ok_alt)
  moreover have "room_used (room_data s' q) = 1" if "q < MAXPLAYER" "room_working s' q = 1" for q
    using assms(1,3,5,6) that by (cases "q = r") (simp_all add: server_ok_alt)
  moreover have "local_ok q s' ((L(r := lo)) q)" for q
    using assms(1,3,7) by (cases "q = r") (simp_all add: server_ok_alt local_ok_def)
  ultimately show ?thesis using assms(1,4) by (simp add: server_ok_alt)
qed

lemma one_room_same:
  assumes "server_ok (s, L)" "room_ok (room_data s' r)" "\<forall>q. q \<noteq> r \<longrightarrow> room_data s' q = room_data s q"
    and "handler_arg s' = handler_arg s" "\<forall>q. q \<noteq> r \<longrightarrow> room_working s' q = room_working s q"
    and "room_used (room_data s' r) = 1"
    and "\<forall>i. players (room_data s r) i \<noteq> -1 \<longrightarrow> L r \<noteq> None \<longrightarrow> players (room_data s' r) i = players (room_data s r) i"
    and "\<forall>i. players (room_data s r) i = -1 \<longrightarrow> (\<forall>l. L r = Some l \<longrightarrow> seats l i = -1)"
  shows "server_ok (s', L)"
proof -
  have "local_ok r s' (L r)"
    using assms(1,6-8) unfolding server_ok_alt local_ok_def by (metis option.distinct(1))
  from one_room [OF assms(1-5) _ this] assms(6) show ?thesis by simp
qed

lemma seats_in_room:
  "server_ok (s, L) \<Longrightarrow> L r = Some l \<Longrightarrow> seats l i \<noteq> -1 \<Longrightarrow>
   r < MAXPLAYER \<and> i < 10 \<and> players (room_data s r) i = seats l i \<and> room_used (room_data s r) = 1"
  by (auto simp: server_ok_def)

lemma same_rooms:
  "server_ok (s, L) \<Longrightarrow> room_data s' = room_data s \<Longrightarrow> room_working s' = room_working s \<Longrightarrow>
   (\<forall>t. 0 \<le> arg_owner (handler_arg s' t)) \<Longrightarrow> server_ok (s', L)"
  by (simp add: server_ok_def)

lemma put_player_keeps:
  assumes "server_ok (s, L)" "r < MAXPLAYER" "room_used (room_data s r) \<noteq> 0" "room_players (room_data s r) < 9" "0 \<le> p"
  shows "\<exists>s'. put_player r p s = Some s' \<and> server_ok (s', L)"
proof -
  have ok: "room_ok (room_data s r)" using assms(1,2) by (simp add: server_ok_def)
  then have used: "room_used (room_data s r) = 1" using assms(3) by (auto simp: room_ok_def)
  obtain s' where s': "put_player r p s = Some s'" "room_ok (room_data s' r)" "room_used (room_data s' r) = 1"
    "\<forall>q. q \<noteq> r \<longrightarrow> room_data s' q = room_data s q" "handler_arg s' = handler_arg s" "room_working s' = room_working s"
    "\<forall>i. players (room_data s r) i \<noteq> -1 \<longrightarrow> players (room_data s' r) i = players (room_data s r) i"
    using put_player_room [OF ok used assms(4,5)] by blast
  have "\<forall>i. players (room_data s r) i = -1 \<longrightarrow> (\<forall>l. L r = Some l \<longrightarrow> seats l i = -1)"
    using seats_in_room [OF assms(1)] by metis
  with one_room_same [OF assms(1) s'(2,4,5) _ s'(3)] s'(6,7) have "server_ok (s', L)" by simp
  then show ?thesis using s'(1) by blast
qed

lemma open_room_keeps:
  assumes "server_ok (s, L)" "r < MAXPLAYER" "room_used (room_data s r) \<noteq> 1" "0 \<le> p"
  shows "server_ok (open_room tid r x p s, L)"
proof -
  have ok: "room_ok (room_data s r)" using assms(1,2) by (simp add: server_ok_def)
  note o = open_room_room [OF ok assms(3,4), of tid x]
  have "L r = None" using assms(1,3) by (cases "L r") (auto simp: server_ok_def)
  then have "local_ok r (open_room tid r x p s) (L r)" by (simp add: local_ok_def)
  from one_room [OF assms(1) _ _ _ _ _ this] o show ?thesis by simp
qed

lemma refuse_keeps: "server_ok (s, L) \<Longrightarrow> server_ok (refuse tid c code s, L)"
  by (rule same_rooms [of s]) (simp_all add: refuse_def say_def server_ok_def)

lemma done_keeps: "server_ok (s, L) \<Longrightarrow> server_ok (s\<lparr>handler_working := h\<rparr>, L)"
  by (rule same_rooms [of s]) (simp_all add: server_ok_def)

lemma find_room_below:
  "find_random seen = Some r \<Longrightarrow> r < MAXPLAYER" "find_unused seen = Some r \<Longrightarrow> r < MAXPLAYER"
  by (auto simp: find_random_def find_unused_def find_Some_iff)

lemma handler_keeps:
  assumes "server_ok (s, L)" "GetInRoom tid seen s = Some (b, s')"
  shows "server_ok (s', L)"
proof -
  let ?p = "arg_owner (handler_arg s tid)"
  have p: "0 \<le> ?p" using assms(1) by (simp add: server_ok_def)
  consider (idle) "s' = s"
    | (rand) "join_random tid seen s = Some (b, s')"
    | (create) "create_room tid seen s = (b, s')"
    | (join) "join_room tid s = Some s'"
    using assms(2) by (auto simp: GetInRoom_def split: if_splits)
  then show ?thesis
  proof cases
    case idle
    then show ?thesis using assms(1) by simp
  next
    case rand
    show ?thesis
    proof (cases "find_random seen")
      case None
      then show ?thesis
        using rand assms(1) refuse_keeps [OF assms(1)] open_room_keeps [OF assms(1) find_room_below(2) _ p]
        by (auto simp: join_random_def Let_def split: option.splits if_splits)
    next
      case (Some r)
      show ?thesis
      proof (cases "room_used (room_data s r) = 0 \<or> in_game (room_data s r) = 1 \<or> room_players (room_data s r) \<ge> 9")
        case True
        then show ?thesis using rand Some assms(1) by (auto simp: join_random_def Let_def)
      next
        case False
        then obtain s1 where "put_player r ?p s = Some s1" "server_ok (s1, L)"
          using put_player_keeps [OF assms(1) find_room_below(1) [OF Some] _ _ p] by auto
        then show ?thesis using rand Some False done_keeps by (auto simp: join_random_def Let_def)
      qed
    qed
  next
    case create
    then show ?thesis
      using assms(1) refuse_keeps [OF assms(1)] open_room_keeps [OF assms(1) find_room_below(2) _ p]
      by (auto simp: create_room_def Let_def split: option.splits if_splits)
  next
    case join
    let ?r = "nat (arg_room_no (handler_arg s tid))"
    show ?thesis
    proof (cases "0 \<le> arg_room_no (handler_arg s tid) \<and> arg_room_no (handler_arg s tid) < int MAXPLAYER
        \<and> room_used (room_data s ?r) \<noteq> 0 \<and> random (room_data s ?r) \<noteq> 1 \<and> in_game (room_data s ?r) \<noteq> 1
        \<and> room_players (room_data s ?r) < 9")
      case True
      then have "?r < MAXPLAYER" by linarith
      then obtain s1 where "put_player ?r ?p s = Some s1" "server_ok (s1, L)"
        using put_player_keeps [OF assms(1) _ _ _ p, of ?r] True by auto
      then show ?thesis using join True done_keeps by (auto simp: join_room_def Let_def)
    next
      case False
      then show ?thesis using join refuse_keeps [OF assms(1)]
        by (auto simp: join_room_def Let_def split: if_splits)
    qed
  qed
qed


lemma line_keeps:
  assumes "server_ok (s, L)" "lobby_line c t s = Some s'"
  shows "server_ok (s', L)"
proof -
  have h: "\<forall>t. 0 \<le> arg_owner (handler_arg s t)" using assms(1) by (simp add: server_ok_def)
  have "room_data s' = room_data s \<and> room_working s' = room_working s \<and> (\<forall>t. 0 \<le> arg_owner (handler_arg s' t))"
    using assms(2) h
    by (auto simp: lobby_line_def say_def set_name_def to_handler_def Let_def split: list.splits if_splits option.splits)
  with same_rooms [OF assms(1)] show ?thesis by blast
qed

lemma admit_seats_keeps:
  assumes "admit_seats r js (l, s) = Some (l', s')" "set js \<subseteq> {..<10}"
  shows "room_data s' = room_data s \<and> room_working s' = room_working s \<and> handler_arg s' = handler_arg s
    \<and> (\<forall>i. seats l' i = seats l i \<or> (i < 10 \<and> seats l' i = players (room_data s r) i))"
  using assms
proof (induction js arbitrary: l s)
  case Nil
  then show ?case by simp
next
  case (Cons i js)
  obtain l1 s1 where a: "admit_seat r (l, s) i = Some (l1, s1)" "admit_seats r js (l1, s1) = Some (l', s')"
    using Cons.prems(1) by (auto split: option.splits)
  have one: "room_data s1 = room_data s \<and> room_working s1 = room_working s \<and> handler_arg s1 = handler_arg s
    \<and> (\<forall>j. seats l1 j = seats l j \<or> (j = i \<and> seats l1 j = players (room_data s r) j))"
    using a(1) by (auto simp: admit_seat_def Let_def split: if_splits)
  show ?case using Cons.IH [OF a(2)] Cons.prems(2) one by (auto simp: subset_iff) metis+
qed

lemma admit_keeps:
  assumes "server_ok (s, L)" "L r = Some l" "room_admit r (l, s) = Some (l', s')"
  shows "server_ok (s', L(r := Some l'))"
proof (cases "new_player (room_data s r) = 1")
  case False
  then have "L(r := Some l') = L" "s' = s" using assms(2,3) by (auto simp: room_admit_def)
  then show ?thesis using assms(1) by simp
next
  case True
  then obtain s1 where a: "admit_seats r [0..<10] (l, s) = Some (l', s1)"
    "s' = upd_room r (\<lambda>rd. rd\<lparr>new_player := 0\<rparr>) s1"
    using assms(3) by (auto simp: room_admit_def)
  have k: "room_data s1 = room_data s" "room_working s1 = room_working s" "handler_arg s1 = handler_arg s"
    "\<forall>i. seats l' i = seats l i \<or> (i < 10 \<and> seats l' i = players (room_data s r) i)"
    using admit_seats_keeps [OF a(1)] by (simp_all add: subset_iff)
  have r: "r < MAXPLAYER" "room_used (room_data s r) = 1" using assms(1,2) by (auto simp: server_ok_def)
  have seats: "i < 10 \<and> players (room_data s r) i = seats l' i" if "seats l' i \<noteq> -1" for i
    using k(4) that seats_in_room [OF assms(1,2), of i] by metis
  have "room_ok (room_data s' r)"
    by (rule room_ok_same [of "room_data s r"]) (use assms(1) r a(2) k in \<open>simp_all add: server_ok_def upd_room_def\<close>)
  moreover have "local_ok r s' (Some l')"
    using r seats a(2) k by (simp add: local_ok_def upd_room_def)
  ultimately show ?thesis
    using r a(2) k by (intro one_room [OF assms(1)]) (simp_all add: upd_room_def)
qed

lemma end_keeps:
  assumes "server_ok (s, L)" "room_ok (room_data s' r)" "\<forall>q. q \<noteq> r \<longrightarrow> room_data s' q = room_data s q"
    and "handler_arg s' = handler_arg s" "room_working s' = (room_working s)(r := 0)"
  shows "server_ok (room_end r s', L(r := None))"
proof (rule one_room [OF assms(1)])
  show "room_ok (room_data (room_end r s') r)"
    by (rule room_ok_same [OF assms(2)]) (simp_all add: room_end_def upd_room_def)
qed (use assms in \<open>simp_all add: room_end_def upd_room_def local_ok_def\<close>)

lemma leave_keeps:
  assumes "server_ok (s, L)" "L r = Some l" "seats l i \<noteq> -1"
  shows "leave_room r i n (l, s) = Go (l', s') \<Longrightarrow> server_ok (s', L(r := Some l'))"
    "leave_room r i n (l, s) = Ret (l', s') \<Longrightarrow> server_ok (room_end r s', L(r := None))"
proof -
  have in_room: "r < MAXPLAYER" "i < 10" "players (room_data s r) i = seats l i" "room_used (room_data s r) = 1"
    using seats_in_room [OF assms] by simp_all
  have ok: "room_ok (room_data s r)" using assms(1) in_room(1) by (simp add: server_ok_def)
  have ne: "players (room_data s r) i \<noteq> -1" using in_room(3) assms(3) by simp
  note res = leave_room_room [OF ok in_room(2) ne in_room(4), where n = n and l = l]
  show "server_ok (s', L(r := Some l'))" if "leave_room r i n (l, s) = Go (l', s')"
  proof -
    have k: "room_ok (room_data s' r)" "room_used (room_data s' r) = 1" "room_working s' = room_working s"
      "players (room_data s' r) = (players (room_data s r))(i := -1)" "seats l' = (seats l)(i := -1)"
      "\<forall>q. q \<noteq> r \<longrightarrow> room_data s' q = room_data s q" "handler_arg s' = handler_arg s"
      using res that by simp_all
    have "local_ok r s' (Some l')"
      using in_room(1) k(2,4,5) seats_in_room [OF assms(1,2)] by (simp add: local_ok_def)
    from one_room [OF assms(1) k(1,6,7) _ _ this] k(2,3) show ?thesis by simp
  qed
  show "server_ok (room_end r s', L(r := None))" if "leave_room r i n (l, s) = Ret (l', s')"
    using end_keeps [OF assms(1), of s' r] res that by simp
qed

lemma headcount_cleared: "headcount (\<lambda>i. if i < 10 then -1 else p i) = 0"
  by (simp add: headcount_zero)

lemma game_keeps:
  assumes "server_ok (s, L)" "L r = Some l" "start_game junk rnd first es r (l, s) = Some res"
  shows "case res of Go (l', s') \<Rightarrow> server_ok (s', L(r := Some l')) | Ret (l', s') \<Rightarrow> server_ok (room_end r s', L(r := None))
    | Die _ \<Rightarrow> True"
proof (cases "num_players l < 2")
  case True
  let ?s' = "s\<lparr>sent_lines := sent_lines s @ SendToEveryone (-1) (''19'' @ [NL]) (seats l)\<rparr>"
  have "res = Go (l, ?s')" using True assms(3) by (simp add: start_game_def)
  moreover have "L(r := Some l) = L" using assms(2) by auto
  moreover have "server_ok (?s', L)"
    by (rule same_rooms [OF assms(1)]) (use assms(1) in \<open>simp_all add: server_ok_def\<close>)
  ultimately show ?thesis by simp
next
  case False
  let ?s = "upd_room r (\<lambda>rd. rd\<lparr>in_game := 1\<rparr>) s"
  obtain g where "res = Ret (l, (upd_room r (\<lambda>rd. rd\<lparr>room_players := 0, room_used := 0, in_game := 0, random := 0,
        players := (\<lambda>i. if i < 10 then -1 else players rd i)\<rparr>) (game_effect l g ?s))
      \<lparr>room_working := (room_working s)(r := 0)\<rparr>)"
    using assms(3) False by (auto simp: start_game_def Let_def upd_room_def split: option.splits outcome.splits)
  then show ?thesis
    using end_keeps [OF assms(1), of _ r] headcount_cleared
    by (auto simp: upd_room_def game_effect_def room_ok_def)
qed

lemma server_step_keeps:
  assumes "server_step x y" "server_ok x"
  shows "server_ok y"
  using assms
proof (cases rule: server_step.cases)
  case (accept s L)
  then show ?thesis using assms(2) by (auto simp: accept_conn_def Let_def server_ok_def)
next
  case (purge s L)
  then show ?thesis using assms(2) by (auto simp: purge_list_def server_ok_def)
next
  case (eof s c L)
  then show ?thesis using assms(2) by (auto simp: lobby_eof_def server_ok_def)
next
  case (line s c t s' L)
  then show ?thesis using assms(2) line_keeps by blast
next
  case (handler tid seen s b s' L)
  then show ?thesis using assms(2) handler_keeps by blast
next
  case (begin_work r s L)
  then show ?thesis using assms(2) by (auto simp: room_start_def server_ok_def)
next
  case (admit L r l s l' s')
  then show ?thesis using assms(2) admit_keeps by blast
next
  case (leave L r l i n s l' s')
  then show ?thesis using assms(2) leave_keeps(1) by blast
next
  case (empty L r l i n s l' s')
  then show ?thesis using assms(2) leave_keeps(2) by blast
next
  case (alone L r l junk rnd first es s l' s')
  then show ?thesis using assms(2) game_keeps [of s L r l junk rnd first es "Go (l', s')"] by simp
next
  case (game_over L r l junk rnd first es s l' s')
  then show ?thesis using assms(2) game_keeps [of s L r l junk rnd first es "Ret (l', s')"] by simp
qed

section \<open>Correctness\<close>

lemma reachable_ok: "reachable x \<Longrightarrow> server_ok x"
proof (induction rule: reachable.induct)
  case initially
  have "headcount (\<lambda>_. -1) = 0" by (simp add: headcount_zero)
  then show ?case by (simp add: server_ok_def lobby_init_def empty_room_def room_ok_def)
next
  case (afterwards x y)
  then show ?case using server_step_keeps by blast
qed



text \<open>
  Two ways to fail. A handler looking for a random room whose first open random room is full finds
  that same room in every round and changes nothing, so it spins until someone leaves, although an
  unused room may be there. And a room number from a client is used as an index unchecked: outside
  0..44 the handler reads past the table.
\<close>

lemma join_requests_fail:
  "(find_random (room_data s) = Some r \<and> 9 \<le> room_players (room_data s r) \<longrightarrow>
      join_random tid (room_data s) s = Some (False, s))
   \<and> (handler_working s tid \<noteq> 0 \<and> arg_random (handler_arg s tid) \<noteq> 1 \<and>
      (arg_room_no (handler_arg s tid) < -1 \<or> int MAXPLAYER \<le> arg_room_no (handler_arg s tid)) \<longrightarrow>
      GetInRoom tid seen s = None)"
  by (auto simp: join_random_def GetInRoom_def join_room_def Let_def)

lemma join_requests_fail_example:
  "GetInRoom 3 (room_data lobby_init) (to_handler 3 (atoi ''9999'') 0 lobby_init) = None"
proof -
  have "atoi ''9999'' = 9999" by code_simp
  then show ?thesis
    by (intro conjunct2 [OF join_requests_fail, THEN mp]) (simp add: to_handler_def)
qed

definition names_distinct :: "lobby \<Rightarrow> bool" where
  "names_distinct s \<longleftrightarrow> (\<forall>i<MAXPLAYER. \<forall>j<MAXPLAYER. conn_state s i \<noteq> 0 \<and> conn_state s j \<noteq> 0 \<and> i \<noteq> j \<longrightarrow>
     conn_name s i \<noteq> conn_name s j)"

lemma HandleLogin_iff:
  "HandleLogin user c s \<longleftrightarrow> (\<forall>i<MAXPLAYER. conn_state s i \<noteq> 0 \<and> i \<noteq> c \<longrightarrow> conn_name s i \<noteq> user)"
  by (auto simp: HandleLogin_def list_ex_iff)

text \<open>
  A login line with a name of at most 31 bytes is granted exactly when no other connection in use
  has that name; it then sets the name and answers \<open>2\<close> and \<open>4\<close>, else it answers \<open>3\<close>; and if
  the names of the connections in use were distinct they stay so. (A token line sets the name
  unchecked.)
\<close>

lemma login_keeps_names:
  assumes "filter (\<lambda>t. t \<noteq> []) (split_at NL recvline) = line # later" "tokens line = ''2'' # ''1'' # user # rest"
    and "length user < 32" "names_distinct s"
  shows "lobby_line c recvline s =
      Some (if \<forall>i<MAXPLAYER. conn_state s i \<noteq> 0 \<and> i \<noteq> c \<longrightarrow> conn_name s i \<noteq> user
            then say c (''2'' @ [NL] @ ''4 '' @ user @ [NL]) (s\<lparr>conn_name := (conn_name s)(c := user)\<rparr>)
            else say c (''3'' @ [NL]) s)
    \<and> names_distinct (the (lobby_line c recvline s))"
proof -
  have "isdigit CHR ''2''" by code_simp
  then have l: "lobby_line c recvline s =
      Some (if HandleLogin user c s
            then say c (''2'' @ [NL] @ ''4 '' @ user @ [NL]) (s\<lparr>conn_name := (conn_name s)(c := user)\<rparr>)
            else say c (''3'' @ [NL]) s)"
    using assms(1-3) by (simp add: lobby_line_def set_name_def)
  have "names_distinct (the (lobby_line c recvline s))"
    using assms(4) unfolding l by (auto simp: HandleLogin_iff names_distinct_def say_def)
  then show ?thesis by (simp only: l HandleLogin_iff)
qed

lemma login_keeps_names_example:
  "names_distinct (the (lobby_line 0 (''2 1 ann'' @ [NL]) (accept_conn lobby_init)))"
proof -
  have t: "filter (\<lambda>t. t \<noteq> []) (split_at NL (''2 1 ann'' @ [NL])) = [''2 1 ann'']"
    "tokens ''2 1 ann'' = [''2'', ''1'', ''ann'']" "FindEmpty lobby_init = 0"
    by (code_simp, code_simp, code_simp)
  have d: "names_distinct (accept_conn lobby_init)"
    using t(3) by (simp add: names_distinct_def accept_conn_def lobby_init_def Let_def)
  show ?thesis by (rule conjunct2 [OF login_keeps_names [OF t(1,2) _ d]]) simp
qed

end
