(* ===== verification/Uno_Text.thy ===== *)
theory Uno_Text
  imports Uno_Game
begin

text \<open>
  The text of the UNO protocol: numbers in messages, the words of a line as \<open>strtok\<close> delivers them, the lines
  of what one \<open>read\<close> returns. Shared by the client theories (\<open>tcpcliserv/final_cli.c\<close>).
\<close>

section \<open>Numbers\<close>

definition strtol10 :: "string \<Rightarrow> int" where
  "strtol10 s = max (- LONG_MAX - 1) (min LONG_MAX (atoi s))"

text \<open>A \<open>long\<close> stored in an \<open>int\<close>.\<close>

definition as_int :: "int \<Rightarrow> int" where
  "as_int x = signed_take_bit 31 x"

section \<open>Words of a line\<close>

definition plain :: "string \<Rightarrow> bool" where
  "plain w \<longleftrightarrow> w \<noteq> [] \<and> CHR '' '' \<notin> set w \<and> NL \<notin> set w"

lemma tokens_words:
  assumes "plain w" "\<forall>v\<in>set ws. plain v"
  shows "tokens (w @ concat (map (\<lambda>v. '' '' @ v) ws)) = w # ws"
  using assms
proof (induction ws arbitrary: w)
  case Nil
  then show ?case by (simp add: tokens_def split_at_last plain_def)
next
  case (Cons v ws)
  then have "tokens (v @ concat (map (\<lambda>v. '' '' @ v) ws)) = v # ws" by simp
  then show ?case using Cons.prems(1) by (simp add: tokens_def split_at_sep plain_def)
qed

lemma line_words:
  assumes "plain w" "\<forall>v\<in>set ws. plain v"
  shows "takeWhile (\<lambda>x. x \<noteq> NL) (w @ concat (map (\<lambda>v. '' '' @ v) ws) @ [NL]) = w @ concat (map (\<lambda>v. '' '' @ v) ws)"
proof -
  have "\<forall>x\<in>set (w @ concat (map (\<lambda>v. '' '' @ v) ws)). x \<noteq> NL" using assms by (auto simp: plain_def)
  then show ?thesis by (subst append_assoc [symmetric], subst takeWhile_append2) auto
qed

lemma split_at_chars: "w \<in> set (split_at d s) \<Longrightarrow> d \<notin> set w \<and> set w \<subseteq> set s"
proof (induction s arbitrary: w)
  case Nil
  then show ?case by simp
next
  case (Cons x s)
  obtain p ps where p: "split_at d s = p # ps" by (cases "split_at d s") simp_all
  then have IH: "v \<in> set (p # ps) \<Longrightarrow> d \<notin> set v \<and> set v \<subseteq> set s" for v using Cons.IH by simp
  have "w = [] \<or> w \<in> set (p # ps) \<or> (x \<noteq> d \<and> w = x # p)"
    using Cons.prems p by (auto split: if_splits)
  then show ?case using IH [of w] IH [of p] by (elim disjE) auto
qed

lemma tokens_plain: "NL \<notin> set line \<Longrightarrow> w \<in> set (tokens line) \<Longrightarrow> plain w"
  using split_at_chars by (auto simp: tokens_def plain_def)

lemma plain_fmt_u: "plain (fmt_u n)"
proof -
  have "\<not> isdigit NL" by (simp add: isdigit_def)
  then show ?thesis using digits_fmt [of n] isdigit_not(1) by (auto simp: plain_def)
qed

lemma plain_fmt_d: "plain (fmt_d i)"
  using plain_fmt_u by (auto simp: fmt_d_def plain_def)

section \<open>Lines\<close>

text \<open>The bytes cut at each newline; a last piece may lack it.\<close>

fun lines_of :: "string \<Rightarrow> string list" where
  "lines_of [] = []"
| "lines_of (c # cs) =
     (if c = NL then [[c]] @ lines_of cs
      else case lines_of cs of [] \<Rightarrow> [[c]] | l # ls \<Rightarrow> (c # l) # ls)"

lemma lines_of_nonempty: "l \<in> set (lines_of s) \<Longrightarrow> l \<noteq> []"
  by (induction s arbitrary: l) (auto split: list.splits if_splits)

lemma lines_of_eq_Nil: "lines_of s = [] \<longleftrightarrow> s = []"
  by (cases s) (auto split: list.splits)

lemma concat_lines_of: "concat (lines_of s) = s"
  by (induction s) (auto split: list.splits simp: lines_of_eq_Nil)

lemma last_lines_of: "s \<noteq> [] \<Longrightarrow> last (last (lines_of s)) = last s"
proof (induction s)
  case Nil
  then show ?case by simp
next
  case (Cons c s)
  show ?case
  proof (cases "s = []")
    case True
    then show ?thesis by simp
  next
    case False
    then obtain l ls where l: "lines_of s = l # ls" using lines_of_eq_Nil [of s] by (cases "lines_of s") auto
    then have "l \<noteq> []" using lines_of_nonempty [of l s] by simp
    then show ?thesis using Cons.IH [OF False] l False by auto
  qed
qed

lemma lines_of_line: "NL \<notin> set l \<Longrightarrow> lines_of (l @ [NL] @ r) = (l @ [NL]) # lines_of r"
  by (induction l) auto

end
