(* ===== verification/Uno_Client_Room.thy ===== *)
theory Uno_Client_Room
  imports Uno_Lobby Uno_Text Stream_IO
begin

text \<open>
  \<open>tcpcliserv/final_cli.c\<close> before the game: \<open>send_request\<close>, \<open>login\<close>, \<open>goto_lobby\<close> and \<open>goto_room\<close>, and how they
  fit the server's lobby. What is typed and what the server sends are lists of lines; an empty typed
  line stands for the end of the input. A function that waits for a line that does not come is \<open>Go\<close>, its
  return is \<open>Ret\<close>, \<open>exit(0)\<close> after an unexpected line is \<open>Die\<close>. \<open>None\<close> is a string too long for its array.
\<close>

section \<open>Logging in\<close>

record session =
  typed_lines :: "string list"
  my_id :: string
  token :: string
  sent_out :: "string list"

definition cut_nl :: "string \<Rightarrow> string" where
  "cut_nl s = takeWhile (\<lambda>c. c \<noteq> NL) s"

definition letter :: "char \<Rightarrow> bool" where
  "letter c \<longleftrightarrow> (97 \<le> (of_char c :: nat) \<and> (of_char c :: nat) \<le> 122) \<or> (65 \<le> (of_char c :: nat) \<and> (of_char c :: nat) \<le> 90)"

text \<open>The check of a name; the limit is \<open>strlen(recvline) > id_lenth\<close>.\<close>

definition valid_id :: "string \<Rightarrow> bool" where
  "valid_id s \<longleftrightarrow> (\<forall>c\<in>set s. letter c) \<and> \<not> length s > 32 \<and> s \<noteq> []"

text \<open>Lines are read until one satisfies a check.\<close>

fun ask :: "(string \<Rightarrow> bool) \<Rightarrow> string list \<Rightarrow> (string \<times> string list) option" where
  "ask P [] = None"
| "ask P (l # ls) = (if P l then Some (l, ls) else ask P ls)"

definition put_line :: "string \<Rightarrow> session \<Rightarrow> session" where
  "put_line l s = s\<lparr>sent_out := sent_out s @ [l]\<rparr>"

definition send_request :: "bool \<Rightarrow> session \<Rightarrow> session" where
  "send_request already_login s =
     (if already_login then put_line (token s @ '' 1'' @ [NL]) s else put_line (''1'' @ [NL]) s)"

definition is_token :: "string \<Rightarrow> bool" where
  "is_token r \<longleftrightarrow> char_at r 0 = CHR ''4'' \<and> char_at r 1 = CHR '' ''"

fun login :: "string list \<Rightarrow> session \<Rightarrow> (string list \<times> session) outcome option" where
  "login net s =
     (case ask (\<lambda>l. valid_id (cut_nl l)) (typed_lines s) of
        None \<Rightarrow> Some (Go (net, s\<lparr>typed_lines := []\<rparr>))
      | Some (l, rest) \<Rightarrow>
          if 32 \<le> length (cut_nl l) then None
          else
            let s = put_line (''2 1 '' @ cut_nl l @ [NL]) (s\<lparr>typed_lines := rest\<rparr>) in
            (case net of
               [] \<Rightarrow> Some (Go ([], s))
             | r # net \<Rightarrow>
                 if r = ''2'' @ [NL] then
                   (let s = s\<lparr>my_id := cut_nl l\<rparr> in
                    case net of
                      [] \<Rightarrow> Some (Go ([], s))
                    | r2 # net \<Rightarrow>
                        if \<not> is_token r2 then Some (Die (net, s))
                        else if 32 \<le> length (drop 2 (cut_nl r2)) then None
                        else Some (Ret (net, s\<lparr>token := drop 2 (cut_nl r2)\<rparr>)))
                 else if r = ''3'' @ [NL] then login net s
                 else Some (Die (net, s))))"

declare login.simps [simp del]

section \<open>The lobby\<close>

definition valid_room :: "string \<Rightarrow> bool" where
  "valid_room s \<longleftrightarrow> s \<noteq> [] \<and> (\<forall>c\<in>set s. isdigit c) \<and> 0 \<le> as_int (strtol10 s) \<and> as_int (strtol10 s) \<le> 999"

datatype request = OpenRoom | JoinRoom string | RandomRoom

definition request_line :: "request \<Rightarrow> string" where
  "request_line q = (case q of OpenRoom \<Rightarrow> ''3'' @ [NL] | JoinRoom n \<Rightarrow> ''4 '' @ n @ [NL] | RandomRoom \<Rightarrow> ''5'' @ [NL])"

text \<open>The menu. \<open>None\<close> in the option inside: waiting for the player; \<open>sendline\<close> has 4096 bytes.\<close>

definition lobby_menu :: "session \<Rightarrow> (request \<times> session) option option" where
  "lobby_menu s =
     (case ask (\<lambda>l. l \<in> {''1'' @ [NL], ''2'' @ [NL], ''3'' @ [NL]}) (typed_lines s) of
        None \<Rightarrow> Some None
      | Some (l, rest) \<Rightarrow>
          if l = ''1'' @ [NL] then Some (Some (OpenRoom, s\<lparr>typed_lines := rest\<rparr>))
          else if l = ''2'' @ [NL] then
            (case ask (\<lambda>l. valid_room (cut_nl l)) rest of
               None \<Rightarrow> Some None
             | Some (l, rest) \<Rightarrow>
                 if 4092 < length (cut_nl l) then None
                 else Some (Some (JoinRoom (cut_nl l), s\<lparr>typed_lines := rest\<rparr>)))
          else Some (Some (RandomRoom, s\<lparr>typed_lines := rest\<rparr>)))"

datatype refusal = NoSuchRoom | AllRoomsFull | ThisRoomFull | AlreadyPlaying

datatype lobby_next = EnterRoom | Refused refusal | Unexpected

text \<open>\<open>open_room\<close> is set to true at the start and again when a room is joined.\<close>

definition open_room_flag :: "request \<Rightarrow> bool" where
  "open_room_flag q = (case q of JoinRoom n \<Rightarrow> True | _ \<Rightarrow> True)"

definition lobby_reply :: "request \<Rightarrow> string \<Rightarrow> lobby_next" where
  "lobby_reply q r =
     (if char_at r 0 = CHR ''5'' \<and> char_at r 1 = CHR '' '' then EnterRoom
      else if r = ''16'' @ [NL] then Refused NoSuchRoom
      else if r = ''17'' @ [NL] then Refused (if open_room_flag q \<or> q = RandomRoom then AllRoomsFull else ThisRoomFull)
      else if r = ''18'' @ [NL] then Refused AlreadyPlaying
      else Unexpected)"

text \<open>\<open>send_request_and_back_to_lobby\<close>, up to the menu: the request and the server's answer.\<close>

definition back_to_lobby :: "string list \<Rightarrow> session \<Rightarrow> (string list \<times> session) outcome" where
  "back_to_lobby net s =
     (let s = send_request True s in
      case net of
        [] \<Rightarrow> Go ([], s)
      | r # net \<Rightarrow> if is_token r then Ret (net, s) else Die (net, s))"

section \<open>A room\<close>

record room_view =
  room_id :: string
  master :: string
  slots :: "string list"

text \<open>A name goes into the first empty entry of \<open>player\<close>, if there is one.\<close>

definition put_name :: "string \<Rightarrow> string list \<Rightarrow> string list" where
  "put_name name sl = (case find (\<lambda>i. sl ! i = []) [0..<length sl] of None \<Rightarrow> sl | Some i \<Rightarrow> sl[i := name])"

definition drop_name :: "string \<Rightarrow> string list \<Rightarrow> string list" where
  "drop_name name sl = (case find (\<lambda>i. sl ! i = name) [0..<length sl] of None \<Rightarrow> sl | Some i \<Rightarrow> sl[i := []])"

definition enter_room :: "string \<Rightarrow> string \<Rightarrow> room_view option" where
  "enter_room me recvline =
     (case tokens (cut_nl recvline) of
        _ # rid # mst # ps \<Rightarrow>
          if 32 \<le> length rid \<or> 32 \<le> length mst \<or> 9 < length ps \<or> (\<exists>p\<in>set ps. 32 \<le> length p) then None
          else let sl = ps @ replicate (9 - length ps) []
               in Some \<lparr>room_id = rid, master = mst, slots = (if me \<noteq> mst then put_name me sl else sl)\<rparr>
      | _ \<Rightarrow> None)"

text \<open>The names on the screen: up to the first empty entry.\<close>

definition names_shown :: "room_view \<Rightarrow> string list" where
  "names_shown v = takeWhile (\<lambda>p. p \<noteq> []) (slots v)"

text \<open>A line of the server in a room. \<open>Ret\<close>: the game starts.\<close>

definition room_msg :: "string \<Rightarrow> room_view \<Rightarrow> room_view outcome option" where
  "room_msg r v =
     (let starts = (\<lambda>a. char_at r 0 = a \<and> char_at r 1 = CHR '' ''); name = drop 2 (cut_nl r) in
      if starts CHR ''9'' then Some (Ret v)
      else if starts CHR ''6'' then
        (if 32 \<le> length name \<and> [] \<in> set (slots v) then None else Some (Go (v\<lparr>slots := put_name name (slots v)\<rparr>)))
      else if starts CHR ''7'' then Some (Go (v\<lparr>slots := drop_name name (slots v)\<rparr>))
      else if starts CHR ''8'' then
        (if 32 \<le> length name then None
         else Some (Go (v\<lparr>master := name, slots := map (\<lambda>p. if p = name then [] else p) (slots v)\<rparr>)))
      else Some (Die v))"

text \<open>A line typed in a room: the line for the server, and whether the player leaves the room.\<close>

definition room_typed :: "string \<Rightarrow> room_view \<Rightarrow> string \<Rightarrow> string option \<times> bool" where
  "room_typed me v l =
     (if l = ''1'' @ [NL] then (Some (''6'' @ [NL]), True)
      else if l = ''2'' @ [NL] \<and> me = master v \<and> \<not> length (filter (\<lambda>p. p \<noteq> []) (slots v)) < 1
      then (Some (''7'' @ [NL]), False)
      else (None, False))"

section \<open>Client and server at the login\<close>

lemma letter_plain: "letter c \<Longrightarrow> c \<noteq> CHR '' '' \<and> c \<noteq> NL \<and> c \<noteq> CHR ''%'' \<and> c \<noteq> CHR 0x00"
  by (auto simp: letter_def)

lemma valid_id_plain: "valid_id s \<Longrightarrow> plain s"
  using letter_plain by (auto simp: valid_id_def plain_def)

lemma cut_nl_line: "NL \<notin> set l \<Longrightarrow> cut_nl (l @ NL # r) = l"
  by (induction l) (auto simp: cut_nl_def)

lemma split_line: "NL \<notin> set l \<Longrightarrow> l \<noteq> [] \<Longrightarrow> filter (\<lambda>t. t \<noteq> []) (split_at NL (l @ [NL])) = [l]"
  by (simp add: split_at_sep)

text \<open>What the server answers to the line of a login.\<close>

lemma lobby_login:
  assumes "plain name" "length name < 32"
  shows "lobby_line c (''2 1 '' @ name @ [NL]) lb =
    (if HandleLogin name c lb
     then Some (say c (''2'' @ [NL] @ ''4 '' @ name @ [NL]) (lb\<lparr>conn_name := (conn_name lb)(c := name)\<rparr>))
     else Some (say c (''3'' @ [NL]) lb))"
proof -
  have l: "NL \<notin> set (''2 1 '' @ name)" using assms(1) by (simp add: plain_def)
  have split: "filter (\<lambda>t. t \<noteq> []) (split_at NL (''2 1 '' @ name @ [NL])) = [''2 1 '' @ name]"
    using split_line [OF l] by simp
  have "plain ''2''" "\<forall>v\<in>set [''1'', name]. plain v" using assms(1) by (simp_all add: plain_def)
  from tokens_words [OF this] have tok: "tokens (''2 1 '' @ name) = [''2'', ''1'', name]" by simp
  show ?thesis unfolding lobby_line_def split using assms(2)
    by (simp only: list.case tok) (simp add: isdigit_def set_name_def)
qed

lemma login_step:
  assumes "valid_id name" "length name < 32" "typed_lines s = (name @ [NL]) # rest"
  shows "login net s =
    (let s1 = put_line (''2 1 '' @ name @ [NL]) (s\<lparr>typed_lines := rest\<rparr>) in
            (case net of
               [] \<Rightarrow> Some (Go ([], s1))
             | r # net \<Rightarrow>
                 if r = ''2'' @ [NL] then
                   (let s = s1\<lparr>my_id := name\<rparr> in
                    case net of
                      [] \<Rightarrow> Some (Go ([], s))
                    | r2 # net \<Rightarrow>
                        if \<not> is_token r2 then Some (Die (net, s))
                        else if 32 \<le> length (drop 2 (cut_nl r2)) then None
                        else Some (Ret (net, s\<lparr>token := drop 2 (cut_nl r2)\<rparr>)))
                 else if r = ''3'' @ [NL] then login net s1
                 else Some (Die (net, s1))))"
proof -
  have "cut_nl (name @ [NL]) = name" using valid_id_plain [OF assms(1)] by (intro cut_nl_line) (simp add: plain_def)
  moreover from this have "ask (\<lambda>l. valid_id (cut_nl l)) (typed_lines s) = Some (name @ [NL], rest)" using assms by simp
  moreover have "\<not> 32 \<le> length name" using assms(2) by simp
  ultimately show ?thesis by (simp only: login.simps [of net s] option.case prod.case if_False)
qed



text \<open>The token line a client sends when it comes back to the lobby, and what the server answers.\<close>

lemma token_agreed:
  assumes "valid_id name" "length name < 32" "token s = name"
  shows "lobby_line c (name @ '' 1'' @ [NL]) lb = Some (say c (''4 '' @ name @ [NL]) (lb\<lparr>conn_name := (conn_name lb)(c := name)\<rparr>))"
    "back_to_lobby ((''4 '' @ name @ [NL]) # net) s = Ret (net, put_line (name @ '' 1'' @ [NL]) s)"
proof -
  have p: "plain name" by (rule valid_id_plain [OF assms(1)])
  then have "NL \<notin> set (name @ '' 1'')" "name @ '' 1'' \<noteq> []" by (simp_all add: plain_def)
  from split_line [OF this] have split: "filter (\<lambda>t. t \<noteq> []) (split_at NL (name @ '' 1'' @ [NL])) = [name @ '' 1'']" by simp
  have "\<forall>v\<in>set [''1'']. plain v" by (simp add: plain_def)
  from tokens_words [OF p this] have tok: "tokens (name @ '' 1'') = [name, ''1'']" by simp
  have let1: "letter (hd name)" "\<forall>x\<in>set name. letter x" using assms(1) by (simp_all add: valid_id_def)
  have "CHR ''%'' \<notin> set name" using let1(2) letter_plain by auto
  moreover have "\<not> isdigit (hd name)" using let1(1) by (auto simp: letter_def isdigit_def)
  moreover from this have "name \<noteq> ''1''" by (auto simp: isdigit_def)
  ultimately have d: "\<not> isdigit (hd name)" "name \<noteq> ''1''" "CHR ''%'' \<notin> set name" by blast+
  then show "lobby_line c (name @ '' 1'' @ [NL]) lb = Some (say c (''4 '' @ name @ [NL]) (lb\<lparr>conn_name := (conn_name lb)(c := name)\<rparr>))"
    unfolding lobby_line_def split using assms(2) by (simp only: list.case tok) (simp add: set_name_def)
  show "back_to_lobby ((''4 '' @ name @ [NL]) # net) s = Ret (net, put_line (name @ '' 1'' @ [NL]) s)"
    using assms(3) by (simp add: back_to_lobby_def send_request_def is_token_def char_at_def)
qed

text \<open>Any line of the room that is still under way makes the client give up.\<close>

lemma back_to_lobby_late: "\<not> is_token r \<Longrightarrow> \<exists>x. back_to_lobby (r # net) s = Die x"
  by (simp add: back_to_lobby_def Let_def)

section \<open>Room numbers\<close>

lemma atoi_loop_nonneg: "0 \<le> acc \<Longrightarrow> 0 \<le> atoi_loop acc s"
  by (induction acc s rule: atoi_loop.induct) (auto simp: isdigit_def)

lemma valid_room_value:
  assumes "valid_room n"
  shows "plain n" "as_int (strtol10 n) \<le> atoi n"
proof -
  have n: "n \<noteq> []" "\<forall>c\<in>set n. isdigit c" "0 \<le> as_int (strtol10 n)" using assms by (simp_all add: valid_room_def)
  then show "plain n" by (auto simp: plain_def isdigit_def)
  obtain x xs where x: "n = x # xs" "isdigit x" using n(1,2) by (cases n) auto
  then have "x \<noteq> CHR '' ''" "x \<noteq> CHR ''-''" "x \<noteq> CHR ''+''" by (auto simp: isdigit_def)
  then have "atoi n = atoi_loop 0 n" using x by (simp add: atoi_def)
  then have "0 \<le> atoi n" using atoi_loop_nonneg [of 0 n] by simp
  then have s: "0 \<le> strtol10 n" "strtol10 n \<le> atoi n" by (simp_all add: strtol10_def LONG_MAX_def)
  have "as_int (strtol10 n) \<le> take_bit 32 (strtol10 n)"
    unfolding as_int_def signed_take_bit_eq_take_bit_minus by simp
  also have "\<dots> \<le> strtol10 n" using s(1) unfolding take_bit_eq_mod by (rule zmod_le_nonneg_dividend)
  finally have "as_int (strtol10 n) \<le> strtol10 n" .
  then show "as_int (strtol10 n) \<le> atoi n" using s(2) by simp
qed

text \<open>
  The client lets a player ask for room 45 to 999; the server has 45 rooms and reads the number it is
  sent unchecked: its handler thread then works outside the arrays.
\<close>

lemma room_number_unchecked:
  assumes "valid_room n" "45 \<le> as_int (strtol10 n)"
  shows "\<exists>lb'. lobby_line c (request_line (JoinRoom n)) lb = Some lb' \<and> GetInRoom c seen lb' = None"
proof -
  have p: "plain n" "45 \<le> atoi n" using valid_room_value [OF assms(1)] assms(2) by simp_all
  then have "NL \<notin> set (''4 '' @ n)" by (simp add: plain_def)
  from split_line [OF this] have split: "filter (\<lambda>t. t \<noteq> []) (split_at NL (request_line (JoinRoom n))) = [''4 '' @ n]"
    by (simp add: request_line_def)
  have "plain ''4''" "\<forall>v\<in>set [n]. plain v" using p(1) by (simp_all add: plain_def)
  from tokens_words [OF this] have tok: "tokens (''4 '' @ n) = [''4'', n]" by simp
  have "lobby_line c (request_line (JoinRoom n)) lb = Some (to_handler c (atoi n) 0 lb)"
    unfolding lobby_line_def split by (simp only: list.case tok) (simp add: isdigit_def)
  moreover have "GetInRoom c seen (to_handler c (atoi n) 0 lb) = None"
    using p(2) by (simp add: GetInRoom_def to_handler_def join_room_def Let_def)
  ultimately show ?thesis by blast
qed

section \<open>From the room to the game\<close>

lemma loop_from_buffer:
  assumes "rline_ok (rl, inp)" "rline_bytes (rl, []) = l @ 10 # rest" "10 \<notin> set l" "n + length l < maxlen"
  shows "\<exists>rl'. readline_loop my_read maxlen n buf (rl, inp) = (int (n + length l), buf @ l @ [10], rl', inp)
    \<and> rline_bytes (rl', []) = rest"
  using assms
proof (induction l arbitrary: rl n buf)
  case Nil
  have pos: "0 < read_cnt rl" using Nil.prems(2) by (cases "0 < read_cnt rl") (auto simp: rline_bytes_def)
  have ok: "rline_ok (rl, [])" using Nil.prems(1) by (simp add: rline_ok_def)
  have "rline_bytes (rl, []) = 10 # rest" using Nil.prems(2) by simp
  note t = take_byte_result [OF ok pos this]
  have "my_read (rl, inp) = (Inr (Some 10), snd (take_byte rl), inp)" using pos t(1) by (simp add: my_read_def)
  then show ?case using t(3) Nil.prems(4) by (simp add: readline_loop.simps [of my_read maxlen n])
next
  case (Cons b l)
  have pos: "0 < read_cnt rl" using Cons.prems(2) by (cases "0 < read_cnt rl") (auto simp: rline_bytes_def)
  have ok: "rline_ok (rl, [])" using Cons.prems(1) by (simp add: rline_ok_def)
  have "rline_bytes (rl, []) = b # l @ 10 # rest" using Cons.prems(2) by simp
  note t = take_byte_result [OF ok pos this]
  have ok': "rline_ok (snd (take_byte rl), inp)" using t(2) Cons.prems(1) by (simp add: rline_ok_def)
  have "my_read (rl, inp) = (Inr (Some b), snd (take_byte rl), inp)" using pos t(1) by (simp add: my_read_def)
  then have "readline_loop my_read maxlen n buf (rl, inp) = readline_loop my_read maxlen (n + 1) (buf @ [b]) (snd (take_byte rl), inp)"
    using Cons.prems(3,4) by (simp add: readline_loop.simps [of my_read maxlen n])
  then show ?case using Cons.IH [OF ok' t(3), of "n + 1" "buf @ [b]"] Cons.prems(3,4) by simp
qed

lemma filled_bytes:
  "rline_bytes (rl\<lparr>read_cnt := int (length bs), read_buf := poke (read_buf rl) 0 bs, read_ptr := 0\<rparr>, []) = bs"
  by (simp add: rline_bytes_def poke_def)

text \<open>
  \<open>goto_room\<close> reads lines with the buffered \<open>Readline\<close>, \<open>game\<close> reads the socket itself: what has come
  together with the line \<open>9\<close> that starts the game stays in the buffer, and \<open>game\<close> never sees it. The
  server sends the first state of the game right after that line.
\<close>

lemma buffered_line_hides_rest:
  assumes "rline_ok (rl, Chunk (l @ 10 # rest) # inp)" "read_cnt rl \<le> 0" "10 \<notin> set l"
    and "length l + length rest < MAXLINE" "rest \<noteq> []"
  shows "\<exists>rl'. readline MAXLINE (rl, Chunk (l @ 10 # rest) # inp) = (1 + int (length l), l @ [10], rl', inp)
    \<and> rline_bytes (rl', []) = rest"
proof -
  let ?bs = "l @ 10 # rest"
  define rl' where "rl' = rl\<lparr>read_cnt := int (length ?bs), read_buf := poke (read_buf rl) 0 ?bs, read_ptr := 0\<rparr>"
  have "length (read_buf rl) = MAXLINE" "proper inp" using assms(1) by (simp_all add: rline_ok_def)
  then have ok: "rline_ok (rl', inp)" "0 < read_cnt rl'"
    using assms(4) by (simp_all add: rl'_def rline_ok_def poke_def)
  have by': "rline_bytes (rl', []) = ?bs" unfolding rl'_def by (rule filled_bytes)
  have "my_read (rl, Chunk ?bs # inp) = my_read (rl', inp)"
    using assms(2,4) ok(2) by (simp add: my_read_def Let_def rl'_def)
  then have "readline_loop my_read MAXLINE 1 [] (rl, Chunk ?bs # inp) = readline_loop my_read MAXLINE 1 [] (rl', inp)"
    by (subst (1 2) readline_loop.simps) simp
  moreover have "1 + length l < MAXLINE" using assms(4,5) by (cases rest) auto
  ultimately show ?thesis using loop_from_buffer [OF ok(1) by' assms(3), of 1 MAXLINE "[]"]
    by (simp add: readline_def)
qed

end
