(* ===== verification/Uno_Room_View.thy ===== *)
theory Uno_Room_View
  imports Uno_Client_Room
begin

text \<open>
  The rooms of \<open>tcpcliserv/final_server.c\<close> (\<open>Uno_Lobby\<close>) as the clients show them
  (\<open>goto_room\<close> of \<open>tcpcliserv/final_cli.c\<close>, \<open>Uno_Client_Room\<close>): whoever comes and goes, the lines the room
  thread writes keep every client's table equal to the players of the room.
\<close>

section \<open>The table of a room\<close>

text \<open>The room messages.\<close>

lemma room_msg_simps:
  assumes "plain name" "length name < 32"
  shows "room_msg (''6 '' @ name @ [NL]) v = Some (Go (v\<lparr>slots := put_name name (slots v)\<rparr>))"
    "room_msg (''7 '' @ name @ [NL]) v = Some (Go (v\<lparr>slots := drop_name name (slots v)\<rparr>))"
    "room_msg (''8 '' @ name @ [NL]) v = Some (Go (v\<lparr>master := name, slots := map (\<lambda>p. if p = name then [] else p) (slots v)\<rparr>))"
proof -
  have "cut_nl (a # b # name @ [NL]) = a # b # name" if "a \<noteq> NL" "b \<noteq> NL" for a b
    using cut_nl_line [of "a # b # name" "[]"] that assms(1) by (simp add: plain_def)
  then show "room_msg (''6 '' @ name @ [NL]) v = Some (Go (v\<lparr>slots := put_name name (slots v)\<rparr>))"
    "room_msg (''7 '' @ name @ [NL]) v = Some (Go (v\<lparr>slots := drop_name name (slots v)\<rparr>))"
    "room_msg (''8 '' @ name @ [NL]) v = Some (Go (v\<lparr>master := name, slots := map (\<lambda>p. if p = name then [] else p) (slots v)\<rparr>))"
    using assms(2) by (simp_all add: room_msg_def char_at_def)
qed

text \<open>When the first of the players shown leaves, nobody is shown any more until a new one comes.\<close>

lemma names_hidden:
  assumes "plain name" "length name < 32" "slots v = name # rest"
  shows "\<exists>v'. room_msg (''7 '' @ name @ [NL]) v = Some (Go v') \<and> slots v' = [] # rest \<and> names_shown v' = []"
proof -
  have "drop_name name (slots v) = [] # rest" using assms(3) by (simp add: drop_name_def upt_conv_Cons del: upt_Suc)
  then show ?thesis using room_msg_simps(2) [OF assms(1,2), of v] by (simp add: names_shown_def)
qed

text \<open>The names in the table, each once.\<close>

definition table_names :: "string list \<Rightarrow> string list" where
  "table_names sl = filter (\<lambda>p. p \<noteq> []) sl"

lemma put_name_split:
  assumes "[] \<in> set sl"
  obtains A B where "sl = A @ [] # B" "put_name name sl = A @ name # B"
proof -
  have "find (\<lambda>i. sl ! i = []) [0..<length sl] \<noteq> None" using assms by (auto simp: find_None_iff in_set_conv_nth)
  then obtain i where i: "find (\<lambda>i. sl ! i = []) [0..<length sl] = Some i" by auto
  then have at: "i < length sl" "sl ! i = []" by (auto simp: find_Some_iff)
  have "sl = take i sl @ [] # drop (Suc i) sl" using id_take_nth_drop [OF at(1)] at(2) by simp
  moreover have "put_name name sl = take i sl @ name # drop (Suc i) sl"
    using i at(1) by (simp add: put_name_def upd_conv_take_nth_drop)
  ultimately show thesis by (rule that)
qed

lemma drop_name_split:
  assumes "name \<in> set sl"
  obtains A B where "sl = A @ name # B" "drop_name name sl = A @ [] # B"
proof -
  have "find (\<lambda>i. sl ! i = name) [0..<length sl] \<noteq> None" using assms by (auto simp: find_None_iff in_set_conv_nth)
  then obtain i where i: "find (\<lambda>i. sl ! i = name) [0..<length sl] = Some i" by auto
  then have at: "i < length sl" "sl ! i = name" by (auto simp: find_Some_iff)
  have "sl = take i sl @ name # drop (Suc i) sl" using id_take_nth_drop [OF at(1)] at(2) by simp
  moreover have "drop_name name sl = take i sl @ [] # drop (Suc i) sl"
    using i at(1) by (simp add: drop_name_def upd_conv_take_nth_drop)
  ultimately show thesis by (rule that)
qed

lemma put_name_names:
  assumes "[] \<in> set sl" "name \<noteq> []"
  shows "mset (table_names (put_name name sl)) = add_mset name (mset (table_names sl))"
    "length (put_name name sl) = length sl"
proof -
  from put_name_split [OF assms(1), of name] obtain A B where e: "sl = A @ [] # B" "put_name name sl = A @ name # B" .
  show "mset (table_names (put_name name sl)) = add_mset name (mset (table_names sl))"
    unfolding e(2) unfolding e(1) table_names_def using assms(2) by simp
  show "length (put_name name sl) = length sl" unfolding e(2) unfolding e(1) by simp
qed

lemma drop_name_names:
  assumes "name \<in> set sl" "name \<noteq> []"
  shows "mset (table_names sl) = add_mset name (mset (table_names (drop_name name sl)))"
    "length (drop_name name sl) = length sl"
proof -
  from drop_name_split [OF assms(1)] obtain A B where e: "sl = A @ name # B" "drop_name name sl = A @ [] # B" .
  show "mset (table_names sl) = add_mset name (mset (table_names (drop_name name sl)))"
    unfolding e(2) unfolding e(1) table_names_def using assms(2) by simp
  show "length (drop_name name sl) = length sl" unfolding e(2) unfolding e(1) by simp
qed

lemma clear_names:
  "table_names (map (\<lambda>p. if p = name then [] else p) sl) = filter (\<lambda>p. p \<noteq> name) (table_names sl)"
proof (induction sl)
  case Nil
  show ?case by (simp add: table_names_def)
next
  case (Cons p sl)
  then show ?case by (cases "p = name"; cases "p = []") (simp_all add: table_names_def)
qed

section \<open>The room on the screens of its players\<close>

text \<open>What a client knows of its room: nothing before the first line, which enters it; later lines
  change its table. \<open>hear\<close> is that step, \<open>deliver\<close> what the lines the server writes do to all clients.\<close>

definition hear :: "string \<Rightarrow> string \<Rightarrow> room_view option \<Rightarrow> room_view option" where
  "hear me line v =
     (case v of
        None \<Rightarrow> enter_room me line
      | Some v \<Rightarrow> (case room_msg line v of Some (Go v) \<Rightarrow> Some v | _ \<Rightarrow> None))"

definition deliver :: "(nat \<Rightarrow> string) \<Rightarrow> msg list \<Rightarrow> (nat \<Rightarrow> room_view option) \<Rightarrow> nat \<Rightarrow> room_view option" where
  "deliver names ms V = foldl (\<lambda>V (c, line). V(c := hear (names c) line (V c))) V ms"

definition new_lines :: "lobby \<Rightarrow> lobby \<Rightarrow> msg list" where
  "new_lines s s' = drop (length (sent_lines s)) (sent_lines s')"

definition player_name :: "nat \<Rightarrow> lobby \<Rightarrow> nat \<Rightarrow> string" where
  "player_name r s j = conn_name s (nat (players (room_data s r) j))"

text \<open>The players the room thread knows, without the owner.\<close>

definition guests :: "rlocal \<Rightarrow> nat set" where
  "guests l = {j. j < 9 \<and> seats l j \<noteq> -1 \<and> j \<noteq> owner l}"

definition room_shown :: "nat \<Rightarrow> lobby \<Rightarrow> rlocal \<Rightarrow> room_view \<Rightarrow> bool" where
  "room_shown r s l v \<longleftrightarrow> master v = player_name r s (owner l) \<and> length (slots v) = 9
     \<and> mset (table_names (slots v)) = image_mset (player_name r s) (mset_set (guests l))"

definition tables_follow :: "nat \<Rightarrow> lobby \<Rightarrow> rlocal \<Rightarrow> (nat \<Rightarrow> room_view option) \<Rightarrow> bool" where
  "tables_follow r s l V \<longleftrightarrow>
     (\<forall>j. seats l j \<noteq> -1 \<longrightarrow> (\<exists>v. V (nat (seats l j)) = Some v \<and> room_shown r s l v))
     \<and> (\<forall>j. players (room_data s r) j \<noteq> -1 \<and> seats l j = -1 \<longrightarrow> V (nat (players (room_data s r) j)) = None)"

text \<open>The players of a room: in the first nine places, with names that a login accepts, all different;
  the owner is known if anybody is.\<close>

definition room_seated :: "nat \<Rightarrow> lobby \<Rightarrow> rlocal \<Rightarrow> bool" where
  "room_seated r s l \<longleftrightarrow>
     (\<forall>j. seats l j \<noteq> -1 \<longrightarrow> players (room_data s r) j = seats l j)
     \<and> (\<forall>j. players (room_data s r) j \<noteq> -1 \<longrightarrow>
          j < 9 \<and> 0 \<le> players (room_data s r) j \<and> valid_id (player_name r s j) \<and> length (player_name r s j) < 32)
     \<and> inj_on (player_name r s) {j. players (room_data s r) j \<noteq> -1}
     \<and> ((\<exists>j. seats l j \<noteq> -1) \<longrightarrow> seats l (owner l) \<noteq> -1)"

lemma deliver_Cons: "deliver names ((c, line) # ms) V = deliver names ms (V(c := hear (names c) line (V c)))"
  by (simp add: deliver_def)

lemma deliver_others: "c \<notin> set (map fst ms) \<Longrightarrow> deliver names ms V c = V c"
  by (induction ms arbitrary: V) (auto simp: deliver_Cons, simp add: deliver_def)

lemma deliver_everyone:
  assumes "distinct js" "inj_on f (set js)" "k \<in> set js"
  shows "deliver names (map (\<lambda>j. (f j, line)) js) V (f k) = hear (names (f k)) line (V (f k))"
  using assms
proof (induction js arbitrary: V)
  case Nil
  then show ?case by simp
next
  case (Cons j js)
  show ?case
  proof (cases "k = j")
    case True
    have "f k \<notin> set (map fst (map (\<lambda>j. (f j, line)) js))" using Cons.prems True by auto
    from deliver_others [OF this] show ?thesis using True by (simp add: deliver_Cons)
  next
    case False
    then have k: "k \<in> set js" "f k \<noteq> f j" using Cons.prems by (auto simp: inj_on_def)
    have "inj_on f (set js)" using Cons.prems(2) by simp
    from Cons.IH [OF _ this k(1)] show ?thesis using Cons.prems(1) k(2) by (simp add: deliver_Cons)
  qed
qed

lemma everyone_conns: "set (map fst (SendToEveryone who line us)) \<subseteq> (\<lambda>k. nat (us k)) ` {k. us k \<noteq> -1}"
  by (auto simp: SendToEveryone_def)

lemma everyone_hears:
  assumes "inj_on (\<lambda>j. nat (us j)) {j. us j \<noteq> -1}" "k < 10" "us k \<noteq> -1" "k \<noteq> i"
  shows "deliver names (SendToEveryone (int i) line us) V (nat (us k)) = hear (names (nat (us k))) line (V (nat (us k)))"
  unfolding SendToEveryone_def
  by (rule deliver_everyone) (use assms in \<open>auto simp: inj_on_def\<close>)

lemma sender_hears_nothing:
  assumes "inj_on (\<lambda>j. nat (us j)) {j. us j \<noteq> -1}" "us i \<noteq> -1"
  shows "deliver names (SendToEveryone (int i) line us) V (nat (us i)) = V (nat (us i))"
  by (rule deliver_others) (use assms in \<open>auto simp: SendToEveryone_def inj_on_def\<close>)

lemma players_inj:
  assumes "room_seated r s l"
  shows "inj_on (\<lambda>j. nat (players (room_data s r) j)) {j. players (room_data s r) j \<noteq> -1}"
proof (rule inj_onI)
  fix i j
  assume ij: "i \<in> {j. players (room_data s r) j \<noteq> -1}" "j \<in> {j. players (room_data s r) j \<noteq> -1}"
    "nat (players (room_data s r) i) = nat (players (room_data s r) j)"
  then have "player_name r s i = player_name r s j" by (simp add: player_name_def)
  then show "i = j" using assms ij(1,2) unfolding room_seated_def by (auto dest: inj_onD)
qed

lemma seated_inj:
  assumes "room_seated r s l" "\<forall>j. us j \<noteq> -1 \<longrightarrow> players (room_data s r) j = us j"
  shows "inj_on (\<lambda>j. nat (us j)) {j. us j \<noteq> -1}"
proof (rule inj_onI)
  fix i j
  assume ij: "i \<in> {j. us j \<noteq> -1}" "j \<in> {j. us j \<noteq> -1}" "nat (us i) = nat (us j)"
  then have p: "players (room_data s r) i = us i" "players (room_data s r) j = us j" using assms(2) by auto
  show "i = j" by (rule inj_onD [OF players_inj [OF assms(1)]]) (use ij p in simp_all)
qed

text \<open>A player not yet admitted has a connection of his own.\<close>

lemma pending_apart:
  assumes "room_seated r s l" "\<forall>k. us k \<noteq> -1 \<longrightarrow> players (room_data s r) k = us k"
    and "players (room_data s r) j \<noteq> -1" "us j = -1"
  shows "nat (players (room_data s r) j) \<notin> (\<lambda>k. nat (us k)) ` {k. us k \<noteq> -1}"
proof
  assume "nat (players (room_data s r) j) \<in> (\<lambda>k. nat (us k)) ` {k. us k \<noteq> -1}"
  then obtain k where k: "nat (players (room_data s r) j) = nat (us k)" "us k \<noteq> -1" by blast
  have pk: "players (room_data s r) k = us k" using assms(2) k(2) by blast
  have "j = k" by (rule inj_onD [OF players_inj [OF assms(1)]]) (use k pk assms(3) in simp_all)
  then show False using k(2) assms(4) by simp
qed

lemma enter_room_line:
  assumes "plain rid" "plain own" "\<forall>p\<in>set ps. plain p" "length rid < 32" "length own < 32"
    and "\<forall>p\<in>set ps. length p < 32" "length ps \<le> 9"
  shows "enter_room me (''5 '' @ rid @ '' '' @ own @ concat (map (\<lambda>p. '' '' @ p) ps) @ [NL]) =
    Some \<lparr>room_id = rid, master = own,
          slots = (let sl = ps @ replicate (9 - length ps) [] in if me \<noteq> own then put_name me sl else sl)\<rparr>"
proof -
  let ?ws = "rid # own # ps"
  have l: "''5 '' @ rid @ '' '' @ own @ concat (map (\<lambda>p. '' '' @ p) ps) @ [NL]
      = ''5'' @ concat (map (\<lambda>p. '' '' @ p) ?ws) @ [NL]" by simp
  have p: "plain ''5''" "\<forall>v\<in>set ?ws. plain v" using assms(1-3) by (auto simp: plain_def)
  have "cut_nl (''5'' @ concat (map (\<lambda>p. '' '' @ p) ?ws) @ [NL]) = ''5'' @ concat (map (\<lambda>p. '' '' @ p) ?ws)"
    unfolding cut_nl_def by (rule line_words [OF p])
  then have "tokens (cut_nl (''5'' @ concat (map (\<lambda>p. '' '' @ p) ?ws) @ [NL])) = ''5'' # ?ws"
    using tokens_words [OF p] by simp
  moreover have "\<not> (32 \<le> length rid \<or> 32 \<le> length own \<or> 9 < length ps \<or> (\<exists>p\<in>set ps. 32 \<le> length p))"
    using assms(4-7) by auto
  ultimately show ?thesis unfolding enter_room_def l by (simp only: list.case if_False Let_def)
qed

lemma table_names_padded: "\<forall>p\<in>set ps. p \<noteq> [] \<Longrightarrow> table_names (ps @ replicate n []) = ps"
  by (induction ps) (simp_all add: table_names_def)

lemma room_number_short: "r < MAXPLAYER \<Longrightarrow> length (fmt_d (int r)) < 32"
  using length_render [of 10 2 r] by (simp add: fmt_d_def)

lemma finite_guests: "finite (guests l)"
  by (simp add: guests_def)

lemma guests_few: "i < 9 \<Longrightarrow> i \<notin> guests l \<Longrightarrow> card (guests l) < 9"
proof -
  assume "i < 9" "i \<notin> guests l"
  then have "guests l \<subset> {..<9}" by (auto simp: guests_def)
  from psubset_card_mono [OF _ this] show ?thesis by simp
qed

lemma free_slot:
  assumes "length sl = 9" "mset (table_names sl) = image_mset f (mset_set G)" "card G < 9"
  shows "[] \<in> set sl"
proof (rule ccontr)
  assume "[] \<notin> set sl"
  then have "table_names sl = sl" by (auto simp: table_names_def filter_id_conv)
  then have "length sl = card G" using assms(2) by (metis size_image_mset size_mset size_mset_set)
  then show False using assms(1,3) by simp
qed

lemma mset_guests: "mset (filter (\<lambda>j. seats l j \<noteq> -1 \<and> j \<noteq> owner l) [0..<9]) = mset_set (guests l)"
proof -
  have "set (filter (\<lambda>j. seats l j \<noteq> -1 \<and> j \<noteq> owner l) [0..<9]) = guests l" by (auto simp: guests_def)
  then show ?thesis by (metis distinct_filter distinct_upt mset_set_set)
qed

text \<open>What the room knows of a player, and the names of the guests after one more.\<close>

lemma seated_name:
  assumes "room_seated r s l" "players (room_data s r) j \<noteq> -1"
  shows "j < 9" "valid_id (player_name r s j)" "plain (player_name r s j)" "player_name r s j \<noteq> []"
    "length (player_name r s j) < 32"
  using assms valid_id_plain [of "player_name r s j"] by (auto simp: room_seated_def plain_def)

lemma guest_player: "room_seated r s l \<Longrightarrow> j \<in> guests l \<Longrightarrow> players (room_data s r) j \<noteq> -1"
  by (auto simp: room_seated_def guests_def)

lemma guests_inj:
  assumes "room_seated r s l" "j \<in> guests l"
  shows "inj_on (player_name r s) (insert j (guests l))"
proof (rule inj_on_subset)
  show "inj_on (player_name r s) {j. players (room_data s r) j \<noteq> -1}" using assms(1) by (simp add: room_seated_def)
  show "insert j (guests l) \<subseteq> {j. players (room_data s r) j \<noteq> -1}" using guest_player [OF assms(1)] assms(2) by blast
qed

lemma seat_bound: "room_seated r s l \<Longrightarrow> seats l k \<noteq> -1 \<Longrightarrow> k < 9"
  unfolding room_seated_def by metis

section \<open>Somebody comes\<close>

text \<open>The newcomer enters on his line; everybody else hears the other.\<close>

lemma newcomer_tables:
  assumes inj: "inj_on (\<lambda>j. nat (us j)) {j. us j \<noteq> -1}" and i: "us i \<noteq> -1" "V (nat (us i)) = None"
    and k: "us k \<noteq> -1" "k < 10" "k \<noteq> i \<Longrightarrow> \<exists>v. V (nat (us k)) = Some v \<and> before v"
    and new: "\<exists>v. enter_room (names (nat (us i))) line = Some v \<and> after v"
    and others: "\<And>v. k \<noteq> i \<Longrightarrow> before v \<Longrightarrow> \<exists>v'. room_msg six v = Some (Go v') \<and> after v'"
  shows "\<exists>v. deliver names ((nat (us i), line) # SendToEveryone (int i) six us) V (nat (us k)) = Some v \<and> after v"
proof -
  let ?V = "V(nat (us i) := hear (names (nat (us i))) line (V (nat (us i))))"
  show ?thesis
  proof (cases "k = i")
    case True
    then show ?thesis using sender_hears_nothing [OF inj i(1), of names six ?V] i(2) new
      by (simp add: deliver_Cons hear_def)
  next
    case False
    then have ne: "nat (us k) \<noteq> nat (us i)" using inj_onD [OF inj, of k i] k(1) i(1) by auto
    obtain v where v: "V (nat (us k)) = Some v" "before v" using k(3) [OF False] by blast
    obtain v' where "room_msg six v = Some (Go v')" "after v'" using others [OF False v(2)] by blast
    then show ?thesis using everyone_hears [OF inj k(2,1) False, of names six ?V] ne v(1)
      by (simp add: deliver_Cons hear_def)
  qed
qed

lemma leaver_tables:
  assumes inj: "inj_on (\<lambda>j. nat (us j)) {j. us j \<noteq> -1}" and k: "us k \<noteq> -1" "k < 10" "k \<noteq> i"
    and v: "V (nat (us k)) = Some v" "room_msg line v = Some (Go v')"
  shows "deliver names (SendToEveryone (int i) line us) V (nat (us k)) = Some v'"
  using everyone_hears [OF inj k(2,1,3)] v by (simp add: hear_def)

lemma room_seated_more:
  assumes ok: "room_seated r s l" and same: "room_data s' = room_data s" "player_name r s' = player_name r s"
    and l': "owner l' = owner l" "seats l' = (seats l)(i := players (room_data s r) i)"
    and own: "i \<noteq> owner l \<longrightarrow> seats l (owner l) \<noteq> -1" and i: "players (room_data s r) i \<noteq> -1"
  shows "room_seated r s' l'"
proof -
  have "\<forall>j. seats l' j \<noteq> -1 \<longrightarrow> players (room_data s r) j = seats l' j" using ok by (simp add: room_seated_def l')
  moreover have "seats l' (owner l') \<noteq> -1" using own i by (simp add: l')
  ultimately show ?thesis using ok unfolding room_seated_def same by blast
qed

definition five_line :: "nat \<Rightarrow> lobby \<Rightarrow> rlocal \<Rightarrow> string" where
  "five_line r s l = ''5 '' @ fmt_d (int r) @ '' '' @ player_name r s (owner l) @ concat (map (\<lambda>p. '' '' @ p)
     (map (player_name r s) (filter (\<lambda>j. seats l j \<noteq> -1 \<and> j \<noteq> owner l) [0..<9]))) @ [NL]"

lemma admit_seat_step:
  assumes "players (room_data s r) i \<noteq> -1" "conn_state s (nat (players (room_data s r) i)) = 2" "seats l i = -1"
    "players (room_data s r) (owner l) \<noteq> -1"
  shows "admit_seat r (l, s) i =
    (let l' = l\<lparr>num_players := room_players (room_data s r), seats := (seats l)(i := players (room_data s r) i)\<rparr>
     in Some (l', s\<lparr>sent_lines := sent_lines s @ (nat (players (room_data s r) i), five_line r s l)
        # SendToEveryone (int i) (''6 '' @ player_name r s i @ [NL]) (seats l')\<rparr>))"
  using assms unfolding five_line_def player_name_def
  by (simp add: admit_seat_def Let_def o_def del: upt_Suc upt_rec_numeral)

lemma guests_more:
  assumes "seats l' = (seats l)(i := x)" "owner l' = owner l" "i < 9" "x \<noteq> -1"
  shows "guests l' = (if i = owner l then guests l else insert i (guests l))"
  using assms by (auto simp: guests_def)

lemma newcomer_view:
  assumes ok: "room_seated r s l" and r: "r < MAXPLAYER" and i: "players (room_data s r) i \<noteq> -1" "seats l i = -1"
    and own: "players (room_data s r) (owner l) \<noteq> -1"
    and l': "seats l' = (seats l)(i := players (room_data s r) i)" "owner l' = owner l"
    and s': "player_name r s' = player_name r s"
  shows "\<exists>v. enter_room (player_name r s i) (five_line r s l) = Some v \<and> room_shown r s' l' v"
proof -
  let ?nm = "player_name r s" and ?js = "filter (\<lambda>j. seats l j \<noteq> -1 \<and> j \<noteq> owner l) [0..<9]"
  let ?ps = "map ?nm ?js"
  let ?sl = "?ps @ replicate (9 - length ?ps) []"
  let ?v = "\<lparr>room_id = fmt_d (int r), master = ?nm (owner l),
              slots = (if ?nm i \<noteq> ?nm (owner l) then put_name (?nm i) ?sl else ?sl)\<rparr>"
  note name = seated_name [OF ok i(1)] and oname = seated_name [OF ok own]
  note gs = guests_more [OF l' name(1) i(1)]
  have ni: "i \<notin> guests l" using i(2) by (simp add: guests_def)
  have seatp: "players (room_data s r) j \<noteq> -1" if "j \<in> set ?js" for j using that ok by (auto simp: room_seated_def)
  have "plain p \<and> length p < 32 \<and> p \<noteq> []" if "p \<in> set ?ps" for p
  proof -
    from that obtain j where j: "p = ?nm j" "j \<in> set ?js" unfolding set_map by (rule imageE)
    show ?thesis unfolding j(1) by (intro conjI seated_name(3,4,5) [OF ok seatp [OF j(2)]])
  qed
  then have ps: "\<forall>p\<in>set ?ps. plain p" "\<forall>p\<in>set ?ps. length p < 32" "\<forall>p\<in>set ?ps. p \<noteq> []" by blast+
  have mps: "mset ?ps = image_mset ?nm (mset_set (guests l))" using mset_guests [of l] by (metis mset_map)
  have "length ?ps = card (guests l)"
    using arg_cong [OF mps, of size] by (simp only: size_mset size_image_mset size_mset_set)
  then have len: "length ?ps \<le> 9" using guests_few [OF name(1) ni] by simp
  have tn: "table_names ?sl = ?ps" by (rule table_names_padded [OF ps(3)])
  have l9: "length ?sl = 9" using len by simp
  have e: "enter_room (?nm i) (five_line r s l) = Some ?v"
    using enter_room_line [OF plain_fmt_d oname(3) ps(1) room_number_short [OF r] oname(5) ps(2) len]
    unfolding five_line_def by (simp only: Let_def)
  have same: "?nm i = ?nm (owner l) \<longleftrightarrow> i = owner l"
    using ok i(1) own unfolding room_seated_def by (auto dest: inj_onD)
  have free: "[] \<in> set ?sl"
    by (rule free_slot [OF l9 _ guests_few [OF name(1) ni]]) (simp only: tn mps)
  have "room_shown r s' l' ?v"
    using put_name_names [OF free name(4)] tn mps l9 ni finite_guests [of l]
    unfolding room_shown_def s' gs same l'(2) by (cases "i = owner l") (simp_all del: upt_Suc)
  then show ?thesis using e by blast
qed

lemma guest_hears:
  assumes ok: "room_seated r s l" and i: "players (room_data s r) i \<noteq> -1" "seats l i = -1" "i \<noteq> owner l"
    and v: "room_shown r s l v" and l': "seats l' = (seats l)(i := players (room_data s r) i)" "owner l' = owner l"
    and s': "player_name r s' = player_name r s"
  shows "\<exists>v'. room_msg (''6 '' @ player_name r s i @ [NL]) v = Some (Go v') \<and> room_shown r s' l' v'"
proof -
  note name = seated_name [OF ok i(1)]
  have ni: "i \<notin> guests l" using i(2) by (simp add: guests_def)
  have sv: "length (slots v) = 9" "mset (table_names (slots v)) = image_mset (player_name r s) (mset_set (guests l))"
    "master v = player_name r s (owner l)" using v by (simp_all add: room_shown_def)
  have free: "[] \<in> set (slots v)" by (rule free_slot [OF sv(1,2) guests_few [OF name(1) ni]])
  have "room_shown r s' l' (v\<lparr>slots := put_name (player_name r s i) (slots v)\<rparr>)"
    using put_name_names [OF free name(4)] sv ni finite_guests [of l] i(3)
    unfolding room_shown_def s' guests_more [OF l' name(1) i(1)] l'(2) by simp
  then show ?thesis using room_msg_simps(1) [OF name(3,5)] by blast
qed

lemma admit_shown:
  assumes ok: "room_seated r s l" and V: "tables_follow r s l V" and r: "r < MAXPLAYER"
    and i: "players (room_data s r) i \<noteq> -1" "conn_state s (nat (players (room_data s r) i)) = 2" "seats l i = -1"
    and own: "i \<noteq> owner l \<longrightarrow> seats l (owner l) \<noteq> -1"
  shows "\<exists>l' s'. admit_seat r (l, s) i = Some (l', s') \<and> room_seated r s' l' \<and> owner l' = owner l
      \<and> seats l' = (seats l)(i := players (room_data s r) i)
      \<and> room_data s' = room_data s \<and> conn_state s' = conn_state s \<and> conn_name s' = conn_name s
      \<and> (\<exists>ms. sent_lines s' = sent_lines s @ ms \<and> tables_follow r s' l' (deliver (conn_name s) ms V))"
proof -
  let ?rd = "room_data s r" and ?nm = "player_name r s"
  let ?p = "players ?rd i"
  let ?line = "five_line r s l"
  let ?six = "''6 '' @ ?nm i @ [NL]"
  let ?l = "l\<lparr>num_players := room_players ?rd, seats := (seats l)(i := ?p)\<rparr>"
  let ?ms = "(nat ?p, ?line) # SendToEveryone (int i) ?six (seats ?l)"
  let ?s = "s\<lparr>sent_lines := sent_lines s @ ?ms\<rparr>"
  have us: "\<forall>j. seats ?l j \<noteq> -1 \<longrightarrow> players ?rd j = seats ?l j" using ok by (simp add: room_seated_def)
  have ownp: "players ?rd (owner l) \<noteq> -1"
    using own i(1) ok by (cases "i = owner l") (auto simp: room_seated_def)
  have step: "admit_seat r (l, s) i = Some (?l, ?s)" using admit_seat_step [OF i ownp] by (simp only: Let_def)
  have nm: "player_name r ?s = ?nm" by (rule ext) (simp add: player_name_def)
  have inj: "inj_on (\<lambda>j. nat (seats ?l j)) {j. seats ?l j \<noteq> -1}" by (rule seated_inj [OF ok us])
  have alone: "seats l k = -1" if "i = owner l" for k using ok i(3) that unfolding room_seated_def by blast
  have new: "\<exists>v. enter_room (?nm i) ?line = Some v \<and> room_shown r ?s ?l v"
    by (rule newcomer_view [OF ok r i(1,3) ownp _ _ nm]) simp_all
  have others: "\<exists>v'. room_msg ?six v = Some (Go v') \<and> room_shown r ?s ?l v'"
    if "room_shown r s l v" "i \<noteq> owner l" for v
    by (rule guest_hears [OF ok i(1,3) that(2,1) _ _ nm]) simp_all
  have pend: "deliver (conn_name s) ?ms V (nat (players ?rd j)) = None" if j: "players ?rd j \<noteq> -1" "seats ?l j = -1" for j
  proof -
    have ji: "j \<noteq> i" "seats l j = -1" using i(1) j(2) by (auto split: if_splits)
    have apart: "nat (players ?rd j) \<notin> (\<lambda>k. nat (seats ?l k)) ` {k. seats ?l k \<noteq> -1}"
      by (rule pending_apart [OF ok us j])
    moreover have "nat (players ?rd j) \<noteq> nat ?p"
    proof
      assume "nat (players ?rd j) = nat ?p"
      then have "nat (players ?rd j) = nat (seats ?l i)" "seats ?l i \<noteq> -1" using i(1) by simp_all
      then show False using apart by blast
    qed
    ultimately have "nat (players ?rd j) \<notin> set (map fst ?ms)"
      using everyone_conns [of "int i" ?six "seats ?l"] unfolding list.map list.set fst_conv by blast
    then have "deliver (conn_name s) ?ms V (nat (players ?rd j)) = V (nat (players ?rd j))" by (rule deliver_others)
    moreover have "V (nat (players ?rd j)) = None" using V ji(2) j(1) unfolding tables_follow_def by blast
    ultimately show ?thesis by simp
  qed
  have known: "\<exists>v. deliver (conn_name s) ?ms V (nat (seats ?l k)) = Some v \<and> room_shown r ?s ?l v"
    if k: "seats ?l k \<noteq> -1" for k
  proof -
    have pi: "seats ?l i = ?p" by simp
    have k10: "k < 10" using us k seated_name(1) [OF ok, of k] by simp
    have vk: "\<exists>v. V (nat (seats ?l k)) = Some v \<and> room_shown r s l v" if "k \<noteq> i"
      using V k that by (simp add: tables_follow_def)
    have Vi: "V (nat (seats ?l i)) = None" using V i(1,3) unfolding pi tables_follow_def by blast
    have new': "\<exists>v. enter_room (conn_name s (nat (seats ?l i))) ?line = Some v \<and> room_shown r ?s ?l v"
      using new unfolding pi player_name_def .
    have oth: "\<exists>v'. room_msg ?six v = Some (Go v') \<and> room_shown r ?s ?l v'" if "k \<noteq> i" "room_shown r s l v" for v
      using others [OF that(2)] alone [of k] k that(1) by fastforce
    have "seats ?l i \<noteq> -1" using i(1) by simp
    from newcomer_tables [where us = "seats ?l" and i = i and k = k and V = V and names = "conn_name s" and line = ?line
        and six = ?six and before = "room_shown r s l" and after = "room_shown r ?s ?l", OF inj this Vi k k10 vk new' oth]
    show ?thesis unfolding pi .
  qed
  have rdq: "room_data ?s = room_data s" by simp
  have follow: "tables_follow r ?s ?l (deliver (conn_name s) ?ms V)"
    unfolding tables_follow_def rdq by (intro conjI allI impI known) (assumption, elim conjE, rule pend)
  have seated: "room_seated r ?s ?l"
    by (rule room_seated_more [OF ok rdq nm _ _ own i(1)]) simp_all
  have rest: "owner ?l = owner l" "seats ?l = (seats l)(i := ?p)" "conn_state ?s = conn_state s"
    "conn_name ?s = conn_name s" "sent_lines ?s = sent_lines s @ ?ms"
    by simp_all
  show ?thesis
    by (rule exI [of _ ?l], rule exI [of _ ?s], intro conjI step seated rest rdq, rule exI [of _ ?ms], intro conjI rest follow)
qed

section \<open>Somebody leaves\<close>

lemma leave_room_go:
  assumes "leave_room r i n (l, s) = Go (l', s')"
  shows "players (room_data s' r) = (players (room_data s r))(i := -1)" "conn_name s' = conn_name s"
    "seats l' = (seats l)(i := -1)"
    "i \<noteq> owner l \<Longrightarrow> owner l' = owner l \<and> sent_lines s' = sent_lines s @
       SendToEveryone (int i) (''7 '' @ conn_name s (nat (seats l i)) @ [NL]) (seats l)"
    "i = owner l \<Longrightarrow> owner l' = (case find (\<lambda>j. j \<noteq> i \<and> seats l j \<noteq> -1) [0..<10] of Some j \<Rightarrow> j | None \<Rightarrow> i)
       \<and> sent_lines s' = sent_lines s @
         SendToEveryone (int i) (''8 '' @ conn_name s (nat (seats l (owner l'))) @ [NL]) (seats l)"
proof -
  note d = assms [unfolded leave_room_def Let_def prod.case]
  from d show "players (room_data s' r) = (players (room_data s r))(i := -1)"
    by (auto simp: upd_room_def split: if_splits)
  from d show "conn_name s' = conn_name s" by (auto simp: upd_room_def split: if_splits)
  from d show "seats l' = (seats l)(i := -1)"
    by (auto simp del: upt_Suc upt_rec_numeral split: if_splits option.splits)
  from d show "owner l' = owner l \<and> sent_lines s' = sent_lines s @
       SendToEveryone (int i) (''7 '' @ conn_name s (nat (seats l i)) @ [NL]) (seats l)" if "i \<noteq> owner l"
    using that by (auto simp: upd_room_def split: if_splits)
  from d show "owner l' = (case find (\<lambda>j. j \<noteq> i \<and> seats l j \<noteq> -1) [0..<10] of Some j \<Rightarrow> j | None \<Rightarrow> i)
       \<and> sent_lines s' = sent_lines s @
         SendToEveryone (int i) (''8 '' @ conn_name s (nat (seats l (owner l'))) @ [NL]) (seats l)" if "i = owner l"
    using that by (auto simp: upd_room_def simp del: upt_Suc upt_rec_numeral split: if_splits option.splits)
qed

text \<open>The next owner: a player who is still there, if there is one.\<close>

lemma next_owner:
  assumes "seats l k \<noteq> -1" "k \<noteq> i" "k < 10"
  obtains j where "find (\<lambda>j. j \<noteq> i \<and> seats l j \<noteq> -1) [0..<10] = Some j" "j \<noteq> i" "seats l j \<noteq> -1"
proof -
  have "find (\<lambda>j. j \<noteq> i \<and> seats l j \<noteq> -1) [0..<10] \<noteq> None"
    unfolding find_None_iff set_upt using assms by auto
  then obtain j where j: "find (\<lambda>j. j \<noteq> i \<and> seats l j \<noteq> -1) [0..<10] = Some j" by auto
  moreover from j [unfolded find_Some_iff] have "j \<noteq> i" "seats l j \<noteq> -1" by auto
  ultimately show thesis by (rule that)
qed

lemma names_without:
  assumes "finite G" "inj_on f (insert j G)" "j \<in> G"
  shows "filter_mset (\<lambda>x. x \<noteq> f j) (image_mset f (mset_set G)) = image_mset f (mset_set (G - {j}))"
    "image_mset f (mset_set G) = add_mset (f j) (image_mset f (mset_set (G - {j})))"
proof -
  show e: "image_mset f (mset_set G) = add_mset (f j) (image_mset f (mset_set (G - {j})))"
    using mset_set.remove [OF assms(1,3)] by simp
  have "\<forall>x\<in># image_mset f (mset_set (G - {j})). x \<noteq> f j"
    using assms(1,2) by (auto simp: inj_on_def)
  then have "filter_mset (\<lambda>x. x \<noteq> f j) (image_mset f (mset_set (G - {j}))) = image_mset f (mset_set (G - {j}))"
    by (simp add: filter_mset_eq_conv)
  then show "filter_mset (\<lambda>x. x \<noteq> f j) (image_mset f (mset_set G)) = image_mset f (mset_set (G - {j}))"
    unfolding e by simp
qed

text \<open>The guests after somebody has left, and the table of one who stays.\<close>

lemma guests_left:
  assumes "seats l' = (seats l)(i := -1)" "owner l' = o'" "o' = owner l \<or> i = owner l"
  shows "guests l' = guests l - {i, o'}"
  using assms by (auto simp: guests_def)

lemma other_names:
  assumes "players (room_data s' r) = (players (room_data s r))(i := x)" "conn_name s' = conn_name s" "j \<noteq> i"
  shows "player_name r s' j = player_name r s j"
  using assms by (simp add: player_name_def)

lemma guest_left:
  assumes ok: "room_seated r s l" and i: "seats l i \<noteq> -1" "i \<noteq> owner l" and v: "room_shown r s l v"
    and l': "seats l' = (seats l)(i := -1)" "owner l' = owner l"
    and s': "players (room_data s' r) = (players (room_data s r))(i := -1)" "conn_name s' = conn_name s"
  shows "\<exists>v'. room_msg (''7 '' @ player_name r s i @ [NL]) v = Some (Go v') \<and> room_shown r s' l' v'"
proof -
  let ?nm = "player_name r s" and ?v = "v\<lparr>slots := drop_name (player_name r s i) (slots v)\<rparr>"
  have ip: "players (room_data s r) i \<noteq> -1" using ok i(1) by (simp add: room_seated_def)
  note name = seated_name [OF ok ip]
  have gi: "i \<in> guests l" using name(1) i by (simp add: guests_def)
  have g: "guests l' = guests l - {i}" using guests_left [OF l'] i(2) by (auto simp: guests_def)
  have sv: "length (slots v) = 9" "mset (table_names (slots v)) = image_mset ?nm (mset_set (guests l))"
    "master v = ?nm (owner l)" using v by (simp_all add: room_shown_def)
  note inj = guests_inj [OF ok gi]
  note w = names_without [OF finite_guests inj gi]
  have "?nm i \<in># mset (table_names (slots v))" unfolding sv(2) w(2) by simp
  then have "?nm i \<in> set (slots v)" by (simp add: table_names_def)
  from drop_name_names [OF this name(4)] have d: "mset (table_names (slots ?v)) = image_mset ?nm (mset_set (guests l - {i}))"
    "length (slots ?v) = 9" unfolding sv(1,2) w(2) by simp_all
  have "image_mset ?nm (mset_set (guests l - {i})) = image_mset (player_name r s') (mset_set (guests l'))"
    unfolding g by (rule image_mset_cong) (use other_names [OF s'] finite_guests [of l] in auto)
  then have "room_shown r s' l' ?v" using d sv(3) other_names [OF s', of "owner l"] i(2) l'(2)
    by (simp add: room_shown_def)
  then show ?thesis using room_msg_simps(2) [OF name(3,5)] by blast
qed

lemma owner_left:
  assumes ok: "room_seated r s l" and j: "seats l j \<noteq> -1" "j \<noteq> i" and i: "i = owner l" and v: "room_shown r s l v"
    and l': "seats l' = (seats l)(i := -1)" "owner l' = j"
    and s': "players (room_data s' r) = (players (room_data s r))(i := -1)" "conn_name s' = conn_name s"
  shows "\<exists>v'. room_msg (''8 '' @ player_name r s j @ [NL]) v = Some (Go v') \<and> room_shown r s' l' v'"
proof -
  let ?nm = "player_name r s"
  let ?v = "v\<lparr>master := ?nm j, slots := map (\<lambda>p. if p = ?nm j then [] else p) (slots v)\<rparr>"
  have jp: "players (room_data s r) j \<noteq> -1" using ok j(1) by (simp add: room_seated_def)
  note name = seated_name [OF ok jp]
  have gj: "j \<in> guests l" using name(1) i j by (simp add: guests_def)
  have g: "guests l' = guests l - {j}" using guests_left [OF l'] i by (auto simp: guests_def)
  have sv: "length (slots v) = 9" "mset (table_names (slots v)) = image_mset ?nm (mset_set (guests l))"
    using v by (simp_all add: room_shown_def)
  note inj = guests_inj [OF ok gj]
  have d: "mset (table_names (slots ?v)) = image_mset ?nm (mset_set (guests l - {j}))"
    using names_without(1) [OF finite_guests inj gj] sv(2) by (simp add: clear_names)
  have "image_mset ?nm (mset_set (guests l - {j})) = image_mset (player_name r s') (mset_set (guests l'))"
    unfolding g by (rule image_mset_cong) (use other_names [OF s'] i finite_guests [of l] in \<open>auto simp: guests_def\<close>)
  then have "room_shown r s' l' ?v" using d sv(1) other_names [OF s' j(2)] l'(2) by (simp add: room_shown_def)
  then show ?thesis using room_msg_simps(3) [OF name(3,5)] by blast
qed

lemma leave_seated:
  assumes ok: "room_seated r s l" and go: "leave_room r i n (l, s) = Go (l', s')"
  shows "room_seated r s' l'"
proof -
  note f = leave_room_go [OF go]
  have p: "players (room_data s' r) k \<noteq> -1 \<longleftrightarrow> k \<noteq> i \<and> players (room_data s r) k \<noteq> -1" for k by (simp add: f(1))
  have nm: "player_name r s' k = player_name r s k" if "k \<noteq> i" for k by (rule other_names [OF f(1,2) that])
  have "seats l' (owner l') \<noteq> -1" if k: "seats l' k \<noteq> -1" for k
  proof -
    have sk: "seats l k \<noteq> -1" "k \<noteq> i" using k f(3) by (auto split: if_splits)
    then have k10: "k < 10" using seat_bound [OF ok] by fastforce
    show ?thesis
    proof (cases "i = owner l")
      case True
      from next_owner [OF sk k10] obtain j where "find (\<lambda>j. j \<noteq> i \<and> seats l j \<noteq> -1) [0..<10] = Some j" "j \<noteq> i" "seats l j \<noteq> -1" .
      then show ?thesis using f(5) [OF True] by (simp add: f(3))
    next
      case False
      have "seats l (owner l) \<noteq> -1" using ok sk(1) unfolding room_seated_def by blast
      then show ?thesis using f(4) [OF False] False by (simp add: f(3))
    qed
  qed
  moreover have "inj_on (player_name r s') {k. players (room_data s' r) k \<noteq> -1}"
    using ok nm unfolding p inj_on_def room_seated_def by simp
  moreover have "\<forall>k. seats l' k \<noteq> -1 \<longrightarrow> players (room_data s' r) k = seats l' k"
    using ok unfolding f(1,3) room_seated_def by simp
  moreover have "\<forall>k. players (room_data s' r) k \<noteq> -1 \<longrightarrow>
      k < 9 \<and> 0 \<le> players (room_data s' r) k \<and> valid_id (player_name r s' k) \<and> length (player_name r s' k) < 32"
    using ok nm unfolding p room_seated_def f(1) by simp
  ultimately show ?thesis unfolding room_seated_def by blast
qed

lemma leave_shown:
  assumes ok: "room_seated r s l" and V: "tables_follow r s l V" and i: "seats l i \<noteq> -1"
    and go: "leave_room r i n (l, s) = Go (l', s')"
  shows "tables_follow r s' l' (deliver (conn_name s) (new_lines s s') V)"
proof -
  note f = leave_room_go [OF go]
  have us: "\<forall>j. seats l j \<noteq> -1 \<longrightarrow> players (room_data s r) j = seats l j" using ok by (simp add: room_seated_def)
  note inj = seated_inj [OF ok us]
  have name: "conn_name s (nat (seats l j)) = player_name r s j" if "seats l j \<noteq> -1" for j
    using us that by (simp add: player_name_def)
  obtain line where line: "new_lines s s' = SendToEveryone (int i) line (seats l)"
    using f(4,5) by (cases "i = owner l") (auto simp: new_lines_def)
  have known: "\<exists>v. deliver (conn_name s) (new_lines s s') V (nat (seats l' k)) = Some v \<and> room_shown r s' l' v"
    if "seats l' k \<noteq> -1" for k
  proof -
    have k: "seats l k \<noteq> -1" "k \<noteq> i" "k < 10" "seats l' k = seats l k"
      using that f(3) seat_bound [OF ok, of k] by (auto split: if_splits)
    obtain v where v: "V (nat (seats l k)) = Some v" "room_shown r s l v" using V k(1) by (auto simp: tables_follow_def)
    note tell = leaver_tables [where us = "seats l" and V = V and i = i and k = k and names = "conn_name s" and v = v, OF inj k(1,3,2) v(1)]
    show ?thesis
    proof (cases "i = owner l")
      case True
      from next_owner [OF k(1,2,3)] obtain j where
        j: "find (\<lambda>j. j \<noteq> i \<and> seats l j \<noteq> -1) [0..<10] = Some j" "j \<noteq> i" "seats l j \<noteq> -1" .
      have l': "owner l' = j" using f(5) [OF True] unfolding j(1) option.case by blast
      have n: "new_lines s s' = SendToEveryone (int i) (''8 '' @ player_name r s j @ [NL]) (seats l)"
        using f(5) [OF True] unfolding l' name [OF j(3)] by (simp add: new_lines_def)
      obtain v' where "room_msg (''8 '' @ player_name r s j @ [NL]) v = Some (Go v')" "room_shown r s' l' v'"
        using owner_left [OF ok j(3,2) True v(2) f(3) l' f(1,2)] by blast
      then show ?thesis using tell unfolding n k(4) by blast
    next
      case False
      have n: "new_lines s s' = SendToEveryone (int i) (''7 '' @ player_name r s i @ [NL]) (seats l)"
        using f(4) [OF False] unfolding name [OF i] by (simp add: new_lines_def)
      obtain v' where "room_msg (''7 '' @ player_name r s i @ [NL]) v = Some (Go v')" "room_shown r s' l' v'"
        using guest_left [OF ok i False v(2) f(3) _ f(1,2)] f(4) [OF False] by blast
      then show ?thesis using tell unfolding n k(4) by blast
    qed
  qed
  moreover have "deliver (conn_name s) (new_lines s s') V (nat (players (room_data s' r) j)) = None"
    if "players (room_data s' r) j \<noteq> -1 \<and> seats l' j = -1" for j
  proof -
    have j: "j \<noteq> i" "players (room_data s r) j \<noteq> -1" "seats l j = -1" "players (room_data s' r) j = players (room_data s r) j"
      using that unfolding f(1,3) by (auto split: if_splits)
    have "nat (players (room_data s r) j) \<notin> (\<lambda>k. nat (seats l k)) ` {k. seats l k \<noteq> -1}"
      by (rule pending_apart [OF ok us j(2,3)])
    then have "nat (players (room_data s r) j) \<notin> set (map fst (new_lines s s'))"
      using everyone_conns [of "int i" line "seats l"] unfolding line by blast
    from deliver_others [OF this] show ?thesis using V j by (simp add: tables_follow_def)
  qed
  ultimately show ?thesis unfolding tables_follow_def by blast
qed

section \<open>All who wait are admitted\<close>

definition admitted :: "nat \<Rightarrow> (nat \<Rightarrow> room_view option) \<Rightarrow> rlocal \<times> lobby \<Rightarrow> rlocal \<times> lobby \<Rightarrow> bool" where
  "admitted r V x y \<longleftrightarrow> (case x of (l, s) \<Rightarrow> case y of (l', s') \<Rightarrow>
     room_seated r s' l' \<and> room_data s' = room_data s \<and> conn_state s' = conn_state s \<and> conn_name s' = conn_name s
     \<and> owner l' = owner l \<and> seats l' (owner l') \<noteq> -1
     \<and> (\<exists>ms. sent_lines s' = sent_lines s @ ms \<and> tables_follow r s' l' (deliver (conn_name s) ms V)))"

lemma deliver_append: "deliver names (a @ b) V = deliver names b (deliver names a V)"
  by (simp add: deliver_def)

lemma admitted_trans:
  assumes "admitted r V x y" "\<And>W. tables_follow r (snd y) (fst y) W \<Longrightarrow> admitted r W y z"
  shows "admitted r V x z"
proof -
  obtain l s l1 s1 l2 s2 where e: "x = (l, s)" "y = (l1, s1)" "z = (l2, s2)" by (metis prod.exhaust)
  from assms(1) obtain ms where a: "sent_lines s1 = sent_lines s @ ms" "conn_name s1 = conn_name s"
    "tables_follow r s1 l1 (deliver (conn_name s) ms V)"
    and same: "room_data s1 = room_data s" "conn_state s1 = conn_state s" "owner l1 = owner l"
    by (auto simp: admitted_def e)
  have b: "admitted r (deliver (conn_name s) ms V) (l1, s1) (l2, s2)"
    using assms(2) [of "deliver (conn_name s) ms V"] a(3) by (simp add: e)
  then obtain ms' where c: "sent_lines s2 = sent_lines s1 @ ms'"
    "tables_follow r s2 l2 (deliver (conn_name s1) ms' (deliver (conn_name s) ms V))"
    by (auto simp: admitted_def)
  have "sent_lines s2 = sent_lines s @ (ms @ ms') \<and> tables_follow r s2 l2 (deliver (conn_name s) (ms @ ms') V)"
    using a(1,2) c by (simp add: deliver_append)
  moreover have "room_seated r s2 l2" "room_data s2 = room_data s" "conn_state s2 = conn_state s" "conn_name s2 = conn_name s"
    "owner l2 = owner l" "seats l2 (owner l2) \<noteq> -1"
    using b unfolding admitted_def prod.case same a(2) by blast+
  ultimately show ?thesis unfolding e admitted_def prod.case by blast
qed

lemma admitted_refl:
  assumes "room_seated r s l" "tables_follow r s l V" "seats l (owner l) \<noteq> -1"
  shows "admitted r V (l, s) (l, s)"
  using assms by (auto simp: admitted_def deliver_def intro: exI [of _ "[]"])

text \<open>One entry of \<open>players[]\<close>, if it is the owner or the owner is there.\<close>

lemma admit_one:
  assumes "room_seated r s l" "tables_follow r s l V" "r < MAXPLAYER"
    and "seats l (owner l) \<noteq> -1 \<or> i = owner l \<and> players (room_data s r) i \<noteq> -1
          \<and> conn_state s (nat (players (room_data s r) i)) = 2"
  shows "\<exists>y. admit_seat r (l, s) i = Some y \<and> admitted r V (l, s) y"
proof (cases "players (room_data s r) i = -1 \<or> conn_state s (nat (players (room_data s r) i)) \<noteq> 2 \<or> seats l i \<noteq> -1")
  case True
  then have "admit_seat r (l, s) i = Some (l, s)" by (simp only: admit_seat_def prod.case Let_def if_True)
  moreover have "seats l (owner l) \<noteq> -1" using True assms(4) by blast
  ultimately show ?thesis using admitted_refl [OF assms(1,2)] by blast
next
  case False
  then have i: "players (room_data s r) i \<noteq> -1" "conn_state s (nat (players (room_data s r) i)) = 2" "seats l i = -1"
    by simp_all
  have "i \<noteq> owner l \<longrightarrow> seats l (owner l) \<noteq> -1" using assms(4) by blast
  from admit_shown [OF assms(1-3) i this] obtain l' s' where
    a: "admit_seat r (l, s) i = Some (l', s')" "room_seated r s' l'" "owner l' = owner l"
      "seats l' = (seats l)(i := players (room_data s r) i)"
      "room_data s' = room_data s" "conn_state s' = conn_state s" "conn_name s' = conn_name s"
      "\<exists>ms. sent_lines s' = sent_lines s @ ms \<and> tables_follow r s' l' (deliver (conn_name s) ms V)" by blast
  have "seats l' (owner l') \<noteq> -1" using assms(4) i(1) by (auto simp: a(3,4))
  then have "admitted r V (l, s) (l', s')" using a unfolding admitted_def prod.case by blast
  then show ?thesis using a(1) by blast
qed

lemma admit_all:
  assumes "room_seated r s l" "tables_follow r s l V" "r < MAXPLAYER" "seats l (owner l) \<noteq> -1"
  shows "\<exists>y. admit_seats r js (l, s) = Some y \<and> admitted r V (l, s) y"
  using assms
proof (induction js arbitrary: l s V)
  case Nil
  then show ?case using admitted_refl by simp
next
  case (Cons i js)
  have "seats l (owner l) \<noteq> -1 \<or> i = owner l \<and> players (room_data s r) i \<noteq> -1
      \<and> conn_state s (nat (players (room_data s r) i)) = 2" using Cons.prems(4) by blast
  from admit_one [OF Cons.prems(1-3) this] obtain l1 s1 where
    a: "admit_seat r (l, s) i = Some (l1, s1)" "admitted r V (l, s) (l1, s1)" by (metis prod.exhaust)
  have s1: "room_seated r s1 l1" "seats l1 (owner l1) \<noteq> -1" using a(2) unfolding admitted_def prod.case by blast+
  from a(2) obtain W where "tables_follow r s1 l1 W" by (auto simp: admitted_def)
  from Cons.IH [OF s1(1) this Cons.prems(3) s1(2)] obtain y where y: "admit_seats r js (l1, s1) = Some y" by blast
  have "admitted r V (l, s) y"
    using Cons.IH [OF s1(1) _ Cons.prems(3) s1(2)] y by (intro admitted_trans [OF a(2)]) auto
  then show ?case using a(1) y by simp
qed

lemma admit_first:
  assumes "room_seated r s l" "tables_follow r s l V" "r < MAXPLAYER"
    and "seats l (owner l) \<noteq> -1 \<or> owner l = 0 \<and> players (room_data s r) 0 \<noteq> -1
          \<and> conn_state s (nat (players (room_data s r) 0)) = 2"
  shows "\<exists>y. admit_seats r (0 # js) (l, s) = Some y \<and> admitted r V (l, s) y"
proof -
  have "seats l (owner l) \<noteq> -1 \<or> 0 = owner l \<and> players (room_data s r) 0 \<noteq> -1
          \<and> conn_state s (nat (players (room_data s r) 0)) = 2" using assms(4) by metis
  from admit_one [OF assms(1-3) this] obtain l1 s1 where
    a: "admit_seat r (l, s) 0 = Some (l1, s1)" "admitted r V (l, s) (l1, s1)" by (metis prod.exhaust)
  have s1: "room_seated r s1 l1" "seats l1 (owner l1) \<noteq> -1" using a(2) unfolding admitted_def prod.case by blast+
  from a(2) obtain W where "tables_follow r s1 l1 W" by (auto simp: admitted_def)
  from admit_all [OF s1(1) this assms(3) s1(2)] obtain y where y: "admit_seats r js (l1, s1) = Some y" by blast
  have "admitted r V (l, s) y"
  proof (rule admitted_trans [OF a(2)])
    fix W
    assume "tables_follow r (snd (l1, s1)) (fst (l1, s1)) W"
    then have "tables_follow r s1 l1 W" by simp
    from admit_all [OF s1(1) this assms(3) s1(2), of js] y show "admitted r W (l1, s1) y" by auto
  qed
  then show ?thesis using a(1) y by simp
qed

lemma same_room:
  assumes "players (room_data s' r) = players (room_data s r)" "conn_name s' = conn_name s"
  shows "room_seated r s' l = room_seated r s l" "tables_follow r s' l V = tables_follow r s l V"
proof -
  have n: "player_name r s' = player_name r s" using assms by (simp add: player_name_def fun_eq_iff)
  show "room_seated r s' l = room_seated r s l" by (simp only: room_seated_def n assms)
  show "tables_follow r s' l V = tables_follow r s l V" by (simp only: tables_follow_def room_shown_def n assms)
qed


definition sample_room :: lobby where
  "sample_room = lobby_init\<lparr>conn_state := (\<lambda>_. 2), conn_name := (\<lambda>c. if c = 5 then ''ann'' else ''bob''),
     room_data := (\<lambda>_. empty_room\<lparr>new_player := 1, room_players := 2, room_used := 1,
                          players := (\<lambda>j. if j = 0 then 5 else if j = 1 then 7 else -1)\<rparr>)\<rparr>"


end
