(* ===== verification/Uno_Client_Hand.thy ===== *)
theory Uno_Client_Hand
  imports Uno_Text
begin

text \<open>
  \<open>tcpcliserv/final_cli.c\<close>, the hand of the player at the terminal client of the UNO game: how typed
  text becomes a card. The client numbers the cards on the screen in the order of its table \<open>book\<close>
  (\<open>draw_my_card\<close>), reads a number with an optional colour (\<open>is_valid_card_input\<close>), finds the card with
  that number and decides whether it may be played (the last branch of \<open>game\<close>). \<open>None\<close> is a write
  behind an array. The texts for the screen are Chinese; they are modelled as the values of a
  datatype.
\<close>

section \<open>The kinds of cards\<close>

definition book :: "string list" where
  "book =
    [''0r'', ''1r'', ''2r'', ''3r'', ''4r'', ''5r'', ''6r'', ''7r'', ''8r'', ''9r'', ''ar'', ''br'', ''cr'',
     ''0y'', ''1y'', ''2y'', ''3y'', ''4y'', ''5y'', ''6y'', ''7y'', ''8y'', ''9y'', ''ay'', ''by'', ''cy'',
     ''0g'', ''1g'', ''2g'', ''3g'', ''4g'', ''5g'', ''6g'', ''7g'', ''8g'', ''9g'', ''ag'', ''bg'', ''cg'',
     ''0b'', ''1b'', ''2b'', ''3b'', ''4b'', ''5b'', ''6b'', ''7b'', ''8b'', ''9b'', ''ab'', ''bb'', ''cb'',
     ''dx'', ''ex'']"

lemma length_book: "length book = 54"
  by (simp add: book_def)

text \<open>The first kind whose two characters a token has.\<close>

definition book_index :: "string \<Rightarrow> nat option" where
  "book_index t = find (\<lambda>j. char_at t 0 = char_at (book ! j) 0 \<and> char_at t 1 = char_at (book ! j) 1) [0..<54]"

text \<open>\<open>all_card_count\<close> and \<open>all_number\<close> of a text of cards.\<close>

definition count_token :: "nat list \<times> nat \<Rightarrow> string \<Rightarrow> nat list \<times> nat" where
  "count_token s t =
     (case book_index t of
        None \<Rightarrow> s
      | Some j \<Rightarrow> ((fst s)[j := fst s ! j + 1], snd s + 1))"

definition count_hand :: "string \<Rightarrow> nat list \<times> nat" where
  "count_hand my_card = foldl count_token (replicate 54 0, 0) (tokens my_card)"

section \<open>Typed numbers\<close>

text \<open>The value, 0 for an invalid input, and \<open>*suffix\<close>, which is only set on the way. \<open>number_part\<close> has
  256 bytes.\<close>

definition is_valid_card_input :: "string \<Rightarrow> (int \<times> char) option" where
  "is_valid_card_input s =
     (let i = (if char_at s 0 = CHR ''-'' \<or> char_at s 0 = CHR ''+'' then 1 else 0);
          digits = takeWhile isdigit (drop i s);
          rest = drop (i + length digits) s
      in if s = [] \<or> digits = [] then Some (0, CHR 0x00)
         else
           let last_char = char_at rest 0 in
           if rest \<noteq> [] \<and> last_char \<notin> {CHR ''r'', CHR ''y'', CHR ''g'', CHR ''b''} then Some (0, CHR 0x00)
           else if tl rest \<noteq> [] then Some (0, last_char)
           else if 256 \<le> i + length digits then None
           else
             let v = strtol10 (take (i + length digits) s) in
             if v \<ge> 108 \<or> v \<le> 0 then Some (0, last_char) else Some (v, last_char))"

section \<open>The card with a number\<close>

text \<open>The inner \<open>while\<close>: it stops at the card counted as \<open>num\<close>.\<close>

fun pick_while :: "nat \<Rightarrow> string \<Rightarrow> nat \<Rightarrow> nat \<times> string \<Rightarrow> nat \<times> string" where
  "pick_while num kind 0 s = s"
| "pick_while num kind (Suc k) (n, aim) =
     (if n + 1 = num then (n + 1, kind) else pick_while num kind k (n + 1, aim))"

definition pick_card :: "nat \<Rightarrow> nat list \<Rightarrow> nat \<Rightarrow> string" where
  "pick_card num counts all_number =
     (if num \<le> all_number
      then snd (foldl (\<lambda>s i. pick_while num (book ! i) (counts ! i) s) (0, []) [0..<54])
      else [])"

text \<open>What the player is told below the table.\<close>

datatype hint = NoHint | InvalidInput | NotYourTurn | CannotPlay | Skipped

text \<open>The decision: the line for the server, or none and the hint.\<close>

definition play_card :: "string \<Rightarrow> string \<Rightarrow> string \<Rightarrow> (string option \<times> hint) option" where
  "play_card typed my_card table =
     (case is_valid_card_input typed of
        None \<Rightarrow> None
      | Some (num, suffix) \<Rightarrow>
          if num = 0 then Some (None, InvalidInput)
          else
            let (counts, all_number) = count_hand my_card;
                aim = pick_card (nat num) counts all_number
            in if char_at aim 0 = CHR ''d'' \<or> char_at aim 0 = CHR ''e'' then
                 (if suffix \<noteq> CHR 0x00 then Some (Some (''9 '' @ [char_at aim 0, suffix] @ [NL]), NoHint)
                  else Some (None, CannotPlay))
               else if char_at aim 0 = char_at table 0 \<or> char_at aim 1 = char_at table 1
                 then Some (Some (''9 '' @ aim @ [NL]), NoHint)
               else Some (None, CannotPlay))"

section \<open>The cards on the screen\<close>

text \<open>What \<open>draw_my_card\<close> prints: for each card its number, its kind, whether it is marked as new; up to
  33 cards are drawn as boxes from a column on, more are listed.\<close>

record shown_card =
  label :: nat
  kind :: string
  is_new :: bool
  column :: "nat option"

fun show_while :: "bool \<Rightarrow> string \<Rightarrow> nat \<Rightarrow> nat \<Rightarrow> nat \<times> shown_card list \<Rightarrow> nat \<times> shown_card list" where
  "show_while boxes k 0 news s = s"
| "show_while boxes k (Suc n) news (m, shown) =
     show_while boxes k n (news - 1)
       (m + 1, shown @ [\<lparr>label = m + 1, kind = k, is_new = (0 < news),
                        column = (if boxes then Some (1 + 4 * m) else None)\<rparr>])"

definition draw_my_card :: "string \<Rightarrow> string \<Rightarrow> shown_card list" where
  "draw_my_card all_card new_card =
     (let (counts, all_number) = count_hand all_card;
          (new_counts, _) = count_hand new_card
      in snd (foldl (\<lambda>s i. show_while (\<not> all_number > 33) (book ! i) (counts ! i) (new_counts ! i) s) (0, []) [0..<54]))"

section \<open>The order of the hand\<close>

text \<open>The hand in the order of \<open>book\<close>: what both loops walk through.\<close>

definition in_order :: "nat list \<Rightarrow> string list" where
  "in_order counts = concat (map (\<lambda>i. replicate (counts ! i) (book ! i)) [0..<54])"

lemma pick_while_eq:
  "pick_while num k c (n, aim) =
     (if n < num \<and> num \<le> n + c then (num, k) else (n + c, aim))"
  by (induction c arbitrary: n) auto

text \<open>Once the card is found the count stays at or above its number, so it is never found again.\<close>

lemma pick_fold:
  "n < num \<Longrightarrow> snd (foldl (\<lambda>s i. pick_while num (book ! i) (counts ! i) s) (n, aim) is) =
     (let rest = concat (map (\<lambda>i. replicate (counts ! i) (book ! i)) is) in
      if num - n \<le> length rest then rest ! (num - n - 1) else aim)"
proof (induction "is" arbitrary: n)
  case Nil
  then show ?case by simp
next
  case (Cons i "is")
  have late: "snd (foldl (\<lambda>s i. pick_while num (book ! i) (counts ! i) s) (m, a) js) = a" if "num \<le> m" for m a js
    using that by (induction js arbitrary: m) (auto simp: pick_while_eq)
  show ?case
  proof (cases "num \<le> n + counts ! i")
    case True
    then show ?thesis using Cons.prems by (auto simp: pick_while_eq late nth_append Let_def)
  next
    case False
    then show ?thesis using Cons.prems Cons.IH [of "n + counts ! i"]
      by (auto simp: pick_while_eq nth_append Let_def not_le)
  qed
qed

lemma pick_in_order:
  assumes "0 < num" "all_number = length (in_order counts)"
  shows "pick_card num counts all_number = (if num \<le> all_number then in_order counts ! (num - 1) else [])"
  using pick_fold [of 0 num counts "[]" "[0..<54]"] assms
  by (simp add: pick_card_def in_order_def Let_def)

lemma show_while_eq:
  "show_while b k c news (n, shown) =
     (n + c, shown @ map (\<lambda>j. \<lparr>label = n + j + 1, kind = k, is_new = (j < news),
                             column = (if b then Some (1 + 4 * (n + j)) else None)\<rparr>) [0..<c])"
  by (induction c arbitrary: n news shown)
    (auto simp: upt_conv_Cons map_Suc_upt [symmetric] simp del: upt_Suc)

text \<open>The cards on the screen are the hand in the order of \<open>book\<close>, numbered from 1.\<close>

lemma show_fold:
  "\<exists>cards. foldl (\<lambda>s i. show_while b (book ! i) (counts ! i) (news ! i) s) (n, shown) is
      = (n + length cards, shown @ cards)
    \<and> map kind cards = concat (map (\<lambda>i. replicate (counts ! i) (book ! i)) is)
    \<and> map label cards = [n + 1..<n + 1 + length cards]
    \<and> (\<forall>c\<in>set cards. column c = (if b then Some (1 + 4 * (label c - 1)) else None))"
proof (induction "is" arbitrary: n shown)
  case Nil
  then show ?case by simp
next
  case (Cons i "is")
  let ?new = "map (\<lambda>j. \<lparr>label = n + j + 1, kind = book ! i, is_new = (j < news ! i),
                             column = (if b then Some (1 + 4 * (n + j)) else None)\<rparr>) [0..<counts ! i]"
  from Cons.IH [of "n + counts ! i" "shown @ ?new"] obtain cs where
    cs: "foldl (\<lambda>s i. show_while b (book ! i) (counts ! i) (news ! i) s) (n + counts ! i, shown @ ?new) is
      = (n + counts ! i + length cs, (shown @ ?new) @ cs)"
    "map kind cs = concat (map (\<lambda>i. replicate (counts ! i) (book ! i)) is)"
    "map label cs = [n + counts ! i + 1..<n + counts ! i + 1 + length cs]"
    "\<forall>c\<in>set cs. column c = (if b then Some (1 + 4 * (label c - 1)) else None)" by blast
  have "map label ?new = [n + 1..<n + 1 + counts ! i]"
    by (rule nth_equalityI) (simp_all del: upt_Suc)
  moreover have "[n + 1..<n + 1 + counts ! i + length cs] = [n + 1..<n + 1 + counts ! i] @ [n + counts ! i + 1..<n + counts ! i + 1 + length cs]"
    using upt_add_eq_append [of "n + 1" "n + 1 + counts ! i" "length cs"] by (simp del: upt_Suc)
  ultimately have "map label (?new @ cs) = [n + 1..<n + 1 + length (?new @ cs)]"
    using cs(3) by (simp only: map_append length_append length_map length_upt) (simp del: upt_Suc add: add.assoc)
  then show ?case using cs(1,2,4)
    by (intro exI [of _ "?new @ cs"]) (auto simp: show_while_eq map_replicate_const o_def)
qed

text \<open>Counting: one card of a kind more in the order.\<close>

lemma mset_in_order: "mset (in_order counts) = (\<Sum>i<54. replicate_mset (counts ! i) (book ! i))"
proof -
  have "mset (concat (map (\<lambda>i. replicate (counts ! i) (book ! i)) [0..<n])) = (\<Sum>i<n. replicate_mset (counts ! i) (book ! i))" for n
    by (induction n) auto
  then show ?thesis by (simp only: in_order_def)
qed

lemma in_order_add:
  assumes "j < 54" "length counts = 54"
  shows "mset (in_order (counts[j := counts ! j + 1])) = add_mset (book ! j) (mset (in_order counts))"
proof -
  have j: "j \<in> {..<54}" using assms(1) by simp
  have "(\<Sum>i\<in>{..<54} - {j}. replicate_mset (counts[j := counts ! j + 1] ! i) (book ! i))
      = (\<Sum>i\<in>{..<54} - {j}. replicate_mset (counts ! i) (book ! i))"
    by (rule sum.cong) auto
  moreover have "counts[j := counts ! j + 1] ! j = counts ! j + 1" using assms by simp
  ultimately show ?thesis
    unfolding mset_in_order sum.remove [OF _ j, simplified] by simp
qed

text \<open>A token is known when it is one of the 54 kinds.\<close>

definition known :: "string \<Rightarrow> bool" where
  "known t \<longleftrightarrow> t \<in> set book"

lemma book_chars: "\<forall>k\<in>set book. length k = 2"
  by (simp add: book_def)

lemma book_index_Some:
  assumes "book_index t = Some j"
  shows "j < 54" "char_at t 0 = char_at (book ! j) 0 \<and> char_at t 1 = char_at (book ! j) 1"
  using assms by (auto simp: book_index_def find_Some_iff)

lemma two_chars_eq: "length s = 2 \<Longrightarrow> length t = 2 \<Longrightarrow> char_at s 0 = char_at t 0 \<Longrightarrow> char_at s 1 = char_at t 1 \<Longrightarrow> s = t"
  by (auto simp: char_at_def length_Suc_conv numeral_2_eq_2)

lemma book_index_known:
  assumes "known t"
  obtains j where "book_index t = Some j" "j < 54" "book ! j = t"
proof -
  from assms obtain i where i: "i < 54" "book ! i = t"
    by (auto simp: known_def in_set_conv_nth length_book)
  then have "book_index t \<noteq> None" by (auto simp: book_index_def find_None_iff)
  then obtain j where j: "book_index t = Some j" by auto
  have "length t = 2" using assms book_chars by (auto simp: known_def)
  moreover have "book ! j \<in> set book" using book_index_Some(1) [OF j] length_book by simp
  ultimately have "book ! j = t"
    using book_index_Some(2) [OF j] book_chars by (intro two_chars_eq) auto
  then show thesis using that j book_index_Some(1) [OF j] by blast
qed

lemma count_tokens:
  assumes "\<forall>t\<in>set ts. known t" "length counts = 54" "all_number = length (in_order counts)"
  shows "(case foldl count_token (counts, all_number) ts of (counts', all') \<Rightarrow>
      length counts' = 54 \<and> all' = length (in_order counts') \<and> mset (in_order counts') = mset (in_order counts) + mset ts)"
  using assms
proof (induction ts arbitrary: counts all_number)
  case Nil
  then show ?case by simp
next
  case (Cons t ts)
  then obtain j where j: "book_index t = Some j" "j < 54" "book ! j = t" using book_index_known [of t] by auto
  let ?c = "counts[j := counts ! j + 1]"
  have m: "mset (in_order ?c) = add_mset t (mset (in_order counts))"
    using in_order_add [OF j(2) Cons.prems(2)] j(3) by simp
  then have "length (in_order ?c) = length (in_order counts) + 1" by (metis size_mset size_add_mset Suc_eq_plus1)
  then have "all_number + 1 = length (in_order ?c)" using Cons.prems(3) by simp
  from Cons.IH [OF _ _ this] Cons.prems m show ?case
    by (simp add: count_token_def j(1))
qed

lemma in_order_empty: "in_order (replicate 54 0) = []"
  by (simp add: in_order_def)

lemma count_hand_known:
  assumes "\<forall>t\<in>set (tokens my_card). known t" "count_hand my_card = (counts, all_number)"
  shows "length counts = 54" "all_number = length (in_order counts)" "mset (in_order counts) = mset (tokens my_card)"
  using count_tokens [OF assms(1), of "replicate 54 0" 0] assms(2)
  by (auto simp: count_hand_def in_order_empty)

lemma show_hand:
  assumes "\<forall>t\<in>set (tokens my_card). known t" "count_hand my_card = (counts, all_number)"
  shows "map label (draw_my_card my_card new_card) = [1..<all_number + 1]"
    "map kind (draw_my_card my_card new_card) = in_order counts"
    "\<forall>c\<in>set (draw_my_card my_card new_card). column c = (if all_number > 33 then None else Some (1 + 4 * (label c - 1)))"
proof -
  obtain nc m where n: "count_hand new_card = (nc, m)" by force
  from show_fold [of "\<not> all_number > 33" counts nc 0 "[]" "[0..<54]"] obtain cs where
    cs: "draw_my_card my_card new_card = cs" "map kind cs = in_order counts" "map label cs = [0 + 1..<0 + 1 + length cs]"
    "\<forall>c\<in>set cs. column c = (if \<not> all_number > 33 then Some (1 + 4 * (label c - 1)) else None)"
    by (auto simp: draw_my_card_def assms(2) n in_order_def)
  have "length cs = all_number" using arg_cong [OF cs(2), of length] count_hand_known(2) [OF assms] by simp
  then show "map label (draw_my_card my_card new_card) = [1..<all_number + 1]"
    "map kind (draw_my_card my_card new_card) = in_order counts"
    "\<forall>c\<in>set (draw_my_card my_card new_card). column c = (if all_number > 33 then None else Some (1 + 4 * (label c - 1)))"
    using cs by (auto simp del: upt_Suc)
qed

section \<open>Typed numbers read back\<close>

lemma takeWhile_digits: "\<forall>c\<in>set ds. isdigit c \<Longrightarrow> r = [] \<or> \<not> isdigit (hd r) \<Longrightarrow> takeWhile isdigit (ds @ r) = ds"
  by (induction ds) (auto, cases r, auto)

lemma takeWhile_fmt [simp]: "takeWhile isdigit (fmt_u n) = fmt_u n" "dropWhile isdigit (fmt_u n) = []"
  using digits_fmt [of n] by simp_all

lemma hd_fmt_plain: "char_at (fmt_u n @ r) 0 \<noteq> CHR ''-''" "char_at (fmt_u n @ r) 0 \<noteq> CHR ''+''"
proof -
  have "char_at (fmt_u n @ r) 0 = hd (fmt_u n)" by (cases "fmt_u n") (simp_all add: char_at_def)
  then show "char_at (fmt_u n @ r) 0 \<noteq> CHR ''-''" "char_at (fmt_u n @ r) 0 \<noteq> CHR ''+''"
    using hd_render_digit [of n] by auto
qed

lemma colour_letter: "c \<in> {CHR ''r'', CHR ''y'', CHR ''g'', CHR ''b''} \<Longrightarrow> \<not> isdigit c \<and> c \<noteq> CHR 0x00"
  by (auto simp: isdigit_def)

lemma valid_card_input:
  assumes "1 \<le> n" "n < 108" "sf = [] \<or> (\<exists>c\<in>{CHR ''r'', CHR ''y'', CHR ''g'', CHR ''b''}. sf = [c])"
  shows "is_valid_card_input (fmt_u n @ sf) = Some (int n, char_at sf 0)"
proof -
  have sf: "sf = [] \<or> \<not> isdigit (hd sf)" using assms(3) colour_letter by fastforce
  have tw: "takeWhile isdigit (fmt_u n @ sf) = fmt_u n" by (rule takeWhile_digits [OF digits_fmt sf])
  have len: "length (fmt_u n) \<le> 3" using length_render [of 10 3 n] assms(2) by simp
  have "strtol10 (fmt_u n) = int n" using assms(2) by (simp add: strtol10_def atoi_fmt_u LONG_MAX_def)
  moreover have "sf \<noteq> [] \<longrightarrow> char_at sf 0 \<in> {CHR ''r'', CHR ''y'', CHR ''g'', CHR ''b''} \<and> tl sf = []"
    using assms(3) by (auto simp: char_at_def)
  moreover have "tl sf = []" using assms(3) by auto
  ultimately show ?thesis
    using assms(1,2) len hd_fmt_plain [of n sf] tw
    by (cases "sf = []") (simp_all add: is_valid_card_input_def Let_def)
qed

lemma valid_card_range:
  assumes "is_valid_card_input s = Some (v, c)" "v \<noteq> 0"
  shows "1 \<le> v \<and> v < 108 \<and> c \<in> {CHR 0x00, CHR ''r'', CHR ''y'', CHR ''g'', CHR ''b''}"
  using assms by (auto simp: is_valid_card_input_def Let_def char_at_def split: if_splits)

section \<open>A card the client plays\<close>

lemma cards_known: "\<forall>c\<in>set cards. known c"
  unfolding known_def cards_def book_def by simp

lemma pick_in_hand:
  assumes "\<forall>t\<in>set (tokens my_card). known t" "count_hand my_card = (counts, all_number)" "0 < num" "num \<le> all_number"
  shows "pick_card num counts all_number \<in> set (tokens my_card)"
proof -
  note c = count_hand_known [OF assms(1,2)]
  have "pick_card num counts all_number = in_order counts ! (num - 1)"
    using pick_in_order [OF assms(3) c(2)] assms(4) by simp
  moreover have "in_order counts ! (num - 1) \<in> set (in_order counts)" using assms(3,4) c(2) by simp
  ultimately show ?thesis using mset_eq_setD [OF c(3)] by simp
qed

lemma wild_kinds: "\<forall>k\<in>set book. wild_name k \<longrightarrow> k \<in> {''dx'', ''ex''}"
  unfolding book_def by (simp add: wild_name_def char_at_def)

text \<open>What \<open>play_card\<close> sends: a card of the hand that fits the table, or a wild card with its colour.\<close>

lemma play_card_sends:
  assumes "\<forall>t\<in>set (tokens my_card). known t" "play_card typed my_card table = Some (Some line, h)"
    "length table = 2" "CHR 0x00 \<notin> set table"
  shows "\<exists>name. line = ''9 '' @ name @ [NL] \<and> length name = 2 \<and>
     ((name \<in> set (tokens my_card) \<and> \<not> wild_name name \<and> (name ! 0 = table ! 0 \<or> name ! 1 = table ! 1))
      \<or> (wild_name name \<and> name[1 := CHR ''x''] \<in> set (tokens my_card) \<and> name ! 1 \<in> {CHR ''r'', CHR ''y'', CHR ''g'', CHR ''b''}))"
proof -
  obtain v c where vc: "is_valid_card_input typed = Some (v, c)" "v \<noteq> 0"
    using assms(2) by (auto simp: play_card_def split: option.splits if_splits)
  note r = valid_card_range [OF vc]
  obtain counts all_number where ch: "count_hand my_card = (counts, all_number)" by force
  define aim where "aim = pick_card (nat v) counts all_number"
  have tab: "char_at table 0 = table ! 0" "char_at table 1 = table ! 1" "table ! 0 \<noteq> CHR 0x00" "table ! 1 \<noteq> CHR 0x00"
    using assms(3,4) by (auto simp: char_at_def in_set_conv_nth)
  have play: "play_card typed my_card table =
     (if char_at aim 0 = CHR ''d'' \<or> char_at aim 0 = CHR ''e'' then
        (if c \<noteq> CHR 0x00 then Some (Some (''9 '' @ [char_at aim 0, c] @ [NL]), NoHint) else Some (None, CannotPlay))
      else if char_at aim 0 = char_at table 0 \<or> char_at aim 1 = char_at table 1
        then Some (Some (''9 '' @ aim @ [NL]), NoHint) else Some (None, CannotPlay))"
    unfolding play_card_def vc(1) ch aim_def using vc(2) by (simp add: Let_def)
  have "nat v \<le> all_number"
  proof (rule ccontr)
    assume "\<not> nat v \<le> all_number"
    then have "aim = []" by (simp add: aim_def pick_card_def)
    then show False using assms(2) tab unfolding play by (simp add: char_at_def)
  qed
  then have hand: "aim \<in> set (tokens my_card)" unfolding aim_def
    using r pick_in_hand [OF assms(1) ch, of "nat v"] by simp
  then have k: "known aim" "length aim = 2" using assms(1) book_chars by (auto simp: known_def)
  show ?thesis
  proof (cases "wild_name aim")
    case True
    then have cc: "line = ''9 '' @ [aim ! 0, c] @ [NL]" "c \<in> {CHR ''r'', CHR ''y'', CHR ''g'', CHR ''b''}"
      using assms(2) r k(2) unfolding play wild_name_def by (auto simp: char_at_def split: if_splits)
    have "aim \<in> {''dx'', ''ex''}" using True k(1) wild_kinds by (auto simp: known_def)
    then have "[aim ! 0, c][1 := CHR ''x''] = aim" "wild_name [aim ! 0, c]" by (auto simp: wild_name_def char_at_def)
    then show ?thesis using cc hand by (intro exI [of _ "[aim ! 0, c]"]) simp
  next
    case False
    then have "line = ''9 '' @ aim @ [NL]" "aim ! 0 = table ! 0 \<or> aim ! 1 = table ! 1"
      using assms(2) k(2) tab unfolding play wild_name_def by (auto simp: char_at_def split: if_splits)
    then show ?thesis using False hand k(2) by blast
  qed
qed

text \<open>The line reaches the server as the tokens \<open>9\<close> and the card.\<close>

lemma card_plain:
  assumes "known c \<or> (wild_name c \<and> length c = 2 \<and> c ! 1 \<in> {CHR ''r'', CHR ''y'', CHR ''g'', CHR ''b''})"
  shows "tokens (takeWhile (\<lambda>x. x \<noteq> NL) (''9 '' @ c @ [NL])) = [''9'', c]"
proof -
  have plain: "\<forall>k\<in>set book. CHR '' '' \<notin> set k \<and> NL \<notin> set k \<and> k \<noteq> []" by (simp add: book_def)
  have "CHR '' '' \<notin> set c \<and> NL \<notin> set c \<and> c \<noteq> []"
  proof (cases "known c")
    case True
    then show ?thesis using plain by (simp add: known_def)
  next
    case False
    then have w: "wild_name c" "length c = 2" "c ! 1 \<in> {CHR ''r'', CHR ''y'', CHR ''g'', CHR ''b''}" using assms by auto
    then have "c = [c ! 0, c ! 1]" "c ! 0 = CHR ''d'' \<or> c ! 0 = CHR ''e''"
      by (auto simp: wild_name_def char_at_def length_Suc_conv numeral_2_eq_2)
    moreover have "set [c ! 0, c ! 1] = {c ! 0, c ! 1}" by simp
    ultimately have "set c = {c ! 0, c ! 1}" by metis
    then show ?thesis using w(2,3) \<open>c ! 0 = _ \<or> _\<close> by auto
  qed
  then have c: "CHR '' '' \<notin> set c" "NL \<notin> set c" "c \<noteq> []" by simp_all
  have "takeWhile (\<lambda>x. x \<noteq> NL) (c @ [NL]) = c"
    using c(2) by (subst takeWhile_append2) (auto simp: in_set_conv_decomp)
  then show ?thesis using split_at_last [OF c(1)] c(3) by (simp add: tokens_def)
qed

lemma find_card_holds:
  assumes "j0 < 108" "hand g i j0" "cards ! j0 = (if wild_name name then name[1 := CHR ''x''] else name)"
  obtains j where "find_card g i name = Some j" "j < 108" "hand g i j"
    "cards ! j = (if wild_name name then name[1 := CHR ''x''] else name)"
proof -
  let ?P = "\<lambda>j. hand g i j \<and> cards ! j = (if wild_name name then name[1 := CHR ''x''] else name)"
  have "find ?P [0..<108] \<noteq> None" using assms by (auto simp: find_None_iff simp del: upt_Suc)
  then obtain j where j: "find ?P [0..<108] = Some j" by auto
  then have "j < 108" "?P j" by (auto simp: find_Some_iff simp del: upt_Suc)
  moreover have "find_card g i name = Some j" using j by (simp add: find_card_def)
  ultimately show thesis using that by blast
qed

text \<open>The game after player \<open>i\<close> has put card \<open>j\<close> on the table.\<close>

definition laid :: "nat \<Rightarrow> nat \<Rightarrow> char \<Rightarrow> game \<Rightarrow> game" where
  "laid i j c g = g\<lparr>card_id := j, hand := (hand g)(i := (hand g i)(j := False)),
     hand_num := (hand_num g)(i := hand_num g i - 1), table_card := j, colour := c\<rparr>"

lemma seat_event_play:
  assumes "line = ''9 '' @ name @ [NL]" "tokens (takeWhile (\<lambda>x. x \<noteq> NL) line) = [''9'', name]"
    "length name = 2" "find_card g i name = Some j" "n \<noteq> 0"
  shows "hand_num g i \<le> 1 \<longrightarrow> (\<exists>g'. seat_event rnd i n line g = Some (Ret g') \<and> table_card g' = j)"
    "1 < hand_num g i \<longrightarrow> seat_event rnd i n line g
       = map_option (\<lambda>g. Go (StartRound name g)) (card_effect rnd (laid i j (name ! 1) g))"
proof -
  have h: "char_at line 0 = CHR ''9''" "char_at (takeWhile (\<lambda>x. x \<noteq> NL) line) 0 = CHR ''9''"
    by (simp_all add: assms(1) char_at_def)
  have e: "seat_event rnd i n line g = game_play rnd i (takeWhile (\<lambda>x. x \<noteq> NL) line) g"
    using assms(5) h by (simp add: seat_event_def Let_def)
  show "hand_num g i \<le> 1 \<longrightarrow> (\<exists>g'. seat_event rnd i n line g = Some (Ret g') \<and> table_card g' = j)"
    unfolding e game_play_def assms(2) using assms(3,4) by (simp add: Let_def tell_game_def)
  show "1 < hand_num g i \<longrightarrow> seat_event rnd i n line g
       = map_option (\<lambda>g. Go (StartRound name g)) (card_effect rnd (laid i j (name ! 1) g))"
    unfolding e game_play_def assms(2) using assms(3,4) by (simp add: Let_def laid_def char_at_def)
qed

lemma wild_kind: "known c \<Longrightarrow> wild_name c \<Longrightarrow> c ! 1 = CHR ''x''"
  using wild_kinds by (auto simp: known_def)

lemma table_text_chars:
  assumes "table_card g < 108" "colour g \<noteq> CHR 0x00"
  shows "length (table_text g) = 2" "CHR 0x00 \<notin> set (table_text g)" "table_text g ! 1 = colour g"
    "table_text g ! 0 = cards ! table_card g ! 0"
proof -
  have "cards ! table_card g \<in> set cards" using assms(1) length_cards(1) by simp
  then have k: "known (cards ! table_card g)" using cards_known by blast
  have "\<forall>k\<in>set book. CHR 0x00 \<notin> set k" by (simp add: book_def)
  then have c: "length (cards ! table_card g) = 2" "CHR 0x00 \<notin> set (cards ! table_card g)"
    using k book_chars by (auto simp: known_def)
  obtain a b where ab: "cards ! table_card g = [a, b]" using c(1) by (auto simp: length_Suc_conv numeral_2_eq_2)
  then show "length (table_text g) = 2" "CHR 0x00 \<notin> set (table_text g)" "table_text g ! 1 = colour g"
    "table_text g ! 0 = cards ! table_card g ! 0"
    using c(2) assms(2) by (auto simp: table_text_def)
qed

section \<open>Correctness\<close>

text \<open>
  Typed numbers select what the screen shows: \<open>draw_my_card\<close> shows every card of the hand once, under
  the numbers 1, 2, ..., and the number typed for a card, with or without a colour, is read back as
  that number and makes the client pick exactly the card shown under it. Up to 33 cards the boxes stand in
  columns four apart that end before column 133.
\<close>

lemma number_picks_shown_card:
  assumes "\<forall>t\<in>set (tokens my_card). known t" "count_hand my_card = (counts, all_number)"
  shows "map label (draw_my_card my_card new_card) = [1..<length (tokens my_card) + 1]
    \<and> mset (map kind (draw_my_card my_card new_card)) = mset (tokens my_card)
    \<and> (\<forall>c\<in>set (draw_my_card my_card new_card). pick_card (label c) counts all_number = kind c
        \<and> (label c < 108 \<longrightarrow> is_valid_card_input (fmt_u (label c)) = Some (int (label c), CHR 0x00)
             \<and> is_valid_card_input (fmt_u (label c) @ ''r'') = Some (int (label c), CHR ''r''))
        \<and> (all_number \<le> 33 \<longrightarrow> (\<exists>k. column c = Some k \<and> k = 1 + 4 * (label c - 1) \<and> k + 3 \<le> 132)))"
proof -
  note ch = count_hand_known [OF assms]
  note sh = show_hand [OF assms, of new_card]
  have size: "all_number = length (tokens my_card)" using ch(2,3) by (metis size_mset)
  have "pick_card (label c) counts all_number = kind c \<and> 1 \<le> label c \<and> (all_number \<le> 33 \<longrightarrow> label c - 1 \<le> 32)"
    if "c \<in> set (draw_my_card my_card new_card)" for c
  proof -
    from that obtain k where k: "k < length (draw_my_card my_card new_card)" "c = draw_my_card my_card new_card ! k"
      by (auto simp: in_set_conv_nth)
    have len: "length (draw_my_card my_card new_card) = all_number"
      using arg_cong [OF sh(1), of length] by (simp del: upt_Suc)
    have "label c = map label (draw_my_card my_card new_card) ! k" using k by simp
    also have "\<dots> = k + 1" using k(1) len by (simp add: sh(1) del: upt_Suc)
    finally have l: "label c = k + 1" .
    have "kind c = map kind (draw_my_card my_card new_card) ! k" using k by simp
    then have "kind c = in_order counts ! k" by (simp add: sh(2))
    then show ?thesis using pick_in_order [of "k + 1" all_number counts] ch(2) k(1) len l by simp
  qed
  then show ?thesis
    using sh ch(3) size valid_card_input [of _ "[]"] valid_card_input [of _ "''r''"]
    by (auto simp del: upt_Suc simp: char_at_def)
qed

lemma number_picks_shown_card_example:
  "map kind (draw_my_card ''ex 5g 0r 5g'' ''5g'') = [''0r'', ''5g'', ''5g'', ''ex'']
   \<and> pick_card 4 (fst (count_hand ''ex 5g 0r 5g'')) 4 = ''ex''"
proof -
  have k: "\<forall>t\<in>set (tokens ''ex 5g 0r 5g''). known t" by (simp add: tokens_def known_def book_def)
  obtain c where c: "count_hand ''ex 5g 0r 5g'' = (c, 4)"
    by (simp add: count_hand_def tokens_def count_token_def book_index_def book_def char_at_def upt_rec)
  have d: "map kind (draw_my_card ''ex 5g 0r 5g'' ''5g'') = [''0r'', ''5g'', ''5g'', ''ex'']
    \<and> map label (draw_my_card ''ex 5g 0r 5g'' ''5g'') = [1, 2, 3, 4]" by code_simp
  then have "\<exists>x\<in>set (draw_my_card ''ex 5g 0r 5g'' ''5g''). label x = 4 \<and> kind x = ''ex''"
    by (auto simp: map_eq_Cons_conv)
  then show ?thesis using number_picks_shown_card [OF k c, of "''5g''"] c d by auto
qed

text \<open>
  C17 Whatever the player types, a line the client sends for a card is a legal move that the server carries
  out: when the client's hand consists of cards of seat \<open>i\<close> and its table card is the server's, the line
  names a card \<open>j\<close> of that seat that is wild or has the value or the colour of the table, the server finds
  \<open>j\<close>, and lays it: the player wins with his last card, otherwise the effect of \<open>j\<close> is applied to the
  state in which \<open>j\<close> has gone from his hand to the table and a new round is announced.
\<close>

theorem client_plays_legally:
  assumes "\<forall>t\<in>set (tokens my_card). \<exists>j<108. hand g i j \<and> cards ! j = t" "table_card g < 108" "colour g \<noteq> CHR 0x00"
    and "play_card typed my_card (table_text g) = Some (Some line, h)" "n \<noteq> 0"
  shows "\<exists>j name. line = ''9 '' @ name @ [NL] \<and> j < 108 \<and> hand g i j \<and> find_card g i name = Some j
    \<and> cards ! j ! 0 = name ! 0
    \<and> (cards ! j ! 1 = CHR ''x'' \<or> name = cards ! j \<and> (name ! 0 = table_text g ! 0 \<or> name ! 1 = colour g))
    \<and> (if hand_num g i \<le> 1 then \<exists>g'. seat_event rnd i n line g = Some (Ret g') \<and> table_card g' = j
       else seat_event rnd i n line g = map_option (\<lambda>g. Go (StartRound name g)) (card_effect rnd (laid i j (name ! 1) g)))"
proof -
  have known: "\<forall>t\<in>set (tokens my_card). known t"
    using assms(1) cards_known length_cards(1) by (metis nth_mem)
  note tt = table_text_chars [OF assms(2,3)]
  obtain name where name: "line = ''9 '' @ name @ [NL]" "length name = 2"
    "(name \<in> set (tokens my_card) \<and> \<not> wild_name name \<and> (name ! 0 = table_text g ! 0 \<or> name ! 1 = table_text g ! 1))
     \<or> (wild_name name \<and> name[1 := CHR ''x''] \<in> set (tokens my_card) \<and> name ! 1 \<in> {CHR ''r'', CHR ''y'', CHR ''g'', CHR ''b''})"
    using play_card_sends [OF known assms(4) tt(1,2)] by blast
  let ?card = "if wild_name name then name[1 := CHR ''x''] else name"
  have "?card \<in> set (tokens my_card)" using name(3) by auto
  then obtain j0 where j0: "j0 < 108" "hand g i j0" "cards ! j0 = ?card" using assms(1) by blast
  obtain j where j: "find_card g i name = Some j" "j < 108" "hand g i j" "cards ! j = ?card"
    by (rule find_card_holds [OF j0])
  have "known name \<or> (wild_name name \<and> length name = 2 \<and> name ! 1 \<in> {CHR ''r'', CHR ''y'', CHR ''g'', CHR ''b''})"
    using name(2,3) known by auto
  then have tok: "tokens (takeWhile (\<lambda>x. x \<noteq> NL) line) = [''9'', name]" unfolding name(1) by (rule card_plain)
  have "cards ! j ! 0 = name ! 0" using j(4) name(2) by simp
  moreover have "cards ! j ! 1 = CHR ''x'' \<or> name = cards ! j \<and> (name ! 0 = table_text g ! 0 \<or> name ! 1 = colour g)"
    using name(2,3) j(4) tt(3) by auto
  ultimately show ?thesis
    using name(1) j(1-3) seat_event_play [OF name(1) tok name(2) j(1) assms(5), where rnd = rnd]
    by (intro exI [of _ j] exI [of _ name]) (simp add: not_le)
qed

theorem client_plays_legally_witness:
  "\<exists>g'. seat_event id 0 1 (''9 6b'' @ [NL]) (sample_game\<lparr>table_card := 48, colour := CHR ''g''\<rparr>) = Some (Ret g')"
proof -
  let ?g = "sample_game\<lparr>table_card := 48, colour := CHR ''g''\<rparr>"
  have c: "cards ! 50 = ''6b''" "table_text ?g = ''6g''" by (simp_all add: cards_def table_text_def)
  have hyp: "\<forall>t\<in>set (tokens ''6b''). \<exists>j<108. hand ?g 0 j \<and> cards ! j = t"
    using c(1) by (auto simp: tokens_def sample_game_def)
  have "play_card ''1'' ''6b'' ''6g'' = Some (Some (''9 6b'' @ [NL]), NoHint)" by code_simp
  then have p: "play_card ''1'' ''6b'' (table_text ?g) = Some (Some (''9 6b'' @ [NL]), NoHint)" by (simp only: c)
  from client_plays_legally [OF hyp _ _ p, where n = 1 and rnd = id]
  obtain j name where n: "''9 6b'' @ [NL] = ''9 '' @ name @ [NL]"
    "if hand_num ?g 0 \<le> 1 then \<exists>g'. seat_event id 0 1 (''9 6b'' @ [NL]) ?g = Some (Ret g') \<and> table_card g' = j
     else seat_event id 0 1 (''9 6b'' @ [NL]) ?g = map_option (\<lambda>g. Go (StartRound name g)) (card_effect id (laid 0 j (name ! 1) ?g))"
    by auto
  moreover have "hand_num ?g 0 \<le> 1" by (simp add: sample_game_def)
  ultimately show ?thesis by auto
qed

end
