(* ===== verification/Uno_Client_Game.thy ===== *)
theory Uno_Client_Game
  imports Uno_Client_Hand
begin

text \<open>
  \<open>tcpcliserv/final_cli.c\<close>, the function \<open>game\<close> of the UNO client with what it draws: the player's
  picture of the game, the messages of the server that change it, the commands typed, and the loop over
  \<open>select\<close>. The arrays \<open>player\<close>, \<open>player_remain\<close> and \<open>uno\<close> are lists of length \<open>n\<close>. The texts on the screen
  are modelled by what they say; the terminal's escape sequences are left out. \<open>None\<close> is undefined
  behaviour: a NULL from \<open>strtok\<close> used, an index outside an array, a string too long for its buffer.
\<close>

section \<open>What is on the screen\<close>

datatype symbol = Back | Wild | Plus4 | Digit char | Skip | Reverse | Plus2

text \<open>\<open>draw_card\<close>: the colour of the frame (\<open>None\<close>: each side its own, or no colour), the symbol, and how
  many cards deep the pile looks. Nothing is drawn for a card that is not one.\<close>

record card_view =
  frame :: "int option"
  symbol_of :: "symbol option"
  depth :: nat

definition card_symbol :: "char \<Rightarrow> symbol option" where
  "card_symbol c =
     (if CHR ''0'' = c \<or> c \<in> set ''123456789'' then Some (Digit c)
      else if c = CHR ''a'' then Some Skip
      else if c = CHR ''b'' then Some Reverse
      else if c = CHR ''c'' then Some Plus2
      else if c = CHR ''d'' then Some Wild
      else if c = CHR ''e'' then Some Plus4
      else None)"

definition draw_card_view :: "string \<Rightarrow> int \<Rightarrow> card_view" where
  "draw_card_view face num =
     \<lparr>frame = (if char_at face 1 = CHR ''x'' then None
               else Some (if char_at face 1 = CHR ''r'' then 31 else if char_at face 1 = CHR ''y'' then 33
                          else if char_at face 1 = CHR ''g'' then 32 else if char_at face 1 = CHR ''b'' then 34 else 0)),
      symbol_of = (if char_at face 1 = CHR ''x'' then
                     (if char_at face 0 = CHR ''x'' then Some Back
                      else if char_at face 0 = CHR ''d'' then Some Wild
                      else if char_at face 0 = CHR ''e'' then Some Plus4 else None)
                   else card_symbol (char_at face 0)),
      depth = (if num \<ge> 3 then 3 else if num \<ge> 2 then 2 else 1)\<rparr>"

text \<open>\<open>draw_player\<close>: a name of more than ten characters is cut in the array it was passed in.\<close>

record seat_view =
  place :: "int \<times> int"
  seat_no :: nat
  seat_player :: "string option"
  backs :: card_view
  cards_left :: "int option"
  uno_shown :: bool

definition cut_name :: "string \<Rightarrow> string" where
  "cut_name name = (if length name > 10 then take 7 name @ ''...'' else name)"

definition draw_player :: "int \<times> int \<Rightarrow> nat \<Rightarrow> string \<Rightarrow> int \<Rightarrow> bool \<Rightarrow> seat_view" where
  "draw_player pos order name rem uno =
     \<lparr>place = pos, seat_no = order, seat_player = (if rem = -1 then None else Some (cut_name name)),
      backs = draw_card_view ''xx'' (if rem = 1 then 1 else if rem = 2 then 2 else 3),
      cards_left = (if rem = -1 then None else Some rem), uno_shown = uno\<rparr>"

datatype notice = Hello | FalseUno string | Caught string string | FalseCatch string string
  | CalledUno string | LeftRoom string | Reshuffled

record picture =
  pic_notice :: notice
  pic_direct :: bool
  pic_turn :: "nat \<times> string \<times> bool"
  pic_time :: int
  pic_table :: card_view
  pic_table_num :: int
  pic_deck :: card_view
  pic_deck_num :: int
  pic_seats :: "seat_view list"
  pic_hand :: "shown_card list"
  pic_hint :: hint

datatype screen = Blank | Table picture | ChatRoom "string list" | LastOne string | GameOver string string

section \<open>The state of a client in a game\<close>

record client =
  players :: "string list"
  n_remain :: int
  remain :: "int list"
  uno_flags :: "bool list"
  broadcast :: notice
  hint_text :: hint
  direct :: bool
  whos_turn :: string
  my_card :: string
  new_card :: string
  card_remain :: int
  table_card_num :: int
  top_card :: string
  start_time :: int
  renew :: bool
  chat :: bool
  chat_log :: "string list"
  record_index :: nat
  screen :: screen
  sent :: "string list"

text \<open>From the line \<open>9 name ...\<close>; \<open>whos_turn\<close> is not initialised.\<close>

definition client_init :: "string \<Rightarrow> string \<Rightarrow> int \<Rightarrow> client option" where
  "client_init garbage recvline now =
     (case tokens (takeWhile (\<lambda>c. c \<noteq> NL) recvline) of
        [] \<Rightarrow> None
      | _ # names \<Rightarrow>
          if length names \<le> 10 \<and> (\<forall>s\<in>set names. length s < 32)
          then Some \<lparr>players = names, n_remain = int (length names), remain = replicate (length names) 0,
                     uno_flags = replicate (length names) False, broadcast = Hello, hint_text = NoHint,
                     direct = False, whos_turn = garbage, my_card = [], new_card = [], card_remain = 0,
                     table_card_num = 0, top_card = [], start_time = now, renew = False, chat = False,
                     chat_log = replicate 50 [], record_index = 0, screen = Blank, sent = []\<rparr>
          else None)"

section \<open>The table\<close>

text \<open>Where the seats of a table of \<open>n\<close> are drawn, the player himself first.\<close>

definition seat_places :: "nat \<Rightarrow> (int \<times> int) list" where
  "seat_places n =
     (if n = 2 then [(17, 58), (4, 58)]
      else if n = 3 then [(17, 58), (4, 1), (4, 116)]
      else if n = 4 then [(17, 58), (10, 1), (4, 58), (10, 116)]
      else if n = 5 then [(17, 58), (13, 1), (4, 20), (4, 96), (13, 116)]
      else if n = 6 then [(17, 58), (16, 15), (6, 1), (4, 58), (6, 116), (16, 105)]
      else if n = 7 then [(17, 58), (16, 10), (7, 1), (4, 32), (4, 85), (7, 116), (16, 110)]
      else if n = 8 then [(17, 58), (17, 20), (11, 1), (4, 20), (4, 58), (4, 96), (11, 116), (17, 96)]
      else if n = 9 then [(17, 58), (17, 30), (13, 1), (5, 10), (4, 40), (4, 78), (5, 110), (13, 116), (17, 88)]
      else if n = 10 then [(17, 58), (17, 30), (15, 1), (6, 1), (4, 30), (4, 58), (4, 86), (6, 116), (15, 116), (17, 86)]
      else [])"

definition seat_index :: "nat \<Rightarrow> nat \<Rightarrow> nat \<Rightarrow> nat" where
  "seat_index n my_order k = (if k = 0 then my_order - 1 else (my_order + k - 1) mod n)"

definition seat_label :: "nat \<Rightarrow> nat \<Rightarrow> nat \<Rightarrow> nat" where
  "seat_label n my_order k =
     (if k = 0 then my_order else if (my_order + k) mod n = 0 then my_order + k else (my_order + k) mod n)"

definition draw_seats :: "nat \<Rightarrow> nat \<Rightarrow> string list \<Rightarrow> int list \<Rightarrow> bool list \<Rightarrow> seat_view list" where
  "draw_seats n my_order names rem uno =
     map (\<lambda>(k, pos). let i = seat_index n my_order k in
                       draw_player pos (seat_label n my_order k) (names ! i) (rem ! i) (uno ! i))
       (enumerate 0 (seat_places n))"

text \<open>The last position of a name in the table, counted from 1; \<open>draw_table\<close> has no \<open>break\<close> in its loop.\<close>

definition last_order :: "string list \<Rightarrow> string \<Rightarrow> nat" where
  "last_order names name = foldl (\<lambda>k i. if names ! i = name then i + 1 else k) 0 [0..<length names]"

text \<open>With the client's name not in the table, \<open>player[-1]\<close> is read.\<close>

definition draw_table :: "string \<Rightarrow> int \<Rightarrow> client \<Rightarrow> client option" where
  "draw_table my_id time c =
     (let n = length (players c);
          order_idx = last_order (players c) (whos_turn c) - 1;
          my_order = last_order (players c) my_id
      in if 2 \<le> n \<and> n \<le> 10 \<and> my_order = 0 then None
         else Some (c\<lparr>screen := Table
           \<lparr>pic_notice = broadcast c, pic_direct = direct c,
            pic_turn = (order_idx + 1, whos_turn c, my_id = whos_turn c), pic_time = time,
            pic_table = draw_card_view (top_card c) (table_card_num c), pic_table_num = table_card_num c,
            pic_deck = draw_card_view ''xx'' (card_remain c), pic_deck_num = card_remain c,
            pic_seats = draw_seats n my_order (players c) (remain c) (uno_flags c),
            pic_hand = draw_my_card (my_card c) (new_card c), pic_hint = hint_text c\<rparr>,
           players := (if 2 \<le> n \<and> n \<le> 10 then map cut_name (players c) else players c)\<rparr>))"

section \<open>A line from the server\<close>

text \<open>Two cards drawn as a penalty by a player, as the others see it.\<close>

definition penalty :: "string \<Rightarrow> int \<Rightarrow> client \<Rightarrow> client" where
  "penalty who k c =
     (let hit = (\<lambda>i. players c ! i = who); is = [0..<length (players c)] in
      c\<lparr>uno_flags := map (\<lambda>i. if hit i \<and> remain c ! i = 1 then False else uno_flags c ! i) is,
        remain := map (\<lambda>i. if hit i then remain c ! i + k else remain c ! i) is,
        card_remain := card_remain c - k * int (length (filter hit is))\<rparr>)"

definition append_card :: "string \<Rightarrow> string \<Rightarrow> string" where
  "append_card text t = (if text = [] then t else text @ '' '' @ t)"

text \<open>\<open>10\<close>: the state of the round. \<open>my_card[strlen(my_card)-1]\<close> with no card at all is outside the array.\<close>

definition read_round :: "string list \<Rightarrow> int \<Rightarrow> client \<Rightarrow> client option" where
  "read_round ws later c =
     (case ws of
        _ # table # deck_num # dir # who # rest \<Rightarrow>
          let n = length (players c); nums = map (\<lambda>t. as_int (strtol10 t)) (take n rest); mine = drop n rest in
          if 2 < length table \<or> 32 \<le> length who \<or> length rest < n \<or> mine = [] then None
          else Some (c\<lparr>start_time := later, renew := True, top_card := table,
                       card_remain := as_int (strtol10 deck_num), direct := (char_at dir 0 = CHR ''1''),
                       whos_turn := who, remain := nums,
                       uno_flags := map (\<lambda>i. if nums ! i \<ge> 2 then False else uno_flags c ! i) [0..<n],
                       my_card := butlast (concat (map (\<lambda>t. t @ '' '') mine))\<rparr>)
      | _ \<Rightarrow> None)"

text \<open>\<open>12\<close>: the cards I draw.\<close>

definition read_draw :: "string \<Rightarrow> string list \<Rightarrow> client \<Rightarrow> client option" where
  "read_draw my_id ws c =
     (let ts = tl ws;
          c = c\<lparr>my_card := foldl append_card (my_card c) ts, new_card := foldl append_card (new_card c) ts\<rparr>
      in if ws = [] \<or> 4096 \<le> length (my_card c) \<or> 4096 \<le> length (new_card c) then None
         else Some (penalty my_id (int (length ts)) c))"

text \<open>The effect of a line before the screen is drawn again.\<close>

definition read_line :: "string \<Rightarrow> int \<Rightarrow> string \<Rightarrow> string \<Rightarrow> client \<Rightarrow> client outcome option" where
  "read_line my_id later recvline line c =
     (let ws = tokens (takeWhile (\<lambda>x. x \<noteq> NL) line);
          starts = (\<lambda>a b. char_at line 0 = a \<and> char_at line 1 = b)
      in if starts CHR ''1'' CHR ''0'' then map_option Go (read_round ws later c)
         else if starts CHR ''1'' CHR ''1'' then
           (case ws of
              _ # who # _ \<Rightarrow> (let c = c\<lparr>broadcast := FalseUno who\<rparr> in Some (Go (if my_id \<noteq> who then penalty who 2 c else c)))
            | _ \<Rightarrow> None)
         else if starts CHR ''1'' CHR ''2'' then map_option Go (read_draw my_id ws c)
         else if starts CHR ''2'' CHR ''0'' then Some (Go (c\<lparr>broadcast := Reshuffled\<rparr>))
         else if starts CHR ''1'' CHR ''3'' then
           (case ws of
              _ # victim # killer # _ \<Rightarrow>
                (let c = c\<lparr>broadcast := Caught victim killer\<rparr> in Some (Go (if my_id \<noteq> victim then penalty victim 2 c else c)))
            | _ \<Rightarrow> None)
         else if starts CHR ''1'' CHR ''9'' then
           (case ws of
              _ # killer # victim # _ \<Rightarrow>
                (let c = c\<lparr>broadcast := FalseCatch killer victim\<rparr> in Some (Go (if my_id \<noteq> killer then penalty killer 2 c else c)))
            | _ \<Rightarrow> None)
         else if starts CHR ''1'' CHR ''4'' then
           (case ws of
              _ # who # _ \<Rightarrow>
                Some (Go (c\<lparr>broadcast := CalledUno who,
                            uno_flags := map (\<lambda>i. players c ! i = who \<or> uno_flags c ! i) [0..<length (players c)]\<rparr>))
            | _ \<Rightarrow> None)
         else if starts CHR ''7'' CHR '' '' then
           (case ws of
              _ # who # _ \<Rightarrow>
                Some (Go (c\<lparr>n_remain := n_remain c - 1, broadcast := LeftRoom who,
                            remain := map (\<lambda>i. if players c ! i = who then -1 else remain c ! i) [0..<length (players c)]\<rparr>))
            | _ \<Rightarrow> None)
         else if starts CHR ''1'' CHR ''5'' then
           (case ws of
              _ # winner # pts # _ \<Rightarrow>
                Some (Ret (c\<lparr>screen := (if n_remain c = 1 then LastOne pts else GameOver winner pts)\<rparr>))
            | _ \<Rightarrow> None)
         else if starts CHR ''2'' CHR ''1'' then
           (if 150 \<le> length (drop 3 recvline) then None
            else Some (Go (c\<lparr>chat_log := (chat_log c)[record_index c mod 50 := drop 3 recvline],
                             record_index := record_index c + 1\<rparr>)))
         else Some (Die c))"

text \<open>The chat room on the screen: the filled entries, oldest first.\<close>

definition chat_screen :: "client \<Rightarrow> screen" where
  "chat_screen c =
     ChatRoom (filter (\<lambda>l. l \<noteq> []) (map (\<lambda>i. chat_log c ! ((i + record_index c) mod 50)) [0..<50]))"

definition hand_count :: "client \<Rightarrow> int" where
  "hand_count c = sum_list (filter (\<lambda>r. r \<noteq> -1) (remain c))"

text \<open>One line: its effect, the cards on the table, and the screen.\<close>

definition client_line :: "string \<Rightarrow> int \<Rightarrow> int \<Rightarrow> string \<Rightarrow> string \<Rightarrow> client \<Rightarrow> client outcome option" where
  "client_line my_id time later recvline line c =
     (case read_line my_id later recvline line c of
        Some (Go c) \<Rightarrow>
          (let c = c\<lparr>table_card_num := 108 - card_remain c - hand_count c\<rparr> in
           if chat c then Some (Go (c\<lparr>screen := chat_screen c\<rparr>))
           else map_option (\<lambda>c. Go (c\<lparr>new_card := (if renew c then [] else new_card c), renew := False\<rparr>))
                  (draw_table my_id time c))
      | r \<Rightarrow> r)"

section \<open>What one \<open>read\<close> returns\<close>

text \<open>The inner loop looks for the newline behind the end of the buffer when there is none.\<close>

fun client_lines :: "string \<Rightarrow> int \<Rightarrow> int \<Rightarrow> string \<Rightarrow> string list \<Rightarrow> client \<Rightarrow> client outcome option" where
  "client_lines my_id time later recvline [] c = Some (Go c)"
| "client_lines my_id time later recvline (l # ls) c =
     (if last l \<noteq> NL then None
      else case client_line my_id time later recvline l c of
        Some (Go c') \<Rightarrow> client_lines my_id time later recvline ls c'
      | r \<Rightarrow> r)"

datatype arrival = Nothing | ReadError | Bytes string

definition client_read :: "string \<Rightarrow> int \<Rightarrow> int \<Rightarrow> arrival \<Rightarrow> client \<Rightarrow> client outcome option" where
  "client_read my_id time later a c =
     (case a of
        Nothing \<Rightarrow> Some (Go c)
      | ReadError \<Rightarrow> None
      | Bytes bs \<Rightarrow>
          if 4096 \<le> length bs then None
          else let recvline = takeWhile (\<lambda>x. x \<noteq> CHR 0x00) bs
               in client_lines my_id time later recvline (lines_of recvline) c)"

section \<open>A line typed\<close>

definition send_line :: "string \<Rightarrow> client \<Rightarrow> client" where
  "send_line l c = c\<lparr>sent := sent c @ [l]\<rparr>"

definition uno_line :: "string \<Rightarrow> int \<Rightarrow> client \<Rightarrow> client" where
  "uno_line my_id cur c =
     (case find (\<lambda>i. my_id = players c ! i) [0..<length (players c)] of
        None \<Rightarrow> c
      | Some i \<Rightarrow> send_line ((if remain c ! i = 1 then ''11 1 '' else ''11 0 '') @ fmt_d cur @ [NL]) c)"

definition catch_line :: "string \<Rightarrow> int \<Rightarrow> client \<Rightarrow> client" where
  "catch_line name cur c =
     (case find (\<lambda>i. name = players c ! i) [0..<length (players c)] of
        None \<Rightarrow> c
      | Some i \<Rightarrow> send_line ((if remain c ! i = 1 then ''12 1 '' else ''12 0 '') @ players c ! i @ '' '' @ fmt_d cur @ [NL]) c)"

text \<open>A command outside the chat room. \<open>fgets\<close> delivers the line with its newline, or nothing at the end of
  the input.\<close>

definition client_command :: "string \<Rightarrow> int \<Rightarrow> string \<Rightarrow> client \<Rightarrow> client outcome option" where
  "client_command my_id cur typed c =
     (let c = c\<lparr>hint_text := NoHint\<rparr> in
      if typed = ''gg'' @ [NL] then Some (Ret (send_line (''8'' @ [NL]) c))
      else if typed = ''skip'' @ [NL] then
        Some (Go (if my_id = whos_turn c then (send_line (''10'' @ [NL]) c)\<lparr>hint_text := Skipped\<rparr>
                  else c\<lparr>hint_text := NotYourTurn\<rparr>))
      else if typed = ''UNO'' @ [NL] then Some (Go (uno_line my_id cur c))
      else if take 4 typed = ''UNO '' then Some (Go (catch_line (takeWhile (\<lambda>x. x \<noteq> NL) (drop 4 typed)) cur c))
      else if my_id = whos_turn c then
        (case play_card (takeWhile (\<lambda>x. x \<noteq> NL) typed) (my_card c) (top_card c) of
           None \<Rightarrow> None
         | Some (None, h) \<Rightarrow> Some (Go (c\<lparr>hint_text := h\<rparr>))
         | Some (Some l, h) \<Rightarrow> Some (Go (send_line l c)))
      else Some (Go (c\<lparr>hint_text := NotYourTurn\<rparr>)))"

definition client_typed :: "string \<Rightarrow> int \<Rightarrow> int \<Rightarrow> string \<Rightarrow> client \<Rightarrow> client outcome option" where
  "client_typed my_id time cur typed c =
     (let c = (if typed = ''chat'' @ [NL] then c\<lparr>chat := \<not> chat c\<rparr> else c) in
      if chat c then
        Some (Go (if typed = ''chat'' @ [NL] then c\<lparr>screen := chat_screen c\<rparr>
                  else if length typed \<le> 100 then send_line (''21 '' @ my_id @ '': '' @ typed) c else c))
      else
        (case client_command my_id cur typed c of
           Some (Go c) \<Rightarrow> map_option Go (draw_table my_id time c)
         | r \<Rightarrow> r))"

section \<open>One round of the loop\<close>

text \<open>What happens in a round: the time at its start, the time when the server's line is handled, what
  arrives, and what is typed.\<close>

record client_event =
  cur :: int
  later :: int
  arrives :: arrival
  typed :: "string option"

definition remaining_time :: "int \<Rightarrow> client \<Rightarrow> int" where
  "remaining_time now c = 60 - as_int (now - start_time c)"

definition client_round :: "string \<Rightarrow> client_event \<Rightarrow> client \<Rightarrow> client outcome option" where
  "client_round my_id e c =
     (let time = remaining_time (cur e) c;
          c = (if time \<le> 0 \<and> my_id = whos_turn c then send_line (''10'' @ [NL]) c else c)
      in case client_read my_id time (later e) (arrives e) c of
           Some (Go c) \<Rightarrow>
             (case typed e of
                None \<Rightarrow> Some (Go c)
              | Some l \<Rightarrow> client_typed my_id time (cur e) l c)
         | r \<Rightarrow> r)"

section \<open>The seats drawn\<close>

lemma seat_count_cases: "2 \<le> n \<Longrightarrow> n \<le> 10 \<Longrightarrow> n \<in> {2, 3, 4, 5, 6, 7, 8, 9, 10 :: nat}"
  by auto

lemma seat_places_ok:
  assumes "2 \<le> n" "n \<le> 10"
  shows "length (seat_places n) = n" "distinct (seat_places n)"
  using seat_count_cases [OF assms] by (auto simp: seat_places_def)

lemma seat_index_onto:
  assumes "1 \<le> m" "m \<le> n"
  shows "set (map (seat_index n m) [0..<n]) = {..<n}" "distinct (map (seat_index n m) [0..<n])"
proof -
  have e: "seat_index n m k = (m - 1 + k) mod n" if "k < n" for k
    using assms by (cases k) (simp_all add: seat_index_def)
  have inj: "inj_on (seat_index n m) {..<n}"
  proof (rule inj_onI)
    fix a b
    assume ab: "a \<in> {..<n}" "b \<in> {..<n}" "seat_index n m a = seat_index n m b"
    then have "(m - 1 + a) mod n = (m - 1 + b) mod n" by (simp add: e)
    then have "int n dvd (int (m - 1 + a) - int (m - 1 + b))"
      by (metis mod_eq_dvd_iff of_nat_mod)
    then have "int n dvd (int a - int b)" by simp
    then have "int a mod int n = int b mod int n" by (simp add: mod_eq_dvd_iff)
    then show "a = b" using ab(1,2) by simp
  qed
  have "seat_index n m ` {..<n} \<subseteq> {..<n}" using assms e by auto
  with inj have "seat_index n m ` {..<n} = {..<n}" by (intro endo_inj_surj) simp_all
  moreover have "set (map (seat_index n m) [0..<n]) = seat_index n m ` {..<n}" by (auto simp: atLeast0LessThan)
  ultimately show "set (map (seat_index n m) [0..<n]) = {..<n}" by simp
  show "distinct (map (seat_index n m) [0..<n])"
    using inj by (simp add: distinct_map atLeast0LessThan)
qed

lemma seat_label_index:
  assumes "1 \<le> m" "m \<le> n" "k < n"
  shows "seat_label n m k = seat_index n m k + 1"
proof (cases "k = 0")
  case True
  then show ?thesis using assms by (simp add: seat_label_def seat_index_def)
next
  case k: False
  show ?thesis
  proof (cases "m + k \<le> n")
    case True
    then show ?thesis using k assms by (cases "m + k = n") (simp_all add: seat_label_def seat_index_def)
  next
    case False
    then have "(m + k) mod n = m + k - n" "(m + k - 1) mod n = m + k - 1 - n"
      using assms by (simp_all add: mod_if)
    then show ?thesis using k False assms by (simp add: seat_label_def seat_index_def)
  qed
qed

lemma last_order_snoc: "last_order (xs @ [x]) s = (if x = s then length xs + 1 else last_order xs s)"
proof -
  have "foldl (\<lambda>k i. if (xs @ [x]) ! i = s then i + 1 else k) a [0..<length xs]
      = foldl (\<lambda>k i. if xs ! i = s then i + 1 else k) a [0..<length xs]" for a
    by (rule foldl_cong) (auto simp: nth_append)
  then show ?thesis by (simp add: last_order_def nth_append)
qed

lemma last_order_Nil [simp]: "last_order [] s = 0"
  by (simp add: last_order_def)

lemma last_order_0: "last_order xs s = 0 \<longleftrightarrow> s \<notin> set xs"
  by (induction xs rule: rev_induct) (auto simp: last_order_snoc)

lemma last_order_le: "last_order xs s \<le> length xs"
  by (induction xs rule: rev_induct) (auto simp: last_order_snoc)

lemma last_order_nth: "s \<in> set xs \<Longrightarrow> xs ! (last_order xs s - 1) = s"
proof (induction xs rule: rev_induct)
  case Nil
  then show ?case by simp
next
  case (snoc x xs)
  show ?case
  proof (cases "x = s")
    case True
    then show ?thesis by (simp add: last_order_snoc)
  next
    case False
    then have "s \<in> set xs" using snoc.prems by simp
    then have "last_order xs s \<noteq> 0" by (simp add: last_order_0)
    then have "last_order xs s - 1 < length xs" using last_order_le [of xs s] by linarith
    then show ?thesis using snoc.IH \<open>s \<in> set xs\<close> False by (simp add: last_order_snoc nth_append)
  qed
qed

lemma draw_seats_nth:
  assumes "2 \<le> n" "n \<le> 10" "k < n"
  shows "draw_seats n m names rem uno ! k =
    (let i = seat_index n m k in draw_player (seat_places n ! k) (seat_label n m k) (names ! i) (rem ! i) (uno ! i))"
  using assms seat_places_ok(1) [OF assms(1,2)] by (simp add: draw_seats_def nth_enumerate_eq)

lemma length_draw_seats: "2 \<le> n \<Longrightarrow> n \<le> 10 \<Longrightarrow> length (draw_seats n m names rem uno) = n"
  by (simp add: draw_seats_def seat_places_ok)

lemma length_cut_name: "length (cut_name s) \<le> 10"
  by (simp add: cut_name_def)

lemma cut_name_short: "length s \<le> 10 \<Longrightarrow> cut_name s = s"
  by (simp add: cut_name_def)

lemma draw_table_Some:
  assumes "draw_table my_id t c = Some c'"
  shows "players c' = (if 2 \<le> length (players c) \<and> length (players c) \<le> 10 then map cut_name (players c) else players c)"
    "remain c' = remain c" "card_remain c' = card_remain c" "my_card c' = my_card c" "sent c' = sent c"
    "whos_turn c' = whos_turn c" "start_time c' = start_time c" "direct c' = direct c" "top_card c' = top_card c"
    "chat c' = chat c" "new_card c' = new_card c" "uno_flags c' = uno_flags c" "n_remain c' = n_remain c"
    "table_card_num c' = table_card_num c" "chat_log c' = chat_log c" "record_index c' = record_index c"
  using assms by (auto simp: draw_table_def Let_def split: if_splits)

lemma draw_table_ok:
  "my_id \<in> set (players c) \<Longrightarrow> draw_table my_id t c \<noteq> None"
  by (simp add: draw_table_def Let_def last_order_0)

section \<open>Whole lines\<close>

lemma client_lines_whole:
  "client_lines my_id t lt recvline ls c = Some (Go c') \<Longrightarrow> \<forall>l\<in>set ls. last l = NL"
  by (induction ls arbitrary: c) (auto split: if_splits option.splits outcome.splits)

section \<open>Correctness\<close>

text \<open>
  The table as drawn: for two to ten players with the player himself among them, \<open>draw_table\<close> draws
  every player exactly once, in places that are all different, under the number that is his position in
  the list of players, with his cards and his UNO mark, and the player himself first.
\<close>

lemma table_drawn:
  assumes "2 \<le> length (players c)" "length (players c) \<le> 10" "my_id \<in> set (players c)"
  shows "\<exists>c' p. draw_table my_id t c = Some c' \<and> screen c' = Table p
    \<and> distinct (map place (pic_seats p))
    \<and> distinct (map seat_no (pic_seats p)) \<and> set (map seat_no (pic_seats p)) = {1..length (players c)}
    \<and> players c ! (seat_no (hd (pic_seats p)) - 1) = my_id
    \<and> (\<forall>v\<in>set (pic_seats p). let i = seat_no v - 1 in
         seat_player v = (if remain c ! i = -1 then None else Some (cut_name (players c ! i)))
         \<and> cards_left v = (if remain c ! i = -1 then None else Some (remain c ! i)) \<and> uno_shown v = uno_flags c ! i)"
proof -
  let ?n = "length (players c)" and ?m = "last_order (players c) my_id"
  let ?s = "draw_seats ?n ?m (players c) (remain c) (uno_flags c)"
  have m: "1 \<le> ?m" "?m \<le> ?n" using assms(3) last_order_0 [of "players c" my_id] last_order_le [of "players c" my_id] by auto
  obtain c' p where c': "draw_table my_id t c = Some c'" "screen c' = Table p" "pic_seats p = ?s"
    using m by (auto simp: draw_table_def Let_def)
  have len: "length ?s = ?n" by (rule length_draw_seats [OF assms(1,2)])
  have nth: "?s ! k = draw_player (seat_places ?n ! k) (seat_index ?n ?m k + 1) (players c ! seat_index ?n ?m k)
      (remain c ! seat_index ?n ?m k) (uno_flags c ! seat_index ?n ?m k)" if "k < ?n" for k
    using draw_seats_nth [OF assms(1,2) that] seat_label_index [OF m that] by (simp add: Let_def)
  have "map place ?s = seat_places ?n"
    using len seat_places_ok(1) [OF assms(1,2)] by (intro nth_equalityI) (simp_all add: nth draw_player_def)
  then have d: "distinct (map place ?s)" using seat_places_ok(2) [OF assms(1,2)] by simp
  have no: "map seat_no ?s = map Suc (map (seat_index ?n ?m) [0..<?n])"
    using len by (intro nth_equalityI) (simp_all add: nth draw_player_def)
  then have "set (map seat_no ?s) = Suc ` {..<?n}" "distinct (map seat_no ?s)"
    unfolding no using seat_index_onto [OF m] by (auto simp: distinct_map inj_on_def)
  moreover have "Suc ` {..<?n} = {1..?n}" by (auto simp: image_iff Suc_le_eq gr0_conv_Suc)
  moreover have "seat_no (hd ?s) = ?m"
  proof -
    have "?s \<noteq> []" "0 < ?n" using len assms(1) by auto
    have "seat_no (?s ! 0) = ?m" using nth [OF \<open>0 < ?n\<close>] m(1) by (simp add: draw_player_def seat_index_def)
    then show ?thesis by (simp only: hd_conv_nth [OF \<open>?s \<noteq> []\<close>])
  qed
  then have "players c ! (seat_no (hd ?s) - 1) = my_id" using last_order_nth [OF assms(3)] by simp
  moreover have "\<forall>v\<in>set ?s. let i = seat_no v - 1 in
         seat_player v = (if remain c ! i = -1 then None else Some (cut_name (players c ! i)))
         \<and> cards_left v = (if remain c ! i = -1 then None else Some (remain c ! i)) \<and> uno_shown v = uno_flags c ! i"
  proof
    fix v
    assume "v \<in> set ?s"
    then obtain k where k: "k < ?n" "v = ?s ! k" using len by (auto simp: in_set_conv_nth)
    then show "let i = seat_no v - 1 in
         seat_player v = (if remain c ! i = -1 then None else Some (cut_name (players c ! i)))
         \<and> cards_left v = (if remain c ! i = -1 then None else Some (remain c ! i)) \<and> uno_shown v = uno_flags c ! i"
      by (simp add: nth draw_player_def)
  qed
  ultimately show ?thesis using c' d by (intro exI [of _ c'] exI [of _ p]) simp
qed

definition sample_client :: "string list \<Rightarrow> client" where
  "sample_client names = \<lparr>players = names, n_remain = int (length names), remain = replicate (length names) 7,
     uno_flags = replicate (length names) False, broadcast = Hello, hint_text = NoHint, direct = False,
     whos_turn = hd names, my_card = ''5g'', new_card = [], card_remain = 90, table_card_num = 1, top_card = ''5r'',
     start_time = 0, renew = False, chat = False, chat_log = replicate 50 [], record_index = 0, screen = Blank, sent = []\<rparr>"

lemma table_drawn_example:
  "\<exists>c' p. draw_table ''bo'' 60 (sample_client [''amy'', ''bo'']) = Some c' \<and> screen c' = Table p
     \<and> set (map seat_no (pic_seats p)) = {1, 2}"
proof -
  have "{1..Suc (Suc 0)} = {1, 2 :: nat}" by auto
  moreover have "2 \<le> length (players (sample_client [''amy'', ''bo'']))" "length (players (sample_client [''amy'', ''bo''])) \<le> 10"
    "''bo'' \<in> set (players (sample_client [''amy'', ''bo'']))" by (simp_all add: sample_client_def)
  ultimately show ?thesis using table_drawn [of "sample_client [''amy'', ''bo'']" "''bo''" 60]
    by (fastforce simp: sample_client_def)
qed

text \<open>
  A player with a name of more than ten characters, which the login allows, loses himself: drawing the
  table cuts the names in the very list the messages are compared with, so after the first drawing his
  name is not in the list any more and the next line of the server that leads to a drawing is undefined
  behaviour (\<open>player[-1]\<close> is read).
\<close>

lemma long_name_undefined:
  assumes "2 \<le> length (players c)" "length (players c) \<le> 10" "10 < length my_id"
    and "draw_table my_id t c = Some c'"
    and "read_line my_id lt recvline line c' = Some (Go c'')" "players c'' = players c'" "\<not> chat c''"
  shows "my_id \<notin> set (players c') \<and> client_line my_id t' lt recvline line c' = None"
proof -
  have p: "players c' = map cut_name (players c)" using draw_table_Some(1) [OF assms(4)] assms(1,2) by simp
  have notin: "my_id \<notin> set (players c')"
    using length_cut_name assms(3) unfolding p by (metis (no_types) ex_map_conv not_le)
  have "draw_table my_id t' (c''\<lparr>table_card_num := 108 - card_remain c'' - hand_count c''\<rparr>) = None"
    using notin assms(1,2) p by (simp add: draw_table_def Let_def assms(6) last_order_0)
  then show ?thesis using notin assms(5,7) by (simp add: client_line_def Let_def)
qed

lemma long_name_undefined_example:
  "\<exists>c'. draw_table ''alexandrina'' 60 (sample_client [''alexandrina'', ''bo'']) = Some c'
     \<and> client_line ''alexandrina'' 60 5 (''20'' @ [NL]) (''20'' @ [NL]) c' = None"
proof -
  obtain c' where c': "draw_table ''alexandrina'' 60 (sample_client [''alexandrina'', ''bo'']) = Some c'"
    using draw_table_ok [of "''alexandrina''"] by (fastforce simp: sample_client_def)
  have "read_line ''alexandrina'' 5 (''20'' @ [NL]) (''20'' @ [NL]) c' = Some (Go (c'\<lparr>broadcast := Reshuffled\<rparr>))"
    by (simp add: read_line_def char_at_def)
  moreover have "\<not> chat c'" using draw_table_Some(10) [OF c'] by (simp add: sample_client_def)
  ultimately show ?thesis
    using long_name_undefined [OF _ _ _ c', where lt = 5] c' by (auto simp: sample_client_def)
qed

text \<open>
  The client relies on whole lines in every \<open>read\<close>: bytes that do not end with a newline, as when TCP
  delivers a message in two parts, never lead to a next round of the loop; unless a line before ends the
  game or the program, the inner loop runs behind the end of the buffer.
\<close>

lemma split_message_undefined:
  assumes "CHR 0x00 \<notin> set bs" "bs \<noteq> []" "last bs \<noteq> NL"
  shows "\<nexists>c'. client_read my_id t lt (Bytes bs) c = Some (Go c')"
proof
  have t: "takeWhile (\<lambda>x. x \<noteq> CHR 0x00) bs = bs" using assms(1) by (simp add: takeWhile_eq_all_conv) metis
  have "last (last (lines_of bs)) \<noteq> NL" "last (lines_of bs) \<in> set (lines_of bs)"
    using last_lines_of [OF assms(2)] assms(2,3) lines_of_eq_Nil [of bs] by simp_all
  moreover assume "\<exists>c'. client_read my_id t lt (Bytes bs) c = Some (Go c')"
  then obtain c' where "client_lines my_id t lt bs (lines_of bs) c = Some (Go c')"
    by (auto simp: client_read_def t split: if_splits)
  ultimately show False using client_lines_whole by blast
qed

lemma split_message_undefined_example:
  "\<nexists>c'. client_read ''bo'' 60 5 (Bytes ''14 am'') (sample_client [''amy'', ''bo'']) = Some (Go c')"
  by (rule split_message_undefined) simp_all

text \<open>
  When a player's time is up the client asks the server to skip in every round of its loop, not once: two
  rounds in which nothing arrives and nothing is typed send two skips, and the server applies the second
  one to the next player.
\<close>

lemma timeout_skips_twice:
  assumes "my_id = whos_turn c" "remaining_time (cur e1) c \<le> 0" "remaining_time (cur e2) c \<le> 0"
    and "arrives e1 = Nothing" "arrives e2 = Nothing" "typed e1 = None" "typed e2 = None"
  shows "rounds (\<lambda>e c. the (client_round my_id e c)) [e1, e2] c = Go (c\<lparr>sent := sent c @ [''10'' @ [NL], ''10'' @ [NL]]\<rparr>)
    \<and> seat_event rnd i 3 (''10'' @ [NL]) g = map_option Go (game_skip rnd g)"
proof -
  have r: "client_round my_id e d = Some (Go (d\<lparr>sent := sent d @ [''10'' @ [NL]]\<rparr>))"
    if "my_id = whos_turn d" "remaining_time (cur e) d \<le> 0" "arrives e = Nothing" "typed e = None" for e d
    using that by (simp add: client_round_def client_read_def send_line_def)
  have t: "remaining_time k (c\<lparr>sent := x\<rparr>) = remaining_time k c" for k x by (simp add: remaining_time_def)
  let ?c = "c\<lparr>sent := sent c @ [''10'' @ [NL]]\<rparr>"
  have e: "client_round my_id e1 c = Some (Go ?c)" "client_round my_id e2 ?c = Some (Go (?c\<lparr>sent := sent ?c @ [''10'' @ [NL]]\<rparr>))"
    by (rule r; simp add: assms t)+
  have "rounds (\<lambda>e c. the (client_round my_id e c)) [e1, e2] c = Go (c\<lparr>sent := sent c @ [''10'' @ [NL], ''10'' @ [NL]]\<rparr>)"
    unfolding rounds.simps e option.sel outcome.case by simp
  moreover have "seat_event rnd i 3 (''10'' @ [NL]) g = map_option Go (game_skip rnd g)"
    by (simp add: seat_event_def char_at_def)
  ultimately show ?thesis ..
qed

lemma timeout_skips_twice_example:
  "\<exists>c'. rounds (\<lambda>e c. the (client_round ''amy'' e c))
      [\<lparr>cur = 60, later = 60, arrives = Nothing, typed = None\<rparr>, \<lparr>cur = 61, later = 61, arrives = Nothing, typed = None\<rparr>]
      (sample_client [''amy'', ''bo'']) = Go c' \<and> sent c' = [''10'' @ [NL], ''10'' @ [NL]]"
proof -
  have r: "remaining_time 60 (sample_client [''amy'', ''bo'']) \<le> 0" "remaining_time 61 (sample_client [''amy'', ''bo'']) \<le> 0"
    by (simp_all add: remaining_time_def sample_client_def as_int_def signed_take_bit_int_eq_self)
  have w: "''amy'' = whos_turn (sample_client [''amy'', ''bo''])" by (simp add: sample_client_def)
  show ?thesis
    using timeout_skips_twice [OF w, where ?e1.0 = "\<lparr>cur = 60, later = 60, arrives = Nothing, typed = None\<rparr>"
        and ?e2.0 = "\<lparr>cur = 61, later = 61, arrives = Nothing, typed = None\<rparr>" and rnd = id and i = 0 and g = sample_game] r
    by (simp add: sample_client_def)
qed

end
