(* ===== verification/Uno_Client_View.thy ===== *)
theory Uno_Client_View
  imports Uno_Client_Game
begin

text \<open>
  Server and client of the UNO game together: every client's picture of the game follows the state of the
  server. \<open>view g k c\<close> says that client \<open>c\<close> of the player on seat \<open>k\<close> sees the state \<open>g\<close>: the names, the
  number of cards of every player, the size of the deck, and his own cards. The messages a step of
  \<open>GameStart\<close> (\<open>final_server.c\<close>) sends to the connection of that seat take a client that sees the state
  before the step, through \<open>game\<close> (\<open>final_cli.c\<close>), to one that sees the state after it.
\<close>

section \<open>Words of a line\<close>

text \<open>The hand as \<open>my_card\<close> keeps it.\<close>

lemma tokens_spaced:
  assumes "\<forall>v\<in>set ws. plain v" "ws \<noteq> []"
  shows "tokens (butlast (concat (map (\<lambda>t. t @ '' '') ws))) = ws"
proof -
  have "concat (map (\<lambda>t. t @ '' '') (w # ws)) = w @ concat (map (\<lambda>v. '' '' @ v) ws) @ '' ''" for w and ws :: "string list"
    by (induction ws arbitrary: w) auto
  then have "butlast (concat (map (\<lambda>t. t @ '' '') (w # ws))) = w @ concat (map (\<lambda>v. '' '' @ v) ws)" for w and ws :: "string list"
    by (metis append_assoc butlast_snoc)
  then show ?thesis using assms tokens_words [of "hd ws" "tl ws"] by (cases ws) auto
qed

lemma tokens_append_card:
  assumes "plain t"
  shows "tokens (append_card acc t) = tokens acc @ [t]"
proof -
  have s: "split_at CHR '' '' (a @ CHR '' '' # b) = split_at CHR '' '' a @ split_at CHR '' '' b" for a b
  proof (induction a)
    case Nil
    then show ?case by simp
  next
    case (Cons x a)
    then show ?case by (cases "split_at CHR '' '' a") auto
  qed
  show ?thesis using assms split_at_last [of "CHR '' ''" t]
    by (simp add: append_card_def tokens_def s plain_def)
qed

lemma tokens_append_cards: "\<forall>t\<in>set ts. plain t \<Longrightarrow> tokens (foldl append_card acc ts) = tokens acc @ ts"
  by (induction ts arbitrary: acc) (simp_all add: tokens_append_card)

section \<open>Numbers\<close>

lemma atoi_fmt_d: "atoi (fmt_d i) = i"
proof (cases "i < 0")
  case True
  then show ?thesis using atoi_loop_fmt [of "nat (- i)" "[]"] by (simp add: fmt_d_def atoi_def)
next
  case False
  then show ?thesis by (simp add: fmt_d_def atoi_fmt_u)
qed

lemma read_number: "- 1 \<le> i \<Longrightarrow> i \<le> 108 \<Longrightarrow> as_int (strtol10 (fmt_d i)) = i"
  by (simp add: strtol10_def atoi_fmt_d LONG_MAX_def as_int_def signed_take_bit_int_eq_self)

lemma cards_plain: "j < 108 \<Longrightarrow> plain (cards ! j)"
proof -
  have "\<forall>k\<in>set book. plain k" by (simp add: book_def plain_def)
  moreover assume "j < 108"
  then have "cards ! j \<in> set cards" by (simp add: length_cards(1))
  ultimately show ?thesis using cards_known by (auto simp: known_def)
qed

section \<open>The view\<close>

definition taken :: "game \<Rightarrow> nat list" where
  "taken g = filter (\<lambda>i. used g i \<noteq> -1) [0..<10]"

definition names_of :: "game \<Rightarrow> string list" where
  "names_of g = map (seat_name g) (taken g)"

text \<open>Names of different players differ and are words that fit on the screen; connections differ.\<close>

definition names_ok :: "game \<Rightarrow> bool" where
  "names_ok g \<longleftrightarrow> (\<forall>i\<in>set (taken g). plain (seat_name g i) \<and> length (seat_name g i) \<le> 10)
     \<and> inj_on (seat_name g) (set (taken g)) \<and> inj_on (seat_conn g) (set (taken g))"

definition hand_cards :: "game \<Rightarrow> nat \<Rightarrow> string list" where
  "hand_cards g k = map ((!) cards) (filter (hand g k) [0..<108])"

text \<open>A view that is behind by \<open>m\<close> cards drawn by seat \<open>w\<close>.\<close>

definition late_view :: "nat \<Rightarrow> int \<Rightarrow> game \<Rightarrow> nat \<Rightarrow> client \<Rightarrow> bool" where
  "late_view w m g k c \<longleftrightarrow> players c = names_of g
     \<and> remain c = map (\<lambda>i. hand_num g i - (if i = w then m else 0)) (taken g)
     \<and> card_remain c = int (card_num g) + m
     \<and> mset (tokens (my_card c)) = mset (hand_cards g k)"

definition view :: "game \<Rightarrow> nat \<Rightarrow> client \<Rightarrow> bool" where
  "view g k c \<longleftrightarrow> players c = names_of g \<and> remain c = map (hand_num g) (taken g)
     \<and> card_remain c = int (card_num g) \<and> mset (tokens (my_card c)) = mset (hand_cards g k)"

lemma late_view_0: "late_view w 0 g k c \<longleftrightarrow> view g k c"
  by (simp add: late_view_def view_def)

text \<open>The lines sent to the connection of seat \<open>k\<close>.\<close>

definition to_seat :: "game \<Rightarrow> nat \<Rightarrow> msg list \<Rightarrow> string list" where
  "to_seat g k ms = map snd (filter (\<lambda>m. fst m = seat_conn g k) ms)"

lemma to_seat_append [simp]: "to_seat g k (ms @ ns) = to_seat g k ms @ to_seat g k ns"
  by (simp add: to_seat_def)

lemma to_seat_Nil [simp]: "to_seat g k [] = []"
  by (simp add: to_seat_def)

lemma to_seat_cong: "used g' = used g \<Longrightarrow> to_seat g' k ms = to_seat g k ms"
  by (simp add: to_seat_def seat_conn_def)

text \<open>Room for the cards drawn between two rounds.\<close>

definition roomy :: "nat \<Rightarrow> client \<Rightarrow> bool" where
  "roomy b c \<longleftrightarrow> length (my_card c) \<le> b \<and> length (new_card c) \<le> b"

section \<open>One line\<close>

text \<open>Drawing changes nothing of the view while the names fit.\<close>

lemma line_shown:
  assumes "read_line my_id lt R l c = Some (Go c1)" "my_id \<in> set (players c1)" "\<forall>s\<in>set (players c1). length s \<le> 10"
  shows "\<exists>c'. client_line my_id t lt R l c = Some (Go c') \<and> players c' = players c1 \<and> remain c' = remain c1
    \<and> card_remain c' = card_remain c1 \<and> my_card c' = my_card c1 \<and> (roomy b c1 \<longrightarrow> roomy b c')
    \<and> whos_turn c' = whos_turn c1 \<and> direct c' = direct c1 \<and> top_card c' = top_card c1
    \<and> table_card_num c' = 108 - card_remain c1 - hand_count c1"
proof (cases "chat c1")
  case True
  then show ?thesis using assms(1) by (simp add: client_line_def Let_def roomy_def)
next
  case False
  let ?c = "c1\<lparr>table_card_num := 108 - card_remain c1 - hand_count c1\<rparr>"
  have "draw_table my_id t ?c \<noteq> None" using assms(2) by (intro draw_table_ok) simp
  then obtain c2 where c2: "draw_table my_id t ?c = Some c2" by auto
  have "map cut_name (players c1) = players c1" using assms(3) by (simp add: map_idI cut_name_short)
  then have "players c2 = players c1" using draw_table_Some(1) [OF c2] by simp
  then show ?thesis using draw_table_Some [OF c2] assms(1) False c2 by (simp add: client_line_def Let_def roomy_def)
qed

text \<open>The lines of a view are drawn: names short, the player among them.\<close>

lemma names_in:
  assumes "names_ok g" "k \<in> set (taken g)"
  shows "seat_name g k \<in> set (names_of g)" "\<forall>s\<in>set (names_of g). length s \<le> 10"
  using assms by (auto simp: names_of_def names_ok_def)

lemma taken_set: "i \<in> set (taken g) \<longleftrightarrow> i < 10 \<and> used g i \<noteq> -1"
  by (auto simp: taken_def)

text \<open>A change at the player with a name is a change at his seat.\<close>

lemma map_at_name:
  assumes "names_ok g" "w \<in> set (taken g)" "players c = names_of g" "remain c = map f (taken g)"
  shows "map (\<lambda>i. if players c ! i = seat_name g w then h (remain c ! i) else remain c ! i) [0..<length (players c)]
    = map (\<lambda>i. if i = w then h (f i) else f i) (taken g)"
proof (rule nth_equalityI)
  show "length (map (\<lambda>i. if players c ! i = seat_name g w then h (remain c ! i) else remain c ! i) [0..<length (players c)])
    = length (map (\<lambda>i. if i = w then h (f i) else f i) (taken g))" by (simp add: assms(3) names_of_def)
next
  fix i
  assume "i < length (map (\<lambda>i. if players c ! i = seat_name g w then h (remain c ! i) else remain c ! i) [0..<length (players c)])"
  then have i: "i < length (taken g)" by (simp add: assms(3) names_of_def)
  then have "seat_name g (taken g ! i) = seat_name g w \<longleftrightarrow> taken g ! i = w"
    using assms(1,2) by (auto simp: names_ok_def inj_on_def)
  then show "map (\<lambda>i. if players c ! i = seat_name g w then h (remain c ! i) else remain c ! i) [0..<length (players c)] ! i
    = map (\<lambda>i. if i = w then h (f i) else f i) (taken g) ! i"
    using i by (simp add: assms(3,4) names_of_def)
qed

lemma one_name:
  assumes "names_ok g" "w \<in> set (taken g)" "players c = names_of g"
  shows "length (filter (\<lambda>i. players c ! i = seat_name g w) [0..<length (players c)]) = 1"
proof -
  have "distinct (map (seat_name g) (taken g))"
    using assms(1) by (simp add: names_ok_def distinct_map) (simp add: taken_def)
  then have d: "distinct (players c)" by (simp add: assms(3) names_of_def)
  have "seat_name g w \<in> set (players c)" using assms(2,3) by (simp add: names_of_def)
  then obtain i where i: "i < length (players c)" "players c ! i = seat_name g w" by (auto simp: in_set_conv_nth)
  have "filter (\<lambda>j. players c ! j = seat_name g w) [0..<length (players c)] = filter (\<lambda>j. j = i) [0..<length (players c)]"
    using nth_eq_iff_index_eq [OF d _ i(1)] i(2) by (intro filter_cong refl) simp
  moreover have "length (filter (\<lambda>j. j = i) [0..<n]) = (if i < n then 1 else 0)" for n
    by (induction n) auto
  ultimately show ?thesis using i(1) by simp
qed

text \<open>The penalty lines: who drew two cards is told to the others.\<close>

lemma penalty_view:
  assumes "names_ok g" "w \<in> set (taken g)" "late_view w m g k c"
  shows "late_view w (m - d) g k (penalty (seat_name g w) d c)"
    "players (penalty (seat_name g w) d c) = players c" "my_card (penalty (seat_name g w) d c) = my_card c"
    "new_card (penalty (seat_name g w) d c) = new_card c"
proof -
  have v: "players c = names_of g" "remain c = map (\<lambda>i. hand_num g i - (if i = w then m else 0)) (taken g)"
    "card_remain c = int (card_num g) + m" "mset (tokens (my_card c)) = mset (hand_cards g k)"
    using assms(3) by (simp_all add: late_view_def)
  have "remain (penalty (seat_name g w) d c)
      = map (\<lambda>i. if i = w then hand_num g i - (if i = w then m else 0) + d else hand_num g i - (if i = w then m else 0)) (taken g)"
    using map_at_name [OF assms(1,2) v(1,2), of "\<lambda>r. r + d"] by (simp add: penalty_def Let_def)
  then have "remain (penalty (seat_name g w) d c) = map (\<lambda>i. hand_num g i - (if i = w then m - d else 0)) (taken g)"
    by (simp cong: if_cong)
  then show "late_view w (m - d) g k (penalty (seat_name g w) d c)"
    using v one_name [OF assms(1,2) v(1)] by (simp add: late_view_def penalty_def Let_def)
qed (simp_all add: penalty_def Let_def)

text \<open>A card drawn: the line \<open>12\<close> for the player himself.\<close>

lemma read_draw_one:
  assumes "plain t" "read_line my_id lt R (''12 '' @ t @ [NL]) c = r"
  shows "r = map_option Go (read_draw my_id [''12'', t] c)"
proof -
  have w: "plain ''12''" "\<forall>v\<in>set [t]. plain v" using assms(1) by (simp_all add: plain_def)
  have "tokens (takeWhile (\<lambda>x. x \<noteq> NL) (''12 '' @ t @ [NL])) = [''12'', t]"
    using line_words [OF w] tokens_words [OF w] by simp
  then show ?thesis using assms(2) by (simp add: read_line_def char_at_def)
qed

lemma hand_cards_add:
  assumes "c < 108" "\<not> hand g k c" "hand g' k = (hand g k)(c := True)"
  shows "mset (hand_cards g' k) = add_mset (cards ! c) (mset (hand_cards g k))"
proof -
  have "mset (filter ((hand g k)(c := True)) [0..<n]) = (if c < n then add_mset c (mset (filter (hand g k) [0..<n])) else mset (filter (hand g k) [0..<n]))" for n
    by (induction n) (auto simp: assms(2) less_Suc_eq)
  from this [of 108] show ?thesis using assms(1,3) by (simp add: hand_cards_def del: upt_Suc)
qed

lemma length_append_card: "length (append_card acc t) \<le> length acc + length t + 1"
  by (simp add: append_card_def)

text \<open>The deck's next card is free.\<close>

lemma next_card:
  assumes "cards_ok g" "0 < card_num g"
  shows "card_seq g ! (card_num g - 1) < 108" "\<not> hand g i (card_seq g ! (card_num g - 1))"
proof -
  have "card_seq g ! (card_num g - 1) \<in> set (deck g)" using deck_draw [OF assms] by simp
  then show "card_seq g ! (card_num g - 1) < 108" "\<not> hand g i (card_seq g ! (card_num g - 1))"
    using cards_okD(4,5) [OF assms(1)] by auto
qed

text \<open>The names depend on two fields only.\<close>

definition same_names :: "game \<Rightarrow> game \<Rightarrow> bool" where
  "same_names g g' \<longleftrightarrow> used g' = used g \<and> cname g' = cname g"

lemma same_names_simps:
  assumes "same_names g g'"
  shows "taken g' = taken g" "names_of g' = names_of g" "names_ok g' = names_ok g" "seat_name g' = seat_name g"
    "seat_conn g' = seat_conn g" "to_seat g' = to_seat g"
proof -
  have u: "used g' = used g" "cname g' = cname g" using assms by (simp_all add: same_names_def)
  have t: "taken g' = taken g" "seat_name g' = seat_name g" "seat_conn g' = seat_conn g"
    by (simp_all add: taken_def u fun_eq_iff seat_name_def seat_conn_def)
  then show "taken g' = taken g" "names_of g' = names_of g" "names_ok g' = names_ok g" "seat_name g' = seat_name g"
    "seat_conn g' = seat_conn g" "to_seat g' = to_seat g"
    by (simp_all only: names_of_def names_ok_def to_seat_def [abs_def])
qed

lemma same_names_refl [simp]: "same_names g g"
  by (simp add: same_names_def)

lemma same_names_trans: "same_names g g' \<Longrightarrow> same_names g' g'' \<Longrightarrow> same_names g g''"
  by (simp add: same_names_def)

lemma same_names_ops [simp]:
  "same_names g (draw_card w g)" "same_names g (tell_game i l g)" "same_names g (StartRound name g)" "same_names g (next_turn g)"
  by (simp_all add: same_names_def draw_card_def Let_def tell_def tell_game_def StartRound_def next_turn_def)

lemma draw_card_out:
  "out (draw_card w g) = out g @ [(seat_conn g w, ''12 '' @ cards ! (card_seq g ! (card_num g - 1)) @ [NL])]"
  by (simp add: draw_card_def Let_def tell_def seat_conn_def)

text \<open>The messages of a step lead the client of seat \<open>k\<close> on; \<open>Q\<close> is what is known of it afterwards.\<close>

definition leads :: "string \<Rightarrow> int \<Rightarrow> int \<Rightarrow> string \<Rightarrow> nat \<Rightarrow> game \<Rightarrow> game \<Rightarrow> client \<Rightarrow> (client \<Rightarrow> bool) \<Rightarrow> bool" where
  "leads my_id t lt R k g g' c Q \<longleftrightarrow>
     (\<exists>ms c'. out g' = out g @ ms \<and> client_lines my_id t lt R (to_seat g k ms) c = Some (Go c') \<and> Q c')"

lemma leads_refl: "out g' = out g \<Longrightarrow> Q c \<Longrightarrow> leads my_id t lt R k g g' c Q"
  by (simp add: leads_def)

lemma client_lines_append:
  "client_lines my_id t lt R ls c = Some (Go c1) \<Longrightarrow>
   client_lines my_id t lt R (ls @ ls') c = client_lines my_id t lt R ls' c1"
  by (induction ls arbitrary: c) (auto split: if_splits option.splits outcome.splits)

lemma leads_trans:
  assumes "leads my_id t lt R k g g' c P" "same_names g g'" "\<And>c'. P c' \<Longrightarrow> leads my_id t lt R k g' g'' c' Q"
  shows "leads my_id t lt R k g g'' c Q"
proof -
  obtain ms c1 where 1: "out g' = out g @ ms" "client_lines my_id t lt R (to_seat g k ms) c = Some (Go c1)" "P c1"
    using assms(1) by (auto simp: leads_def)
  obtain ns c2 where 2: "out g'' = out g' @ ns" "client_lines my_id t lt R (to_seat g k ns) c1 = Some (Go c2)" "Q c2"
    using assms(3) [OF 1(3)] by (auto simp: leads_def same_names_simps [OF assms(2)])
  show ?thesis unfolding leads_def
    by (intro exI [of _ "ms @ ns"] exI [of _ c2]) (simp add: 1(1) 2 client_lines_append [OF 1(2)])
qed

lemma leads_mono: "leads my_id t lt R k g g' c P \<Longrightarrow> (\<And>c'. P c' \<Longrightarrow> Q c') \<Longrightarrow> leads my_id t lt R k g g' c Q"
  unfolding leads_def by blast

text \<open>One line for everybody, or for one seat.\<close>

lemma leads_line:
  assumes "out g' = out g @ ms" "to_seat g k ms = [l]" "last l = NL" "client_line my_id t lt R l c = Some (Go c')" "Q c'"
  shows "leads my_id t lt R k g g' c Q"
  unfolding leads_def by (intro exI [of _ ms] exI [of _ c']) (simp add: assms)

section \<open>Cards drawn\<close>

lemma to_seat_one:
  assumes "names_ok g" "w \<in> set (taken g)" "k \<in> set (taken g)"
  shows "to_seat g k [(seat_conn g w, l)] = (if w = k then [l] else [])"
  using assms by (auto simp: to_seat_def names_ok_def inj_on_def)

lemma last_line [simp]: "last (l @ [NL]) = NL" "last (a # l @ [NL]) = NL"
  by simp_all

text \<open>What a client needs for any line of the game.\<close>

definition seated :: "game \<Rightarrow> nat \<Rightarrow> bool" where
  "seated g k \<longleftrightarrow> names_ok g \<and> k \<in> set (taken g) \<and> hand_num g k \<noteq> -1"

definition attending :: "game \<Rightarrow> nat \<Rightarrow> client \<Rightarrow> bool" where
  "attending g b c \<longleftrightarrow> players c = names_of g \<and> roomy b c"

text \<open>Drawing a card: any client follows it, and one with the right view keeps the right view, or is one
  card behind for another player.\<close>

lemma draw_late:
  assumes "names_ok g" "cards_ok g" "0 < card_num g"
  shows "w \<noteq> k \<Longrightarrow> late_view w m g k c \<Longrightarrow> late_view w (m + 1) (draw_card w g) k c"
    "late_view k 0 g k c \<Longrightarrow> tokens (my_card c') = tokens (my_card c) @ [cards ! (card_seq g ! (card_num g - 1))]
      \<Longrightarrow> players c' = players c \<Longrightarrow> remain c' = remain c \<Longrightarrow> card_remain c' = card_remain c
      \<Longrightarrow> late_view k 1 (draw_card k g) k c'"
proof -
  have n: "int (card_num g - 1) + (x + 1) = int (card_num g) + x" for x using assms(3) by simp
  have names: "names_of (draw_card v g) = names_of g" "taken (draw_card v g) = taken g" for v
    by (rule same_names_simps [OF same_names_ops(1)])+
  show "late_view w (m + 1) (draw_card w g) k c" if "w \<noteq> k" "late_view w m g k c"
  proof -
    have "hand (draw_card w g) k = hand g k" using that(1) by (simp add: draw_card_fields)
    then have "hand_cards (draw_card w g) k = hand_cards g k" by (simp add: hand_cards_def)
    then show ?thesis using that(2) n [of m] by (simp add: late_view_def names draw_card_fields cong: if_cong)
  qed
  show "late_view k 1 (draw_card k g) k c'"
    if "late_view k 0 g k c" "tokens (my_card c') = tokens (my_card c) @ [cards ! (card_seq g ! (card_num g - 1))]"
      "players c' = players c" "remain c' = remain c" "card_remain c' = card_remain c"
  proof -
    have "mset (hand_cards (draw_card k g) k) = add_mset (cards ! (card_seq g ! (card_num g - 1))) (mset (hand_cards g k))"
      by (rule hand_cards_add [OF next_card [OF assms(2,3)]]) (simp add: draw_card_fields)
    then show ?thesis using that n [of 0] by (simp add: late_view_def names draw_card_fields cong: if_cong)
  qed
qed

lemma draw_leads:
  assumes "names_ok g" "w \<in> set (taken g)" "k \<in> set (taken g)" "cards_ok g" "0 < card_num g" "attending g b c" "b \<le> 4000"
  shows "leads (seat_name g k) t lt R k g (draw_card w g) c (\<lambda>c'. attending (draw_card w g) (b + 3) c'
    \<and> (late_view w m g k c \<longrightarrow> (w = k \<longrightarrow> m = 0) \<longrightarrow> late_view w (if w = k then 0 else m + 1) (draw_card w g) k c'))"
proof (cases "w = k")
  case False
  have "to_seat g k [(seat_conn g w, l)] = []" for l using False by (simp add: to_seat_one [OF assms(1-3)])
  moreover have "attending (draw_card w g) (b + 3) c"
    using assms(6) by (simp add: attending_def roomy_def same_names_simps [OF same_names_ops(1)])
  ultimately show ?thesis
    using False draw_late(1) [OF assms(1,4,5) False, of m c] unfolding leads_def
    by (intro exI [of _ "[(seat_conn g w, ''12 '' @ cards ! (card_seq g ! (card_num g - 1)) @ [NL])]"] exI [of _ c] conjI draw_card_out)
      simp_all
next
  case True
  let ?card = "cards ! (card_seq g ! (card_num g - 1))"
  have pl: "plain ?card" by (rule cards_plain [OF next_card(1) [OF assms(4,5)]])
  have len2: "length ?card = 2"
    using next_card(1) [OF assms(4,5)] cards_known book_chars by (simp add: known_def length_cards(1))
  let ?c0 = "c\<lparr>my_card := append_card (my_card c) ?card, new_card := append_card (new_card c) ?card\<rparr>"
  let ?c1 = "penalty (seat_name g k) 1 ?c0"
  have b: "length (append_card (my_card c) ?card) \<le> b + 3" "length (append_card (new_card c) ?card) \<le> b + 3"
    using assms(6) length_append_card [of "my_card c" ?card] length_append_card [of "new_card c" ?card] len2
    by (auto simp: attending_def roomy_def)
  have "read_draw (seat_name g k) [''12'', ?card] c = Some ?c1" using b assms(7) by (simp add: read_draw_def)
  then have r: "read_line (seat_name g k) lt R (''12 '' @ ?card @ [NL]) c = Some (Go ?c1)"
    using read_draw_one [OF pl refl] by simp
  have p: "players ?c1 = names_of g" "roomy (b + 3) ?c1"
    using assms(6) b by (simp_all add: attending_def penalty_def Let_def roomy_def)
  obtain c' where c': "client_line (seat_name g k) t lt R (''12 '' @ ?card @ [NL]) c = Some (Go c')"
    "players c' = players ?c1" "remain c' = remain ?c1" "card_remain c' = card_remain ?c1" "my_card c' = my_card ?c1"
    "roomy (b + 3) c'"
    using line_shown [OF r, of t "b + 3"] names_in [OF assms(1,3)] p by auto
  have names: "names_ok (draw_card k g)" "k \<in> set (taken (draw_card k g))" "seat_name (draw_card k g) k = seat_name g k"
    using assms(1,3) same_names_simps [OF same_names_ops(1) [of g k]] by simp_all
  have late: "late_view k 0 (draw_card k g) k c'" if v: "late_view k 0 g k c"
  proof -
    have "late_view k 1 (draw_card k g) k ?c0"
      by (rule draw_late(2) [OF assms(1,4,5) v]) (simp_all add: tokens_append_card [OF pl] del: One_nat_def)
    from penalty_view(1) [OF names(1,2) this, of 1] have "late_view k 0 (draw_card k g) k ?c1" by (simp add: names(3))
    then show ?thesis using c'(2-5) unfolding late_view_def by simp
  qed
  show ?thesis
  proof (rule leads_line [OF draw_card_out _ _ c'(1)])
    show "to_seat g k [(seat_conn g w, ''12 '' @ ?card @ [NL])] = [''12 '' @ ?card @ [NL]]"
      by (simp add: True to_seat_one [OF assms(1,3,3)])
    show "attending (draw_card w g) (b + 3) c'
      \<and> (late_view w m g k c \<longrightarrow> (w = k \<longrightarrow> m = 0) \<longrightarrow> late_view w (if w = k then 0 else m + 1) (draw_card w g) k c')"
      using c'(2,6) p(1) late True by (auto simp: attending_def same_names_simps [OF same_names_ops(1)])
  qed simp
qed

lemma give_leads:
  assumes "names_ok g" "w \<in> set (taken g)" "k \<in> set (taken g)" "cards_ok g" "n \<le> card_num g" "hand_num g w \<noteq> -1"
    "attending g b c" "b + 3 * n \<le> 4000"
  shows "\<exists>g'. give_loop rnd n w ad g = Some g' \<and> same_names g g'
    \<and> leads (seat_name g k) t lt R k g g' c (\<lambda>c'. attending g' (b + 3 * n) c'
        \<and> (late_view w m g k c \<longrightarrow> (w = k \<longrightarrow> m = 0) \<longrightarrow> late_view w (if w = k then 0 else m + int n) g' k c'))"
  using assms
proof (induction n arbitrary: g b c m)
  case 0
  then show ?case by (auto intro!: leads_refl)
next
  case (Suc n)
  let ?g = "draw_card w g"
  note nm = same_names_simps [OF same_names_ops(1) [of g w]]
  have pos: "0 < card_num g" "b \<le> 4000" using Suc.prems(5,8) by simp_all
  have hn: "hand_num ?g w \<noteq> -1" using hand_num_nonneg [OF Suc.prems(4,6)] by (simp add: draw_card_fields)
  have ok: "names_ok ?g" "w \<in> set (taken ?g)" "k \<in> set (taken ?g)" "cards_ok ?g" "n \<le> card_num ?g"
    using Suc.prems draw_card_ok [OF Suc.prems(4) pos(1) Suc.prems(6)] nm by (simp_all add: draw_card_fields)
  have room: "b + 3 + 3 * n \<le> 4000" using Suc.prems(8) by simp
  let ?m = "if w = k then 0 else m + 1"
  have step: "\<exists>g'. give_loop rnd n w ad ?g = Some g' \<and> same_names ?g g'
    \<and> leads (seat_name ?g k) t lt R k ?g g' c1 (\<lambda>c'. attending g' (b + 3 + 3 * n) c'
        \<and> (late_view w ?m ?g k c1 \<longrightarrow> (w = k \<longrightarrow> ?m = 0) \<longrightarrow> late_view w (if w = k then 0 else ?m + int n) g' k c'))"
    if "attending ?g (b + 3) c1" for c1
    by (rule Suc.IH [OF ok hn that room])
  obtain g' where g': "give_loop rnd n w ad ?g = Some g'" "same_names ?g g'"
  proof -
    obtain c1 where "attending ?g (b + 3) c1"
      using draw_leads [OF Suc.prems(1-4) pos(1) Suc.prems(7) pos(2), of t lt R m] by (auto simp: leads_def)
    from step [OF this] show thesis using that by blast
  qed
  have "leads (seat_name g k) t lt R k g g' c (\<lambda>c'. attending g' (b + 3 * Suc n) c'
        \<and> (late_view w m g k c \<longrightarrow> (w = k \<longrightarrow> m = 0) \<longrightarrow> late_view w (if w = k then 0 else m + int (Suc n)) g' k c'))"
  proof (rule leads_trans [OF draw_leads [OF Suc.prems(1-4) pos(1) Suc.prems(7) pos(2), of t lt R m] same_names_ops(1)], elim conjE)
    fix c1
    assume c1: "attending ?g (b + 3) c1"
      "late_view w m g k c \<longrightarrow> (w = k \<longrightarrow> m = 0) \<longrightarrow> late_view w (if w = k then 0 else m + 1) ?g k c1"
    from step [OF c1(1)] g'(1) have l: "leads (seat_name ?g k) t lt R k ?g g' c1 (\<lambda>c'. attending g' (b + 3 + 3 * n) c'
        \<and> (late_view w ?m ?g k c1 \<longrightarrow> (w = k \<longrightarrow> ?m = 0) \<longrightarrow> late_view w (if w = k then 0 else ?m + int n) g' k c'))"
      by auto
    have arith: "b + 3 + 3 * n = b + 3 * Suc n" "m + 1 + int n = m + int (Suc n)" by simp_all
    show "leads (seat_name g k) t lt R k ?g g' c1 (\<lambda>c'. attending g' (b + 3 * Suc n) c'
        \<and> (late_view w m g k c \<longrightarrow> (w = k \<longrightarrow> m = 0) \<longrightarrow> late_view w (if w = k then 0 else m + int (Suc n)) g' k c'))"
      using leads_mono [OF l] c1(2) unfolding nm(4) arith(1)
      by (cases "w = k") (auto simp: arith(2) elim!: leads_mono)
  qed
  then show ?case using g' pos(1) same_names_trans [OF same_names_ops(1) g'(2)] by (auto simp: Let_def)
qed

section \<open>The message of a round\<close>

lemma to_seat_map:
  assumes "names_ok g" "k \<in> set (taken g)" "set is \<subseteq> set (taken g)" "distinct is"
  shows "to_seat g k (map (\<lambda>i. (seat_conn g i, f i)) is) = (if k \<in> set is then [f k] else [])"
  using assms(3,4)
proof (induction "is")
  case Nil
  then show ?case by simp
next
  case (Cons i "is")
  have "seat_conn g i = seat_conn g k \<longleftrightarrow> i = k"
    using assms(1,2) Cons.prems(1) by (auto simp: names_ok_def inj_on_def)
  then show ?case using Cons by (auto simp: to_seat_def)
qed

lemma tell_game_leads:
  assumes "seated g k" "int k \<noteq> who" "last l = NL" "client_line my_id t lt R l c = Some (Go c')" "Q c'"
  shows "leads my_id t lt R k g (tell_game who l g) c Q"
proof (rule leads_line [where l = l and c' = c' and Q = Q, OF _ _ assms(3,4,5)])
  let ?ms = "SendToEveryoneInGame who l (used g) (hand_num g)"
  show "out (tell_game who l g) = out g @ ?ms" by (simp add: tell_game_def)
  have "?ms = map (\<lambda>i. (seat_conn g i, l)) (filter (\<lambda>i. int i \<noteq> who \<and> used g i \<noteq> -1 \<and> hand_num g i \<noteq> -1) [0..<10])"
    by (simp add: SendToEveryoneInGame_def seat_conn_def)
  then show "to_seat g k ?ms = [l]"
    using to_seat_map [of g k "filter (\<lambda>i. int i \<noteq> who \<and> used g i \<noteq> -1 \<and> hand_num g i \<noteq> -1) [0..<10]" "\<lambda>_. l"] assms(1,2)
    by (auto simp: seated_def taken_set subset_iff simp del: upt_Suc)
qed

definition round_line :: "string \<Rightarrow> game \<Rightarrow> nat \<Rightarrow> string" where
  "round_line name g i = round_header name g @ concat (map (\<lambda>j. '' '' @ cards ! j) (filter (hand g i) [0..<108])) @ [NL]"

definition round_words :: "string \<Rightarrow> game \<Rightarrow> nat \<Rightarrow> string list" where
  "round_words name g i = [name, fmt_d (int (card_num g)), fmt_d (turn g), seat_name g (whose_round g)]
     @ map (\<lambda>i. fmt_d (hand_num g i)) (taken g) @ hand_cards g i"

lemma round_line_words:
  "round_line name g i = ''10'' @ concat (map (\<lambda>v. '' '' @ v) (round_words name g i)) @ [NL]"
proof -
  have "concat (map (\<lambda>j. '' '' @ cards ! j) js) = concat (map (\<lambda>v. '' '' @ v) (map ((!) cards) js))" for js
    by (simp add: o_def)
  moreover have "concat (map (\<lambda>i. '' '' @ fmt_d (hand_num g i)) js) = concat (map (\<lambda>v. '' '' @ v) (map (\<lambda>i. fmt_d (hand_num g i)) js))" for js
    by (simp add: o_def)
  ultimately show ?thesis
    unfolding round_line_def round_header_def round_words_def taken_def hand_cards_def by simp
qed

text \<open>What a client that has read it sees.\<close>

definition round_seen :: "string \<Rightarrow> game \<Rightarrow> nat \<Rightarrow> client \<Rightarrow> bool" where
  "round_seen name g k c \<longleftrightarrow> view g k c \<and> top_card c = name \<and> whos_turn c = seat_name g (whose_round g)
     \<and> direct c = (turn g = 1)
     \<and> table_card_num c = 108 - int (card_num g) - (\<Sum>i\<leftarrow>filter (\<lambda>i. hand_num g i \<noteq> -1) (taken g). hand_num g i)"

lemma hand_num_bounds:
  assumes "cards_ok g"
  shows "- 1 \<le> hand_num g i" "hand_num g i \<le> 108"
proof -
  have "card {c. hand g i c} \<le> card {0..<108::nat}"
    by (rule card_mono) (auto dest: cards_okD(7) [OF assms])
  then show "- 1 \<le> hand_num g i" "hand_num g i \<le> 108"
    using cards_okD(8) [OF assms, of i] by (cases "hand_num g i = -1"; simp)+
qed

lemma hand_cards_empty:
  assumes "cards_ok g" "0 < hand_num g k"
  shows "hand_cards g k \<noteq> []"
proof
  assume "hand_cards g k = []"
  then have "{c. hand g k c} = {}" using cards_okD(7) [OF assms(1)] by (auto simp: hand_cards_def filter_empty_conv)
  then show False using cards_okD(8) [OF assms(1), of k] assms(2) by simp
qed

lemma hand_cards_plain: "\<forall>v\<in>set (hand_cards g k). plain v"
  by (auto simp: hand_cards_def cards_plain)

lemma round_line_read:
  assumes "names_ok g" "k \<in> set (taken g)" "cards_ok g" "0 < hand_num g k" "whose_round g \<in> set (taken g)"
    "turn g = 0 \<or> turn g = 1" "plain name" "length name \<le> 2" "players c = names_of g"
  shows "\<exists>c'. read_line my_id lt R (round_line name g k) c = Some (Go c') \<and> players c' = names_of g
    \<and> remain c' = map (hand_num g) (taken g) \<and> card_remain c' = int (card_num g)
    \<and> tokens (my_card c') = hand_cards g k \<and> top_card c' = name \<and> whos_turn c' = seat_name g (whose_round g)
    \<and> direct c' = (turn g = 1) \<and> new_card c' = new_card c
    \<and> my_card c' = butlast (concat (map (\<lambda>t. t @ '' '') (hand_cards g k)))"
proof -
  let ?ws = "round_words name g k"
  have who: "plain (seat_name g (whose_round g))" "length (seat_name g (whose_round g)) \<le> 10"
    using assms(1,5) by (simp_all add: names_ok_def)
  have pl: "\<forall>v\<in>set ?ws. plain v" "plain ''10''"
    using assms(7) who plain_fmt_d hand_cards_plain by (auto simp: round_words_def) (simp add: plain_def)
  have tok: "tokens (takeWhile (\<lambda>x. x \<noteq> NL) (round_line name g k)) = ''10'' # ?ws"
    by (simp only: round_line_words line_words [OF pl(2,1)] tokens_words [OF pl(2,1)])
  have start: "char_at (round_line name g k) 0 = CHR ''1''" "char_at (round_line name g k) 1 = CHR ''0''"
    by (simp_all add: round_line_words char_at_def)
  have n: "length (players c) = length (taken g)" by (simp add: assms(9) names_of_def)
  have num: "as_int (strtol10 (fmt_d (hand_num g i))) = hand_num g i" for i
    using hand_num_bounds [OF assms(3), of i] by (rule read_number)
  have deck: "as_int (strtol10 (fmt_d (int (card_num g)))) = int (card_num g)"
    using cards_okD(2) [OF assms(3)] by (intro read_number) simp_all
  have dir: "(char_at (fmt_d (turn g)) 0 = CHR ''1'') = (turn g = 1)"
    using assms(6) by (auto simp: fmt_d_def render_small digit_char_values char_at_def)
  have h: "hand_cards g k \<noteq> []" by (rule hand_cards_empty [OF assms(3,4)])
  have "read_round (''10'' # ?ws) lt c \<noteq> None
    \<and> (\<forall>c'. read_round (''10'' # ?ws) lt c = Some c' \<longrightarrow> players c' = names_of g
    \<and> remain c' = map (hand_num g) (taken g) \<and> card_remain c' = int (card_num g)
    \<and> tokens (my_card c') = hand_cards g k \<and> top_card c' = name \<and> whos_turn c' = seat_name g (whose_round g)
    \<and> direct c' = (turn g = 1) \<and> new_card c' = new_card c
    \<and> my_card c' = butlast (concat (map (\<lambda>t. t @ '' '') (hand_cards g k))))"
    using h who assms(8) n tokens_spaced [OF hand_cards_plain h]
    by (auto simp: read_round_def round_words_def Let_def deck dir num assms(9) o_def)
  then show ?thesis using start tok by (auto simp: read_line_def Let_def)
qed

text \<open>A hand fits the buffers.\<close>

lemma concat_hand_length: "\<forall>v\<in>set vs. length v = 2 \<Longrightarrow> length (concat (map (\<lambda>t. t @ '' '') vs)) = 3 * length vs"
  by (induction vs) auto

lemma hand_text_length: "length (butlast (concat (map (\<lambda>t. t @ '' '') (hand_cards g k)))) \<le> 324"
proof -
  have "\<forall>v\<in>set (hand_cards g k). length v = 2"
    using cards_known book_chars length_cards(1) by (auto simp: hand_cards_def known_def)
  moreover have "length (hand_cards g k) \<le> 108"
    using length_filter_le [of "hand g k" "[0..<108]"] by (simp add: hand_cards_def)
  ultimately show ?thesis using concat_hand_length [of "hand_cards g k"] by simp
qed

text \<open>A round announced to everybody: whatever the client saw before, it sees the state.\<close>

lemma StartRound_leads:
  assumes "seated g k" "cards_ok g" "0 < hand_num g k" "whose_round g \<in> set (taken g)" "turn g = 0 \<or> turn g = 1"
    "plain name" "length name \<le> 2" "attending g b c" "324 \<le> b"
  shows "leads (seat_name g k) t lt R k g (StartRound name g) c (\<lambda>c'. round_seen name (StartRound name g) k c' \<and> attending g b c')"
proof -
  have nk: "names_ok g" "k \<in> set (taken g)" "hand_num g k \<noteq> -1" using assms(1) by (simp_all add: seated_def)
  have pc: "players c = names_of g" using assms(8) by (simp add: attending_def)
  obtain c1 where r: "read_line (seat_name g k) lt R (round_line name g k) c = Some (Go c1)"
    and c1: "players c1 = names_of g" "remain c1 = map (hand_num g) (taken g)" "card_remain c1 = int (card_num g)"
      "tokens (my_card c1) = hand_cards g k" "top_card c1 = name" "whos_turn c1 = seat_name g (whose_round g)"
      "direct c1 = (turn g = 1)" "new_card c1 = new_card c"
      "my_card c1 = butlast (concat (map (\<lambda>t. t @ '' '') (hand_cards g k)))"
    using round_line_read [OF nk(1,2) assms(2-7) pc] by blast
  have room: "roomy b c1" using assms(8,9) hand_text_length [of g k] by (simp add: roomy_def attending_def c1(8,9))
  have hc: "hand_count c1 = (\<Sum>i\<leftarrow>filter (\<lambda>i. hand_num g i \<noteq> -1) (taken g). hand_num g i)"
    by (simp add: hand_count_def c1(2) filter_map o_def)
  obtain c' where c': "client_line (seat_name g k) t lt R (round_line name g k) c = Some (Go c')"
    "players c' = players c1" "remain c' = remain c1" "card_remain c' = card_remain c1" "my_card c' = my_card c1"
    "roomy b c'" "whos_turn c' = whos_turn c1" "direct c' = direct c1" "top_card c' = top_card c1"
    "table_card_num c' = 108 - card_remain c1 - hand_count c1"
    using line_shown [OF r, of t b] names_in [OF nk(1,2)] c1(1) room by auto
  let ?g = "StartRound name g"
  let ?is = "filter (\<lambda>i. used g i \<noteq> -1 \<and> hand_num g i \<noteq> -1) [0..<10]"
  have o: "out ?g = out g @ map (\<lambda>i. (seat_conn g i, round_line name g i)) ?is"
    by (simp add: StartRound_def round_line_def)
  have "to_seat g k (map (\<lambda>i. (seat_conn g i, round_line name g i)) ?is) = [round_line name g k]"
    using to_seat_map [OF nk(1,2), of ?is "round_line name g"] nk(2,3) by (auto simp: taken_set subset_iff simp del: upt_Suc)
  moreover have "last (round_line name g k) = NL" by (simp add: round_line_def)
  moreover have "hand_cards ?g k = hand_cards g k" "taken ?g = taken g" "names_of ?g = names_of g"
    "turn ?g = turn g" "seat_name ?g = seat_name g" "card_num ?g = card_num g" "hand_num ?g = hand_num g" "whose_round ?g = whose_round g"
    using same_names_simps [OF same_names_ops(3) [of g name]] by (simp_all add: hand_cards_def) (simp add: StartRound_def)
  then have "round_seen name ?g k c'"
    using c' c1 hc unfolding round_seen_def view_def by simp
  moreover have "attending g b c'" using c'(2,6) c1(1) by (simp add: attending_def)
  ultimately show ?thesis
    using leads_line [where Q = "\<lambda>c'. round_seen name ?g k c' \<and> attending g b c'", OF o _ _ c'(1)] by blast
qed

section \<open>Penalties and departures\<close>

text \<open>The fields a view depends on.\<close>

lemma view_cong:
  assumes "same_names g g'" "hand_num g' = hand_num g" "card_num g' = card_num g" "hand g' = hand g"
  shows "view g' k c = view g k c" "seated g' k = seated g k" "attending g' b c = attending g b c"
    "late_view w m g' k c = late_view w m g k c"
  using same_names_simps [OF assms(1)] assms(2-4)
  by (simp_all add: view_def seated_def attending_def late_view_def hand_cards_def)

text \<open>The line of a penalty ends the lag of the others.\<close>

lemma penalty_leads:
  assumes "seated g k" "w \<in> set (taken g)" "attending g b c" "late_view w (if w = k then 0 else 2) g k c" "last l = NL"
    and read: "read_line (seat_name g k) lt R l c =
      Some (Go (if seat_name g k \<noteq> seat_name g w then penalty (seat_name g w) 2 (c\<lparr>broadcast := x\<rparr>) else c\<lparr>broadcast := x\<rparr>))"
  shows "leads (seat_name g k) t lt R k g (tell_game (-1) l g) c (\<lambda>c'. view (tell_game (-1) l g) k c' \<and> attending g b c')"
proof -
  have nk: "names_ok g" "k \<in> set (taken g)" using assms(1) by (simp_all add: seated_def)
  let ?c0 = "c\<lparr>broadcast := x\<rparr>"
  let ?c1 = "if seat_name g k \<noteq> seat_name g w then penalty (seat_name g w) 2 ?c0 else ?c0"
  have same: "seat_name g k = seat_name g w \<longleftrightarrow> w = k" using nk assms(2) by (auto simp: names_ok_def inj_on_def)
  have l0: "late_view w (if w = k then 0 else 2) g k ?c0" using assms(4) by (simp add: late_view_def)
  have v: "late_view w 0 g k ?c1 \<and> players ?c1 = names_of g \<and> roomy b ?c1"
  proof (cases "w = k")
    case True
    then show ?thesis using l0 assms(3) by (simp add: attending_def roomy_def)
  next
    case False
    then show ?thesis using penalty_view [OF nk(1) assms(2) l0, of 2] same assms(3) by (simp add: attending_def roomy_def)
  qed
  obtain c' where c': "client_line (seat_name g k) t lt R l c = Some (Go c')" "players c' = players ?c1"
    "remain c' = remain ?c1" "card_remain c' = card_remain ?c1" "my_card c' = my_card ?c1" "roomy b c'"
    using line_shown [OF read, of t b] names_in [OF nk] v by auto
  have "view g k c'" using v c'(2-5) unfolding late_view_0 by (simp add: view_def)
  moreover have "view (tell_game (-1) l g) k c' = view g k c'" by (rule view_cong(1)) simp_all
  moreover have "attending g b c'" using v c'(2,6) by (simp add: attending_def)
  ultimately show ?thesis using tell_game_leads [OF assms(1) _ assms(5) c'(1)] by simp
qed

lemma read_penalty:
  assumes "plain a" "plain x" "line = a @ '' '' @ x @ concat (map (\<lambda>v. '' '' @ v) vs) @ [NL]" "\<forall>v\<in>set vs. plain v"
  shows "a = ''11'' \<Longrightarrow> read_line my_id lt R line c = Some (Go (if my_id \<noteq> x then penalty x 2 (c\<lparr>broadcast := FalseUno x\<rparr>) else c\<lparr>broadcast := FalseUno x\<rparr>))"
    "a = ''19'' \<Longrightarrow> vs = [y] \<Longrightarrow> read_line my_id lt R line c = Some (Go (if my_id \<noteq> x then penalty x 2 (c\<lparr>broadcast := FalseCatch x y\<rparr>) else c\<lparr>broadcast := FalseCatch x y\<rparr>))"
    "a = ''7'' \<Longrightarrow> read_line my_id lt R line c = Some (Go (c\<lparr>n_remain := n_remain c - 1, broadcast := LeftRoom x,
       remain := map (\<lambda>i. if players c ! i = x then -1 else remain c ! i) [0..<length (players c)]\<rparr>))"
proof -
  have w: "\<forall>v\<in>set (x # vs). plain v" using assms(2,4) by simp
  have l: "line = a @ concat (map (\<lambda>v. '' '' @ v) (x # vs)) @ [NL]" using assms(3) by simp
  have tok: "tokens (takeWhile (\<lambda>x. x \<noteq> NL) line) = a # x # vs"
    by (simp only: l line_words [OF assms(1) w] tokens_words [OF assms(1) w])
  show "a = ''11'' \<Longrightarrow> read_line my_id lt R line c = Some (Go (if my_id \<noteq> x then penalty x 2 (c\<lparr>broadcast := FalseUno x\<rparr>) else c\<lparr>broadcast := FalseUno x\<rparr>))"
    "a = ''19'' \<Longrightarrow> vs = [y] \<Longrightarrow> read_line my_id lt R line c = Some (Go (if my_id \<noteq> x then penalty x 2 (c\<lparr>broadcast := FalseCatch x y\<rparr>) else c\<lparr>broadcast := FalseCatch x y\<rparr>))"
    "a = ''7'' \<Longrightarrow> read_line my_id lt R line c = Some (Go (c\<lparr>n_remain := n_remain c - 1, broadcast := LeftRoom x,
       remain := map (\<lambda>i. if players c ! i = x then -1 else remain c ! i) [0..<length (players c)]\<rparr>))"
    unfolding read_line_def Let_def tok by (simp_all add: assms(3) char_at_def)
qed

text \<open>A player leaves: his count becomes -1 on both sides.\<close>

lemma leave_leads:
  assumes "seated g k" "i \<in> set (taken g)" "i \<noteq> k" "attending g b c" "view g0 k c" "same_names g0 g"
    "hand_num g = (hand_num g0)(i := -1)" "card_num g = card_num g0" "hand g = hand g0"
  shows "leads (seat_name g k) t lt R k g (tell_game (int i) (''7 '' @ seat_name g i @ [NL]) g) c
    (\<lambda>c'. view (tell_game (int i) (''7 '' @ seat_name g i @ [NL]) g) k c' \<and> attending g b c')"
proof -
  let ?l = "''7 '' @ seat_name g i @ [NL]"
  have nk: "names_ok g" "k \<in> set (taken g)" using assms(1) by (simp_all add: seated_def)
  have pi: "plain (seat_name g i)" using nk(1) assms(2) by (simp add: names_ok_def)
  have p7: "plain ''7''" by (simp add: plain_def)
  let ?c1 = "c\<lparr>n_remain := n_remain c - 1, broadcast := LeftRoom (seat_name g i),
       remain := map (\<lambda>j. if players c ! j = seat_name g i then -1 else remain c ! j) [0..<length (players c)]\<rparr>"
  have r: "read_line (seat_name g k) lt R ?l c = Some (Go ?c1)"
    by (rule read_penalty(3) [OF p7 pi, of _ "[]"]) simp_all
  note nm = same_names_simps [OF assms(6)]
  have pc: "players c = names_of g" "remain c = map (hand_num g0) (taken g)" "card_remain c = int (card_num g)"
    "mset (tokens (my_card c)) = mset (hand_cards g k)"
    using assms(5,8,9) by (simp_all add: view_def nm hand_cards_def)
  have "map (\<lambda>j. if players c ! j = seat_name g i then -1 else remain c ! j) [0..<length (players c)] = map (hand_num g) (taken g)"
    using map_at_name [OF nk(1) assms(2) pc(1,2), of "\<lambda>_. -1"] by (simp add: assms(7) fun_upd_def)
  then have v: "view g k ?c1" "players ?c1 = names_of g" "roomy b ?c1"
    using pc assms(4) by (simp_all add: view_def attending_def roomy_def)
  obtain c' where c': "client_line (seat_name g k) t lt R ?l c = Some (Go c')" "players c' = players ?c1"
    "remain c' = remain ?c1" "card_remain c' = card_remain ?c1" "my_card c' = my_card ?c1" "roomy b c'"
    using line_shown [OF r, of t b] names_in [OF nk] v(2,3) by auto
  have "view g k c'" "attending g b c'" using v(1,2) c'(2-6) by (simp_all add: view_def attending_def)
  moreover have "view (tell_game (int i) ?l g) k c' = view g k c'" by (rule view_cong(1)) simp_all
  ultimately show ?thesis using tell_game_leads [OF assms(1) _ _ c'(1), of "int i"] assms(3) by simp
qed

section \<open>The messages of a player\<close>

text \<open>What else a state of the game has between two messages: the direction is 0 or 1, the table card and
  the last card played are cards, the colour is a letter, no one in the game is without cards.\<close>

definition round_ok :: "game \<Rightarrow> bool" where
  "round_ok g \<longleftrightarrow> (turn g = 0 \<or> turn g = 1) \<and> table_card g < 108 \<and> card_id g < 108
     \<and> colour g \<notin> {CHR 0x00, CHR '' '', NL}"

definition alive :: "game \<Rightarrow> bool" where
  "alive g \<longleftrightarrow> (\<forall>j. hand_num g j \<noteq> -1 \<longrightarrow> 0 < hand_num g j)"

lemma table_text_plain:
  assumes "round_ok g"
  shows "plain (table_text g)" "length (table_text g) \<le> 2"
proof -
  have c: "table_card g < 108" "colour g \<noteq> CHR 0x00" "colour g \<noteq> CHR '' ''" "colour g \<noteq> NL"
    using assms by (simp_all add: round_ok_def)
  note t = table_text_chars [OF c(1,2)]
  have "plain (cards ! table_card g)" by (rule cards_plain [OF c(1)])
  moreover have "cards ! table_card g ! 0 \<in> set (cards ! table_card g)"
    using calculation by (intro nth_mem) (simp add: plain_def)
  ultimately have "table_text g ! 0 \<noteq> CHR '' ''" "table_text g ! 0 \<noteq> NL" using t(4) unfolding plain_def by metis+
  moreover have "table_text g = [table_text g ! 0, table_text g ! 1]"
    using t(1) by (auto simp: length_Suc_conv numeral_2_eq_2)
  then have "set (table_text g) = {table_text g ! 0, table_text g ! 1}" "table_text g \<noteq> []"
    by (metis list.simps(15) empty_set, auto)
  ultimately show "plain (table_text g)" using c t(3) by (auto simp: plain_def)
  show "length (table_text g) \<le> 2" using t(1) by simp
qed

lemma give_loop_table:
  "n \<le> card_num g \<Longrightarrow> give_loop rnd n w ad g = Some g' \<Longrightarrow>
   table_card g' = table_card g \<and> colour g' = colour g \<and> card_id g' = card_id g"
proof (induction n arbitrary: g)
  case 0
  then show ?case by simp
next
  case (Suc n)
  have "n \<le> card_num (draw_card w g)" using Suc.prems(1) by (simp add: draw_card_fields)
  moreover have "give_loop rnd n w ad (draw_card w g) = Some g'" using Suc.prems by (simp split: if_splits)
  ultimately have "table_card g' = table_card (draw_card w g) \<and> colour g' = colour (draw_card w g) \<and> card_id g' = card_id (draw_card w g)"
    by (rule Suc.IH)
  then show ?case by (simp add: draw_card_def Let_def tell_def)
qed

text \<open>Cards given to a player, with everything that is kept.\<close>

lemma give_follow:
  assumes "game_ok g" "seated g k" "alive g" "round_ok g" "hand_num g w \<noteq> -1" "n \<le> card_num g" "attending g b c" "b + 3 * n \<le> 4000"
  shows "\<exists>g'. GiveCardToPlayer rnd w n g = Some g' \<and> same_names g g' \<and> game_ok g' \<and> seated g' k \<and> alive g' \<and> round_ok g'
    \<and> card_num g' = card_num g - n
    \<and> leads (seat_name g k) t lt R k g g' c (\<lambda>c'. attending g' (b + 3 * n) c'
        \<and> (view g k c \<longrightarrow> late_view w (if w = k then 0 else int n) g' k c'))"
proof -
  have ok: "cards_ok g" using assms(1) by (simp add: game_ok_def)
  have nk: "names_ok g" "k \<in> set (taken g)" "hand_num g k \<noteq> -1" using assms(2) by (simp_all add: seated_def)
  have w: "w \<in> set (taken g)" using assms(1,5) by (auto simp: game_ok_def taken_set)
  have pos: "0 < hand_num g w" using assms(3,5) by (auto simp: alive_def)
  obtain g' where g': "give_loop rnd n w (\<lambda>_. False) g = Some g'" "same_names g g'"
    "leads (seat_name g k) t lt R k g g' c (\<lambda>c'. attending g' (b + 3 * n) c'
        \<and> (late_view w 0 g k c \<longrightarrow> (w = k \<longrightarrow> (0::int) = 0) \<longrightarrow> late_view w (if w = k then 0 else 0 + int n) g' k c'))"
    using give_leads [OF nk(1) w nk(2) ok assms(6,5,7,8), of rnd "\<lambda>_. False" t lt R 0]
    by (elim exE conjE) (rule that; assumption)
  obtain g2 where g2: "give_loop rnd n w (\<lambda>_. False) g = Some g2" "card_num g2 = card_num g - n"
    "hand_num g2 = (hand_num g)(w := hand_num g w + int n)" "turn g2 = turn g"
    using give_loop_ok [OF ok assms(6,5) less_imp_le [OF pos], of rnd "\<lambda>_. False"] by blast
  have e: "g2 = g'" using g2(1) g'(1) by simp
  have G: "GiveCardToPlayer rnd w n g = Some g'" using g'(1) by (simp add: GiveCardToPlayer_def)
  obtain g3 where "GiveCardToPlayer rnd w n g = Some g3" "within n g g3"
    using give_within [OF assms(1,6,5), of rnd] by blast
  then have "game_ok g'" using G by (simp add: within_def)
  moreover have "seated g' k"
    using nk pos g2(3) e same_names_simps [OF g'(2)] by (auto simp: seated_def)
  moreover have "alive g'" using assms(3) pos g2(3) e by (auto simp: alive_def)
  moreover have "round_ok g'" using assms(4) g2(4) e give_loop_table [OF assms(6) g'(1)] by (simp add: round_ok_def)
  moreover have "leads (seat_name g k) t lt R k g g' c (\<lambda>c'. attending g' (b + 3 * n) c'
        \<and> (view g k c \<longrightarrow> late_view w (if w = k then 0 else int n) g' k c'))"
    by (rule leads_mono [OF g'(3)]) (simp add: late_view_0 split: if_splits)
  ultimately show ?thesis using G g'(2) g2(2) e by (intro exI [of _ g'] conjI) simp_all
qed

text \<open>A round announced after the handling of a message.\<close>

lemma announce:
  assumes "leads (seat_name g k) t lt R k g g' c (attending g' b)" "same_names g g'" "game_ok g'" "seated g' k" "alive g'"
    "turn g' = 0 \<or> turn g' = 1" "plain name" "length name \<le> 2" "324 \<le> b"
  shows "leads (seat_name g k) t lt R k g (StartRound name g') c
    (\<lambda>c'. round_seen name (StartRound name g') k c' \<and> attending (StartRound name g') b c')"
proof (rule leads_trans [OF assms(1,2)])
  fix c1
  assume c1: "attending g' b c1"
  have w: "whose_round g' \<in> set (taken g')" "cards_ok g'" using assms(3) by (auto simp: game_ok_def taken_set)
  have "0 < hand_num g' k" using assms(4,5) by (auto simp: seated_def alive_def)
  from StartRound_leads [OF assms(4) w(2) this w(1) assms(6,7,8) c1 assms(9), of t lt R]
  show "leads (seat_name g k) t lt R k g' (StartRound name g') c1
    (\<lambda>c'. round_seen name (StartRound name g') k c' \<and> attending (StartRound name g') b c')"
    by (simp add: same_names_simps [OF assms(2)] attending_def same_names_simps [OF same_names_ops(3)])
qed

lemma attending_mono: "attending g b c \<Longrightarrow> b \<le> b' \<Longrightarrow> attending g b' c"
  by (auto simp: attending_def roomy_def)

text \<open>What is shown of every message: the state after it is in order and the client sees it.\<close>

definition followed :: "int \<Rightarrow> int \<Rightarrow> string \<Rightarrow> nat \<Rightarrow> nat \<Rightarrow> game \<Rightarrow> game \<Rightarrow> client \<Rightarrow> bool" where
  "followed t lt R k b g g' c \<longleftrightarrow> same_names g g' \<and> round_ok g' \<and> alive g'
     \<and> leads (seat_name g k) t lt R k g g' c (\<lambda>c'. view g' k c' \<and> attending g' b c')"

lemma StartRound_keeps:
  "round_ok (StartRound name g) = round_ok g" "alive (StartRound name g) = alive g" "game_ok (StartRound name g) = game_ok g"
  by (simp add: StartRound_def round_ok_def, simp add: StartRound_def alive_def)
    (auto simp: StartRound_def intro: game_ok_cong)

lemma tell_game_keeps:
  "round_ok (tell_game w l g) = round_ok g" "alive (tell_game w l g) = alive g"
  by (simp_all add: tell_game_def round_ok_def alive_def)

lemma next_turn_keeps:
  "round_ok (next_turn g) = round_ok g" "alive (next_turn g) = alive g" "out (next_turn g) = out g" "seated (next_turn g) k = seated g k"
  "attending (next_turn g) b c = attending g b c" "turn (next_turn g) = turn g"
  using view_cong [OF same_names_ops(4) [of g]]
  by (simp_all add: next_turn_def round_ok_def alive_def)

lemma leads_silent: "leads my_id t lt R k g g' c Q \<Longrightarrow> out g'' = out g' \<Longrightarrow> leads my_id t lt R k g g'' c Q"
  by (simp add: leads_def)

lemma leads_silent_from: "leads my_id t lt R k g g' c Q \<Longrightarrow> out g0 = out g \<Longrightarrow> same_names g0 g \<Longrightarrow> leads my_id t lt R k g0 g' c Q"
  by (simp add: leads_def same_names_simps)

text \<open>The state at the start of a message.\<close>

definition ready :: "nat \<Rightarrow> nat \<Rightarrow> game \<Rightarrow> client \<Rightarrow> bool" where
  "ready k b g c \<longleftrightarrow> game_ok g \<and> 4 \<le> card_num g \<and> seated g k \<and> alive g \<and> round_ok g \<and> attending g b c \<and> 324 \<le> b \<and> b + 12 \<le> 4000"

lemma announced:
  assumes "leads (seat_name g k) t lt R k g g' c (attending g' (b + 12))" "same_names g g'" "game_ok g'" "seated g' k" "alive g'"
    "round_ok g'" "plain name" "length name \<le> 2" "324 \<le> b"
  shows "followed t lt R k (b + 12) g (StartRound name g') c"
proof -
  have "turn g' = 0 \<or> turn g' = 1" using assms(6) by (simp add: round_ok_def)
  note a = announce [OF assms(1-5) this assms(7,8), of]
  have "same_names g (StartRound name g')" using same_names_trans [OF assms(2) same_names_ops(3)] .
  then show ?thesis unfolding followed_def StartRound_keeps
    using assms(5,6,9) leads_mono [OF a] by (auto simp: round_seen_def)
qed

lemma skip_followed:
  assumes "ready k b g c" "game_skip rnd g = Some g'"
  shows "followed t lt R k (b + 12) g g' c"
proof -
  have r: "game_ok g" "4 \<le> card_num g" "seated g k" "alive g" "round_ok g" "attending g b c" "324 \<le> b" "b + 12 \<le> 4000"
    using assms(1) by (simp_all add: ready_def)
  have w: "hand_num g (whose_round g) \<noteq> -1" using r(1) by (simp add: game_ok_def)
  obtain g1 where g1: "GiveCardToPlayer rnd (whose_round g) 1 g = Some g1" "same_names g g1" "game_ok g1" "seated g1 k" "alive g1"
    "round_ok g1" "leads (seat_name g k) t lt R k g g1 c (\<lambda>c'. attending g1 (b + 3 * 1) c'
        \<and> (view g k c \<longrightarrow> late_view (whose_round g) (if whose_round g = k then 0 else int 1) g1 k c'))"
    using give_follow [OF r(1,3,4,5) w _ r(6), of 1 rnd t lt R] r(2,8) by auto
  have e: "g' = StartRound (table_text (next_turn g1)) (next_turn g1)"
    using assms(2) g1(1) by (simp add: game_skip_def Let_def)
  have "round_ok (next_turn g1)" using g1(6) by (simp add: next_turn_keeps)
  note tt = table_text_plain [OF this]
  have "leads (seat_name g k) t lt R k g (next_turn g1) c (attending (next_turn g1) (b + 12))"
    by (rule leads_silent [OF leads_mono [OF g1(7)]]) (auto simp: next_turn_keeps elim: attending_mono)
  then show ?thesis unfolding e
    using announced [OF _ same_names_trans [OF g1(2) same_names_ops(4)] next_turn_ok [OF g1(3)] _ _ _ tt r(7)] g1(4-6)
    by (simp add: next_turn_keeps)
qed

text \<open>A card is played.\<close>

lemma card_effect_follow:
  assumes "ready k b g c" "card_effect rnd g = Some g'"
  shows "same_names g g' \<and> game_ok g' \<and> seated g' k \<and> alive g' \<and> round_ok g'
    \<and> leads (seat_name g k) t lt R k g g' c (attending g' (b + 12))"
proof -
  have r: "game_ok g" "4 \<le> card_num g" "seated g k" "alive g" "round_ok g" "attending g b c" "324 \<le> b" "b + 12 \<le> 4000"
    using assms(1) by (simp_all add: ready_def)
  have turned: "same_names g h \<and> game_ok h \<and> seated h k \<and> alive h \<and> round_ok h
    \<and> leads (seat_name g k) t lt R k g h c (attending h (b + 12))"
    if "same_names g h" "out h = out g" "game_ok h" "hand_num h = hand_num g" "seated h k" "alive h" "round_ok h" for h
    using that attending_mono [OF r(6)] by (auto simp: leads_def attending_def same_names_simps [OF that(1)])
  have next1: "seated (next_turn g) k" "alive (next_turn g)" "round_ok (next_turn g)" "game_ok (next_turn g)" "attending (next_turn g) b c"
    using r by (simp_all add: next_turn_keeps next_turn_ok)
  have draw: "same_names g h \<and> game_ok h \<and> seated h k \<and> alive h \<and> round_ok h
    \<and> leads (seat_name g k) t lt R k g h c (attending h (b + 12))"
    if n: "n \<le> 4" "map_option next_turn (GiveCardToPlayer rnd (whose_round (next_turn g)) n (next_turn g)) = Some h" for n h
  proof -
    have w: "hand_num (next_turn g) (whose_round (next_turn g)) \<noteq> -1" "n \<le> card_num (next_turn g)" "b + 3 * n \<le> 4000"
      using next1(4) n(1) r(2,8) unfolding game_ok_def by simp_all
    obtain g1 where g1: "GiveCardToPlayer rnd (whose_round (next_turn g)) n (next_turn g) = Some g1" "same_names (next_turn g) g1"
      "game_ok g1" "seated g1 k" "alive g1" "round_ok g1"
      "leads (seat_name (next_turn g) k) t lt R k (next_turn g) g1 c (\<lambda>c'. attending g1 (b + 3 * n) c'
        \<and> (view (next_turn g) k c \<longrightarrow> late_view (whose_round (next_turn g)) (if whose_round (next_turn g) = k then 0 else int n) g1 k c'))"
      using give_follow [OF next1(4,1,2,3) w(1,2) next1(5) w(3), of rnd t lt R] by (elim exE conjE) (rule that; assumption)
    have e: "h = next_turn g1" using n(2) g1(1) by simp
    have b: "b + 3 * n \<le> b + 12" using n(1) by simp
    have "leads (seat_name (next_turn g) k) t lt R k (next_turn g) h c (attending h (b + 12))"
      unfolding e by (rule leads_silent [OF leads_mono [OF g1(7)]]) (auto simp: next_turn_keeps intro: attending_mono [OF _ b])
    from leads_silent_from [OF this, of g] have "leads (seat_name g k) t lt R k g h c (attending h (b + 12))"
      by (simp add: next_turn_keeps same_names_simps [OF same_names_ops(4)])
    then show ?thesis unfolding e
      using g1(3-6) same_names_trans [OF same_names_trans [OF same_names_ops(4) g1(2)] same_names_ops(4)]
      by (simp add: next_turn_keeps next_turn_ok)
  qed
  have plain1: "same_names g (next_turn g)" "out (next_turn g) = out g" "hand_num (next_turn g) = hand_num g"
    by (simp_all add: next_turn_keeps)
  have plain2: "same_names g (next_turn (next_turn g))" using same_names_trans [OF same_names_ops(4) same_names_ops(4)] .
  let ?f = "g\<lparr>turn := (turn g + 1) mod 2\<rparr>"
  have f: "same_names g ?f" "game_ok ?f" "out ?f = out g" "hand_num ?f = hand_num g" "seated ?f k" "alive ?f" "round_ok ?f"
    using r(1,3,4,5) view_cong(2) [of g ?f k]
    by (auto simp: same_names_def alive_def round_ok_def intro: game_ok_cong)
  have f2: "same_names g (next_turn ?f)" using same_names_trans [OF f(1) same_names_ops(4)] .
  have nn: "game_ok (next_turn (next_turn g))" "game_ok (next_turn ?f)" by (rule next_turn_ok, rule next1(4), rule next_turn_ok, rule f(2))
  let ?draw = "\<lambda>n. map_option next_turn (GiveCardToPlayer rnd (whose_round (next_turn g)) n (next_turn g)) = Some g'"
  have "g' = next_turn (next_turn g) \<or> g' = ?f \<or> g' = next_turn ?f \<or> ?draw 2 \<or> ?draw 4 \<or> g' = next_turn g"
    using assms(2) unfolding card_effect_def Let_def by (simp only: option.inject split: if_splits) simp_all
  then show ?thesis
  proof (elim disjE)
    assume "g' = next_turn (next_turn g)"
    then show ?thesis using turned [OF plain2 _ nn(1)] next1 by (simp add: next_turn_keeps)
  next
    assume "g' = ?f"
    then show ?thesis using turned [OF f(1,3,2,4,5,6,7)] by simp
  next
    assume "g' = next_turn ?f"
    then show ?thesis using turned [OF f2 _ nn(2)] f by (simp add: next_turn_keeps)
  next
    assume "?draw 2"
    then show ?thesis using draw [of 2] by simp
  next
    assume "?draw 4"
    then show ?thesis using draw [of 4] by simp
  next
    assume "g' = next_turn g"
    then show ?thesis using turned [OF plain1(1,2) next1(4) plain1(3) next1(1,2,3)] by simp
  qed
qed

lemma ready_other:
  assumes "ready k b g c" "same_names g h" "game_ok h" "card_num h = card_num g" "hand_num h k \<noteq> -1" "alive h" "round_ok h"
  shows "ready k b h c"
  using assms by (simp add: ready_def seated_def attending_def same_names_simps [OF assms(2)])

lemma play_followed:
  assumes "ready k b g c" "hand_num g i \<noteq> -1" "game_play rnd i line g = Some (Go g')"
    "2 \<le> length (tokens line) \<Longrightarrow> plain (tokens line ! 1) \<and> length (tokens line ! 1) = 2 \<and> CHR 0x00 \<notin> set (tokens line ! 1)"
  shows "followed t lt R k (b + 12) g g' c"
proof -
  have r: "game_ok g" "seated g k" "alive g" "round_ok g" "324 \<le> b" using assms(1) by (simp_all add: ready_def)
  obtain name h where h: "name = tokens line ! 1" "2 \<le> length (tokens line)"
    "map_option (StartRound name) (card_effect rnd h) = Some g'" "game_ok h"
    "0 < hand_num h i" "\<And>k. k \<noteq> i \<Longrightarrow> hand_num h k = hand_num g k" "used h = used g" "cname h = cname g"
    "card_num h = card_num g" "turn h = turn g" "out h = out g" "card_id h = table_card h"
    "table_card h < 108 \<or> table_card h = card_id g" "colour h = char_at name 1"
    using game_play_laid [OF r(1) assms(2,3)] by metis
  have nm: "plain name" "length name = 2" "CHR 0x00 \<notin> set name" using assms(4) [OF h(2)] by (simp_all add: h(1))
  have "name ! 1 \<in> set name" using nm(2) by (intro nth_mem) simp
  then have "name ! 1 \<notin> {CHR 0x00, CHR '' '', NL}" using nm unfolding plain_def by (metis insertE emptyE)
  moreover have "colour h = name ! 1" using h(14) nm(2) by (simp add: char_at_def)
  ultimately have "round_ok h" using r(4) h(10,12,13) by (auto simp: round_ok_def)
  moreover have "alive h" using r(3) h(5,6) unfolding alive_def by metis
  moreover have "hand_num h k \<noteq> -1" using r(2) h(5,6) by (cases "k = i") (auto simp: seated_def)
  moreover have sn: "same_names g h" using h(7,8) by (simp add: same_names_def)
  ultimately have rh: "ready k b h c" using ready_other [OF assms(1)] h(4,9) by simp
  obtain g3 where g3: "card_effect rnd h = Some g3" "g' = StartRound name g3" using h(3) by auto
  have e: "same_names h g3" "game_ok g3" "seated g3 k" "alive g3" "round_ok g3"
    "leads (seat_name h k) t lt R k h g3 c (attending g3 (b + 12))"
    using card_effect_follow [OF rh g3(1), of t lt R] by simp_all
  have "leads (seat_name g k) t lt R k g g3 c (attending g3 (b + 12))"
    using leads_silent_from [OF e(6) _ sn] h(11) by (simp add: same_names_simps [OF sn])
  from announced [OF this same_names_trans [OF sn e(1)] e(2-5) nm(1) _ r(5)] nm(2) show ?thesis by (simp add: g3(2))
qed

text \<open>A wrong call of UNO, for oneself or on another.\<close>

lemma penalty_followed:
  assumes "ready k b g c" "hand_num g i \<noteq> -1" "view g k c" "GiveCardToPlayer rnd i 2 g = Some g1" "last l = NL"
    and read: "\<And>c. read_line (seat_name g k) lt R l c =
      Some (Go (if seat_name g k \<noteq> seat_name g i then penalty (seat_name g i) 2 (c\<lparr>broadcast := x\<rparr>) else c\<lparr>broadcast := x\<rparr>))"
  shows "followed t lt R k (b + 12) g (tell_game (-1) l g1) c"
proof -
  have r: "game_ok g" "4 \<le> card_num g" "seated g k" "alive g" "round_ok g" "attending g b c" "b + 12 \<le> 4000"
    using assms(1) by (simp_all add: ready_def)
  have n: "2 \<le> card_num g" "b + 3 * 2 \<le> 4000" "b + 3 * 2 \<le> b + 12" using r(2,7) by simp_all
  have g1: "same_names g g1" "seated g1 k" "alive g1" "round_ok g1"
    "leads (seat_name g k) t lt R k g g1 c (\<lambda>c'. attending g1 (b + 3 * 2) c'
        \<and> (view g k c \<longrightarrow> late_view i (if i = k then 0 else int 2) g1 k c'))"
    using give_follow [OF r(1,3,4,5) assms(2) n(1) r(6) n(2), of rnd t lt R] assms(4) by auto
  note nm = same_names_simps [OF g1(1)]
  have i: "i \<in> set (taken g1)" using r(1) assms(2) by (auto simp: game_ok_def taken_set nm)
  let ?g = "tell_game (-1) l g1"
  have "leads (seat_name g k) t lt R k g ?g c (\<lambda>c'. view ?g k c' \<and> attending ?g (b + 12) c')"
  proof (rule leads_trans [OF g1(5,1)], elim conjE)
    fix c1
    assume c1: "attending g1 (b + 3 * 2) c1" "view g k c \<longrightarrow> late_view i (if i = k then 0 else int 2) g1 k c1"
    have late: "late_view i (if i = k then 0 else 2) g1 k c1" using c1(2) assms(3) by (simp split: if_splits)
    have "read_line (seat_name g1 k) lt R l c1 =
      Some (Go (if seat_name g1 k \<noteq> seat_name g1 i then penalty (seat_name g1 i) 2 (c1\<lparr>broadcast := x\<rparr>) else c1\<lparr>broadcast := x\<rparr>))"
      by (simp add: nm read)
    from penalty_leads [OF g1(2) i attending_mono [OF c1(1) n(3)] late assms(5) this, of t]
    show "leads (seat_name g k) t lt R k g1 ?g c1 (\<lambda>c'. view ?g k c' \<and> attending ?g (b + 12) c')"
      using view_cong(3) [of g1 ?g] by (simp add: nm)
  qed
  then show ?thesis
    using g1(3,4) same_names_trans [OF g1(1) same_names_ops(2)] by (simp add: followed_def tell_game_keeps)
qed

text \<open>A message that changes nothing a client sees.\<close>

lemma unseen_followed:
  assumes "ready k b g c" "view g k c" "same_names g g'" "hand_num g' = hand_num g" "card_num g' = card_num g" "hand g' = hand g"
    "out g' = out g" "turn g' = turn g" "table_card g' = table_card g" "card_id g' = card_id g" "colour g' = colour g"
  shows "followed t lt R k (b + 12) g g' c"
proof -
  have "round_ok g'" "alive g'" using assms(1,4,8-11) by (simp_all add: ready_def round_ok_def alive_def)
  moreover have "view g' k c" "attending g' (b + 12) c"
    using assms(1,2) view_cong [OF assms(3-6)] attending_mono [of g b c "b + 12"] by (simp_all add: ready_def)
  ultimately show ?thesis using assms(3,7) by (auto simp: followed_def leads_def)
qed

lemma uno_followed:
  assumes "ready k b g c" "hand_num g i \<noteq> -1" "view g k c" "game_uno rnd i line g = Some g'"
  shows "followed t lt R k (b + 12) g g' c"
proof -
  obtain a valid rest where tok: "tokens line = a # valid # rest"
    using assms(4) by (auto simp: game_uno_def split: list.splits)
  have i: "plain (seat_name g i)"
    using assms(1,2) by (auto simp: ready_def seated_def names_ok_def game_ok_def taken_set)
  show ?thesis
  proof (cases "char_at valid 0 = CHR ''0''")
    case True
    then obtain g1 where g1: "GiveCardToPlayer rnd i 2 g = Some g1" "g' = tell_game (-1) (''11 '' @ seat_name g1 i @ [NL]) g1"
      using assms(4) tok by (auto simp: game_uno_def split: option.splits)
    have "seated g k" "game_ok g" "4 \<le> card_num g" "alive g" "round_ok g" "attending g b c" "b + 12 \<le> 4000"
      using assms(1) by (simp_all add: ready_def)
    then have "same_names g g1"
      using give_follow [of g k i 2 b c rnd] assms(2) g1(1) by auto
    then have e: "g' = tell_game (-1) (''11 '' @ seat_name g i @ [NL]) g1" using g1(2) by (simp add: same_names_simps)
    have "read_line (seat_name g k) lt R (''11 '' @ seat_name g i @ [NL]) d =
      Some (Go (if seat_name g k \<noteq> seat_name g i then penalty (seat_name g i) 2 (d\<lparr>broadcast := FalseUno (seat_name g i)\<rparr>)
                else d\<lparr>broadcast := FalseUno (seat_name g i)\<rparr>))" for d
      by (rule read_penalty(1) [OF _ i, of "''11''" _ "[]"]) (simp_all add: plain_def)
    from penalty_followed [OF assms(1-3) g1(1) _ this, of t] show ?thesis by (simp add: e)
  next
    case False
    then have "g' = g \<or> (\<exists>h ts. g' = g\<lparr>have_uno := h, time_stamp := ts\<rparr>) \<or> (\<exists>h. g' = g\<lparr>have_uno := h\<rparr>)"
      using assms(4) tok by (auto simp: game_uno_def Let_def split: if_splits list.splits)
    then show ?thesis by (elim disjE exE) (rule unseen_followed [OF assms(1,3)]; simp add: same_names_def)+
  qed
qed

lemma catch_followed:
  assumes "ready k b g c" "hand_num g i \<noteq> -1" "view g k c" "game_catch rnd i line g = Some g'" "NL \<notin> set line"
  shows "followed t lt R k (b + 12) g g' c"
proof -
  obtain a valid name rest where tok: "tokens line = a # valid # name # rest"
    using assms(4) by (auto simp: game_catch_def split: list.splits)
  have nm: "plain name" using tokens_plain [OF assms(5), of name] tok by simp
  have i: "plain (seat_name g i)"
    using assms(1,2) by (auto simp: ready_def seated_def names_ok_def game_ok_def taken_set)
  show ?thesis
  proof (cases "char_at valid 0 = CHR ''0''")
    case True
    then obtain g1 where g1: "GiveCardToPlayer rnd i 2 g = Some g1"
      "g' = tell_game (-1) (''19 '' @ seat_name g1 i @ '' '' @ name @ [NL]) g1"
      using assms(4) tok by (auto simp: game_catch_def split: option.splits)
    have "seated g k" "game_ok g" "4 \<le> card_num g" "alive g" "round_ok g" "attending g b c" "b + 12 \<le> 4000"
      using assms(1) by (simp_all add: ready_def)
    then have "same_names g g1"
      using give_follow [of g k i 2 b c rnd] assms(2) g1(1) by auto
    then have e: "g' = tell_game (-1) (''19 '' @ seat_name g i @ '' '' @ name @ [NL]) g1" using g1(2) by (simp add: same_names_simps)
    have "read_line (seat_name g k) lt R (''19 '' @ seat_name g i @ '' '' @ name @ [NL]) d =
      Some (Go (if seat_name g k \<noteq> seat_name g i then penalty (seat_name g i) 2 (d\<lparr>broadcast := FalseCatch (seat_name g i) name\<rparr>)
                else d\<lparr>broadcast := FalseCatch (seat_name g i) name\<rparr>))" for d
      by (rule read_penalty(2) [OF _ i, of "''19''" _ "[name]"]) (simp_all add: plain_def nm [unfolded plain_def])
    from penalty_followed [OF assms(1-3) g1(1) _ this, of t] show ?thesis by (simp add: e)
  next
    case False
    then have "(\<exists>h ts. g' = g\<lparr>have_uno := h, time_stamp := ts\<rparr>) \<or> (\<exists>h. g' = g\<lparr>have_uno := h\<rparr>)"
      using assms(4) tok by (auto simp: game_catch_def Let_def split: if_splits list.splits)
    then show ?thesis by (elim disjE exE) (rule unseen_followed [OF assms(1,3)]; simp add: same_names_def)+
  qed
qed

lemma leave_followed:
  assumes "ready k b g c" "hand_num g i \<noteq> -1" "i \<noteq> k" "view g k c" "game_leave i n g = Go g'"
  shows "followed t lt R k (b + 12) g g' c"
proof -
  have r: "game_ok g" "seated g k" "alive g" "round_ok g" "attending g b c" "324 \<le> b" using assms(1) by (simp_all add: ready_def)
  have gi: "i \<in> set (taken g)" using r(1) assms(2) by (auto simp: game_ok_def taken_set)
  let ?l = "''7 '' @ seat_name g i @ [NL]"
  obtain h where h: "used h = used g" "cname h = cname g" "out h = out g" "hand_num h = (hand_num g)(i := -1)" "card_num h = card_num g"
    "hand h = hand g" "turn h = turn g" "table_card h = table_card g" "card_id h = card_id g" "colour h = colour g"
    and g': "g' = tell_game (int i) ?l h \<or> (\<exists>w. g' = StartRound (table_text ((tell_game (int i) ?l h)\<lparr>whose_round := w\<rparr>)) ((tell_game (int i) ?l h)\<lparr>whose_round := w\<rparr>))"
  proof -
    let ?g1 = "g\<lparr>hand_num := (hand_num g)(i := -1), player_num := player_num g - 1\<rparr>"
    let ?h = "if n = 0 then ?g1\<lparr>closed := closed ?g1 @ [seat_conn ?g1 i], cstate := (cstate ?g1)(seat_conn ?g1 i := 0),
                               global_player_num := global_player_num ?g1 - 1\<rparr>
               else ?g1\<lparr>cstate := (cstate ?g1)(seat_conn ?g1 i := 1)\<rparr>"
    have sn: "seat_name ?g1 i = seat_name g i" by (simp add: seat_name_def seat_conn_def)
    have "g' = tell_game (int i) ?l ?h \<or> (\<exists>w. g' = StartRound (table_text ((tell_game (int i) ?l ?h)\<lparr>whose_round := w\<rparr>)) ((tell_game (int i) ?l ?h)\<lparr>whose_round := w\<rparr>))"
      using assms(5) unfolding game_leave_def Let_def sn by (simp only: split: if_splits) auto
    then show thesis by (intro that [of ?h]) simp_all
  qed
  have sn: "same_names g h" using h(1,2) by (simp add: same_names_def)
  note nm = same_names_simps [OF sn]
  have sh: "seated h k" "alive h" "round_ok h" "attending h b c" "i \<in> set (taken h)"
    using r(2-5) gi assms(3) by (simp_all add: seated_def nm h(4,7-10) alive_def round_ok_def attending_def)
  let ?t = "tell_game (int i) ?l h"
  have "leads (seat_name h k) t lt R k h ?t c (\<lambda>c'. view ?t k c' \<and> attending h b c')"
    using leave_leads [OF sh(1,5) assms(3) sh(4) assms(4) sn h(4-6), of t lt R] by (simp add: nm)
  from leads_silent_from [OF this h(3) [symmetric] sn]
  have l: "leads (seat_name g k) t lt R k g ?t c (\<lambda>c'. view ?t k c' \<and> attending h b c')" by (simp add: nm)
  have tn: "same_names g ?t" using same_names_trans [OF sn same_names_ops(2)] .
  have tk: "attending ?t (b + 12) d" if "attending h b d" for d
    using attending_mono [OF that, of "b + 12"] view_cong(3) [of h ?t] by simp
  from g' show ?thesis
  proof (elim disjE exE)
    assume "g' = ?t"
    then show ?thesis using sh(2,3) tn leads_mono [OF l] tk by (auto simp: followed_def tell_game_keeps)
  next
    fix w
    let ?g2 = "?t\<lparr>whose_round := w\<rparr>"
    assume e: "g' = StartRound (table_text ?g2) ?g2"
    have g2: "same_names ?t ?g2" "hand_num ?g2 = hand_num ?t" "out ?g2 = out ?t" by (simp_all add: same_names_def)
    have "game_ok ?g2" using game_leave_ok [OF r(1) assms(2,5)] by (simp add: e StartRound_keeps)
    moreover have "alive ?g2" "round_ok ?g2" "seated ?g2 k"
      using sh(1-3) view_cong(2) [of h ?g2 k] sn by (simp_all add: alive_def round_ok_def same_names_def tell_game_def)
    moreover have "attending ?g2 (b + 12) d" if "attending h b d" for d
      using tk [OF that] view_cong(3) [OF g2(1)] by simp
    then have "leads (seat_name g k) t lt R k g ?g2 c (attending ?g2 (b + 12))"
      by (intro leads_silent [OF leads_mono [OF l] g2(3)]) simp
    ultimately show ?thesis unfolding e
      using announced [OF _ same_names_trans [OF tn g2(1)]] table_text_plain [of ?g2] r(6) by simp
  qed
qed

section \<open>All the messages of a round\<close>

text \<open>A line as the client program sends it: no chat, and a card has two characters.\<close>

definition polite :: "string \<Rightarrow> bool" where
  "polite l \<longleftrightarrow> CHR 0x00 \<notin> set l \<and> \<not> (char_at l 0 = CHR ''2'' \<and> char_at l 1 = CHR ''1'')
     \<and> (let ws = tokens (takeWhile (\<lambda>x. x \<noteq> NL) l) in char_at l 0 = CHR ''9'' \<and> 2 \<le> length ws \<longrightarrow> length (ws ! 1) = 2)"

lemma char_at_takeWhile: "char_at (takeWhile P l) 0 = c \<Longrightarrow> c \<noteq> CHR 0x00 \<Longrightarrow> char_at l 0 = c"
  by (cases l) (auto simp: char_at_def split: if_splits)

lemma event_followed:
  assumes "ready k b g c" "hand_num g i \<noteq> -1" "view g k c" "polite line"
    "seat_event rnd i n line g = Some (Go g')" "hand_num g' k \<noteq> -1"
  shows "followed t lt R k (b + 12) g g' c"
proof -
  let ?l = "takeWhile (\<lambda>x. x \<noteq> NL) line"
  have r: "game_ok g" "4 \<le> card_num g" using assms(1) by (simp_all add: ready_def)
  have nl: "NL \<notin> set ?l" using set_takeWhileD by fastforce
  have nul: "CHR 0x00 \<notin> set ?l" using assms(4) set_takeWhileD by (fastforce simp: polite_def)
  show ?thesis
  proof (cases "n = 0 \<or> char_at line 0 = CHR ''8''")
    case True
    then have l: "game_leave i n g = Go g'" using assms(5) by (simp add: seat_event_def)
    have "i \<noteq> k" using game_leave_ok [OF r(1) assms(2) l] assms(6) by auto
    from leave_followed [OF assms(1,2) this assms(3) l] show ?thesis .
  next
    case False
    then have ev: "(if char_at ?l 0 = CHR ''9'' then game_play rnd i ?l g
         else if char_at ?l 0 = CHR ''1'' \<and> char_at ?l 1 = CHR ''0'' then map_option Go (game_skip rnd g)
         else if char_at ?l 0 = CHR ''1'' \<and> char_at ?l 1 = CHR ''1'' then map_option Go (game_uno rnd i ?l g)
         else if char_at ?l 0 = CHR ''1'' \<and> char_at ?l 1 = CHR ''2'' then map_option Go (game_catch rnd i ?l g)
         else Some (Go g)) = Some (Go g')"
      using assms(4,5) unfolding seat_event_def Let_def polite_def by (simp only: if_False)
    consider "char_at ?l 0 = CHR ''9''" "game_play rnd i ?l g = Some (Go g')" | "game_skip rnd g = Some g'"
      | "game_uno rnd i ?l g = Some g'" | "game_catch rnd i ?l g = Some g'" | "g' = g"
      using ev by (auto split: if_splits)
    then show ?thesis
    proof cases
      case 1
      have "char_at line 0 = CHR ''9''" using char_at_takeWhile [OF 1(1)] by simp
      then have "plain (tokens ?l ! 1) \<and> length (tokens ?l ! 1) = 2 \<and> CHR 0x00 \<notin> set (tokens ?l ! 1)" if "2 \<le> length (tokens ?l)"
      proof -
        have m: "tokens ?l ! 1 \<in> set (tokens ?l)" using that by (intro nth_mem) simp
        then have "tokens ?l ! 1 \<in> set (split_at CHR '' '' ?l)" by (simp add: tokens_def)
        then have "set (tokens ?l ! 1) \<subseteq> set ?l" using split_at_chars by blast
        then show ?thesis using tokens_plain [OF nl m] assms(4) that \<open>char_at line 0 = _\<close> nul by (auto simp: polite_def Let_def)
      qed
      from play_followed [OF assms(1,2) 1(2) this] show ?thesis .
    next
      case 2
      from skip_followed [OF assms(1) 2] show ?thesis .
    next
      case 3
      from uno_followed [OF assms(1-3) 3] show ?thesis .
    next
      case 4
      from catch_followed [OF assms(1-3) 4 nl] show ?thesis .
    next
      case 5
      then show ?thesis by (intro unseen_followed [OF assms(1,3)]) simp_all
    qed
  qed
qed

text \<open>Who is out of the game stays out.\<close>

lemma event_stays_out:
  assumes "game_ok g" "4 \<le> card_num g" "hand_num g i \<noteq> -1" "seat_event rnd i n line g = Some (Go g')" "hand_num g k = -1"
  shows "hand_num g' k = -1"
  using seat_event_within [OF assms(1-4)] assms(3,5) by (auto simp: within_def split: if_splits)

lemma events_stay_out:
  assumes "game_ok g" "4 * length js \<le> card_num g" "seat_events rnd ev js g = Some (Go g')" "hand_num g k = -1"
  shows "hand_num g' k = -1"
  using assms
proof (induction js arbitrary: g)
  case Nil
  then show ?case by simp
next
  case (Cons i js)
  show ?case
  proof (cases "used g i = -1 \<or> hand_num g i = -1 \<or> ev i = None")
    case True
    then have "seat_events rnd ev js g = Some (Go g')" using Cons.prems(3) by (auto split: option.splits if_splits)
    with Cons.IH [OF Cons.prems(1) _ this Cons.prems(4)] Cons.prems(2) show ?thesis by simp
  next
    case False
    then obtain n line where e: "ev i = Some (n, line)" by auto
    obtain g1 where g1: "seat_event rnd i n line g = Some (Go g1)" "seat_events rnd ev js g1 = Some (Go g')"
      using Cons.prems(3) False e by (auto split: option.splits outcome.splits)
    have p: "4 \<le> card_num g" "hand_num g i \<noteq> -1" using Cons.prems(2) False by simp_all
    have s: "game_ok g1" "4 * length js \<le> card_num g1"
      using seat_event_within [OF Cons.prems(1) p g1(1)] Cons.prems(2) by auto
    show ?thesis by (rule Cons.IH [OF s g1(2) event_stays_out [OF Cons.prems(1) p g1(1) Cons.prems(4)]])
  qed
qed

lemma events_followed:
  assumes "game_ok g" "4 * length js \<le> card_num g" "seated g k" "alive g" "round_ok g" "attending g b c" "view g k c"
    "324 \<le> b" "b + 12 * length js \<le> 4000" "\<forall>i n l. ev i = Some (n, l) \<longrightarrow> polite l"
    "seat_events rnd ev js g = Some (Go g')" "hand_num g' k \<noteq> -1"
  shows "followed t lt R k (b + 12 * length js) g g' c"
  using assms
proof (induction js arbitrary: g b c)
  case Nil
  then show ?case by (auto simp: followed_def leads_def)
next
  case (Cons i js)
  have len: "4 * length js \<le> card_num g" "b + 12 * length js \<le> 4000" "b + 12 * length js \<le> b + 12 * length (i # js)"
    using Cons.prems(2,9) by simp_all
  show ?case
  proof (cases "used g i = -1 \<or> hand_num g i = -1 \<or> ev i = None")
    case True
    then have "seat_events rnd ev js g = Some (Go g')" using Cons.prems(11) by (auto split: option.splits if_splits)
    from Cons.IH [OF Cons.prems(1) len(1) Cons.prems(3-8) len(2) Cons.prems(10) this Cons.prems(12)]
    show ?thesis using attending_mono [OF _ len(3)] by (auto simp: followed_def elim!: leads_mono)
  next
    case False
    then obtain n line where e: "ev i = Some (n, line)" by auto
    obtain g1 where g1: "seat_event rnd i n line g = Some (Go g1)" "seat_events rnd ev js g1 = Some (Go g')"
      using Cons.prems(11) False e by (auto split: option.splits outcome.splits)
    have p: "4 \<le> card_num g" "hand_num g i \<noteq> -1" using Cons.prems(2) False by simp_all
    have s: "game_ok g1" "4 * length js \<le> card_num g1"
      using seat_event_within [OF Cons.prems(1) p g1(1)] Cons.prems(2) by auto
    have k1: "hand_num g1 k \<noteq> -1" using events_stay_out [OF s g1(2)] Cons.prems(12) by blast
    have "ready k b g c" using Cons.prems(1-9) p(1) by (simp add: ready_def)
    moreover have "polite line" using Cons.prems(10) e by blast
    ultimately have "followed t lt R k (b + 12) g g1 c"
      using event_followed [OF _ p(2) Cons.prems(7) _ g1(1) k1] by blast
    then have f: "same_names g g1" "round_ok g1" "alive g1"
      "leads (seat_name g k) t lt R k g g1 c (\<lambda>c'. view g1 k c' \<and> attending g1 (b + 12) c')"
      by (simp_all add: followed_def)
    have sk: "seated g1 k" using Cons.prems(3) k1 by (simp add: seated_def same_names_simps [OF f(1)])
    have rest: "followed t lt R k (b + 12 + 12 * length js) g1 g' c1" if "view g1 k c1" "attending g1 (b + 12) c1" for c1
      using Cons.prems(8,9) by (intro Cons.IH [OF s sk f(3,2) that(2,1) _ _ Cons.prems(10) g1(2) Cons.prems(12)]) simp_all
    obtain c1 where "view g1 k c1" "attending g1 (b + 12) c1" using f(4) by (auto simp: leads_def)
    from rest [OF this] have g': "same_names g1 g'" "round_ok g'" "alive g'" by (simp_all add: followed_def)
    have b: "b + 12 + 12 * length js = b + 12 * length (i # js)" by simp
    have "leads (seat_name g k) t lt R k g g' c (\<lambda>c'. view g' k c' \<and> attending g' (b + 12 * length (i # js)) c')"
      using leads_trans [OF f(4,1)] rest unfolding followed_def b by (simp add: same_names_simps [OF f(1)])
    then show ?thesis using g' same_names_trans [OF f(1) g'(1)] by (simp add: followed_def)
  qed
qed

section \<open>Correctness\<close>


definition sample_duel :: game where
  "sample_duel = sample_full\<lparr>hand := (\<lambda>i c. i = 0 \<and> c = 50 \<or> i = 1 \<and> c = 51), hand_num := (\<lambda>i. if i < 2 then 1 else -1)\<rparr>"

definition sample_viewer :: client where
  "sample_viewer = (sample_client [''p5'', ''p6''])\<lparr>remain := [1, 1], card_remain := 50, my_card := cards ! 51\<rparr>"

lemma sample_duel_ok:
  "game_ok sample_duel" "taken sample_duel = [0, 1]" "names_ok sample_duel" "alive sample_duel" "round_ok sample_duel"
  "view sample_duel 1 sample_viewer" "card_num sample_duel = 50" "length (my_card sample_viewer) \<le> 3000" "new_card sample_viewer = []"
proof -
  have h: "{c. i = 0 \<and> c = 50 \<or> i = Suc 0 \<and> c = (51::nat)} = (if i = 0 then {50} else if i = 1 then {51} else {})" for i :: nat by auto
  have p: "{i. i < (2::nat)} = {0, 1}" by auto
  show "game_ok sample_duel"
    by (auto simp: game_ok_def cards_ok_def sample_duel_def sample_full_def sample_game_def deck_def h p)
  show t: "taken sample_duel = [0, 1]"
    by (simp add: taken_def sample_duel_def sample_full_def sample_game_def upt_rec)
  have n: "seat_name sample_duel 0 = ''p5''" "seat_name sample_duel 1 = ''p6''" "seat_conn sample_duel 0 = 5" "seat_conn sample_duel 1 = 6"
    by (simp_all add: seat_name_def seat_conn_def sample_duel_def sample_full_def sample_game_def fmt_d_def render_small
        digit_char_def char_of_def bit_0)
  show "names_ok sample_duel" using n by (simp add: names_ok_def t plain_def)
  show "alive sample_duel" "round_ok sample_duel" "card_num sample_duel = 50" "length (my_card sample_viewer) \<le> 3000" "new_card sample_viewer = []"
    by (simp_all add: alive_def round_ok_def sample_duel_def sample_full_def sample_game_def sample_viewer_def sample_client_def cards_def)
  have c: "tokens (cards ! 51) = [cards ! 51]" by (simp add: cards_def tokens_def)
  have "filter (\<lambda>c. c = (51::nat)) [0..<108] = [51]" by (simp add: upt_rec)
  then have "hand_cards sample_duel 1 = [cards ! 51]" by (simp add: hand_cards_def sample_duel_def)
  then show "view sample_duel 1 sample_viewer"
    using n c by (simp add: view_def names_of_def t sample_viewer_def sample_client_def)
      (simp add: sample_duel_def sample_full_def sample_game_def)
qed

lemma seat_events_quiet: "(\<And>i. i \<in> set js \<Longrightarrow> ev i = None) \<Longrightarrow> seat_events rnd ev js g = Some (Go g)"
  by (induction js) auto


section \<open>The cards on the table\<close>

text \<open>Every card is in the deck, in a hand, or on the table.\<close>

lemma table_count:
  assumes "game_ok g"
  shows "108 - int (card_num g) - (\<Sum>i\<leftarrow>filter (\<lambda>i. hand_num g i \<noteq> -1) (taken g). hand_num g i)
    = int (card {c. c < 108 \<and> c \<notin> set (deck g) \<and> (\<forall>i. hand_num g i \<noteq> -1 \<longrightarrow> \<not> hand g i c)})"
proof -
  have ok: "cards_ok g" using assms by (simp add: game_ok_def)
  note c = cards_okD [OF ok]
  let ?A = "{i. hand_num g i \<noteq> -1}" and ?H = "\<lambda>i. {c. hand g i c}" and ?D = "set (deck g)"
  have A: "set (filter (\<lambda>i. hand_num g i \<noteq> -1) (taken g)) = ?A" using assms by (auto simp: game_ok_def taken_set)
  have fin: "finite ?A" using A by (metis finite_set)
  have "(\<Sum>i\<leftarrow>filter (\<lambda>i. hand_num g i \<noteq> -1) (taken g). hand_num g i) = (\<Sum>i\<in>?A. hand_num g i)"
    unfolding A [symmetric] by (rule sum_list_distinct_conv_sum_set) (simp add: taken_def)
  also have "\<dots> = (\<Sum>i\<in>?A. int (card (?H i)))" by (rule sum.cong) (use c(8) in auto)
  also have "\<dots> = int (card (\<Union>i\<in>?A. ?H i))"
    using fin hand_finite [OF ok] c(6) by (subst card_UN_disjoint) auto
  finally have hands: "(\<Sum>i\<leftarrow>filter (\<lambda>i. hand_num g i \<noteq> -1) (taken g). hand_num g i) = int (card (\<Union>i\<in>?A. ?H i))" .
  have "length (deck g) = card_num g" using c(1,2) by (simp add: deck_def)
  then have deck: "card ?D = card_num g" using distinct_card [OF c(3)] by simp
  let ?U = "\<Union>i\<in>?A. ?H i" and ?R = "{c. c < 108 \<and> c \<notin> ?D \<and> (\<forall>i. hand_num g i \<noteq> -1 \<longrightarrow> \<not> hand g i c)}"
  have sub: "?D \<subseteq> {0..<108}" "?U \<subseteq> {0..<108}" using c(4,7) by auto
  have split: "{0..<108} = ?D \<union> ?U \<union> ?R" using sub by auto
  have "?D \<inter> ?U = {}" "(?D \<union> ?U) \<inter> ?R = {}" using c(5) by auto
  moreover have "finite ?U" "finite ?R" "finite ?D"
    using finite_subset [OF sub(1)] finite_subset [OF sub(2)] by simp_all
  ultimately have "card {0..<108::nat} = card ?D + card ?U + card ?R"
    unfolding split by (simp add: card_Un_disjoint)
  then show ?thesis using deck hands by simp
qed

text \<open>
  A round read back: whatever a client in the room saw before, the line of \<open>StartRound\<close> for its player,
  scanned by the client, gives it the card on the table, the size of the deck, the direction, whose turn it is, every
  player's number of cards (-1 for one who left), its player's own cards in the server's order, and as the number of
  cards on the table exactly how many cards are neither in the deck nor in a hand.
\<close>

lemma round_shows_state:
  assumes "game_ok g" "names_ok g" "alive g" "turn g = 0 \<or> turn g = 1" "k \<in> set (taken g)" "hand_num g k \<noteq> -1"
    and "plain name" "length name \<le> 2" "players c = names_of g" "length (my_card c) \<le> 4000" "length (new_card c) \<le> 4000"
  shows "\<exists>ms c'. out (StartRound name g) = out g @ ms
    \<and> client_lines (seat_name g k) t lt R (to_seat g k ms) c = Some (Go c')
    \<and> top_card c' = name \<and> card_remain c' = int (card_num g) \<and> direct c' = (turn g = 1)
    \<and> whos_turn c' = seat_name g (whose_round g) \<and> remain c' = map (hand_num g) (taken g)
    \<and> mset (tokens (my_card c')) = mset (hand_cards g k)
    \<and> table_card_num c' = int (card {c. c < 108 \<and> c \<notin> set (deck g) \<and> (\<forall>i. hand_num g i \<noteq> -1 \<longrightarrow> \<not> hand g i c)})"
proof -
  have s: "seated g k" "0 < hand_num g k" "cards_ok g" "whose_round g \<in> set (taken g)" "attending g 4000 c"
    using assms by (auto simp: seated_def alive_def game_ok_def taken_set attending_def roomy_def)
  let ?g = "StartRound name g"
  have f: "card_num ?g = card_num g" "turn ?g = turn g" "whose_round ?g = whose_round g" "hand_num ?g = hand_num g" "hand_cards ?g k = hand_cards g k"
    by (simp_all add: hand_cards_def) (simp add: StartRound_def)
  from StartRound_leads [OF s(1,3,2,4) assms(4,7,8) s(5), of t lt R]
  obtain ms c' where m: "out ?g = out g @ ms" "client_lines (seat_name g k) t lt R (to_seat g k ms) c = Some (Go c')" "round_seen name ?g k c'"
    by (auto simp: leads_def)
  have "card_remain c' = int (card_num g) \<and> direct c' = (turn g = 1) \<and> whos_turn c' = seat_name g (whose_round g)
    \<and> remain c' = map (hand_num g) (taken g) \<and> mset (tokens (my_card c')) = mset (hand_cards g k) \<and> top_card c' = name"
    "table_card_num c' = 108 - int (card_num g) - (\<Sum>i\<leftarrow>filter (\<lambda>i. hand_num g i \<noteq> -1) (taken g). hand_num g i)"
    using m(3) f same_names_simps [OF same_names_ops(3) [of g name]] unfolding round_seen_def view_def by simp_all
  then show ?thesis using m(1,2) unfolding table_count [OF assms(1)] by blast
qed

lemma round_shows_state_example:
  "\<exists>ms c'. out (StartRound ''8r'' sample_duel) = out sample_duel @ ms
    \<and> client_lines (seat_name sample_duel 1) 60 0 [] (to_seat sample_duel 1 ms) sample_viewer = Some (Go c')
    \<and> top_card c' = ''8r'' \<and> card_remain c' = 50"
proof -
  note d = sample_duel_ok
  have "turn sample_duel = 0 \<or> turn sample_duel = 1" "1 \<in> set (taken sample_duel)" "hand_num sample_duel 1 \<noteq> -1" "plain ''8r''"
    "players sample_viewer = names_of sample_duel" "length (my_card sample_viewer) \<le> 4000"
    using d(2,5,6,8) by (simp_all add: round_ok_def plain_def view_def) (simp add: sample_duel_def)
  from round_shows_state [OF d(1,3,4) this(1-4) _ this(5,6), of 60 0 "[]"] show ?thesis using d(7,9) by fastforce
qed

end
