(* ===== verification/Web_Client.thy ===== *)
theory Web_Client
  imports Stream_IO
begin

unbundle bit_operations_syntax

text \<open>
  The web client of \<open>nonblock/\<close> (\<open>web.c\<close>, \<open>home_page.c\<close>, \<open>start_connect.c\<close>, \<open>write_get_cmd.c\<close>), which fetches
  several files over non-blocking connections, at most \<open>maxnconn\<close> at a time. The kernel is a
  parameter: which descriptor \<open>socket\<close> returns and what \<open>select\<close> reports may depend on all that has
  happened, what the servers send is a script per file. \<open>Ret\<close> is \<open>exit(0)\<close>, \<open>Die\<close> an exit through
  \<open>err_sys\<close> or \<open>err_quit\<close>, \<open>None\<close> a request longer than the array it is written from.
\<close>

section \<open>The home page\<close>

abbreviation F_CONNECTING :: u32 where "F_CONNECTING \<equiv> 1"
abbreviation F_READING :: u32 where "F_READING \<equiv> 2"
abbreviation F_DONE :: u32 where "F_DONE \<equiv> 4"

definition GET_CMD :: "string \<Rightarrow> string" where
  "GET_CMD f = ''GET '' @ f @ '' HTTP/1.0'' @ [CHR 0x0D, CHR 0x0A, CHR 0x0D, CHR 0x0A]"

text \<open>What \<open>Writen(fd, line, n)\<close> sends when \<open>n\<close> is the length \<open>snprintf\<close> wanted.\<close>

definition get_line :: "string \<Rightarrow> string option" where
  "get_line f = (let n = length (GET_CMD f) in
     if MAXLINE < n then None else Some (take n (take (MAXLINE - 1) (GET_CMD f) @ [CHR 0x00])))"

text \<open>Reading to the end of file; the number of bytes, or the error the wrapper \<open>Read\<close> quits with.\<close>

function read_all :: "nat \<Rightarrow> rd list \<Rightarrow> errno + nat" where
  "read_all n inp =
     (case sys_read MAXLINE inp of
        (Inl e, _) \<Rightarrow> Inl e
      | (Inr bs, inp') \<Rightarrow> if bs = [] then Inr n else read_all (n + length bs) inp')"
  by auto
termination
proof (relation "measure (\<lambda>(n, inp). weight inp)", goal_cases)
  case 1
  then show ?case by simp
next
  case (2 n inp r inp' bs)
  then have "sys_read MAXLINE inp = (Inr bs, inp')" "inp \<noteq> []" by auto
  from sys_read_weight [OF this(1) _ this(2)] show ?case by simp
qed

declare read_all.simps [simp del]

datatype page = Page nat | PageErr

definition home_page :: "bool \<Rightarrow> string \<Rightarrow> rd list \<Rightarrow> (string \<times> page) option" where
  "home_page written fname inp =
     (case get_line fname of
        None \<Rightarrow> None
      | Some l \<Rightarrow> Some (l, if written then (case read_all 0 inp of Inl e \<Rightarrow> PageErr | Inr n \<Rightarrow> Page n) else PageErr))"

section \<open>The state\<close>

record webfile =
  f_name :: string
  f_host :: string
  f_fd :: int
  f_flags :: u32

text \<open>\<open>gets\<close>: the requests written, with the index of their file. \<open>replies\<close>: what is still to come from each
  server. \<open>complaints\<close>: files whose connection failed, which is only reported.\<close>

record web =
  wfiles :: "webfile list"
  nconn :: int
  nlefttoconn :: int
  nlefttoread :: int
  maxfd :: int
  rset :: "int set"
  wset :: "int set"
  gets :: "(nat \<times> string) list"
  complaints :: "nat list"
  replies :: "nat \<Rightarrow> rd list"

datatype conn_res = Connected | InProgress | ConnErr

record kernel =
  k_sock :: "web \<Rightarrow> int"
  k_connect :: "nat \<Rightarrow> conn_res"
  k_soerr :: "nat \<Rightarrow> bool"
  k_write :: "nat \<Rightarrow> bool"
  k_select :: "web \<Rightarrow> int set \<times> int set"

definition web_start :: "string \<Rightarrow> string list \<Rightarrow> (nat \<Rightarrow> rd list) \<Rightarrow> web" where
  "web_start host names rs =
     (let fs = map (\<lambda>n. \<lparr>f_name = n, f_host = host, f_fd = 0, f_flags = 0\<rparr>) (take 20 names)
      in \<lparr>wfiles = fs, nconn = 0, nlefttoconn = int (length fs), nlefttoread = int (length fs), maxfd = -1,
          rset = {}, wset = {}, gets = [], complaints = [], replies = rs\<rparr>)"

definition upd_file :: "nat \<Rightarrow> (webfile \<Rightarrow> webfile) \<Rightarrow> web \<Rightarrow> web" where
  "upd_file i f w = w\<lparr>wfiles := (wfiles w)[i := f (wfiles w ! i)]\<rparr>"

section \<open>Connecting and asking\<close>

definition write_get_cmd :: "kernel \<Rightarrow> nat \<Rightarrow> web \<Rightarrow> web outcome option" where
  "write_get_cmd K i w =
     (case get_line (f_name (wfiles w ! i)) of
        None \<Rightarrow> None
      | Some l \<Rightarrow>
          if \<not> k_write K i then Some (Die w)
          else
            let fd = f_fd (wfiles w ! i);
                w = upd_file i (\<lambda>f. f\<lparr>f_flags := F_READING\<rparr>) (w\<lparr>gets := gets w @ [(i, l)]\<rparr>)
            in Some (Go (w\<lparr>rset := insert fd (rset w), maxfd := max fd (maxfd w)\<rparr>)))"

definition start_connect :: "kernel \<Rightarrow> nat \<Rightarrow> web \<Rightarrow> web outcome option" where
  "start_connect K i w =
     (let fd = k_sock K w; w = upd_file i (\<lambda>f. f\<lparr>f_fd := fd\<rparr>) w in
      case k_connect K i of
        ConnErr \<Rightarrow> Some (Die w)
      | InProgress \<Rightarrow>
          let w = upd_file i (\<lambda>f. f\<lparr>f_flags := F_CONNECTING\<rparr>) w
          in Some (Go (w\<lparr>rset := insert fd (rset w), wset := insert fd (wset w), maxfd := max fd (maxfd w)\<rparr>))
      | Connected \<Rightarrow> write_get_cmd K i w)"

lemma start_connect_nlefttoconn: "start_connect K i w = Some (Go w') \<Longrightarrow> nlefttoconn w' = nlefttoconn w"
  by (auto simp: start_connect_def write_get_cmd_def upd_file_def Let_def split: conn_res.splits option.splits if_splits)

text \<open>The inner loop: as many connections as allowed.\<close>

function connect_more :: "kernel \<Rightarrow> int \<Rightarrow> web \<Rightarrow> web outcome option" where
  "connect_more K maxnconn w =
     (if nconn w < maxnconn \<and> 0 < nlefttoconn w then
        (case find (\<lambda>i. f_flags (wfiles w ! i) = 0) [0..<length (wfiles w)] of
           None \<Rightarrow> Some (Die w)
         | Some i \<Rightarrow>
             (case start_connect K i w of
                Some (Go w') \<Rightarrow> connect_more K maxnconn (w'\<lparr>nconn := nconn w' + 1, nlefttoconn := nlefttoconn w' - 1\<rparr>)
              | r \<Rightarrow> r))
      else Some (Go w))"
  by auto
termination
  by (relation "measure (\<lambda>(K, m, w). nat (nlefttoconn w))") (auto dest: start_connect_nlefttoconn)

declare connect_more.simps [simp del]

section \<open>One round of \<open>select\<close>\<close>

definition serve_file :: "kernel \<Rightarrow> int set \<Rightarrow> int set \<Rightarrow> nat \<Rightarrow> web \<Rightarrow> web outcome option" where
  "serve_file K rs ws i w =
     (let flags = f_flags (wfiles w ! i); fd = f_fd (wfiles w ! i) in
      if flags = 0 \<or> flags AND F_DONE \<noteq> 0 then Some (Go w)
      else if flags AND F_CONNECTING \<noteq> 0 \<and> (fd \<in> rs \<or> fd \<in> ws) then
        write_get_cmd K i (w\<lparr>wset := wset w - {fd},
                             complaints := (if k_soerr K i then complaints w @ [i] else complaints w)\<rparr>)
      else if flags AND F_READING \<noteq> 0 \<and> fd \<in> rs then
        (case sys_read MAXLINE (replies w i) of
           (Inl e, _) \<Rightarrow> Some (Die w)
         | (Inr bs, inp') \<Rightarrow>
             let w = w\<lparr>replies := (replies w)(i := inp')\<rparr> in
             if bs = [] then
               let w = upd_file i (\<lambda>f. f\<lparr>f_flags := F_DONE\<rparr>) w
               in Some (Go (w\<lparr>rset := rset w - {fd}, nconn := nconn w - 1, nlefttoread := nlefttoread w - 1\<rparr>))
             else Some (Go w))
      else Some (Go w))"

fun serve_files :: "kernel \<Rightarrow> int set \<Rightarrow> int set \<Rightarrow> nat list \<Rightarrow> web \<Rightarrow> web outcome option" where
  "serve_files K rs ws [] w = Some (Go w)"
| "serve_files K rs ws (i # is') w =
     (case serve_file K rs ws i w of Some (Go w) \<Rightarrow> serve_files K rs ws is' w | r \<Rightarrow> r)"

text \<open>\<open>Select\<close> looks at the descriptors up to \<open>maxfd\<close>.\<close>

definition watched :: "web \<Rightarrow> int set \<Rightarrow> int set" where
  "watched w s = {fd \<in> s. fd \<le> maxfd w}"

definition web_round :: "kernel \<Rightarrow> int \<Rightarrow> web \<Rightarrow> web outcome option" where
  "web_round K maxnconn w =
     (if 0 < nlefttoread w then
        (case connect_more K maxnconn w of
           Some (Go w) \<Rightarrow>
             let (rs, ws) = k_select K w
             in serve_files K (watched w (rset w) \<inter> rs) (watched w (wset w) \<inter> ws) [0..<length (wfiles w)] w
         | r \<Rightarrow> r)
      else Some (Ret w))"

text \<open>The outer loop, with fuel; \<open>Go\<close>: still running.\<close>

fun web_loop :: "nat \<Rightarrow> kernel \<Rightarrow> int \<Rightarrow> web \<Rightarrow> web outcome option" where
  "web_loop 0 K maxnconn w = Some (Go w)"
| "web_loop (Suc n) K maxnconn w =
     (case web_round K maxnconn w of Some (Go w) \<Rightarrow> web_loop n K maxnconn w | r \<Rightarrow> r)"

section \<open>The counters and descriptor sets\<close>

definition with_flag :: "(u32 \<Rightarrow> bool) \<Rightarrow> web \<Rightarrow> nat set" where
  "with_flag P w = {i. i < length (wfiles w) \<and> P (f_flags (wfiles w ! i))}"

abbreviation fresh :: "u32 \<Rightarrow> bool" where "fresh x \<equiv> x = 0"
abbreviation active :: "u32 \<Rightarrow> bool" where "active x \<equiv> x = F_CONNECTING \<or> x = F_READING"
abbreviation asked :: "u32 \<Rightarrow> bool" where "asked x \<equiv> x = F_READING \<or> x = F_DONE"

definition fd_of :: "web \<Rightarrow> nat \<Rightarrow> int" where
  "fd_of w i = f_fd (wfiles w ! i)"

definition gets_ok :: "web \<Rightarrow> bool" where
  "gets_ok w \<longleftrightarrow> distinct (map fst (gets w)) \<and> fst ` set (gets w) = with_flag asked w
     \<and> (\<forall>(i, l)\<in>set (gets w). get_line (f_name (wfiles w ! i)) = Some l)"

definition web_ok :: "int \<Rightarrow> web \<Rightarrow> bool" where
  "web_ok m w \<longleftrightarrow>
     (\<forall>f\<in>set (wfiles w). f_flags f \<in> {0, F_CONNECTING, F_READING, F_DONE})
     \<and> nconn w = int (card (with_flag active w)) \<and> nlefttoconn w = int (card (with_flag fresh w))
     \<and> nlefttoread w = int (card (with_flag (\<lambda>x. x \<noteq> F_DONE) w))
     \<and> inj_on (fd_of w) (with_flag active w) \<and> rset w = fd_of w ` with_flag active w
     \<and> wset w = fd_of w ` with_flag (\<lambda>x. x = F_CONNECTING) w \<and> (\<forall>fd\<in>rset w. fd \<le> maxfd w)
     \<and> nconn w \<le> max 0 m \<and> gets_ok w \<and> (\<forall>i. proper (replies w i))"

lemma with_flag_upd:
  assumes "i < length (wfiles w)" "wfiles w' = (wfiles w)[i := f]"
  shows "with_flag P w' = (if P (f_flags f) then insert i (with_flag P w) else with_flag P w - {i})"
  using assms by (auto simp: with_flag_def nth_list_update split: if_splits)

lemma with_flag_same: "wfiles w' = wfiles w \<Longrightarrow> with_flag P w' = with_flag P w"
  by (simp add: with_flag_def)

lemma finite_with_flag [simp]: "finite (with_flag P w)"
  by (simp add: with_flag_def)

lemma card_flag_upd:
  assumes "i < length (wfiles w)" "wfiles w' = (wfiles w)[i := f]"
  shows "int (card (with_flag P w')) = int (card (with_flag P w))
    + (if P (f_flags f) then 1 else 0) - (if P (f_flags (wfiles w ! i)) then 1 else 0)"
proof -
  have i: "i \<in> with_flag P w \<longleftrightarrow> P (f_flags (wfiles w ! i))" using assms(1) by (simp add: with_flag_def)
  then have "0 < card (with_flag P w)" if "P (f_flags (wfiles w ! i))" using that by (auto simp: card_gt_0_iff)
  then show ?thesis unfolding with_flag_upd [OF assms] using i by (auto simp: insert_absorb of_nat_diff card_Diff_singleton)
qed

text \<open>The numbers of the files by their flags.\<close>

lemma fds_upd:
  assumes "i < length (wfiles w)" "wfiles w' = (wfiles w)[i := f]" "inj_on (fd_of w) (with_flag active w)"
    and "if active (f_flags (wfiles w ! i)) then f_fd f = fd_of w i else f_fd f \<notin> fd_of w ` with_flag active w"
    and Q: "\<forall>x. Q x \<longrightarrow> active x"
  shows "fd_of w' ` with_flag Q w' = (if Q (f_flags f) then insert (f_fd f) (fd_of w ` with_flag Q w)
      else fd_of w ` with_flag Q w - (if Q (f_flags (wfiles w ! i)) then {f_fd f} else {}))"
    "inj_on (fd_of w') (with_flag active w')"
proof -
  have other: "fd_of w' j = fd_of w j" if "j \<noteq> i" for j using that assms(2) by (simp add: fd_of_def)
  have this': "fd_of w' i = f_fd f" using assms(1,2) by (simp add: fd_of_def)
  have img: "fd_of w' ` (X - {i}) = fd_of w ` (X - {i})" for X by (rule image_cong) (auto simp: other)
  have sub: "with_flag Q w \<subseteq> with_flag active w" using Q by (auto simp: with_flag_def)
  have ia: "i \<in> with_flag P w \<longleftrightarrow> P (f_flags (wfiles w ! i))" for P using assms(1) by (simp add: with_flag_def)
  have new: "f_fd f \<notin> fd_of w ` (with_flag active w - {i})"
    using assms(3,4) ia [of active] by (auto simp: inj_on_def split: if_splits)
  have keep: "fd_of w ` (with_flag Q w - {i}) = fd_of w ` with_flag Q w - (if Q (f_flags (wfiles w ! i)) then {f_fd f} else {})"
    using assms(3,4) ia [of Q] ia [of active] sub Q by (auto simp: inj_on_def split: if_splits)
  show "fd_of w' ` with_flag Q w' = (if Q (f_flags f) then insert (f_fd f) (fd_of w ` with_flag Q w)
      else fd_of w ` with_flag Q w - (if Q (f_flags (wfiles w ! i)) then {f_fd f} else {}))"
    using keep this' img [of "with_flag Q w"] img [of "insert i (with_flag Q w)"]
    unfolding with_flag_upd [OF assms(1,2)] by (auto split: if_splits)
  have "inj_on (fd_of w') (with_flag active w - {i})"
    using assms(3) other by (auto simp: inj_on_def)
  moreover have "fd_of w' i \<notin> fd_of w' ` (with_flag active w - {i})" unfolding img this' by (rule new)
  ultimately show "inj_on (fd_of w') (with_flag active w')"
    unfolding with_flag_upd [OF assms(1,2)]
    using inj_on_insert [of "fd_of w'" i "with_flag active w - {i}"] by (auto split: if_splits)
qed

text \<open>A file goes from one flag to another.\<close>

definition change :: "bool \<Rightarrow> bool \<Rightarrow> int" where
  "change b a = (if b then 1 else 0) - (if a then 1 else 0)"

lemma web_ok_step:
  assumes ok: "web_ok m w" and i: "i < length (wfiles w)" and files: "wfiles w' = (wfiles w)[i := f]"
    and f: "f_name f = f_name (wfiles w ! i)" "f_flags f \<in> {0, F_CONNECTING, F_READING, F_DONE}"
    and a: "a = f_flags (wfiles w ! i)"
    and fd: "if active a then f_fd f = fd_of w i else f_fd f \<notin> rset w"
    and counters: "nconn w' = nconn w + change (active (f_flags f)) (active a)"
      "nlefttoconn w' = nlefttoconn w + change (fresh (f_flags f)) (fresh a)"
      "nlefttoread w' = nlefttoread w + change (f_flags f \<noteq> F_DONE) (a \<noteq> F_DONE)"
    and sets: "rset w' = (if active (f_flags f) then insert (f_fd f) (rset w) else rset w - (if active a then {f_fd f} else {}))"
      "wset w' = (if f_flags f = F_CONNECTING then insert (f_fd f) (wset w)
                  else wset w - (if a = F_CONNECTING then {f_fd f} else {}))"
    and maxfd: "maxfd w \<le> maxfd w'" "active (f_flags f) \<Longrightarrow> f_fd f \<le> maxfd w'"
    and limit: "nconn w' \<le> max 0 m" and replies: "\<forall>i. proper (replies w' i)"
    and gets: "if asked (f_flags f) \<and> \<not> asked a
               then \<exists>l. gets w' = gets w @ [(i, l)] \<and> get_line (f_name f) = Some l
               else gets w' = gets w \<and> asked (f_flags f) = asked a"
  shows "web_ok m w'"
proof -
  note up = with_flag_upd [OF i files] and card = card_flag_upd [OF i files]
  have inj: "inj_on (fd_of w) (with_flag active w)" using ok by (simp add: web_ok_def)
  have fd': "if active (f_flags (wfiles w ! i)) then f_fd f = fd_of w i else f_fd f \<notin> fd_of w ` with_flag active w"
  proof -
    have "rset w = fd_of w ` with_flag active w" using ok by (simp add: web_ok_def)
    then show ?thesis using fd unfolding a by metis
  qed
  note fds = fds_upd [OF i files inj fd']
  have "\<forall>g\<in>set (wfiles w'). f_flags g \<in> {0, F_CONNECTING, F_READING, F_DONE}"
    using ok f(2) set_update_subset_insert [of "wfiles w" i f] unfolding files web_ok_def by blast
  moreover have "nconn w' = int (card (with_flag active w')) \<and> nlefttoconn w' = int (card (with_flag fresh w'))
      \<and> nlefttoread w' = int (card (with_flag (\<lambda>x. x \<noteq> F_DONE) w'))"
    using ok counters unfolding card change_def web_ok_def a by simp
  moreover have "inj_on (fd_of w') (with_flag active w')" by (rule fds(2)) auto
  moreover have "rset w' = fd_of w' ` with_flag active w'"
    using ok sets(1) fds(1) [of active] unfolding web_ok_def a by simp
  moreover have "wset w' = fd_of w' ` with_flag (\<lambda>x. x = F_CONNECTING) w'"
    using ok sets(2) fds(1) [of "\<lambda>x. x = F_CONNECTING"] unfolding web_ok_def a by simp
  moreover have "\<forall>fd\<in>rset w'. fd \<le> maxfd w'"
    using ok maxfd sets(1) unfolding web_ok_def by (auto split: if_splits)
  moreover have "gets_ok w'"
  proof -
    have g: "distinct (map fst (gets w))" "fst ` set (gets w) = with_flag asked w"
      "\<forall>(j, l)\<in>set (gets w). get_line (f_name (wfiles w ! j)) = Some l"
      using ok by (simp_all add: web_ok_def gets_ok_def)
    have name: "f_name (wfiles w' ! j) = f_name (wfiles w ! j)" for j
      using f(1) i unfolding files by (cases "j = i") simp_all
    have ia: "i \<in> with_flag asked w \<longleftrightarrow> asked a" using i a by (simp add: with_flag_def)
    show ?thesis
    proof (cases "asked (f_flags f) \<and> \<not> asked a")
      case True
      then obtain l where l: "gets w' = gets w @ [(i, l)]" "get_line (f_name f) = Some l" using gets by auto
      have "get_line (f_name (wfiles w' ! i)) = Some l" using l(2) f(1) name by simp
      moreover have "with_flag asked w' = insert i (with_flag asked w)" using up [of asked] True by simp
      ultimately show ?thesis using g True ia unfolding gets_ok_def l(1) name by auto
    next
      case False
      then have same: "gets w' = gets w" "asked (f_flags f) = asked a" using gets by auto
      have "with_flag asked w' = with_flag asked w" using up [of asked] same(2) ia by auto
      then show ?thesis using g unfolding gets_ok_def same(1) name by simp
    qed
  qed
  ultimately show ?thesis using limit replies unfolding web_ok_def by blast
qed

section \<open>Every operation keeps them\<close>

definition kernel_ok :: "kernel \<Rightarrow> bool" where
  "kernel_ok K \<longleftrightarrow> (\<forall>w. finite (rset w) \<longrightarrow> k_sock K w \<notin> rset w
     \<and> (case k_select K w of (rs, ws) \<Rightarrow> rset w \<noteq> {} \<longrightarrow> rset w \<inter> rs \<union> (wset w \<inter> ws) \<noteq> {}))"

lemma web_finite: "web_ok m w \<Longrightarrow> finite (rset w)"
  by (simp add: web_ok_def)

lemma write_get_go:
  assumes "write_get_cmd K i w = Some (Go w')"
  obtains l where "get_line (f_name (wfiles w ! i)) = Some l" "gets w' = gets w @ [(i, l)]"
    "wfiles w' = (wfiles w)[i := (wfiles w ! i)\<lparr>f_flags := F_READING\<rparr>]"
    "rset w' = insert (fd_of w i) (rset w)" "wset w' = wset w" "maxfd w' = max (fd_of w i) (maxfd w)"
    "nconn w' = nconn w" "nlefttoconn w' = nlefttoconn w" "nlefttoread w' = nlefttoread w" "replies w' = replies w"
  using assms by (auto simp: write_get_cmd_def upd_file_def fd_of_def Let_def split: option.splits if_splits)

lemma start_ok:
  assumes ok: "web_ok m w" and K: "kernel_ok K" and i: "i < length (wfiles w)" "f_flags (wfiles w ! i) = 0"
    and m: "nconn w < m" and go: "start_connect K i w = Some (Go w1)"
  shows "web_ok m (w1\<lparr>nconn := nconn w1 + 1, nlefttoconn := nlefttoconn w1 - 1\<rparr>)"
    "replies w1 = replies w" "length (wfiles w1) = length (wfiles w)"
proof -
  let ?fd = "k_sock K w" and ?w1 = "w1\<lparr>nconn := nconn w1 + 1, nlefttoconn := nlefttoconn w1 - 1\<rparr>"
  have fd: "?fd \<notin> rset w" using K web_finite [OF ok] by (simp add: kernel_ok_def)
  have w: "nconn w \<le> max 0 m" "\<forall>i. proper (replies w i)" "?fd \<notin> wset w"
    using ok fd unfolding web_ok_def with_flag_def by auto
  let ?w = "upd_file i (\<lambda>f. f\<lparr>f_fd := ?fd\<rparr>) w"
  consider (progress) "k_connect K i = InProgress" | (at_once) "k_connect K i = Connected" "write_get_cmd K i ?w = Some (Go w1)"
    using go by (auto simp: start_connect_def Let_def split: conn_res.splits)
  then have "web_ok m ?w1 \<and> replies w1 = replies w \<and> length (wfiles w1) = length (wfiles w)"
  proof cases
    case progress
    then have w1: "w1 = w\<lparr>wfiles := (wfiles w)[i := (wfiles w ! i)\<lparr>f_fd := ?fd, f_flags := F_CONNECTING\<rparr>],
        rset := insert ?fd (rset w), wset := insert ?fd (wset w), maxfd := max ?fd (maxfd w)\<rparr>"
      using go i(1) by (auto simp: start_connect_def upd_file_def Let_def)
    have "web_ok m ?w1"
      by (rule web_ok_step [OF ok i(1), where f = "(wfiles w ! i)\<lparr>f_fd := ?fd, f_flags := F_CONNECTING\<rparr>" and a = 0])
        (use w1 i fd w m in \<open>simp_all add: change_def\<close>)
    then show ?thesis unfolding w1 by simp
  next
    case at_once
    from at_once(2) obtain l where l: "get_line (f_name (wfiles ?w ! i)) = Some l" "gets w1 = gets ?w @ [(i, l)]"
      "wfiles w1 = (wfiles ?w)[i := (wfiles ?w ! i)\<lparr>f_flags := F_READING\<rparr>]"
      "rset w1 = insert (fd_of ?w i) (rset ?w)" "wset w1 = wset ?w" "maxfd w1 = max (fd_of ?w i) (maxfd ?w)"
      "nconn w1 = nconn ?w" "nlefttoconn w1 = nlefttoconn ?w" "nlefttoread w1 = nlefttoread ?w" "replies w1 = replies ?w"
      by (rule write_get_go)
    have "web_ok m ?w1"
      by (rule web_ok_step [OF ok i(1), where f = "(wfiles w ! i)\<lparr>f_fd := ?fd, f_flags := F_READING\<rparr>" and a = 0])
        (use l i fd w m in \<open>simp_all add: change_def upd_file_def fd_of_def\<close>)
    then show ?thesis using l by (simp add: upd_file_def)
  qed
  then show "web_ok m ?w1" "replies w1 = replies w" "length (wfiles w1) = length (wfiles w)" by simp_all
qed

lemma serve_file_cases:
  assumes "serve_file K rs ws i w = Some (Go w')" "f_flags (wfiles w ! i) \<in> {0, F_CONNECTING, F_READING, F_DONE}"
  obtains (same) "w' = w"
      "f_flags (wfiles w ! i) = F_CONNECTING \<Longrightarrow> f_fd (wfiles w ! i) \<notin> rs \<union> ws" "f_flags (wfiles w ! i) = F_READING \<Longrightarrow> f_fd (wfiles w ! i) \<notin> rs"
    | (ask) "f_flags (wfiles w ! i) = F_CONNECTING"
      "write_get_cmd K i (w\<lparr>wset := wset w - {f_fd (wfiles w ! i)}, complaints := (if k_soerr K i then complaints w @ [i] else complaints w)\<rparr>) = Some (Go w')"
    | (data) bs inp' where "f_flags (wfiles w ! i) = F_READING" "sys_read MAXLINE (replies w i) = (Inr bs, inp')" "bs \<noteq> []"
      "w' = w\<lparr>replies := (replies w)(i := inp')\<rparr>"
    | (eof) inp' where "f_flags (wfiles w ! i) = F_READING" "sys_read MAXLINE (replies w i) = (Inr [], inp')"
      "w' = w\<lparr>replies := (replies w)(i := inp'), wfiles := (wfiles w)[i := (wfiles w ! i)\<lparr>f_flags := F_DONE\<rparr>],
              rset := rset w - {f_fd (wfiles w ! i)}, nconn := nconn w - 1, nlefttoread := nlefttoread w - 1\<rparr>"
proof -
  note d = assms(1) [unfolded serve_file_def Let_def]
  from assms(2) consider "f_flags (wfiles w ! i) = 0 \<or> f_flags (wfiles w ! i) = F_DONE" | "f_flags (wfiles w ! i) = F_CONNECTING"
    | "f_flags (wfiles w ! i) = F_READING" by blast
  then show thesis
  proof cases
    case 1
    then have "w' = w" using d by (elim disjE) simp_all
    then show thesis using 1 by (intro same) auto
  next
    case 2
    show thesis
    proof (cases "f_fd (wfiles w ! i) \<in> rs \<or> f_fd (wfiles w ! i) \<in> ws")
      case True
      then show thesis using d 2 by (intro ask) simp_all
    next
      case False
      then show thesis using d 2 by (intro same) simp_all
    qed
  next
    case 3
    show thesis
    proof (cases "f_fd (wfiles w ! i) \<in> rs")
      case False
      then show thesis using d 3 by (intro same) simp_all
    next
      case True
      obtain x inp' where x: "sys_read MAXLINE (replies w i) = (x, inp')" by (cases "sys_read MAXLINE (replies w i)")
      then obtain bs where bs: "x = Inr bs" using d 3 True by (cases x) simp_all
      show thesis
      proof (cases "bs = []")
        case True': True
        then show thesis using d 3 True x bs by (intro eof [of inp']) (simp_all add: upd_file_def)
      next
        case False
        then show thesis using d 3 True x bs by (intro data [of bs inp']) simp_all
      qed
    qed
  qed
qed

lemma serve_ok:
  assumes ok: "web_ok m w" and i: "i < length (wfiles w)" and go: "serve_file K rs ws i w = Some (Go w')"
  shows "web_ok m w' \<and> length (wfiles w') = length (wfiles w)"
proof -
  let ?fd = "f_fd (wfiles w ! i)" and ?a = "f_flags (wfiles w ! i)"
  have w: "nconn w \<le> max 0 m" "\<forall>i. proper (replies w i)" "\<forall>fd\<in>rset w. fd \<le> maxfd w" using ok by (simp_all add: web_ok_def)
  have known: "?a \<in> {0, F_CONNECTING, F_READING, F_DONE}" using ok i by (simp add: web_ok_def)
  have mem: "active ?a \<Longrightarrow> ?fd \<in> rset w" using ok i by (auto simp: web_ok_def with_flag_def fd_of_def)
  from go known show ?thesis
  proof (cases rule: serve_file_cases)
    case same
    then show ?thesis using ok by simp
  next
    case ask
    let ?w = "w\<lparr>wset := wset w - {?fd}, complaints := (if k_soerr K i then complaints w @ [i] else complaints w)\<rparr>"
    from ask(2) obtain l where l: "get_line (f_name (wfiles ?w ! i)) = Some l" "gets w' = gets ?w @ [(i, l)]"
      "wfiles w' = (wfiles ?w)[i := (wfiles ?w ! i)\<lparr>f_flags := F_READING\<rparr>]"
      "rset w' = insert (fd_of ?w i) (rset ?w)" "wset w' = wset ?w" "maxfd w' = max (fd_of ?w i) (maxfd ?w)"
      "nconn w' = nconn ?w" "nlefttoconn w' = nlefttoconn ?w" "nlefttoread w' = nlefttoread ?w" "replies w' = replies ?w"
      by (rule write_get_go)
    have "web_ok m w'"
      by (rule web_ok_step [OF ok i, where f = "(wfiles w ! i)\<lparr>f_flags := F_READING\<rparr>" and a = F_CONNECTING])
        (use l ask(1) w mem in \<open>simp_all add: change_def fd_of_def\<close>)
    then show ?thesis using l(3) by simp
  next
    case (data bs inp')
    have p: "proper inp'" using sys_read_proper [OF data(2)] w(2) by simp
    have "with_flag P w' = with_flag P w" for P by (rule with_flag_same) (simp add: data(4))
    moreover have "fd_of w' = fd_of w" by (simp add: data(4) fd_of_def fun_eq_iff)
    ultimately have "web_ok m w'" using ok p unfolding web_ok_def gets_ok_def by (simp add: data(4))
    then show ?thesis by (simp add: data(4))
  next
    case (eof inp')
    have p: "proper inp'" using sys_read_proper [OF eof(2)] w(2) by simp
    have "web_ok m w'"
      by (rule web_ok_step [OF ok i, where f = "(wfiles w ! i)\<lparr>f_flags := F_DONE\<rparr>" and a = F_READING])
        (use eof(1,3) w p in \<open>simp_all add: change_def fd_of_def\<close>)
    then show ?thesis by (simp add: eof(3))
  qed
qed

section \<open>Work left\<close>

definition stage :: "u32 \<Rightarrow> nat" where
  "stage x = (if x = 0 then 3 else if x = F_CONNECTING then 2 else if x = F_READING then 1 else 0)"

definition file_work :: "web \<Rightarrow> nat \<Rightarrow> nat" where
  "file_work w i = (let x = f_flags (wfiles w ! i) in stage x + (if x = F_DONE then 0 else weight (replies w i)))"

definition work :: "web \<Rightarrow> nat" where
  "work w = (\<Sum>i<length (wfiles w). file_work w i)"

text \<open>No connection, write or read fails, and the requests fit their array.\<close>

definition healthy :: "kernel \<Rightarrow> string list \<Rightarrow> web \<Rightarrow> bool" where
  "healthy K names w \<longleftrightarrow> (\<forall>i. k_connect K i \<noteq> ConnErr \<and> k_write K i)
     \<and> map f_name (wfiles w) = names \<and> (\<forall>n\<in>set names. length n + 17 \<le> MAXLINE)
     \<and> (\<forall>i e. RdErr e \<notin> set (replies w i))"

definition others_same :: "nat \<Rightarrow> web \<Rightarrow> web \<Rightarrow> bool" where
  "others_same i w w' \<longleftrightarrow> length (wfiles w') = length (wfiles w)
     \<and> (\<forall>j. j \<noteq> i \<longrightarrow> wfiles w' ! j = wfiles w ! j \<and> replies w' j = replies w j)"

lemma work_one:
  assumes "others_same i w w'" "i < length (wfiles w)"
  shows "work w' + file_work w i = work w + file_work w' i"
proof -
  have split: "work x = file_work x i + (\<Sum>j\<in>{..<length (wfiles w)} - {i}. file_work x j)"
    if "length (wfiles x) = length (wfiles w)" for x
    using assms(2) that unfolding work_def by (simp add: sum.remove)
  have "(\<Sum>j\<in>{..<length (wfiles w)} - {i}. file_work w' j) = (\<Sum>j\<in>{..<length (wfiles w)} - {i}. file_work w j)"
    using assms(1) by (intro sum.cong) (auto simp: file_work_def others_same_def Let_def)
  then show ?thesis using split [of w] split [of w'] assms(1) by (simp add: others_same_def)
qed

lemma get_line_fits: "length f + 17 \<le> MAXLINE \<Longrightarrow> \<exists>l. get_line f = Some l"
  by (simp add: get_line_def GET_CMD_def)

lemma write_get_works:
  assumes "healthy K names w" "i < length (wfiles w)"
  shows "\<exists>w'. write_get_cmd K i w = Some (Go w')"
proof -
  have "f_name (wfiles w ! i) \<in> f_name ` set (wfiles w)" using assms(2) by simp
  then have "f_name (wfiles w ! i) \<in> set names" using assms(1) by (auto simp: healthy_def)
  then obtain l where "get_line (f_name (wfiles w ! i)) = Some l"
    using assms(1) get_line_fits unfolding healthy_def by blast
  then show ?thesis using assms(1) by (simp add: write_get_cmd_def healthy_def Let_def)
qed

lemma healthy_upd:
  assumes "healthy K names w" "wfiles w' = (wfiles w)[i := f]" "f_name f = f_name (wfiles w ! i)" "i < length (wfiles w)"
    and "\<forall>j e. RdErr e \<notin> set (replies w' j)"
  shows "healthy K names w'"
proof -
  have "map f_name (wfiles w') = map f_name (wfiles w)" unfolding assms(2) map_update assms(3)
    using assms(4) by (metis list_update_id nth_map)
  then show ?thesis using assms(1,5) unfolding healthy_def by simp
qed

definition ready :: "int set \<Rightarrow> int set \<Rightarrow> web \<Rightarrow> nat \<Rightarrow> bool" where
  "ready rs ws w i \<longleftrightarrow> f_flags (wfiles w ! i) = F_CONNECTING \<and> f_fd (wfiles w ! i) \<in> rs \<union> ws
     \<or> f_flags (wfiles w ! i) = F_READING \<and> f_fd (wfiles w ! i) \<in> rs"

lemma sys_read_set: "sys_read k inp = (r, inp') \<Longrightarrow> \<forall>e. RdErr e \<notin> set inp \<Longrightarrow> \<forall>e. RdErr e \<notin> set inp'"
  by (cases "(k, inp)" rule: sys_read.cases) (auto split: if_splits)

lemma sys_read_no_error: "\<forall>e. RdErr e \<notin> set inp \<Longrightarrow> \<exists>bs inp'. sys_read k inp = (Inr bs, inp')"
  by (cases "(k, inp)" rule: sys_read.cases) auto

lemma sys_read_eof_weight: "sys_read k inp = (Inr [], inp') \<Longrightarrow> weight inp' \<le> weight inp"
  by (cases "(k, inp)" rule: sys_read.cases) (auto split: if_splits)

lemma serve_file_returns:
  assumes "healthy K names w" "i < length (wfiles w)"
  shows "\<exists>w'. serve_file K rs ws i w = Some (Go w')"
proof -
  obtain bs inp' where rd: "sys_read MAXLINE (replies w i) = (Inr bs, inp')"
    using assms(1) sys_read_no_error [of "replies w i"] unfolding healthy_def by blast
  let ?w = "w\<lparr>wset := wset w - {f_fd (wfiles w ! i)}, complaints := (if k_soerr K i then complaints w @ [i] else complaints w)\<rparr>"
  have "healthy K names ?w" using assms(1) by (simp add: healthy_def)
  from write_get_works [OF this, of i] obtain w' where "write_get_cmd K i ?w = Some (Go w')" using assms(2) by auto
  then show ?thesis using rd by (simp add: serve_file_def Let_def)
qed

lemma serve_file_progress:
  assumes ok: "web_ok m w" and h: "healthy K names w" and i: "i < length (wfiles w)" and go: "serve_file K rs ws i w = Some (Go w')"
  shows "healthy K names w'" "others_same i w w'" "work w' \<le> work w" "ready rs ws w i \<Longrightarrow> work w' < work w"
proof -
  have known: "f_flags (wfiles w ! i) \<in> {0, F_CONNECTING, F_READING, F_DONE}" using ok i by (simp add: web_ok_def)
  have noerr: "\<forall>e. RdErr e \<notin> set (replies w j)" for j using h by (simp add: healthy_def)
  have less: "healthy K names w' \<and> others_same i w w' \<and> work w' \<le> work w \<and> (ready rs ws w i \<longrightarrow> work w' < work w)"
    if "healthy K names w'" "others_same i w w'" "file_work w' i < file_work w i"
    using that work_one [OF that(2) i] by linarith
  from go known have "healthy K names w' \<and> others_same i w w' \<and> work w' \<le> work w \<and> (ready rs ws w i \<longrightarrow> work w' < work w)"
  proof (cases rule: serve_file_cases)
    case same
    then show ?thesis using h by (auto simp: others_same_def ready_def)
  next
    case ask
    let ?w = "w\<lparr>wset := wset w - {f_fd (wfiles w ! i)}, complaints := (if k_soerr K i then complaints w @ [i] else complaints w)\<rparr>"
    from ask(2) obtain l where l: "wfiles w' = (wfiles ?w)[i := (wfiles ?w ! i)\<lparr>f_flags := F_READING\<rparr>]" "replies w' = replies ?w"
      by (rule write_get_go)
    have "healthy K names w'" by (rule healthy_upd [OF h, of _ i "(wfiles w ! i)\<lparr>f_flags := F_READING\<rparr>"]) (use l i noerr in simp_all)
    then show ?thesis using l i ask(1) by (intro less) (simp_all add: others_same_def file_work_def stage_def)
  next
    case (data bs inp')
    have "set (replies w' j) \<subseteq> (if j = i then set inp' else set (replies w j))" for j by (simp add: data(4))
    moreover have "\<forall>e. RdErr e \<notin> set inp'" by (rule sys_read_set [OF data(2) noerr])
    ultimately have "healthy K names w'" using h unfolding healthy_def by (auto simp: data(4))
    moreover have "weight inp' < weight (replies w i)"
      using sys_read_weight [OF data(2)] data(2,3) by (cases "replies w i") auto
    ultimately show ?thesis using data(1) i by (intro less) (simp_all add: data(4) others_same_def file_work_def stage_def)
  next
    case (eof inp')
    have "\<forall>e. RdErr e \<notin> set inp'" by (rule sys_read_set [OF eof(2) noerr])
    then have "\<forall>j e. RdErr e \<notin> set (replies w' j)" using noerr by (simp add: eof(3))
    then have "healthy K names w'"
      by (intro healthy_upd [OF h, of _ i "(wfiles w ! i)\<lparr>f_flags := F_DONE\<rparr>"]) (use i in \<open>simp_all add: eof(3)\<close>)
    then show ?thesis using eof(1) i by (intro less) (simp_all add: eof(3) others_same_def file_work_def stage_def)
  qed
  then show "healthy K names w'" "others_same i w w'" "work w' \<le> work w" "ready rs ws w i \<Longrightarrow> work w' < work w" by simp_all
qed

lemma serve_files_progress:
  assumes "web_ok m w" "healthy K names w" "set js \<subseteq> {..<length (wfiles w)}" "distinct js"
  shows "\<exists>w'. serve_files K rs ws js w = Some (Go w') \<and> web_ok m w' \<and> healthy K names w' \<and> work w' \<le> work w
    \<and> length (wfiles w') = length (wfiles w) \<and> ((\<exists>i\<in>set js. ready rs ws w i) \<longrightarrow> work w' < work w)"
  using assms
proof (induction js arbitrary: w)
  case Nil
  then show ?case by simp
next
  case (Cons i js)
  then have i: "i < length (wfiles w)" by simp
  obtain w1 where w1: "serve_file K rs ws i w = Some (Go w1)" using serve_file_returns [OF Cons.prems(2) i] by blast
  note p = serve_file_progress [OF Cons.prems(1,2) i w1] and ok = serve_ok [OF Cons.prems(1) i w1]
  have len: "length (wfiles w1) = length (wfiles w)" using ok by simp
  have "set js \<subseteq> {..<length (wfiles w1)}" "distinct js" using Cons.prems(3,4) len by simp_all
  from Cons.IH [OF conjunct1 [OF ok] p(1) this] obtain w' where w': "serve_files K rs ws js w1 = Some (Go w')"
    "web_ok m w'" "healthy K names w'" "work w' \<le> work w1" "length (wfiles w') = length (wfiles w1)"
    "(\<exists>i\<in>set js. ready rs ws w1 i) \<longrightarrow> work w' < work w1" by blast
  have "work w' < work w" if r: "\<exists>j\<in>set (i # js). ready rs ws w j"
  proof (cases "ready rs ws w i")
    case True
    then show ?thesis using p(4) w'(4) by simp
  next
    case False
    then obtain j where j: "j \<in> set js" "ready rs ws w j" using r by auto
    then have "j \<noteq> i" using Cons.prems(4) by auto
    then have "ready rs ws w1 j" using p(2) j(2) by (simp add: others_same_def ready_def)
    then show ?thesis using w'(6) j(1) p(3) by fastforce
  qed
  then show ?case using w1 w' p(3) len by auto
qed

lemma start_progress:
  assumes h: "healthy K names w" and i: "i < length (wfiles w)" "f_flags (wfiles w ! i) = 0"
  shows "\<exists>w1. start_connect K i w = Some (Go w1) \<and> healthy K names w1 \<and> work w1 < work w \<and> nlefttoread w1 = nlefttoread w"
proof -
  let ?fd = "k_sock K w"
  let ?w = "upd_file i (\<lambda>f. f\<lparr>f_fd := ?fd\<rparr>) w"
  have noerr: "\<forall>j e. RdErr e \<notin> set (replies w j)" using h by (simp add: healthy_def)
  have hw: "healthy K names ?w"
    by (rule healthy_upd [OF h, of _ i "(wfiles w ! i)\<lparr>f_fd := ?fd\<rparr>"]) (use i noerr in \<open>simp_all add: upd_file_def\<close>)
  have lw: "length (wfiles ?w) = length (wfiles w)" by (simp add: upd_file_def)
  have less: "work w1 < work w" if "others_same i w w1" "file_work w1 i < file_work w i" for w1
    using that(2) work_one [OF that(1) i(1)] by linarith
  consider (progress) "k_connect K i = InProgress" | (at_once) "k_connect K i = Connected"
    using h by (cases "k_connect K i") (auto simp: healthy_def)
  then show ?thesis
  proof cases
    case progress
    let ?w1 = "w\<lparr>wfiles := (wfiles w)[i := (wfiles w ! i)\<lparr>f_fd := ?fd, f_flags := F_CONNECTING\<rparr>],
        rset := insert ?fd (rset w), wset := insert ?fd (wset w), maxfd := max ?fd (maxfd w)\<rparr>"
    have "start_connect K i w = Some (Go ?w1)" using progress i(1) by (simp add: start_connect_def upd_file_def Let_def)
    moreover have "healthy K names ?w1"
      by (rule healthy_upd [OF h, of _ i "(wfiles w ! i)\<lparr>f_fd := ?fd, f_flags := F_CONNECTING\<rparr>"]) (use i noerr in simp_all)
    moreover have "work ?w1 < work w" by (rule less) (use i in \<open>simp_all add: others_same_def file_work_def stage_def\<close>)
    ultimately show ?thesis by auto
  next
    case at_once
    obtain w1 where w1: "write_get_cmd K i ?w = Some (Go w1)" using write_get_works [OF hw] i(1) lw by metis
    then obtain l where l: "wfiles w1 = (wfiles ?w)[i := (wfiles ?w ! i)\<lparr>f_flags := F_READING\<rparr>]" "replies w1 = replies ?w"
      "nlefttoread w1 = nlefttoread ?w" by (rule write_get_go)
    have "healthy K names w1"
      by (rule healthy_upd [OF hw, of _ i "(wfiles ?w ! i)\<lparr>f_flags := F_READING\<rparr>"]) (use l i lw noerr in \<open>simp_all add: upd_file_def\<close>)
    moreover have "work w1 < work w"
      by (rule less) (use l i in \<open>simp_all add: upd_file_def others_same_def file_work_def stage_def\<close>)
    ultimately show ?thesis using at_once w1 l(3) by (simp add: start_connect_def upd_file_def Let_def)
  qed
qed

lemma work_cong: "wfiles w' = wfiles w \<Longrightarrow> replies w' = replies w \<Longrightarrow> work w' = work w"
  by (simp only: work_def file_work_def)

lemma work_counters: "work (w\<lparr>nconn := a, nlefttoconn := b\<rparr>) = work w" "healthy K names (w\<lparr>nconn := a, nlefttoconn := b\<rparr>) = healthy K names w"
  by (simp_all add: healthy_def) (rule work_cong; simp)

lemma connect_more_works:
  assumes "web_ok m w" "healthy K names w" "kernel_ok K"
  shows "\<exists>w'. connect_more K m w = Some (Go w') \<and> web_ok m w' \<and> healthy K names w' \<and> work w' \<le> work w
    \<and> nlefttoread w' = nlefttoread w \<and> \<not> (nconn w' < m \<and> 0 < nlefttoconn w')"
  using assms
proof (induction K m w rule: connect_more.induct)
  case (1 K m w)
  show ?case
  proof (cases "nconn w < m \<and> 0 < nlefttoconn w")
    case False
    then have "connect_more K m w = Some (Go w)" by (subst connect_more.simps) (simp only: if_False)
    then show ?thesis using 1(2,3) False by blast
  next
    case more: True
    then have "with_flag fresh w \<noteq> {}" using 1(2) by (auto simp: web_ok_def)
    then have "find (\<lambda>i. f_flags (wfiles w ! i) = 0) [0..<length (wfiles w)] \<noteq> None"
      by (auto simp: find_None_iff with_flag_def)
    then obtain i where i: "find (\<lambda>i. f_flags (wfiles w ! i) = 0) [0..<length (wfiles w)] = Some i" by auto
    then have fi: "i < length (wfiles w)" "f_flags (wfiles w ! i) = 0" by (auto simp: find_Some_iff)
    obtain w1 where w1: "start_connect K i w = Some (Go w1)" "healthy K names w1" "work w1 < work w" "nlefttoread w1 = nlefttoread w"
      using start_progress [OF 1(3) fi] by blast
    let ?w = "w1\<lparr>nconn := nconn w1 + 1, nlefttoconn := nlefttoconn w1 - 1\<rparr>"
    have ok: "web_ok m ?w" by (rule start_ok(1) [OF 1(2,4) fi _ w1(1)]) (use more in simp)
    have "connect_more K m w = connect_more K m ?w"
      using more i w1(1) by (subst connect_more.simps) simp
    moreover from 1(1) [OF more i w1(1) refl ok _ 1(4)] w1(2) obtain w' where
      "connect_more K m ?w = Some (Go w')" "web_ok m w'" "healthy K names w'" "work w' \<le> work ?w"
      "nlefttoread w' = nlefttoread ?w" "\<not> (nconn w' < m \<and> 0 < nlefttoconn w')" unfolding work_counters by blast
    ultimately show ?thesis using w1(3,4) by (simp add: work_counters)
  qed
qed

section \<open>Every round makes progress\<close>

lemma left_split: "int (card (with_flag (\<lambda>x. x \<noteq> F_DONE) w)) \<le> int (card (with_flag active w)) + int (card (with_flag fresh w))"
  if "web_ok m w"
proof -
  have "with_flag (\<lambda>x. x \<noteq> F_DONE) w \<subseteq> with_flag active w \<union> with_flag fresh w"
    using that unfolding web_ok_def with_flag_def by (auto dest: nth_mem)
  then have "card (with_flag (\<lambda>x. x \<noteq> F_DONE) w) \<le> card (with_flag active w \<union> with_flag fresh w)"
    by (intro card_mono) simp_all
  also have "\<dots> \<le> card (with_flag active w) + card (with_flag fresh w)" by (rule card_Un_le)
  finally show ?thesis by simp
qed

lemma some_ready:
  assumes ok: "web_ok m w" and K: "kernel_ok K" "k_select K w = (rs, ws)" and left: "0 < nlefttoread w"
    and m: "1 \<le> m" "\<not> (nconn w < m \<and> 0 < nlefttoconn w)"
  shows "\<exists>i<length (wfiles w). ready (watched w (rset w) \<inter> rs) (watched w (wset w) \<inter> ws) w i"
proof -
  have "0 < nconn w" using left_split [OF ok] left m ok unfolding web_ok_def by linarith
  then have "with_flag active w \<noteq> {}" using ok by (auto simp: web_ok_def)
  then have "rset w \<noteq> {}" using ok by (simp add: web_ok_def)
  moreover have "case k_select K w of (rs, ws) \<Rightarrow> rset w \<noteq> {} \<longrightarrow> rset w \<inter> rs \<union> (wset w \<inter> ws) \<noteq> {}"
    by (rule conjunct2 [OF mp [OF spec [OF K(1) [unfolded kernel_ok_def]] web_finite [OF ok]]])
  ultimately have "rset w \<inter> rs \<union> (wset w \<inter> ws) \<noteq> {}" unfolding K(2) prod.case by blast
  moreover have sets: "rset w = fd_of w ` with_flag active w" "wset w = fd_of w ` with_flag (\<lambda>x. x = F_CONNECTING) w"
    "\<forall>fd\<in>rset w. fd \<le> maxfd w" using ok by (simp_all add: web_ok_def)
  moreover have "wset w \<subseteq> rset w" unfolding sets(1,2) by (auto simp: with_flag_def)
  ultimately obtain fd where fd: "fd \<in> rset w \<and> fd \<in> rs \<or> fd \<in> wset w \<and> fd \<in> ws" "fd \<le> maxfd w" by blast
  then consider "fd \<in> rset w" "fd \<in> watched w (rset w) \<inter> rs" | "fd \<in> wset w" "fd \<in> watched w (wset w) \<inter> ws"
    unfolding watched_def by blast
  then show ?thesis
  proof cases
    case 1
    then obtain i where "i \<in> with_flag active w" "fd = fd_of w i" using sets(1) by auto
    then show ?thesis using 1(2) by (intro exI [of _ i]) (auto simp: with_flag_def ready_def fd_of_def)
  next
    case 2
    then obtain i where "i \<in> with_flag (\<lambda>x. x = F_CONNECTING) w" "fd = fd_of w i" using sets(2) by auto
    then show ?thesis using 2(2) by (intro exI [of _ i]) (auto simp: with_flag_def ready_def fd_of_def)
  qed
qed

lemma web_round_progress:
  assumes "web_ok m w" "healthy K names w" "kernel_ok K" "1 \<le> m" "0 < nlefttoread w"
  shows "\<exists>w'. web_round K m w = Some (Go w') \<and> web_ok m w' \<and> healthy K names w' \<and> work w' < work w"
proof -
  obtain w1 where w1: "connect_more K m w = Some (Go w1)" "web_ok m w1" "healthy K names w1" "work w1 \<le> work w"
    "nlefttoread w1 = nlefttoread w" "\<not> (nconn w1 < m \<and> 0 < nlefttoconn w1)"
    using connect_more_works [OF assms(1-3)] by blast
  obtain rs ws where sel: "k_select K w1 = (rs, ws)" by (cases "k_select K w1")
  let ?rs = "watched w1 (rset w1) \<inter> rs" and ?ws = "watched w1 (wset w1) \<inter> ws"
  have "0 < nlefttoread w1" using assms(5) w1(5) by simp
  from some_ready [OF w1(2) assms(3) sel this assms(4) w1(6)] obtain i where
    i: "i < length (wfiles w1)" "ready ?rs ?ws w1 i" by blast
  have "set [0..<length (wfiles w1)] \<subseteq> {..<length (wfiles w1)}" "distinct [0..<length (wfiles w1)]" by auto
  from serve_files_progress [OF w1(2,3) this, of ?rs ?ws] obtain w' where
    "serve_files K ?rs ?ws [0..<length (wfiles w1)] w1 = Some (Go w')" "web_ok m w'" "healthy K names w'"
    "(\<exists>i\<in>set [0..<length (wfiles w1)]. ready ?rs ?ws w1 i) \<longrightarrow> work w' < work w1" by blast
  then show ?thesis using assms(5) w1(1,4) sel i by (intro exI [of _ w']) (auto simp: web_round_def)
qed

lemma web_loop_ends:
  assumes "web_ok m w" "healthy K names w" "kernel_ok K" "1 \<le> m" "work w < n"
  shows "\<exists>w'. web_loop n K m w = Some (Ret w') \<and> web_ok m w' \<and> healthy K names w' \<and> nlefttoread w' \<le> 0"
  using assms
proof (induction n arbitrary: w)
  case 0
  then show ?case by simp
next
  case (Suc n)
  show ?case
  proof (cases "0 < nlefttoread w")
    case False
    then show ?thesis using Suc.prems by (simp add: web_round_def)
  next
    case True
    from web_round_progress [OF Suc.prems(1-4) True] obtain w1 where
      "web_round K m w = Some (Go w1)" "web_ok m w1" "healthy K names w1" "work w1 < work w" by blast
    then show ?thesis using Suc.IH [of w1] Suc.prems by simp
  qed
qed

lemma web_start_flags: "with_flag P (web_start host names rs) = (if P 0 then {..<min 20 (length names)} else {})"
  by (auto simp: with_flag_def web_start_def Let_def)

lemma web_start_ok:
  assumes "\<forall>i. proper (rs i)"
  shows "web_ok m (web_start host names rs)"
proof -
  have "rset (web_start host names rs) = {}" "wset (web_start host names rs) = {}" "gets (web_start host names rs) = []"
    "nconn (web_start host names rs) = 0" "replies (web_start host names rs) = rs"
    "nlefttoconn (web_start host names rs) = int (min 20 (length names))"
    "nlefttoread (web_start host names rs) = int (min 20 (length names))"
    "\<forall>f\<in>set (wfiles (web_start host names rs)). f_flags f = 0"
    by (auto simp: web_start_def Let_def)
  then show ?thesis using assms by (simp add: web_ok_def gets_ok_def web_start_flags)
qed


text \<open>A kernel of this kind: fresh descriptors from above, every watched descriptor reported.\<close>

definition sample_kernel :: kernel where
  "sample_kernel = \<lparr>k_sock = (\<lambda>w. if rset w = {} then 3 else Max (rset w) + 1), k_connect = (\<lambda>i. if i = 0 then Connected else InProgress),
     k_soerr = (\<lambda>_. False), k_write = (\<lambda>_. True), k_select = (\<lambda>w. (rset w, wset w))\<rparr>"

lemma sample_kernel_ok: "kernel_ok sample_kernel"
proof -
  have "Max X + 1 \<notin> X" if "finite X" for X :: "int set"
  proof
    assume "Max X + 1 \<in> X"
    then have "Max X + 1 \<le> Max X" by (rule Max_ge [OF that])
    then show False by simp
  qed
  then show ?thesis by (auto simp: kernel_ok_def sample_kernel_def)
qed


text \<open>A failed connection is reported, and the request is written all the same.\<close>

lemma failed_connect_asks:
  assumes "f_flags (wfiles w ! i) = F_CONNECTING" "f_fd (wfiles w ! i) \<in> rs" "k_soerr K i" "k_write K i"
    and "get_line (f_name (wfiles w ! i)) = Some l"
  shows "\<exists>w'. serve_file K rs ws i w = Some (Go w') \<and> gets w' = gets w @ [(i, l)] \<and> complaints w' = complaints w @ [i]"
  using assms by (simp add: serve_file_def write_get_cmd_def upd_file_def Let_def)

text \<open>With a limit of no connections the client starts none and waits for ever for no descriptor.\<close>

lemma no_connections_hang:
  assumes "m \<le> 0" "0 < length names" "length names \<le> 20"
  shows "web_loop n K m (web_start host names rs) = Some (Go (web_start host names rs))"
proof (induction n)
  case (Suc n)
  let ?w = "web_start host names rs"
  have none: "f_flags (wfiles ?w ! i) = 0" if "i < length (wfiles ?w)" for i using that by (simp add: web_start_def Let_def)
  have "serve_files K R W js ?w = Some (Go ?w)" if "set js \<subseteq> {..<length (wfiles ?w)}" for R W js
    using that none by (induction js) (simp_all add: serve_file_def Let_def)
  then have "serve_files K R W [0..<length (wfiles ?w)] ?w = Some (Go ?w)" for R W by (auto simp: atLeast0LessThan)
  moreover have "connect_more K m ?w = Some (Go ?w)"
    by (subst connect_more.simps) (use assms(1) in \<open>simp add: web_start_def Let_def\<close>)
  moreover have "0 < nlefttoread ?w" using assms(2,3) by (simp add: web_start_def Let_def)
  ultimately have "web_round K m ?w = Some (Go ?w)" by (auto simp: web_round_def split: prod.split)
  then show ?case using Suc by simp
qed simp

text \<open>The home page is read to its end.\<close>

lemma read_all_content:
  "proper inp \<Longrightarrow> \<forall>e. RdErr e \<notin> set inp \<Longrightarrow> read_all n inp = Inr (n + length (content inp))"
proof (induction n inp rule: read_all.induct)
  case (1 n inp)
  obtain bs inp' where rd: "sys_read MAXLINE inp = (Inr bs, inp')" using sys_read_no_error [OF 1(3)] by blast
  note data = sys_read_data [OF rd _ 1(2)]
  show ?case
  proof (cases "bs = []")
    case True
    then have "inp = []" using data(4) by simp
    then show ?thesis using rd True by (subst read_all.simps) simp
  next
    case False
    have "read_all (n + length bs) inp' = Inr (n + length bs + length (content inp'))"
      using 1(1) [OF rd [symmetric] refl False] sys_read_proper [OF rd 1(2)] sys_read_set [OF rd 1(3)] by simp
    then show ?thesis using rd False data(2) by (subst read_all.simps) simp
  qed
qed

end
