(* ===== verification/Web_Threads.thy ===== *)
theory Web_Threads
  imports Web_Client
begin

text \<open>
  The threaded web clients of \<open>threads/web01.c\<close>, \<open>web02.c\<close> and \<open>web03.c\<close>: \<open>main\<close> starts a thread for each
  file, at most \<open>maxnconn\<close> at a time, and joins them. One step relation per program over a common
  state; a critical section of a thread is one step, those of \<open>main\<close> take several. A thread that
  fails ends the process and is left out. \<open>web01\<close> waits with \<open>thr_join\<close> for any thread and is
  correct; \<open>web03\<close> waits on a condition variable and can deadlock; \<open>web02\<close> polls and can lose a file.
\<close>

section \<open>The common state\<close>

abbreviation F_JOINED :: u32 where "F_JOINED \<equiv> 8"

text \<open>A thread: not created, before its request, reading the reply, done (\<open>F_DONE\<close> set) and before its
  critical section, terminated, joined.\<close>

datatype thread = Unborn | Born | Asked | Flagged | Ended | Joined

text \<open>\<open>main\<close>: at the head of its loop, waiting (\<open>thr_join\<close> or \<open>pthread_cond_wait\<close>), woken, holding the
  mutex before the test of \<open>ndone\<close>, holding it in the loop over the files, between creating a thread
  and setting its file's flag (\<open>web02\<close>), after \<open>exit(0)\<close>, after \<open>err_quit\<close>.\<close>

datatype place = Top | Waiting | Woken | Check | Scan nat | Created nat | Exit | Quit

record tweb =
  nfiles :: nat
  flags :: "nat \<Rightarrow> u32"
  thr :: "nat \<Rightarrow> thread"
  conns :: int
  toconn :: int
  toread :: int
  ndone :: int
  main_at :: place
  asks :: "nat list"

definition tweb_start :: "nat \<Rightarrow> tweb" where
  "tweb_start n = \<lparr>nfiles = n, flags = (\<lambda>_. 0), thr = (\<lambda>_. Unborn), conns = 0, toconn = int n, toread = int n,
     ndone = 0, main_at = Top, asks = []\<rparr>"

definition next_file :: "tweb \<Rightarrow> nat option" where
  "next_file s = find (\<lambda>i. flags s i = 0) [0..<nfiles s]"

definition more :: "int \<Rightarrow> tweb \<Rightarrow> bool" where
  "more m s \<longleftrightarrow> conns s < m \<and> 0 < toconn s"

text \<open>The mutex is free while \<open>main\<close> does not hold it.\<close>

definition unlocked :: "tweb \<Rightarrow> bool" where
  "unlocked s \<longleftrightarrow> (case main_at s of Check \<Rightarrow> False | Scan i \<Rightarrow> False | _ \<Rightarrow> True)"

text \<open>\<open>main\<close> sets the flag and creates the thread.\<close>

definition launch :: "nat \<Rightarrow> tweb \<Rightarrow> tweb" where
  "launch i s = s\<lparr>flags := (flags s)(i := F_CONNECTING), thr := (thr s)(i := Born), conns := conns s + 1, toconn := toconn s - 1\<rparr>"

text \<open>A thread writes its request; at the end of the reply it sets \<open>F_DONE\<close>.\<close>

definition thread_ask :: "nat \<Rightarrow> tweb \<Rightarrow> tweb" where
  "thread_ask i s = s\<lparr>flags := (flags s)(i := F_READING), thr := (thr s)(i := Asked), asks := asks s @ [i]\<rparr>"

definition thread_done :: "nat \<Rightarrow> thread \<Rightarrow> tweb \<Rightarrow> tweb" where
  "thread_done i t s = s\<lparr>flags := (flags s)(i := F_DONE), thr := (thr s)(i := t)\<rparr>"

section \<open>\<open>web01\<close>\<close>

inductive step1 :: "int \<Rightarrow> tweb \<Rightarrow> tweb \<Rightarrow> bool" for m where
  start1: "main_at s = Top \<Longrightarrow> 0 < toread s \<Longrightarrow> more m s \<Longrightarrow> next_file s = Some i \<Longrightarrow> step1 m s (launch i s)"
| none1: "main_at s = Top \<Longrightarrow> 0 < toread s \<Longrightarrow> more m s \<Longrightarrow> next_file s = None \<Longrightarrow> step1 m s (s\<lparr>main_at := Quit\<rparr>)"
| wait1: "main_at s = Top \<Longrightarrow> 0 < toread s \<Longrightarrow> \<not> more m s \<Longrightarrow> step1 m s (s\<lparr>main_at := Waiting\<rparr>)"
| join1: "main_at s = Waiting \<Longrightarrow> thr s i = Ended \<Longrightarrow>
    step1 m s (s\<lparr>thr := (thr s)(i := Joined), conns := conns s - 1, toread := toread s - 1, main_at := Top\<rparr>)"
| nojoin1: "main_at s = Waiting \<Longrightarrow> \<forall>i. thr s i = Unborn \<or> thr s i = Joined \<Longrightarrow> step1 m s (s\<lparr>main_at := Quit\<rparr>)"
| exit1: "main_at s = Top \<Longrightarrow> toread s \<le> 0 \<Longrightarrow> step1 m s (s\<lparr>main_at := Exit\<rparr>)"
| ask1: "main_at s \<noteq> Exit \<Longrightarrow> main_at s \<noteq> Quit \<Longrightarrow> thr s i = Born \<Longrightarrow> step1 m s (thread_ask i s)"
| finish1: "main_at s \<noteq> Exit \<Longrightarrow> main_at s \<noteq> Quit \<Longrightarrow> thr s i = Asked \<Longrightarrow> step1 m s (thread_done i Ended s)"

section \<open>\<open>web03\<close>\<close>

text \<open>The thread's critical section: \<open>ndone++\<close> and the signal, which wakes \<open>main\<close> if it waits.\<close>

definition count_done :: "nat \<Rightarrow> tweb \<Rightarrow> tweb" where
  "count_done i s = s\<lparr>thr := (thr s)(i := Ended), ndone := ndone s + 1,
     main_at := (if main_at s = Waiting then Woken else main_at s)\<rparr>"

text \<open>\<open>main\<close> joins a thread whose flag is \<open>F_DONE\<close>, holding the mutex.\<close>

definition join_done :: "nat \<Rightarrow> tweb \<Rightarrow> tweb" where
  "join_done i s = s\<lparr>thr := (thr s)(i := Joined), flags := (flags s)(i := F_JOINED), ndone := ndone s - 1,
     conns := conns s - 1, toread := toread s - 1, main_at := Scan (i + 1)\<rparr>"

inductive step3 :: "int \<Rightarrow> tweb \<Rightarrow> tweb \<Rightarrow> bool" for m where
  start3: "main_at s = Top \<Longrightarrow> 0 < toread s \<Longrightarrow> more m s \<Longrightarrow> next_file s = Some i \<Longrightarrow> step3 m s (launch i s)"
| none3: "main_at s = Top \<Longrightarrow> 0 < toread s \<Longrightarrow> more m s \<Longrightarrow> next_file s = None \<Longrightarrow> step3 m s (s\<lparr>main_at := Quit\<rparr>)"
| lock3: "main_at s = Top \<Longrightarrow> 0 < toread s \<Longrightarrow> \<not> more m s \<Longrightarrow> step3 m s (s\<lparr>main_at := Check\<rparr>)"
| wait3: "main_at s = Check \<Longrightarrow> ndone s = 0 \<Longrightarrow> step3 m s (s\<lparr>main_at := Waiting\<rparr>)"
| wake3: "main_at s = Woken \<Longrightarrow> step3 m s (s\<lparr>main_at := Check\<rparr>)"
| scan3: "main_at s = Check \<Longrightarrow> ndone s \<noteq> 0 \<Longrightarrow> step3 m s (s\<lparr>main_at := Scan 0\<rparr>)"
| skip3: "main_at s = Scan i \<Longrightarrow> i < nfiles s \<Longrightarrow> flags s i AND F_DONE = 0 \<Longrightarrow> step3 m s (s\<lparr>main_at := Scan (i + 1)\<rparr>)"
| join3: "main_at s = Scan i \<Longrightarrow> i < nfiles s \<Longrightarrow> flags s i AND F_DONE \<noteq> 0 \<Longrightarrow> thr s i = Ended \<Longrightarrow> step3 m s (join_done i s)"
| unlock3: "main_at s = Scan i \<Longrightarrow> \<not> i < nfiles s \<Longrightarrow> step3 m s (s\<lparr>main_at := Top\<rparr>)"
| exit3: "main_at s = Top \<Longrightarrow> toread s \<le> 0 \<Longrightarrow> step3 m s (s\<lparr>main_at := Exit\<rparr>)"
| ask3: "main_at s \<noteq> Exit \<Longrightarrow> main_at s \<noteq> Quit \<Longrightarrow> thr s i = Born \<Longrightarrow> step3 m s (thread_ask i s)"
| finish3: "main_at s \<noteq> Exit \<Longrightarrow> main_at s \<noteq> Quit \<Longrightarrow> thr s i = Asked \<Longrightarrow> step3 m s (thread_done i Flagged s)"
| count3: "main_at s \<noteq> Exit \<Longrightarrow> main_at s \<noteq> Quit \<Longrightarrow> thr s i = Flagged \<Longrightarrow> unlocked s \<Longrightarrow> step3 m s (count_done i s)"

section \<open>\<open>web02\<close>\<close>

text \<open>It creates the thread first and sets the flag then; after each file it polls \<open>ndone\<close>.\<close>

inductive step2 :: "int \<Rightarrow> tweb \<Rightarrow> tweb \<Rightarrow> bool" for m where
  create2: "main_at s = Top \<Longrightarrow> 0 < toread s \<Longrightarrow> more m s \<Longrightarrow> next_file s = Some i \<Longrightarrow>
    step2 m s (s\<lparr>thr := (thr s)(i := Born), main_at := Created i\<rparr>)"
| flag2: "main_at s = Created i \<Longrightarrow>
    step2 m s (s\<lparr>flags := (flags s)(i := F_CONNECTING), conns := conns s + 1, toconn := toconn s - 1, main_at := Top\<rparr>)"
| none2: "main_at s = Top \<Longrightarrow> 0 < toread s \<Longrightarrow> more m s \<Longrightarrow> next_file s = None \<Longrightarrow> step2 m s (s\<lparr>main_at := Quit\<rparr>)"
| lock2: "main_at s = Top \<Longrightarrow> 0 < toread s \<Longrightarrow> \<not> more m s \<Longrightarrow> step2 m s (s\<lparr>main_at := Check\<rparr>)"
| poll2: "main_at s = Check \<Longrightarrow> ndone s \<le> 0 \<Longrightarrow> step2 m s (s\<lparr>main_at := Top\<rparr>)"
| scan2: "main_at s = Check \<Longrightarrow> 0 < ndone s \<Longrightarrow> step2 m s (s\<lparr>main_at := Scan 0\<rparr>)"
| skip2: "main_at s = Scan i \<Longrightarrow> i < nfiles s \<Longrightarrow> flags s i AND F_DONE = 0 \<Longrightarrow> step2 m s (s\<lparr>main_at := Scan (i + 1)\<rparr>)"
| join2: "main_at s = Scan i \<Longrightarrow> i < nfiles s \<Longrightarrow> flags s i AND F_DONE \<noteq> 0 \<Longrightarrow> thr s i = Ended \<Longrightarrow> step2 m s (join_done i s)"
| unlock2: "main_at s = Scan i \<Longrightarrow> \<not> i < nfiles s \<Longrightarrow> step2 m s (s\<lparr>main_at := Top\<rparr>)"
| exit2: "main_at s = Top \<Longrightarrow> toread s \<le> 0 \<Longrightarrow> step2 m s (s\<lparr>main_at := Exit\<rparr>)"
| ask2: "main_at s \<noteq> Exit \<Longrightarrow> main_at s \<noteq> Quit \<Longrightarrow> thr s i = Born \<Longrightarrow> step2 m s (thread_ask i s)"
| finish2: "main_at s \<noteq> Exit \<Longrightarrow> main_at s \<noteq> Quit \<Longrightarrow> thr s i = Asked \<Longrightarrow> step2 m s (thread_done i Flagged s)"
| count2: "main_at s \<noteq> Exit \<Longrightarrow> main_at s \<noteq> Quit \<Longrightarrow> thr s i = Flagged \<Longrightarrow> unlocked s \<Longrightarrow>
    step2 m s (s\<lparr>thr := (thr s)(i := Ended), ndone := ndone s + 1\<rparr>)"

definition reach :: "(tweb \<Rightarrow> tweb \<Rightarrow> bool) \<Rightarrow> nat \<Rightarrow> tweb \<Rightarrow> bool" where
  "reach step n s \<longleftrightarrow> step\<^sup>*\<^sup>* (tweb_start n) s"

section \<open>Counting threads\<close>

definition how_many :: "(thread \<Rightarrow> bool) \<Rightarrow> tweb \<Rightarrow> int" where
  "how_many P s = int (card {i. i < nfiles s \<and> P (thr s i)})"

lemma how_many_upd:
  assumes "thr s' = (thr s)(i := t)" "nfiles s' = nfiles s" "i < nfiles s"
  shows "how_many P s' = how_many P s + (if P t then 1 else 0) - (if P (thr s i) then 1 else 0)"
proof -
  let ?A = "{j. j < nfiles s \<and> P (thr s j)}"
  have e: "{j. j < nfiles s' \<and> P (thr s' j)} = (if P t then insert i ?A else ?A - {i})" using assms by auto
  have fin: "finite ?A" by simp
  have mem: "i \<in> ?A \<longleftrightarrow> P (thr s i)" using assms(3) by simp
  have "0 < card ?A" if "i \<in> ?A" using that fin card_gt_0_iff by blast
  then show ?thesis unfolding how_many_def e using fin mem
    by (cases "P t"; cases "P (thr s i)") (simp_all add: insert_absorb card_Diff_singleton of_nat_diff del: mem_Collect_eq)
qed

lemma how_many_pos: "0 < how_many P s \<longleftrightarrow> (\<exists>i<nfiles s. P (thr s i))"
  by (auto simp: how_many_def card_gt_0_iff)

lemma how_many_nonneg: "0 \<le> how_many P s"
  by (simp add: how_many_def)

section \<open>What the counters and flags mean\<close>

text \<open>The flag of a file by the state of its thread; \<open>J\<close> is the flag after the join.\<close>

definition flag_of :: "u32 \<Rightarrow> thread \<Rightarrow> u32" where
  "flag_of J t = (case t of Unborn \<Rightarrow> 0 | Born \<Rightarrow> F_CONNECTING | Asked \<Rightarrow> F_READING | Flagged \<Rightarrow> F_DONE | Ended \<Rightarrow> F_DONE | Joined \<Rightarrow> J)"

definition has_asked :: "thread \<Rightarrow> bool" where
  "has_asked t \<longleftrightarrow> t \<noteq> Unborn \<and> t \<noteq> Born"

definition live :: "thread \<Rightarrow> bool" where
  "live t \<longleftrightarrow> t \<noteq> Unborn \<and> t \<noteq> Joined"

definition threads_ok :: "u32 \<Rightarrow> int \<Rightarrow> tweb \<Rightarrow> bool" where
  "threads_ok J m s \<longleftrightarrow>
     conns s = how_many live s \<and> toconn s = how_many (\<lambda>t. t = Unborn) s \<and> toread s = how_many (\<lambda>t. t \<noteq> Joined) s
     \<and> conns s \<le> max 0 m \<and> distinct (asks s) \<and> set (asks s) = {i. i < nfiles s \<and> has_asked (thr s i)}
     \<and> (\<forall>i. flags s i = flag_of J (thr s i)) \<and> (\<forall>i. nfiles s \<le> i \<longrightarrow> thr s i = Unborn)"

lemma threads_ok_start: "threads_ok J m (tweb_start n)"
  by (simp add: threads_ok_def tweb_start_def how_many_def flag_of_def has_asked_def live_def)

lemma threads_ok_upd:
  assumes ok: "threads_ok J m s" and i: "i < nfiles s"
    and upd: "nfiles s' = nfiles s" "thr s' = (thr s)(i := t)" "flags s' = (flags s)(i := flag_of J t)"
    and counters: "conns s' = conns s + change (live t) (live (thr s i))"
      "toconn s' = toconn s + change (t = Unborn) (thr s i = Unborn)"
      "toread s' = toread s + change (t \<noteq> Joined) (thr s i \<noteq> Joined)"
    and limit: "live t \<Longrightarrow> \<not> live (thr s i) \<Longrightarrow> conns s < m"
    and asks: "if has_asked t \<and> \<not> has_asked (thr s i) then asks s' = asks s @ [i] else asks s' = asks s \<and> has_asked t = has_asked (thr s i)"
  shows "threads_ok J m s'"
proof -
  note c = how_many_upd [OF upd(2,1) i]
  have mem: "i \<in> set (asks s) \<longleftrightarrow> has_asked (thr s i)" using ok i by (simp add: threads_ok_def)
  have a: "{j. j < nfiles s' \<and> has_asked (thr s' j)} = (if has_asked t then insert i (set (asks s)) else set (asks s) - {i})"
    using ok i upd(1,2) by (auto simp: threads_ok_def)
  have "distinct (asks s') \<and> set (asks s') = {j. j < nfiles s' \<and> has_asked (thr s' j)}"
  proof (cases "has_asked t \<and> \<not> has_asked (thr s i)")
    case True
    then have "asks s' = asks s @ [i]" "i \<notin> set (asks s)" using asks mem by simp_all
    then show ?thesis using ok True unfolding a by (simp add: threads_ok_def)
  next
    case False
    then have same: "asks s' = asks s" "has_asked t = has_asked (thr s i)" using asks by simp_all
    have "(if has_asked t then insert i (set (asks s)) else set (asks s) - {i}) = set (asks s)"
      using mem same(2) by (auto simp: insert_absorb)
    then show ?thesis using ok same(1) unfolding a by (simp add: threads_ok_def)
  qed
  moreover have "\<forall>j. flags s' j = flag_of J (thr s' j)" using ok upd(2,3) by (simp add: threads_ok_def)
  moreover have "\<forall>j. nfiles s' \<le> j \<longrightarrow> thr s' j = Unborn" using ok i upd(1,2) by (simp add: threads_ok_def)
  moreover have "conns s' = how_many live s' \<and> toconn s' = how_many (\<lambda>t. t = Unborn) s' \<and> toread s' = how_many (\<lambda>t. t \<noteq> Joined) s'"
    using ok counters unfolding c change_def threads_ok_def by simp
  moreover have "conns s' \<le> max 0 m"
    using ok counters(1) limit unfolding threads_ok_def change_def by (cases "live t"; cases "live (thr s i)") auto
  ultimately show ?thesis unfolding threads_ok_def by blast
qed

lemma threads_ok_same:
  assumes "threads_ok J m s" "nfiles s' = nfiles s" "thr s' = thr s" "flags s' = flags s" "conns s' = conns s"
    "toconn s' = toconn s" "toread s' = toread s" "asks s' = asks s"
  shows "threads_ok J m s'"
  using assms by (simp add: threads_ok_def how_many_def)

lemma thread_known: "threads_ok J m s \<Longrightarrow> thr s i \<noteq> Unborn \<Longrightarrow> i < nfiles s"
  unfolding threads_ok_def by (meson not_less)

lemma flag_known: "threads_ok J m s \<Longrightarrow> flags s i = flag_of J (thr s i)"
  by (simp add: threads_ok_def)

lemma next_unborn:
  assumes "threads_ok J m s" "next_file s = Some i" "J \<noteq> 0"
  shows "i < nfiles s" "thr s i = Unborn"
proof -
  have "flags s i = 0" "i < nfiles s" using assms(2) by (auto simp: next_file_def find_Some_iff)
  then show "i < nfiles s" "thr s i = Unborn" using assms(1,3)
    by (auto simp: threads_ok_def flag_of_def split: thread.splits)
qed

lemma next_exists:
  assumes "threads_ok J m s" "0 < toconn s"
  shows "next_file s \<noteq> None"
proof -
  obtain i where "i < nfiles s" "thr s i = Unborn"
    using assms how_many_pos [of "\<lambda>t. t = Unborn" s] by (auto simp: threads_ok_def)
  then have "flags s i = 0" "i \<in> set [0..<nfiles s]" using assms(1) by (auto simp: threads_ok_def flag_of_def)
  then show ?thesis unfolding next_file_def find_None_iff by blast
qed

lemma launch_ok:
  assumes "threads_ok J m s" "next_file s = Some i" "more m s" "J \<noteq> 0"
  shows "threads_ok J m (launch i s)"
  by (rule threads_ok_upd [OF assms(1) next_unborn(1) [OF assms(1,2,4)], where t = Born])
    (use next_unborn(2) [OF assms(1,2,4)] assms(3) in \<open>simp_all add: launch_def change_def live_def has_asked_def flag_of_def more_def\<close>)

lemma ask_ok:
  assumes "threads_ok J m s" "thr s i = Born"
  shows "threads_ok J m (thread_ask i s)"
  by (rule threads_ok_upd [OF assms(1) thread_known [OF assms(1)], where t = Asked and i = i])
    (use assms in \<open>simp_all add: thread_ask_def change_def live_def has_asked_def flag_of_def\<close>)

lemma finish_ok:
  assumes "threads_ok J m s" "thr s i = Asked" "t = Flagged \<or> t = Ended"
  shows "threads_ok J m (thread_done i t s)"
  by (rule threads_ok_upd [OF assms(1) thread_known [OF assms(1)], where t = t and i = i])
    (use assms in \<open>auto simp: thread_done_def change_def live_def has_asked_def flag_of_def\<close>)

section \<open>\<open>web01\<close> is correct\<close>

definition inv1 :: "int \<Rightarrow> tweb \<Rightarrow> bool" where
  "inv1 m s \<longleftrightarrow> threads_ok F_DONE m s \<and> main_at s \<in> {Top, Waiting, Exit}
     \<and> (main_at s = Waiting \<longrightarrow> 0 < toread s \<and> \<not> more m s) \<and> (main_at s = Exit \<longrightarrow> toread s \<le> 0)
     \<and> (\<forall>i. thr s i \<noteq> Flagged)"

text \<open>With at least one connection allowed, a thread is at work whenever \<open>main\<close> waits.\<close>

lemma some_live:
  assumes "threads_ok J m s" "0 < toread s" "\<not> more m s" "1 \<le> m"
  shows "\<exists>i. live (thr s i)"
proof -
  have "toread s = how_many live s + how_many (\<lambda>t. t = Unborn) s"
  proof -
    have "{i. i < nfiles s \<and> thr s i \<noteq> Joined} = {i. i < nfiles s \<and> live (thr s i)} \<union> {i. i < nfiles s \<and> thr s i = Unborn}"
      by (auto simp: live_def)
    moreover have "{i. i < nfiles s \<and> live (thr s i)} \<inter> {i. i < nfiles s \<and> thr s i = Unborn} = {}" by (auto simp: live_def)
    ultimately show ?thesis using assms(1) by (simp add: threads_ok_def how_many_def card_Un_disjoint)
  qed
  then have "0 < how_many live s" using assms by (auto simp: threads_ok_def more_def)
  then show ?thesis by (auto simp: how_many_pos)
qed

lemma step1_inv:
  assumes "step1 m s s'" "inv1 m s" "1 \<le> m"
  shows "inv1 m s' \<and> nfiles s' = nfiles s"
  using assms(1)
proof cases
  case (start1 i)
  then show ?thesis using launch_ok [of F_DONE m s i] assms(2) by (auto simp: inv1_def launch_def)
next
  case none1
  then show ?thesis using next_exists [of F_DONE m s] assms(2) by (auto simp: inv1_def more_def)
next
  case wait1
  then show ?thesis using threads_ok_same [of F_DONE m s s'] assms(2) by (auto simp: inv1_def more_def)
next
  case (join1 i)
  then have flag: "flags s i = F_DONE" using flag_known [of F_DONE m s i] assms(2) by (simp add: inv1_def flag_of_def)
  have "threads_ok F_DONE m s'"
    by (rule threads_ok_upd [OF _ thread_known [of F_DONE m], where t = Joined and i = i])
      (use assms(2) join1 flag in \<open>auto simp: inv1_def change_def live_def has_asked_def flag_of_def fun_upd_idem\<close>)
  then show ?thesis using join1 assms(2) by (auto simp: inv1_def)
next
  case nojoin1
  then obtain i where "live (thr s i)" using some_live [of F_DONE m s] assms(2,3) by (auto simp: inv1_def)
  then show ?thesis using nojoin1(3) by (auto simp: live_def)
next
  case exit1
  then show ?thesis using threads_ok_same [of F_DONE m s s'] assms(2) by (auto simp: inv1_def)
next
  case (ask1 i)
  then show ?thesis using ask_ok [of F_DONE m s i] assms(2) by (auto simp: inv1_def thread_ask_def more_def)
next
  case (finish1 i)
  then show ?thesis using finish_ok [of F_DONE m s i Ended] assms(2) by (auto simp: inv1_def thread_done_def more_def)
qed

text \<open>Every step is paid for.\<close>

definition rank :: "thread \<Rightarrow> nat" where
  "rank t = (case t of Unborn \<Rightarrow> 5 | Born \<Rightarrow> 4 | Asked \<Rightarrow> 3 | Flagged \<Rightarrow> 2 | Ended \<Rightarrow> 1 | Joined \<Rightarrow> 0)"

definition threads_left :: "tweb \<Rightarrow> nat" where
  "threads_left s = (\<Sum>i<nfiles s. rank (thr s i))"

definition left1 :: "tweb \<Rightarrow> nat" where
  "left1 s = 2 * threads_left s + (if main_at s = Top then 1 else 0)"

lemma threads_left_upd:
  assumes "thr s' = (thr s)(i := t)" "nfiles s' = nfiles s" "i < nfiles s"
  shows "threads_left s' + rank (thr s i) = threads_left s + rank t"
proof -
  have "(\<Sum>j\<in>{..<nfiles s} - {i}. rank (thr s' j)) = (\<Sum>j\<in>{..<nfiles s} - {i}. rank (thr s j))"
    using assms(1) by (intro sum.cong) auto
  moreover have "threads_left x = rank (thr x i) + (\<Sum>j\<in>{..<nfiles s} - {i}. rank (thr x j))"
    if "nfiles x = nfiles s" for x
    using assms(3) that by (simp add: threads_left_def sum.remove)
  ultimately show ?thesis using assms(1,2) by simp
qed

lemma step1_pays:
  assumes "step1 m s s'" "inv1 m s" "1 \<le> m"
  shows "left1 s' < left1 s"
proof -
  have ok: "threads_ok F_DONE m s" using assms(2) by (simp add: inv1_def)
  have less: "left1 s' < left1 s"
    if "thr s' = (thr s)(i := t)" "nfiles s' = nfiles s" "thr s i = u" "u \<noteq> Unborn \<or> i < nfiles s" "rank t < rank u"
      "main_at s' = main_at s \<or> main_at s = Waiting" for i t u
  proof -
    have i: "i < nfiles s" using that(3,4) thread_known [OF ok] by blast
    from threads_left_upd [OF that(1,2) i] that(3,5,6) show ?thesis by (auto simp: left1_def)
  qed
  show ?thesis using assms(1)
  proof cases
    case (start1 i)
    then show ?thesis using next_unborn [OF ok, of i] by (intro less [of i Born Unborn]) (simp_all add: launch_def rank_def)
  next
    case none1
    then show ?thesis using next_exists [OF ok] by (auto simp: more_def)
  next
    case nojoin1
    then show ?thesis using some_live [OF ok _ _ assms(3)] assms(2) by (auto simp: inv1_def live_def)
  next
    case (join1 i)
    then show ?thesis by (intro less [of i Joined Ended]) (simp_all add: rank_def)
  next
    case (ask1 i)
    then show ?thesis by (intro less [of i Asked Born]) (simp_all add: rank_def thread_ask_def)
  next
    case (finish1 i)
    then show ?thesis by (intro less [of i Ended Asked]) (simp_all add: rank_def thread_done_def)
  qed (simp_all add: left1_def threads_left_def)
qed

lemma reach1_inv:
  assumes "reach (step1 m) n s" "1 \<le> m"
  shows "inv1 m s \<and> nfiles s = n"
  using assms(1) unfolding reach_def
proof (induction rule: rtranclp_induct)
  case base
  show ?case using threads_ok_start [of F_DONE m n] by (simp add: inv1_def tweb_start_def)
next
  case (step s s')
  then show ?case using step1_inv [OF _ _ assms(2), of s s'] by simp
qed

lemma step1_progress:
  assumes "inv1 m s" "1 \<le> m" "main_at s \<noteq> Exit"
  shows "\<exists>s'. step1 m s s'"
proof -
  have ok: "threads_ok F_DONE m s" and at: "main_at s = Top \<or> main_at s = Waiting" and nq: "main_at s \<noteq> Quit"
    and nf: "\<And>i. thr s i \<noteq> Flagged" using assms(1,3) by (auto simp: inv1_def)
  show ?thesis
  proof (cases "main_at s = Top")
    case True
    then show ?thesis using step1.intros(1-3,6) [of s m] by (cases "next_file s"; cases "more m s"; cases "0 < toread s") force+
  next
    case False
    then have w: "main_at s = Waiting" "0 < toread s" "\<not> more m s" using at assms(1) by (auto simp: inv1_def)
    obtain i where "live (thr s i)" using some_live [OF ok w(2,3) assms(2)] by blast
    then show ?thesis using nf [of i] nq assms(3) w(1) step1.join1 [of s i m] step1.ask1 [of s i m] step1.finish1 [of s i m]
      by (cases "thr s i") (auto simp: live_def)
  qed
qed

lemma all_joined:
  assumes "threads_ok J m s" "toread s \<le> 0"
  shows "\<forall>i<nfiles s. thr s i = Joined" "set (asks s) = {..<nfiles s}"
proof -
  show j: "\<forall>i<nfiles s. thr s i = Joined"
    using assms how_many_pos [of "\<lambda>t. t \<noteq> Joined" s] by (auto simp: threads_ok_def)
  show "set (asks s) = {..<nfiles s}" using assms(1) j by (auto simp: threads_ok_def has_asked_def)
qed

text \<open>
  C19 \<open>web01\<close> fetches every file: in every state it can reach, however the threads are scheduled,
  \<open>main\<close> has exited or some step is possible, every step uses up some of a finite amount of work, so it
  does exit, and then every file has been requested exactly once and every thread has been joined;
  never are there more threads at work than allowed.
\<close>

theorem web01_fetches_all:
  assumes "reach (step1 m) n s" "1 \<le> m"
  shows "(main_at s = Exit \<or> (\<exists>s'. step1 m s s')) \<and> (\<forall>s'. step1 m s s' \<longrightarrow> left1 s' < left1 s)
    \<and> (main_at s = Exit \<longrightarrow> distinct (asks s) \<and> set (asks s) = {..<n} \<and> (\<forall>i<n. thr s i = Joined))
    \<and> int (card {i. i < n \<and> live (thr s i)}) \<le> m"
proof -
  have inv: "inv1 m s" and n: "nfiles s = n" using reach1_inv [OF assms] by simp_all
  then have ok: "threads_ok F_DONE m s" by (simp add: inv1_def)
  have "toread s \<le> 0" if "main_at s = Exit" using inv that by (simp add: inv1_def)
  moreover have "distinct (asks s)" "how_many live s \<le> m" using ok assms(2) by (auto simp: threads_ok_def)
  ultimately show ?thesis
    using step1_progress [OF inv assms(2)] step1_pays [OF _ inv assms(2)] all_joined [OF ok] n
    by (auto simp: how_many_def)
qed

theorem web01_fetches_all_witness:
  "\<exists>s'. step1 2 (launch 0 (tweb_start 3)) s' \<and> left1 s' < left1 (launch 0 (tweb_start 3))"
proof -
  have "next_file (tweb_start 3) = Some 0" "more 2 (tweb_start 3)" by (simp_all add: next_file_def tweb_start_def more_def upt_rec)
  then have "step1 2 (tweb_start 3) (launch 0 (tweb_start 3))" by (intro step1.start1) (simp_all add: tweb_start_def)
  then have "reach (step1 2) 3 (launch 0 (tweb_start 3))" by (simp add: reach_def r_into_rtranclp)
  from web01_fetches_all [OF this] show ?thesis by (auto simp: launch_def tweb_start_def)
qed

section \<open>\<open>web03\<close>: where it can stop\<close>

definition inv3 :: "int \<Rightarrow> tweb \<Rightarrow> bool" where
  "inv3 m s \<longleftrightarrow> threads_ok F_JOINED m s \<and> (\<forall>i. main_at s \<noteq> Created i) \<and> main_at s \<noteq> Quit
     \<and> ndone s = how_many (\<lambda>t. t = Ended) s
     \<and> (main_at s = Waiting \<longrightarrow> ndone s = 0 \<and> 0 < toread s \<and> \<not> more m s)
     \<and> (main_at s = Check \<or> main_at s = Woken \<longrightarrow> 0 < toread s \<and> \<not> more m s)
     \<and> (main_at s = Exit \<longrightarrow> toread s \<le> 0)"

lemma ended_upd:
  assumes "thr s' = (thr s)(i := t)" "nfiles s' = nfiles s" "i < nfiles s" "ndone s = how_many (\<lambda>t. t = Ended) s"
    and "ndone s' = ndone s + change (t = Ended) (thr s i = Ended)"
  shows "ndone s' = how_many (\<lambda>t. t = Ended) s'"
  using how_many_upd [OF assms(1-3), of "\<lambda>t. t = Ended"] assms(4,5) by (simp add: change_def)

lemma count_ok:
  assumes "threads_ok J m s" "thr s i = Flagged"
  shows "threads_ok J m (count_done i s)"
proof -
  have "flags s i = F_DONE" using flag_known [OF assms(1), of i] assms(2) by (simp add: flag_of_def)
  then show ?thesis
    by (intro threads_ok_upd [OF assms(1) thread_known [OF assms(1)], where t = Ended and i = i])
      (use assms(2) in \<open>simp_all add: count_done_def change_def live_def has_asked_def flag_of_def fun_upd_idem\<close>)
qed

lemma join_ok:
  assumes "threads_ok F_JOINED m s" "thr s i = Ended"
  shows "threads_ok F_JOINED m (join_done i s)"
  by (rule threads_ok_upd [OF assms(1) thread_known [OF assms(1)], where t = Joined and i = i])
    (use assms(2) in \<open>simp_all add: join_done_def change_def live_def has_asked_def flag_of_def\<close>)

lemma step3_inv:
  assumes "step3 m s s'" "inv3 m s"
  shows "inv3 m s' \<and> nfiles s' = nfiles s"
proof -
  have ok: "threads_ok F_JOINED m s" and nd: "ndone s = how_many (\<lambda>t. t = Ended) s" using assms(2) by (simp_all add: inv3_def)
  have known: "thr s i \<noteq> Unborn \<Longrightarrow> i < nfiles s" for i by (rule thread_known [OF ok])
  have same: "inv3 m s' \<and> nfiles s' = nfiles s"
    if "s' = s\<lparr>main_at := p\<rparr>" "\<forall>i. p \<noteq> Created i" "p \<noteq> Quit" "p = Waiting \<longrightarrow> ndone s = 0 \<and> 0 < toread s \<and> \<not> more m s"
      "p = Check \<or> p = Woken \<longrightarrow> 0 < toread s \<and> \<not> more m s" "p = Exit \<longrightarrow> toread s \<le> 0" for p
    using threads_ok_same [OF ok, of s'] nd that by (simp add: inv3_def more_def how_many_def)
  show ?thesis using assms(1)
  proof cases
    case (start3 i)
    note i = next_unborn [OF ok start3(5)]
    have "ndone (launch i s) = how_many (\<lambda>t. t = Ended) (launch i s)"
      by (rule ended_upd [of _ s i Born]) (use i nd in \<open>simp_all add: launch_def change_def\<close>)
    then show ?thesis using start3 launch_ok [OF ok start3(5,4)] by (simp add: inv3_def launch_def)
  next
    case none3
    then show ?thesis using next_exists [OF ok] by (simp add: more_def)
  next
    case lock3
    then show ?thesis by (intro same [of Check]) simp_all
  next
    case wait3
    then show ?thesis using assms(2) by (intro same [of Waiting]) (simp_all add: inv3_def)
  next
    case wake3
    then show ?thesis using assms(2) by (intro same [of Check]) (simp_all add: inv3_def)
  next
    case scan3
    then show ?thesis by (intro same [of "Scan 0"]) simp_all
  next
    case (skip3 i)
    then show ?thesis by (intro same [of "Scan (i + 1)"]) simp_all
  next
    case (join3 i)
    have "ndone (join_done i s) = how_many (\<lambda>t. t = Ended) (join_done i s)"
      by (rule ended_upd [of _ s i Joined]) (use join3 known nd in \<open>simp_all add: join_done_def change_def\<close>)
    then show ?thesis using join3 join_ok [OF ok] by (simp add: inv3_def join_done_def)
  next
    case unlock3
    then show ?thesis by (intro same [of Top]) simp_all
  next
    case exit3
    then show ?thesis by (intro same [of Exit]) simp_all
  next
    case (ask3 i)
    have "ndone (thread_ask i s) = how_many (\<lambda>t. t = Ended) (thread_ask i s)"
      by (rule ended_upd [of _ s i Asked]) (use ask3 known nd in \<open>simp_all add: thread_ask_def change_def\<close>)
    then have "how_many (\<lambda>t. t = Ended) s' = ndone s" using ask3(1) by (simp add: thread_ask_def)
    then show ?thesis using ask3 ask_ok [OF ok, of i] assms(2) unfolding inv3_def by (auto simp: thread_ask_def more_def)
  next
    case (finish3 i)
    have "ndone (thread_done i Flagged s) = how_many (\<lambda>t. t = Ended) (thread_done i Flagged s)"
      by (rule ended_upd [of _ s i Flagged]) (use finish3 known nd in \<open>simp_all add: thread_done_def change_def\<close>)
    then have "how_many (\<lambda>t. t = Ended) s' = ndone s" using finish3(1) by (simp add: thread_done_def)
    then show ?thesis using finish3 finish_ok [OF ok, of i Flagged] assms(2) unfolding inv3_def by (auto simp: thread_done_def more_def)
  next
    case (count3 i)
    have "ndone (count_done i s) = how_many (\<lambda>t. t = Ended) (count_done i s)"
      by (rule ended_upd [of _ s i Ended]) (use count3 known nd in \<open>simp_all add: count_done_def change_def\<close>)
    then show ?thesis using count3 count_ok [OF ok] assms(2) by (auto simp: inv3_def count_done_def more_def)
  qed
qed

lemma reach3_inv:
  assumes "reach (step3 m) n s"
  shows "inv3 m s \<and> nfiles s = n"
  using assms unfolding reach_def
proof (induction rule: rtranclp_induct)
  case base
  have "how_many (\<lambda>t. t = Ended) (tweb_start n) = 0" by (simp add: how_many_def tweb_start_def)
  then show ?case using threads_ok_start [of F_JOINED m n] by (simp add: inv3_def tweb_start_def)
next
  case (step s s')
  then show ?case using step3_inv [of m s s'] by simp
qed

definition deadlocked :: "tweb \<Rightarrow> bool" where
  "deadlocked s \<longleftrightarrow> (\<exists>i<nfiles s. main_at s = Scan i \<and> thr s i = Flagged) \<and> (\<forall>j. thr s j \<noteq> Born \<and> thr s j \<noteq> Asked)"

lemma done_flag:
  assumes "threads_ok F_JOINED m s"
  shows "flags s i AND F_DONE \<noteq> 0 \<longleftrightarrow> thr s i = Flagged \<or> thr s i = Ended"
  unfolding flag_known [OF assms] by (cases "thr s i") (simp_all add: flag_of_def)

lemma step3_progress:
  assumes inv: "inv3 m s" and m: "1 \<le> m" and nd: "main_at s \<noteq> Exit" "\<not> deadlocked s"
  shows "\<exists>s'. step3 m s s'"
proof -
  have ok: "threads_ok F_JOINED m s" and nq: "main_at s \<noteq> Quit" using inv by (simp_all add: inv3_def)
  show ?thesis
  proof (cases "\<exists>j. thr s j = Born \<or> thr s j = Asked")
    case True
    then show ?thesis using step3.ask3 [OF nd(1) nq] step3.finish3 [OF nd(1) nq] by blast
  next
    case idle: False
    show ?thesis
    proof (cases "main_at s")
      case Top
      then show ?thesis using step3.intros(1-3,10) [of s m] by (cases "next_file s"; cases "more m s"; cases "0 < toread s") force+
    next
      case Waiting
      then have w: "ndone s = 0" "0 < toread s" "\<not> more m s" using inv by (simp_all add: inv3_def)
      obtain i where i: "live (thr s i)" using some_live [OF ok w(2,3) m] by blast
      then have "i < nfiles s" using thread_known [OF ok, of i] by (auto simp: live_def)
      moreover have "\<forall>i<nfiles s. thr s i \<noteq> Ended" using w(1) inv how_many_pos [of "\<lambda>t. t = Ended" s] by (auto simp: inv3_def)
      ultimately have "thr s i = Flagged" using i idle by (cases "thr s i") (auto simp: live_def)
      then show ?thesis using step3.count3 [OF nd(1) nq, of i] Waiting by (auto simp: unlocked_def)
    next
      case Check
      then show ?thesis using step3.wait3 [of s m] step3.scan3 [of s m] by blast
    next
      case (Scan i)
      consider "\<not> i < nfiles s" | "i < nfiles s" "flags s i AND F_DONE = 0" | "i < nfiles s" "thr s i = Ended" "flags s i AND F_DONE \<noteq> 0"
        | "i < nfiles s" "thr s i = Flagged" using done_flag [OF ok, of i] by blast
      then show ?thesis
      proof cases
        case 4
        then show ?thesis using nd(2) idle Scan by (auto simp: deadlocked_def)
      qed (use Scan step3.unlock3 [of s i m] step3.skip3 [of s i m] step3.join3 [of s i m] in blast)+
    next
      case Woken
      then show ?thesis using step3.wake3 by blast
    qed (use inv nd(1) nq in \<open>auto simp: inv3_def\<close>)
  qed
qed

lemma deadlock_stuck:
  assumes "inv3 m s" "deadlocked s"
  shows "\<not> step3 m s s'" "main_at s \<noteq> Exit"
proof -
  have ok: "threads_ok F_JOINED m s" using assms(1) by (simp add: inv3_def)
  obtain i where i: "i < nfiles s" "main_at s = Scan i" "thr s i = Flagged" using assms(2) by (auto simp: deadlocked_def)
  then have "flags s i AND F_DONE \<noteq> 0" "\<not> unlocked s" using done_flag [OF ok, of i] by (simp_all add: unlocked_def)
  then show "\<not> step3 m s s'" using i assms(2) by (auto simp: deadlocked_def elim: step3.cases)
  show "main_at s \<noteq> Exit" using i(2) by simp
qed



text \<open>A run that deadlocks: two files, both connected at once. Thread 0 counts itself, \<open>main\<close> wakes, takes the
  mutex and joins it; meanwhile thread 1 sets \<open>F_DONE\<close>.\<close>

definition at :: "place \<Rightarrow> tweb \<Rightarrow> tweb" where
  "at p s = s\<lparr>main_at := p\<rparr>"

definition run_up :: tweb where
  "run_up = thread_ask 1 (thread_done 0 Flagged (thread_ask 0 (at Waiting (at Check (launch 1 (launch 0 (tweb_start 2)))))))"

definition run_down :: tweb where
  "run_down = thread_done 1 Flagged (join_done 0 (at (Scan 0) (at Check (count_done 0 run_up))))"

lemmas run_simps = at_def thread_ask_def thread_done_def launch_def count_done_def join_done_def tweb_start_def more_def
  next_file_def unlocked_def upt_rec

lemma run_up_reached: "(step3 2)\<^sup>*\<^sup>* (tweb_start 2) run_up"
proof -
  let ?a = "launch 0 (tweb_start 2)" let ?b = "launch 1 ?a" let ?c = "at Check ?b" let ?d = "at Waiting ?c"
  let ?e = "thread_ask 0 ?d" let ?f = "thread_done 0 Flagged ?e"
  have "step3 2 (tweb_start 2) ?a" by (rule step3.start3) (simp_all add: run_simps)
  moreover have "step3 2 ?a ?b" by (rule step3.start3) (simp_all add: run_simps)
  moreover have "step3 2 ?b ?c" unfolding at_def by (rule step3.lock3) (simp_all add: run_simps)
  moreover have "step3 2 ?c ?d" unfolding at_def [of Waiting] by (rule step3.wait3) (simp_all add: run_simps)
  moreover have "step3 2 ?d ?e" by (rule step3.ask3) (simp_all add: run_simps)
  moreover have "step3 2 ?e ?f" by (rule step3.finish3) (simp_all add: run_simps)
  moreover have "step3 2 ?f run_up" unfolding run_up_def by (rule step3.ask3) (simp_all add: run_simps)
  ultimately show ?thesis by (meson rtranclp.rtrancl_refl rtranclp.rtrancl_into_rtrancl)
qed

lemma run_up_at:
  "main_at run_up = Waiting" "thr run_up = (\<lambda>_. Unborn)(0 := Flagged, 1 := Asked)" "nfiles run_up = 2" "ndone run_up = 0"
  "flags run_up = (\<lambda>_. 0)(0 := F_DONE, 1 := F_READING)" "toread run_up = 2"
  by (auto simp: run_up_def run_simps)

lemma run_down_reached: "(step3 2)\<^sup>*\<^sup>* run_up run_down"
proof -
  let ?a = "count_done 0 run_up" let ?b = "at Check ?a" let ?c = "at (Scan 0) ?b" let ?d = "join_done 0 ?c"
  have "step3 2 run_up ?a" by (rule step3.count3) (simp_all add: run_up_at unlocked_def)
  moreover have "step3 2 ?a ?b" unfolding at_def by (rule step3.wake3) (simp add: count_done_def run_up_at)
  moreover have "step3 2 ?b ?c" unfolding at_def [of "Scan 0"] by (rule step3.scan3) (simp_all add: at_def count_done_def run_up_at)
  moreover have "step3 2 ?c ?d" by (rule step3.join3) (simp_all add: at_def count_done_def run_up_at)
  moreover have "step3 2 ?d run_down" unfolding run_down_def
    by (rule step3.finish3) (simp_all add: at_def count_done_def join_done_def run_up_at)
  ultimately show ?thesis by (meson rtranclp.rtrancl_refl rtranclp.rtrancl_into_rtrancl)
qed

text \<open>
  \<open>web03\<close> can deadlock: with two files and two connections it can reach a state in which one
  file is still to be counted and no step of \<open>main\<close> or of any thread is possible.
\<close>

lemma web03_can_deadlock: "\<exists>s. reach (step3 2) 2 s \<and> 0 < toread s \<and> main_at s \<noteq> Exit \<and> (\<forall>s'. \<not> step3 2 s s')"
proof -
  have r: "reach (step3 2) 2 run_down" unfolding reach_def using run_up_reached run_down_reached by (rule rtranclp_trans)
  have "inv3 2 run_down" using reach3_inv [OF r] by simp
  moreover have "deadlocked run_down"
    by (auto simp: deadlocked_def run_down_def thread_done_def join_done_def at_def count_done_def run_up_at)
  moreover have "toread run_down = 1" by (simp add: run_down_def thread_done_def join_done_def at_def count_done_def run_up_at)
  ultimately show ?thesis using r deadlock_stuck [of 2 run_down] by (intro exI [of _ run_down]) auto
qed

section \<open>\<open>web02\<close> can lose a file\<close>

text \<open>\<open>main\<close> sets \<open>F_CONNECTING\<close> after it has created the thread, which may by then have set \<open>F_DONE\<close>.\<close>

definition lost :: "tweb \<Rightarrow> bool" where
  "lost s \<longleftrightarrow> nfiles s = 1 \<and> flags s 0 = F_CONNECTING \<and> (\<forall>i. thr s i = (if i = 0 then Ended else Unborn))
     \<and> conns s = 1 \<and> toconn s = 0 \<and> toread s = 1 \<and> ndone s = 1 \<and> main_at s \<in> {Top, Check, Scan 0, Scan 1}"

lemma lost_step: "lost s \<Longrightarrow> step2 1 s s' \<Longrightarrow> lost s'"
  by (erule step2.cases) (auto simp: lost_def more_def split: if_splits)

lemma lost_runs: "lost s \<Longrightarrow> \<exists>s'. step2 1 s s'"
proof -
  assume l: "lost s"
  then consider "main_at s = Top" | "main_at s = Check" | "main_at s = Scan 0" | "main_at s = Scan 1" by (auto simp: lost_def)
  then show ?thesis
  proof cases
    case 1
    then show ?thesis using step2.lock2 [of s 1] l by (auto simp: lost_def more_def)
  next
    case 2
    then show ?thesis using step2.scan2 [of s 1] l by (auto simp: lost_def)
  next
    case 3
    then show ?thesis using step2.skip2 [of s 0 1] l by (auto simp: lost_def)
  next
    case 4
    then show ?thesis using step2.unlock2 [of s 1 1] l by (auto simp: lost_def)
  qed
qed

lemma lost_for_ever: "(step2 1)\<^sup>*\<^sup>* s s' \<Longrightarrow> lost s \<Longrightarrow> lost s'"
  by (induction rule: rtranclp_induct) (auto intro: lost_step)

lemma lost_reached: "\<exists>s. reach (step2 1) 1 s \<and> lost s"
proof -
  let ?a = "(tweb_start 1)\<lparr>thr := (thr (tweb_start 1))(0 := Born), main_at := Created 0\<rparr>"
  let ?b = "thread_ask 0 ?a" let ?c = "thread_done 0 Flagged ?b"
  let ?d = "?c\<lparr>thr := (thr ?c)(0 := Ended), ndone := ndone ?c + 1\<rparr>"
  let ?e = "?d\<lparr>flags := (flags ?d)(0 := F_CONNECTING), conns := conns ?d + 1, toconn := toconn ?d - 1, main_at := Top\<rparr>"
  have "step2 1 (tweb_start 1) ?a" by (rule step2.create2) (simp_all add: run_simps)
  moreover have "step2 1 ?a ?b" by (rule step2.ask2) simp_all
  moreover have "step2 1 ?b ?c" by (rule step2.finish2) (simp_all add: thread_ask_def)
  moreover have "step2 1 ?c ?d" by (rule step2.count2) (simp_all add: thread_ask_def thread_done_def unlocked_def)
  moreover have "step2 1 ?d ?e" by (rule step2.flag2) (simp add: thread_ask_def thread_done_def)
  ultimately have "reach (step2 1) 1 ?e" unfolding reach_def by (meson rtranclp.rtrancl_refl rtranclp.rtrancl_into_rtrancl)
  moreover have "lost ?e" by (auto simp: lost_def thread_ask_def thread_done_def tweb_start_def)
  ultimately show ?thesis by blast
qed

text \<open>
  \<open>web02\<close> can lose a file: with a single file it can reach a state from which it never exits
  although the reply has been read and its thread has terminated: whatever happens, it polls for ever.
\<close>

lemma web02_loses_file:
  "\<exists>s. reach (step2 1) 1 s \<and> thr s 0 = Ended \<and> (\<nexists>s'. (step2 1)\<^sup>*\<^sup>* s s' \<and> (main_at s' = Exit \<or> (\<nexists>s''. step2 1 s' s'')))"
proof -
  obtain s where s: "reach (step2 1) 1 s" "lost s" using lost_reached by blast
  have "main_at s' \<noteq> Exit \<and> (\<exists>s''. step2 1 s' s'')" if "(step2 1)\<^sup>*\<^sup>* s s'" for s'
    using lost_for_ever [OF that s(2)] lost_runs [of s'] by (auto simp: lost_def)
  then show ?thesis using s by (intro exI [of _ s]) (auto simp: lost_def)
qed

end
