(* ===== verification/Sntp.thy ===== *)
theory Sntp
  imports CPrelude Complex_Main
begin

unbundle bit_operations_syntax

text \<open>
  \<open>ssntp/sntp_proc.c\<close>: the offset of the host's clock from the time in an NTP packet. \<open>fl\<close> is the rounding
  of \<open>double\<close>, a parameter; that numbers with at most 53 significant bits are exact is a hypothesis. The
  result is the line printed.
\<close>

section \<open>The packet\<close>

definition JAN_1970 :: u32 where "JAN_1970 = 2208988800"
definition VERSION_MASK :: byte where "VERSION_MASK = 0x38"
definition MODE_MASK :: byte where "MODE_MASK = 0x07"

record ntpdata =
  status :: byte
  stratum :: byte
  xmt_int :: u32
  xmt_frac :: u32

text \<open>The fields used; the integers are in network byte order, \<open>xmt\<close> is at offset 40 of 48.\<close>

definition get_ntpdata :: "byte list \<Rightarrow> ntpdata" where
  "get_ntpdata buf = \<lparr>status = buf ! 0, stratum = buf ! 1,
     xmt_int = be32 (take 4 (drop 40 buf)), xmt_frac = be32 (take 4 (drop 44 buf))\<rparr>"

datatype sntp_line = PacketTooSmall nat | FromClient nat nat | ClockDifference nat nat nat int

section \<open>The clock difference\<close>

text \<open>The fraction of a second in microseconds: \<open>usecf = useci; usecf /= 2^32; useci = usecf * 1000000.0\<close>.\<close>

definition frac_usec :: "(real \<Rightarrow> real) \<Rightarrow> u32 \<Rightarrow> u32" where
  "frac_usec fl fraction =
     (let usecf = fl (real_of_int (uint fraction));
          usecf = fl (usecf / 4294967296)
      in word_of_int \<lfloor>fl (usecf * 1000000)\<rfloor>)"

text \<open>A number of type \<open>uint32_t\<close> printed with \<open>%d\<close>.\<close>

definition as_signed :: "u32 \<Rightarrow> int" where
  "as_signed w = sint w"

definition sntp_proc :: "(real \<Rightarrow> real) \<Rightarrow> byte list \<Rightarrow> nat \<Rightarrow> int \<times> int \<Rightarrow> sntp_line" where
  "sntp_proc fl buf n now =
     (if n < 48 then PacketTooSmall n
      else
        let ntp = get_ntpdata buf;
            version = unat (drop_bit 3 (status ntp AND VERSION_MASK));
            mode = unat (status ntp AND MODE_MASK)
        in if mode = 3 then FromClient version (unat (stratum ntp))
           else
             let nsec = xmt_int ntp - JAN_1970;
                 useci = frac_usec fl (xmt_frac ntp);
                 tv_sec = fst now - uint nsec;
                 tv_usec = snd now - uint useci;
                 (tv_sec, tv_usec) = (if tv_usec < 0 then (tv_sec - 1, tv_usec + 1000000) else (tv_sec, tv_usec))
             in ClockDifference version mode (unat (stratum ntp)) (as_signed (word_of_int (tv_sec * 1000000 + tv_usec))))"

section \<open>Correctness\<close>

text \<open>What IEEE 754 promises of \<open>double\<close>: numbers of 53 bits are exact.\<close>

definition exact53 :: "(real \<Rightarrow> real) \<Rightarrow> bool" where
  "exact53 fl \<longleftrightarrow> (\<forall>m::int. \<forall>k\<le>1000. \<bar>m\<bar> < 2 ^ 53 \<longrightarrow> fl (real_of_int m / 2 ^ k) = real_of_int m / 2 ^ k)"

lemma exact53_id: "exact53 (\<lambda>x. x)"
  by (simp add: exact53_def)

text \<open>The product of 32 bits and one million has 52 bits: no rounding happens, and the cast rounds down.\<close>

lemma frac_usec_floor:
  assumes "exact53 fl"
  shows "uint (frac_usec fl f) = uint f * 1000000 div 2 ^ 32" "uint (frac_usec fl f) < 1000000"
proof -
  have f: "0 \<le> uint f" "uint f < 2 ^ 32" using uint_bounded [of f] by simp_all
  have ex: "fl (real_of_int m / 2 ^ k) = real_of_int m / 2 ^ k" if "\<bar>m\<bar> < 2 ^ 53" "k \<le> 1000" for m k
    using assms that by (simp add: exact53_def)
  have one: "fl (real_of_int (uint f)) = real_of_int (uint f)" using ex [of "uint f" 0] f by simp
  have two: "fl (real_of_int (uint f) / 4294967296) = real_of_int (uint f) / 4294967296" using ex [of "uint f" 32] f by simp
  have "real_of_int (uint f) / 4294967296 * 1000000 = real_of_int (uint f * 1000000) / 2 ^ 32" by simp
  moreover have "fl (real_of_int (uint f * 1000000) / 2 ^ 32) = real_of_int (uint f * 1000000) / 2 ^ 32"
    by (rule ex) (use f in simp_all)
  ultimately have "fl (real_of_int (uint f) / 4294967296 * 1000000) = real_of_int (uint f * 1000000) / 2 ^ 32" by metis
  also have "\<dots> = real_of_int (uint f * 1000000) / real_of_int (2 ^ 32)" by simp
  finally have "\<lfloor>fl (real_of_int (uint f) / 4294967296 * 1000000)\<rfloor> = \<lfloor>real_of_int (uint f * 1000000) / real_of_int (2 ^ 32)\<rfloor>"
    by (rule arg_cong)
  also have "\<dots> = uint f * 1000000 div 2 ^ 32" by (rule floor_divide_of_int_eq)
  finally have e: "frac_usec fl f = word_of_int (uint f * 1000000 div 2 ^ 32)"
    unfolding frac_usec_def Let_def one two by (rule arg_cong)
  have b: "0 \<le> uint f * 1000000 div 2 ^ 32" "uint f * 1000000 div 2 ^ 32 < 1000000" using f by (simp_all add: pos_imp_zdiv_nonneg_iff)
  have r: "uint (frac_usec fl f) = uint f * 1000000 div 2 ^ 32"
    unfolding e using b by (simp add: uint_word_of_int)
  show "uint (frac_usec fl f) = uint f * 1000000 div 2 ^ 32" by (rule r)
  show "uint (frac_usec fl f) < 1000000" unfolding r by (rule b(2))
qed

lemma uint_sub_1970:
  assumes "0 \<le> s" "s < 2 ^ 32" "w = word_of_int (s + 2208988800)"
  shows "uint (w - JAN_1970) = s"
proof -
  have "w - JAN_1970 = word_of_int s" unfolding assms(3) JAN_1970_def by simp
  then show ?thesis using assms(1,2) by (simp add: uint_word_of_int)
qed

lemma as_signed_take_bit: "as_signed (word_of_int x) = signed_take_bit 31 x"
  unfolding as_signed_def by transfer (simp add: signed_take_bit_take_bit)

lemma as_signed_small: "- (2 ^ 31) \<le> x \<Longrightarrow> x < 2 ^ 31 \<Longrightarrow> as_signed (word_of_int x) = x"
  by (simp add: as_signed_take_bit signed_take_bit_int_eq_self)

lemma as_signed_mod: "as_signed (word_of_int x) mod 2 ^ 32 = x mod 2 ^ 32"
proof -
  have "take_bit 32 (signed_take_bit 31 x) = take_bit 32 x" by (rule take_bit_signed_take_bit) simp
  then show ?thesis unfolding as_signed_take_bit take_bit_eq_mod by simp
qed

lemma as_signed_range: "- (2 ^ 31) \<le> as_signed w" "as_signed w < 2 ^ 31"
  using sint_ge [of w] sint_lt [of w] by (simp_all add: as_signed_def)

text \<open>
  C28 The clock difference printed is right: for a packet of at least 48 bytes whose transmit time is
  \<open>s\<close> seconds and \<open>us\<close> microseconds of Unix time (\<open>s < 2 ^ 32\<close>, so also after the NTP seconds wrap in 2036)
  and that is not a client's, the line shows the host's time minus that time in microseconds, whenever
  this fits an \<open>int\<close>. Otherwise it shows it modulo \<open>2 ^ 32\<close>.
\<close>

theorem sntp_difference:
  assumes "exact53 fl" "48 \<le> n" "status (get_ntpdata buf) AND MODE_MASK \<noteq> 3"
    and "0 \<le> s" "s < 2 ^ 32" "xmt_int (get_ntpdata buf) = word_of_int (s + 2208988800)"
    and "us = uint (xmt_frac (get_ntpdata buf)) * 1000000 div 2 ^ 32" "0 \<le> snd now" "snd now < 1000000"
  shows "let d = (fst now * 1000000 + snd now) - (s * 1000000 + us)
    in \<exists>v m st d'. sntp_proc fl buf n now = ClockDifference v m st d' \<and> d' mod 2 ^ 32 = d mod 2 ^ 32
      \<and> (if - (2 ^ 31) \<le> d \<and> d < 2 ^ 31 then d' = d else - (2 ^ 31) \<le> d' \<and> d' < 2 ^ 31)"
proof -
  let ?d = "(fst now * 1000000 + snd now) - (s * 1000000 + us)"
  have mode: "unat (status (get_ntpdata buf) AND MODE_MASK) \<noteq> 3"
  proof
    assume "unat (status (get_ntpdata buf) AND MODE_MASK) = 3"
    then have "status (get_ntpdata buf) AND MODE_MASK = 3" by (simp add: word_unat_eq_iff)
    then show False using assms(3) by simp
  qed
  have us: "uint (frac_usec fl (xmt_frac (get_ntpdata buf))) = us" using frac_usec_floor(1) [OF assms(1)] assms(7) by simp
  have nsec: "uint (xmt_int (get_ntpdata buf) - JAN_1970) = s" by (rule uint_sub_1970 [OF assms(4-6)])
  have out: "\<exists>v m st. sntp_proc fl buf n now = ClockDifference v m st (as_signed (word_of_int ?d))"
    using assms(2) mode unfolding sntp_proc_def Let_def us nsec by (auto simp: algebra_simps)
  have "as_signed (word_of_int ?d) mod 2 ^ 32 = ?d mod 2 ^ 32" by (rule as_signed_mod)
  moreover have "- (2 ^ 31) \<le> as_signed (word_of_int ?d)" "as_signed (word_of_int ?d) < 2 ^ 31" by (rule as_signed_range)+
  ultimately show ?thesis using out as_signed_small [of ?d] unfolding Let_def by auto
qed

definition sample_reply :: "byte list" where
  "sample_reply = [0x24, 2] @ replicate 38 0 @ [0xeb, 0x1f, 0x4, 0x0, 0x80, 0, 0, 0]"

theorem sntp_difference_witness:
  "\<exists>v m st. sntp_proc (\<lambda>x. x) sample_reply 48 (1735689601, 250000) = ClockDifference v m st 750000"
proof -
  have x: "xmt_int (get_ntpdata sample_reply) = word_of_int (1735689600 + 2208988800)"
    by code_simp
  have y: "500000 = uint (xmt_frac (get_ntpdata sample_reply)) * 1000000 div 2 ^ 32" by code_simp
  have m: "status (get_ntpdata sample_reply) AND MODE_MASK \<noteq> 3" by code_simp
  show ?thesis using sntp_difference [OF exact53_id _ m _ _ x y, where n = 48 and now = "(1735689601, 250000)"] by auto
qed

end
