(* ===== verification/Thread_Pool.thy ===== *)
theory Thread_Pool
  imports CPrelude "HOL-Library.Multiset"
begin

text \<open>
  \<open>server/serv08.c\<close> and \<open>server/pthread08.c\<close>: \<open>main\<close> accepts connections and puts them into the array
  \<open>clifd\<close>, from which the threads of a pool take them; and \<open>server/web_child.c\<close>, what a thread does with a
  connection. The array is a ring; the locale \<open>fifo\<close> states what the server needs of it. The server is a
  step relation over the interleavings of \<open>main\<close> and the threads. A critical section is one step, but a
  thread that finds the ring empty waits on the condition variable, and is woken by a signal or for no reason.
\<close>

section \<open>\<open>web_child\<close>\<close>

abbreviation (input) MAXN :: int where "MAXN \<equiv> 16384"

text \<open>\<open>ntowrite = atol(line)\<close>: the \<open>long\<close>, which saturates, is truncated to an \<open>int\<close>.\<close>

definition ntowrite :: "string \<Rightarrow> int" where
  "ntowrite line = signed_take_bit 31 (max (- (2 ^ 63)) (min (2 ^ 63 - 1) (atoi line)))"

text \<open>The lines of the client until it closes; the result is the sizes of the replies written.\<close>

fun web_child :: "string list \<Rightarrow> int list \<Rightarrow> int list outcome" where
  "web_child [] w = Ret w"
| "web_child (line # rest) w =
     (if ntowrite line \<le> 0 \<or> MAXN < ntowrite line then Die w
      else web_child rest (w @ [ntowrite line]))"

lemma web_child_result: "web_child ls w = (if \<forall>l\<in>set ls. 0 < ntowrite l \<and> ntowrite l \<le> MAXN
    then Ret (w @ map ntowrite ls) else Die (w @ map ntowrite (takeWhile (\<lambda>l. 0 < ntowrite l \<and> ntowrite l \<le> MAXN) ls)))"
  by (induction ls w rule: web_child.induct) auto

section \<open>A queue\<close>

locale fifo =
  fixes ok :: "'q \<Rightarrow> bool" and items :: "'q \<Rightarrow> 'a list" and room :: nat
    and put :: "'a \<Rightarrow> 'q \<Rightarrow> 'q option" and get :: "'q \<Rightarrow> ('a \<times> 'q) option"
  assumes put_items: "ok q \<Longrightarrow> put x q = Some q' \<Longrightarrow> ok q' \<and> items q' = items q @ [x]"
    and put_full: "ok q \<Longrightarrow> put x q = None \<longleftrightarrow> length (items q) = room"
    and get_items: "ok q \<Longrightarrow> get q = Some (x, q') \<Longrightarrow> ok q' \<and> items q = x # items q'"
    and get_empty: "ok q \<Longrightarrow> get q = None \<longleftrightarrow> items q = []"
begin

text \<open>What came in is what went out and what is still inside, in this order.\<close>

lemma put_order: "ok q \<Longrightarrow> put x q = Some q' \<Longrightarrow> ins = outs @ items q \<Longrightarrow> ins @ [x] = outs @ items q'"
  using put_items [of q x q'] by simp

lemma get_order: "ok q \<Longrightarrow> get q = Some (x, q') \<Longrightarrow> ins = outs @ items q \<Longrightarrow> ins = (outs @ [x]) @ items q'"
  using get_items [of q x q'] by simp

lemma put_bound: "ok q \<Longrightarrow> length (items q) \<le> room \<Longrightarrow> put x q = Some q' \<Longrightarrow> length (items q') \<le> room"
  using put_items [of q x q'] put_full [of q x] by (cases "length (items q) = room") auto

lemma get_bound: "ok q \<Longrightarrow> length (items q) \<le> room \<Longrightarrow> get q = Some (x, q') \<Longrightarrow> length (items q') \<le> room"
  using get_items [of q x q'] by auto

end

section \<open>The ring\<close>

abbreviation (input) MAXNCLI :: nat where "MAXNCLI \<equiv> 32"

record ring =
  clifd :: "int list"
  iget :: nat
  iput :: nat

definition ring_start :: ring where
  "ring_start = \<lparr>clifd = replicate MAXNCLI 0, iget = 0, iput = 0\<rparr>"

text \<open>\<open>if (++i == MAXNCLI) i = 0\<close>\<close>

definition advance :: "nat \<Rightarrow> nat" where
  "advance i = (if i + 1 = MAXNCLI then 0 else i + 1)"

text \<open>\<open>None\<close> is \<open>err_quit\<close>.\<close>

definition ring_put :: "int \<Rightarrow> ring \<Rightarrow> ring option" where
  "ring_put fd r =
     (let r = r\<lparr>clifd := (clifd r)[iput r := fd], iput := advance (iput r)\<rparr>
      in if iput r = iget r then None else Some r)"

text \<open>\<open>None\<close> is the test \<open>iget == iput\<close> of the waiting loop.\<close>

definition ring_get :: "ring \<Rightarrow> (int \<times> ring) option" where
  "ring_get r = (if iget r = iput r then None else Some (clifd r ! iget r, r\<lparr>iget := advance (iget r)\<rparr>))"

definition ring_ok :: "ring \<Rightarrow> bool" where
  "ring_ok r \<longleftrightarrow> length (clifd r) = MAXNCLI \<and> iget r < MAXNCLI \<and> iput r < MAXNCLI"

definition ring_len :: "ring \<Rightarrow> nat" where
  "ring_len r = (iput r + MAXNCLI - iget r) mod MAXNCLI"

definition ring_items :: "ring \<Rightarrow> int list" where
  "ring_items r = map (\<lambda>k. clifd r ! ((iget r + k) mod MAXNCLI)) [0..<ring_len r]"

lemma length_ring_items [simp]: "length (ring_items r) = ring_len r"
  by (simp add: ring_items_def)

lemma advance_mod: "i < MAXNCLI \<Longrightarrow> advance i = (i + 1) mod MAXNCLI \<and> advance i < MAXNCLI"
  by (auto simp: advance_def mod_if)

lemma mod32: "(n :: nat) < 64 \<Longrightarrow> n mod 32 = (if n < 32 then n else n - 32)"
  by (simp add: mod_if)

lemma ring_len_cases: "ring_ok r \<Longrightarrow> ring_len r = (if iget r \<le> iput r then iput r - iget r else iput r + 32 - iget r)"
  by (auto simp: ring_ok_def ring_len_def mod32)

lemma ring_len_empty: "ring_ok r \<Longrightarrow> ring_len r = 0 \<longleftrightarrow> iget r = iput r"
  by (auto simp: ring_len_cases) (auto simp: ring_ok_def)

lemma ring_len_put: "ring_ok r \<Longrightarrow> advance (iput r) = iget r \<longleftrightarrow> ring_len r = 31"
  by (auto simp: ring_len_cases advance_def) (auto simp: ring_ok_def split: if_splits)

lemma ring_put_items:
  assumes "ring_ok r" "ring_put fd r = Some r'"
  shows "ring_ok r' \<and> ring_items r' = ring_items r @ [fd]"
proof -
  have r': "r' = r\<lparr>clifd := (clifd r)[iput r := fd], iput := advance (iput r)\<rparr>" and ne: "advance (iput r) \<noteq> iget r"
    using assms(2) by (auto simp: ring_put_def Let_def split: if_splits)
  have b: "length (clifd r) = 32" "iget r < 32" "iput r < 32" using assms(1) by (simp_all add: ring_ok_def)
  have ok': "ring_ok r'" using b advance_mod [of "iput r"] by (simp add: ring_ok_def r')
  have l: "ring_len r = (if iget r \<le> iput r then iput r - iget r else iput r + 32 - iget r)"
    by (rule ring_len_cases [OF assms(1)])
  have len: "ring_len r' = Suc (ring_len r)" "ring_len r < 32"
    using b ne unfolding ring_len_cases [OF ok'] l by (auto simp: r' advance_def split: if_splits)
  have last: "(iget r + ring_len r) mod 32 = iput r" using b l by (auto simp: mod32)
  have other: "(iget r + k) mod 32 \<noteq> iput r" if "k < ring_len r" for k
    using that b l by (auto simp: mod32 split: if_splits)
  have "map (\<lambda>k. (clifd r)[iput r := fd] ! ((iget r + k) mod 32)) [0..<ring_len r] = ring_items r"
    unfolding ring_items_def by (rule map_cong [OF refl]) (use not_sym [OF other] in auto)
  moreover have "iget r' = iget r" "clifd r' = (clifd r)[iput r := fd]" by (simp_all add: r')
  ultimately have "ring_items r' = ring_items r @ [fd]"
    unfolding ring_items_def [of r'] len(1) using b last by simp
  then show ?thesis using ok' by simp
qed

lemma ring_get_items:
  assumes "ring_ok r" "ring_get r = Some (fd, r')"
  shows "ring_ok r' \<and> ring_items r = fd # ring_items r'"
proof -
  have r': "r' = r\<lparr>iget := advance (iget r)\<rparr>" "fd = clifd r ! iget r" and ne: "iget r \<noteq> iput r"
    using assms(2) by (auto simp: ring_get_def split: if_splits)
  have b: "length (clifd r) = 32" "iget r < 32" "iput r < 32" using assms(1) by (simp_all add: ring_ok_def)
  have ok': "ring_ok r'" using b advance_mod [of "iget r"] by (simp add: ring_ok_def r')
  have len: "ring_len r = Suc (ring_len r')"
    using b ne unfolding ring_len_cases [OF ok'] ring_len_cases [OF assms(1)] by (auto simp: r' advance_def split: if_splits)
  have adv: "(advance (iget r) + k) mod 32 = (iget r + Suc k) mod 32" for k
    unfolding conjunct1 [OF advance_mod [OF b(2)]] mod_add_left_eq by simp
  have "[0..<ring_len r] = 0 # map Suc [0..<ring_len r']" unfolding len by (simp add: map_Suc_upt upt_conv_Cons del: upt_Suc)
  then have "ring_items r = fd # ring_items r'"
    unfolding ring_items_def using b r' by (simp add: comp_def adv del: upt_Suc)
  then show ?thesis using ok' by simp
qed

interpretation clifd_queue: fifo ring_ok ring_items 31 ring_put ring_get
proof unfold_locales
  fix q x
  assume "ring_ok q"
  then show "ring_put x q = None \<longleftrightarrow> length (ring_items q) = 31"
    using ring_len_put [of q] by (simp add: ring_put_def Let_def)
next
  fix q
  assume "ring_ok q"
  then show "ring_get q = None \<longleftrightarrow> ring_items q = []"
    using ring_len_empty [of q] by (simp add: ring_get_def flip: length_0_conv)
qed (rule ring_put_items ring_get_items; assumption)+

section \<open>The server\<close>

text \<open>A thread: before \<open>pthread_mutex_lock\<close>, in \<open>pthread_cond_wait\<close>, serving a connection.\<close>

datatype worker = Locking | Waiting | Serving int

text \<open>\<open>main\<close>: in \<open>accept\<close>, holding a connection it has accepted, and the two ways the process ends.\<close>

datatype acceptor = Accepting | Storing int | Full int | BadRequest

record pool =
  nthreads :: nat
  ring :: ring
  worker :: "nat \<Rightarrow> worker"
  thread_count :: "nat \<Rightarrow> nat"
  acceptor :: acceptor
  accepted :: "int list"           \<comment> \<open>the connections, in the order of \<open>accept\<close>\<close>
  taken :: "(nat \<times> int) list"      \<comment> \<open>which thread took which\<close>
  finished :: "int list"           \<comment> \<open>closed after \<open>web_child\<close>\<close>

definition pool_start :: "nat \<Rightarrow> pool" where
  "pool_start n = \<lparr>nthreads = n, ring = ring_start, worker = (\<lambda>_. Locking), thread_count = (\<lambda>_. 0),
     acceptor = Accepting, accepted = [], taken = [], finished = []\<rparr>"

definition accept :: "int \<Rightarrow> pool \<Rightarrow> pool" where
  "accept fd s = s\<lparr>acceptor := Storing fd, accepted := accepted s @ [fd]\<rparr>"

text \<open>The critical section of \<open>main\<close>; the signal wakes a waiting thread, if there is one.\<close>

definition store :: "int \<Rightarrow> ring \<Rightarrow> nat option \<Rightarrow> pool \<Rightarrow> pool" where
  "store fd r wake s = s\<lparr>acceptor := Accepting, ring := r,
     worker := (case wake of None \<Rightarrow> worker s | Some j \<Rightarrow> (worker s)(j := Locking))\<rparr>"

text \<open>The critical section of a thread that finds the ring not empty.\<close>

definition take_conn :: "nat \<Rightarrow> int \<Rightarrow> ring \<Rightarrow> pool \<Rightarrow> pool" where
  "take_conn i fd r s = s\<lparr>ring := r, worker := (worker s)(i := Serving fd),
     thread_count := (thread_count s)(i := thread_count s i + 1), taken := taken s @ [(i, fd)]\<rparr>"

definition set_worker :: "nat \<Rightarrow> worker \<Rightarrow> pool \<Rightarrow> pool" where
  "set_worker i w s = s\<lparr>worker := (worker s)(i := w)\<rparr>"

definition running :: "pool \<Rightarrow> bool" where
  "running s \<longleftrightarrow> (case acceptor s of Accepting \<Rightarrow> True | Storing _ \<Rightarrow> True | _ \<Rightarrow> False)"

definition waiter :: "nat option \<Rightarrow> pool \<Rightarrow> bool" where
  "waiter wake s \<longleftrightarrow> (case wake of None \<Rightarrow> \<forall>i<nthreads s. worker s i \<noteq> Waiting | Some j \<Rightarrow> j < nthreads s \<and> worker s j = Waiting)"

inductive pool_step :: "pool \<Rightarrow> pool \<Rightarrow> bool" where
  accepts: "acceptor s = Accepting \<Longrightarrow> pool_step s (accept fd s)"
| stores: "acceptor s = Storing fd \<Longrightarrow> ring_put fd (ring s) = Some r \<Longrightarrow> waiter wake s \<Longrightarrow> pool_step s (store fd r wake s)"
| full: "acceptor s = Storing fd \<Longrightarrow> ring_put fd (ring s) = None \<Longrightarrow> pool_step s (s\<lparr>acceptor := Full fd\<rparr>)"
| takes: "running s \<Longrightarrow> i < nthreads s \<Longrightarrow> worker s i = Locking \<Longrightarrow> ring_get (ring s) = Some (fd, r) \<Longrightarrow>
    pool_step s (take_conn i fd r s)"
| waits: "running s \<Longrightarrow> i < nthreads s \<Longrightarrow> worker s i = Locking \<Longrightarrow> ring_get (ring s) = None \<Longrightarrow> pool_step s (set_worker i Waiting s)"
| wakes: "running s \<Longrightarrow> i < nthreads s \<Longrightarrow> worker s i = Waiting \<Longrightarrow> pool_step s (set_worker i Locking s)"
| serves: "running s \<Longrightarrow> i < nthreads s \<Longrightarrow> worker s i = Serving fd \<Longrightarrow> web_child requests [] = Ret replies \<Longrightarrow>
    pool_step s (set_worker i Locking s\<lparr>finished := finished s @ [fd]\<rparr>)"
| bad_request: "running s \<Longrightarrow> i < nthreads s \<Longrightarrow> worker s i = Serving fd \<Longrightarrow> web_child requests [] = Die replies \<Longrightarrow>
    pool_step s (s\<lparr>acceptor := BadRequest\<rparr>)"

abbreviation pool_reach :: "nat \<Rightarrow> pool \<Rightarrow> bool" where
  "pool_reach n s \<equiv> pool_step\<^sup>*\<^sup>* (pool_start n) s"

section \<open>The invariant\<close>

definition pending :: "pool \<Rightarrow> int list" where
  "pending s = (case acceptor s of Storing fd \<Rightarrow> [fd] | Full fd \<Rightarrow> [fd] | _ \<Rightarrow> [])"

definition n_workers :: "worker \<Rightarrow> pool \<Rightarrow> nat" where
  "n_workers w s = card {i. i < nthreads s \<and> worker s i = w}"

definition serving :: "pool \<Rightarrow> int list" where
  "serving s = concat (map (\<lambda>i. case worker s i of Serving fd \<Rightarrow> [fd] | _ \<Rightarrow> []) [0..<nthreads s])"

text \<open>No wake-up is lost: while a thread waits, each connection in the ring has a thread that is on its way to the lock.\<close>

definition awake :: "pool \<Rightarrow> bool" where
  "awake s \<longleftrightarrow> (\<exists>i<nthreads s. worker s i = Waiting) \<longrightarrow> length (ring_items (ring s)) \<le> n_workers Locking s"

definition pool_ok :: "pool \<Rightarrow> bool" where
  "pool_ok s \<longleftrightarrow> ring_ok (ring s) \<and> length (ring_items (ring s)) \<le> 31
     \<and> (acceptor s \<noteq> BadRequest \<longrightarrow> accepted s = (map snd (taken s) @ ring_items (ring s)) @ pending s)
     \<and> (\<forall>i. thread_count s i = length (filter (\<lambda>p. fst p = i) (taken s)))
     \<and> mset (map snd (taken s)) = mset (finished s) + mset (serving s)
     \<and> (\<forall>fd. acceptor s = Full fd \<longrightarrow> length (ring_items (ring s)) = 31)
     \<and> awake s"

lemma worker_upd:
  assumes "i < nthreads s" "nthreads s' = nthreads s" "worker s' = (worker s)(i := w)"
  shows "n_workers u s' + (if worker s i = u then 1 else 0) = n_workers u s + (if w = u then 1 else 0)"
    and "mset (serving s') + mset (case worker s i of Serving fd \<Rightarrow> [fd] | _ \<Rightarrow> []) = mset (serving s) + mset (case w of Serving fd \<Rightarrow> [fd] | _ \<Rightarrow> [])"
proof -
  define A where "A = {j. j < nthreads s \<and> worker s j = u} - {i}"
  have fin: "finite A" "i \<notin> A" by (simp_all add: A_def)
  have o: "{j. j < nthreads s \<and> worker s j = u} = (if worker s i = u then insert i A else A)" using assms(1) by (auto simp: A_def)
  have n: "{j. j < nthreads s' \<and> worker s' j = u} = (if w = u then insert i A else A)" using assms by (auto simp: A_def)
  show "n_workers u s' + (if worker s i = u then 1 else 0) = n_workers u s + (if w = u then 1 else 0)"
    unfolding n_workers_def n o using fin by simp
  define f where "f v = (case v of Serving fd \<Rightarrow> [fd] | _ \<Rightarrow> [])" for v
  have split: "[0..<nthreads s] = [0..<i] @ i # [Suc i..<nthreads s]"
    using assms(1) by (metis le_add_diff_inverse less_imp_le_nat upt_add_eq_append upt_conv_Cons le0)
  have same: "map (\<lambda>j. f (worker s' j)) [0..<i] = map (\<lambda>j. f (worker s j)) [0..<i]"
    "map (\<lambda>j. f (worker s' j)) [Suc i..<nthreads s] = map (\<lambda>j. f (worker s j)) [Suc i..<nthreads s]"
    using assms(3) by simp_all
  have at: "worker s' i = w" using assms(3) by simp
  have serving: "serving t = concat (map (\<lambda>j. f (worker t j)) [0..<nthreads t])" for t by (simp add: serving_def f_def)
  have "mset (serving s') + mset (f (worker s i)) = mset (serving s) + mset (f w)"
    unfolding serving assms(2) split map_append list.map same at by (simp only: concat_append concat.simps mset_append ac_simps)
  then show "mset (serving s') + mset (case worker s i of Serving fd \<Rightarrow> [fd] | _ \<Rightarrow> []) = mset (serving s) + mset (case w of Serving fd \<Rightarrow> [fd] | _ \<Rightarrow> [])"
    by (simp only: f_def)
qed

lemma n_workers_pos: "i < nthreads s \<Longrightarrow> worker s i = w \<Longrightarrow> 0 < n_workers w s"
  unfolding n_workers_def card_gt_0_iff by auto

lemmas pool_defs = pool_ok_def awake_def pending_def running_def waiter_def

lemma ok_accept: "pool_ok s \<Longrightarrow> acceptor s = Accepting \<Longrightarrow> pool_ok (accept fd s)"
  by (simp add: pool_defs accept_def n_workers_def serving_def)

lemma ok_full:
  assumes "pool_ok s" "acceptor s = Storing fd" "ring_put fd (ring s) = None"
  shows "pool_ok (s\<lparr>acceptor := Full fd\<rparr>)"
proof -
  have "length (ring_items (ring s)) = 31" using clifd_queue.put_full [of "ring s" fd] assms(1,3) by (simp add: pool_ok_def)
  then show ?thesis using assms(1,2) by (simp add: pool_defs n_workers_def serving_def)
qed

lemma ok_bad: "pool_ok s \<Longrightarrow> pool_ok (s\<lparr>acceptor := BadRequest\<rparr>)"
  by (simp add: pool_defs n_workers_def serving_def)

lemma ok_store:
  assumes ok: "pool_ok s" and s: "acceptor s = Storing fd" "ring_put fd (ring s) = Some r" "waiter wake s"
  shows "pool_ok (store fd r wake s)"
proof -
  have ring: "ring_ok (ring s)" "length (ring_items (ring s)) \<le> 31" using ok by (simp_all add: pool_ok_def)
  have r: "ring_ok r" "ring_items r = ring_items (ring s) @ [fd]" "length (ring_items r) \<le> 31"
    using clifd_queue.put_items [OF ring(1) s(2)] clifd_queue.put_bound [OF ring s(2)] by simp_all
  have a: "awake (store fd r wake s) \<and> mset (serving (store fd r wake s)) = mset (serving s)"
  proof (cases wake)
    case None
    then show ?thesis using s(3) by (auto simp: waiter_def awake_def store_def serving_def)
  next
    case (Some j)
    then have j: "j < nthreads s" "worker s j = Waiting" using s(3) by (simp_all add: waiter_def)
    have u: "nthreads (store fd r wake s) = nthreads s" "worker (store fd r wake s) = (worker s)(j := Locking)"
      using Some by (simp_all add: store_def)
    have "length (ring_items (ring s)) \<le> n_workers Locking s" using ok j by (auto simp: pool_ok_def awake_def)
    moreover have "n_workers Locking (store fd r wake s) = n_workers Locking s + 1"
      using worker_upd(1) [OF j(1) u, of Locking] j(2) by simp
    ultimately have "awake (store fd r wake s)" using r(2) by (simp add: awake_def store_def)
    then show ?thesis using worker_upd(2) [OF j(1) u] j(2) by simp
  qed
  show ?thesis using ok s(1) r a unfolding pool_ok_def pending_def by (simp add: store_def)
qed

lemma ok_take:
  assumes ok: "pool_ok s" and run: "running s" and i: "i < nthreads s" "worker s i = Locking" and g: "ring_get (ring s) = Some (fd, r)"
  shows "pool_ok (take_conn i fd r s)"
proof -
  have ring: "ring_ok (ring s)" "length (ring_items (ring s)) \<le> 31" using ok by (simp_all add: pool_ok_def)
  have r: "ring_ok r" "ring_items (ring s) = fd # ring_items r"
    using clifd_queue.get_items [OF ring(1) g] by simp_all
  have u: "nthreads (take_conn i fd r s) = nthreads s" "worker (take_conn i fd r s) = (worker s)(i := Serving fd)"
    by (simp_all add: take_conn_def)
  have n: "n_workers Locking (take_conn i fd r s) + 1 = n_workers Locking s" using worker_upd(1) [OF i(1) u, of Locking] i(2) by simp
  have v: "mset (serving (take_conn i fd r s)) = mset (serving s) + {#fd#}" using worker_upd(2) [OF i(1) u] i(2) by simp
  have aw: "awake (take_conn i fd r s)"
  proof -
    have "\<exists>j<nthreads s. worker s j = Waiting" if "\<exists>j<nthreads s. worker (take_conn i fd r s) j = Waiting"
      using that unfolding u(2) by (auto split: if_splits)
    moreover have "awake s" using ok by (simp add: pool_ok_def)
    ultimately show ?thesis using n r(2) unfolding awake_def u(1) by (auto simp: take_conn_def)
  qed
  have p: "pending (take_conn i fd r s) = pending s" by (simp add: pending_def take_conn_def)
  have "accepted s = (map snd (taken s) @ [fd]) @ ring_items r @ pending s" if "acceptor s \<noteq> BadRequest"
    using ok that r(2) by (simp add: pool_ok_def)
  moreover have "acceptor s \<noteq> Full x" for x using run by (auto simp: running_def)
  moreover have "mset (map snd (taken s)) = mset (finished s) + mset (serving s)" using ok by (simp add: pool_ok_def)
  moreover have "\<forall>k. thread_count s k = length (filter (\<lambda>p. fst p = k) (taken s))" using ok by (simp add: pool_ok_def)
  moreover have "length (ring_items r) \<le> 31" using ring(2) r(2) by simp
  ultimately show ?thesis using r(1) v aw unfolding pool_ok_def p by (simp add: take_conn_def)
qed

lemma ok_set:
  assumes ok: "pool_ok s" and i: "i < nthreads s"
    and fin: "(case worker s i of Serving fd \<Rightarrow> [fd] | _ \<Rightarrow> []) = fds" "(case w of Serving fd \<Rightarrow> [fd] | _ \<Rightarrow> []) = []"
    and aw: "awake (set_worker i w s)"
  shows "pool_ok (set_worker i w s\<lparr>finished := finished s @ fds\<rparr>)"
proof -
  have u: "nthreads (set_worker i w s) = nthreads s" "worker (set_worker i w s) = (worker s)(i := w)"
    by (simp_all add: set_worker_def)
  have "mset (serving (set_worker i w s)) + mset fds = mset (serving s)" using worker_upd(2) [OF i u] fin by simp
  moreover have "serving (set_worker i w s\<lparr>finished := finished s @ fds\<rparr>) = serving (set_worker i w s)" by (simp add: serving_def)
  moreover have "awake (set_worker i w s\<lparr>finished := finished s @ fds\<rparr>)" using aw by (simp add: awake_def n_workers_def)
  ultimately show ?thesis using ok by (simp add: pool_ok_def pending_def set_worker_def ac_simps)
qed

lemma awake_set:
  assumes "awake s" "i < nthreads s" "w \<noteq> Waiting" "w = Locking \<or> worker s i \<noteq> Locking"
  shows "awake (set_worker i w s)"
proof -
  have u: "nthreads (set_worker i w s) = nthreads s" "worker (set_worker i w s) = (worker s)(i := w)"
    by (simp_all add: set_worker_def)
  have "n_workers Locking s \<le> n_workers Locking (set_worker i w s)"
    using worker_upd(1) [OF assms(2) u, of Locking] assms(4) by (auto split: if_splits)
  moreover have "\<exists>j<nthreads s. worker s j = Waiting" if "\<exists>j<nthreads s. worker (set_worker i w s) j = Waiting"
    using that assms(3) unfolding u(2) by (auto split: if_splits)
  moreover have "ring (set_worker i w s) = ring s" by (simp add: set_worker_def)
  ultimately show ?thesis using assms(1) unfolding awake_def u(1) by (metis le_trans)
qed

lemma pool_step_ok:
  assumes "pool_step s t" "pool_ok s"
  shows "pool_ok t \<and> nthreads t = nthreads s"
  using assms
proof (cases rule: pool_step.cases)
  case (accepts fd)
  then show ?thesis using ok_accept assms(2) by (simp add: accept_def)
next
  case (stores fd r wake)
  then show ?thesis using ok_store assms(2) by (simp add: store_def)
next
  case (full fd)
  then show ?thesis using ok_full assms(2) by simp
next
  case (takes i fd r)
  then show ?thesis using ok_take assms(2) by (simp add: take_conn_def)
next
  case (waits i)
  have "ring_items (ring s) = []" using clifd_queue.get_empty [of "ring s"] assms(2) waits by (simp add: pool_ok_def)
  then have "awake (set_worker i Waiting s)" by (simp add: awake_def set_worker_def)
  then show ?thesis using ok_set [OF assms(2), of i "[]" Waiting] waits by (simp add: set_worker_def)
next
  case (wakes i)
  have "awake (set_worker i Locking s)" using awake_set assms(2) wakes by (simp add: pool_ok_def)
  then show ?thesis using ok_set [OF assms(2), of i "[]" Locking] wakes by (simp add: set_worker_def)
next
  case (serves i fd requests replies)
  have "awake (set_worker i Locking s)" using awake_set assms(2) serves by (simp add: pool_ok_def)
  then show ?thesis using ok_set [OF assms(2), of i "[fd]" Locking] serves by (simp add: set_worker_def)
next
  case (bad_request i fd requests replies)
  then show ?thesis using ok_bad assms(2) by simp
qed

lemma pool_start_ok: "pool_ok (pool_start n)"
proof -
  have "ring_items ring_start = []" by (simp add: ring_items_def ring_start_def ring_len_def)
  moreover have "concat (map (\<lambda>i. case Locking of Serving fd \<Rightarrow> [fd] | _ \<Rightarrow> []) [0..<n]) = ([] :: int list)" by simp
  ultimately show ?thesis
    unfolding pool_ok_def awake_def pending_def serving_def pool_start_def by (simp add: ring_ok_def ring_start_def)
qed

lemma pool_reach_ok: "pool_reach n s \<Longrightarrow> pool_ok s \<and> nthreads s = n"
proof (induction rule: rtranclp_induct)
  case base
  then show ?case using pool_start_ok by (simp add: pool_start_def)
next
  case (step s t)
  then show ?case using pool_step_ok [OF step.hyps(2)] by simp
qed

section \<open>What the server promises\<close>

text \<open>
  C8 The pool of \<open>serv08\<close>: in every reachable state the connections were taken by the threads in the
  order in which \<open>main\<close> accepted them, and those not taken yet are in the ring, in this order; every connection taken
  is being served by one thread or was served and closed, once; the counter of a thread is the number of connections it
  took; and no wake-up is lost: while a thread waits on the condition variable, every connection in the ring has a thread
  of its own that is about to take one.
\<close>

theorem serv08_fifo:
  assumes "pool_reach n s"
  shows "(running s \<longrightarrow> accepted s = map snd (taken s) @ ring_items (ring s) @ pending s)
    \<and> mset (map snd (taken s)) = mset (finished s) + mset (serving s)
    \<and> (\<forall>i. thread_count s i = length (filter (\<lambda>p. fst p = i) (taken s)))
    \<and> ((\<exists>i<n. worker s i = Waiting) \<longrightarrow> length (ring_items (ring s)) \<le> n_workers Locking s)"
  using pool_reach_ok [OF assms] by (auto simp: pool_ok_def awake_def running_def)

text \<open>A run of two threads: a connection is accepted, stored and taken.\<close>

definition sample_ring :: ring where
  "sample_ring = ring_start\<lparr>clifd := (clifd ring_start)[0 := 5], iput := 1\<rparr>"

definition sample_pool :: pool where
  "sample_pool = take_conn 0 5 (sample_ring\<lparr>iget := 1\<rparr>) (store 5 sample_ring None (accept 5 (pool_start 2)))"

lemma sample_pool_reach: "pool_reach 2 sample_pool"
proof -
  have a: "pool_step (pool_start 2) (accept 5 (pool_start 2))" by (rule accepts) (simp add: pool_start_def)
  have b: "pool_step (accept 5 (pool_start 2)) (store 5 sample_ring None (accept 5 (pool_start 2)))"
    by (rule stores) (simp_all add: accept_def pool_start_def waiter_def ring_put_def sample_ring_def ring_start_def advance_def)
  have c: "pool_step (store 5 sample_ring None (accept 5 (pool_start 2))) sample_pool"
    unfolding sample_pool_def
    by (rule takes) (simp_all add: running_def store_def accept_def pool_start_def ring_get_def sample_ring_def ring_start_def advance_def)
  show ?thesis using a b c by (meson rtranclp.rtrancl_into_rtrancl rtranclp.rtrancl_refl)
qed

theorem serv08_fifo_witness:
  "accepted sample_pool = map snd (taken sample_pool) @ ring_items (ring sample_pool) @ pending sample_pool
   \<and> mset (map snd (taken sample_pool)) = mset (finished sample_pool) + mset (serving sample_pool)"
proof -
  have "running sample_pool" by (simp add: sample_pool_def running_def take_conn_def store_def)
  then show ?thesis using serv08_fifo [OF sample_pool_reach] by blast
qed

lemma serv08_progress:
  assumes "pool_reach n s" "running s" "ring_items (ring s) \<noteq> []" "0 < n"
  shows "\<exists>i<n. (\<exists>fd. worker s i = Serving fd) \<or> (\<exists>fd r. pool_step s (take_conn i fd r s))"
proof -
  have ok: "pool_ok s" "nthreads s = n" using pool_reach_ok [OF assms(1)] by simp_all
  have g: "ring_get (ring s) \<noteq> None" using clifd_queue.get_empty [of "ring s"] assms(3) ok(1) by (simp add: pool_ok_def)
  have "\<exists>i<n. worker s i \<noteq> Waiting"
  proof (rule ccontr)
    assume all: "\<not> (\<exists>i<n. worker s i \<noteq> Waiting)"
    then have "n_workers Locking s = 0" using ok(2) by (auto simp: n_workers_def)
    moreover have "\<exists>i<n. worker s i = Waiting" using all assms(4) by blast
    ultimately show False using ok assms(3) by (simp add: pool_ok_def awake_def flip: length_0_conv)
  qed
  then obtain i where i: "i < n" "worker s i \<noteq> Waiting" by blast
  show ?thesis
  proof (cases "worker s i")
    case Locking
    obtain fd r where "ring_get (ring s) = Some (fd, r)" using g by auto
    then have "pool_step s (take_conn i fd r s)" using takes assms(2) i(1) ok(2) Locking by blast
    then show ?thesis using i(1) by blast
  qed (use i in auto)
qed

text \<open>A burst: connections that arrive before a thread takes the first.\<close>

lemma burst:
  "k \<le> 31 \<Longrightarrow> \<exists>s. pool_reach n s \<and> acceptor s = Accepting \<and> length (ring_items (ring s)) = k \<and> (\<forall>i. worker s i = Locking)"
proof (induction k)
  case 0
  have "pool_reach n (pool_start n)" by (rule rtranclp.rtrancl_refl)
  then show ?case by (rule_tac exI [of _ "pool_start n"]) (simp add: pool_start_def ring_items_def ring_start_def ring_len_def)
next
  case (Suc k)
  then obtain s where s: "pool_reach n s" "acceptor s = Accepting" "length (ring_items (ring s)) = k" "\<forall>i. worker s i = Locking"
    by auto
  have ok: "pool_ok s" using pool_reach_ok [OF s(1)] by simp
  have "ring_put 0 (ring s) \<noteq> None" using clifd_queue.put_full [of "ring s" 0] ok s(3) Suc.prems by (simp add: pool_ok_def)
  then obtain r where r: "ring_put 0 (ring s) = Some r" by auto
  have len: "length (ring_items r) = Suc k" using clifd_queue.put_items [OF _ r] ok s(3) by (simp add: pool_ok_def)
  have a: "pool_step s (accept 0 s)" by (rule accepts [OF s(2)])
  have b: "pool_step (accept 0 s) (store 0 r None (accept 0 s))"
    by (rule stores) (use r s(4) in \<open>simp_all add: accept_def waiter_def\<close>)
  have "pool_reach n (store 0 r None (accept 0 s))" using s(1) a b by (meson rtranclp.rtrancl_into_rtrancl)
  then show ?case using len s(4) by (rule_tac exI [of _ "store 0 r None (accept 0 s)"]) (simp add: store_def accept_def)
qed

text \<open>
  A burst of 32 connections before a thread takes one ends the server, whatever the number of threads: the ring of
  \<open>MAXNCLI = 32\<close> slots holds 31 of them, and \<open>main\<close> calls \<open>err_quit\<close> when it stores the next, although a thread could take one.
\<close>

lemma serv08_burst_stops:
  "\<exists>s. pool_reach n s \<and> acceptor s = Full fd \<and> length (ring_items (ring s)) = 31"
proof -
  obtain s where s: "pool_reach n s" "acceptor s = Accepting" "length (ring_items (ring s)) = 31" using burst [of 31] by auto
  have ok: "ring_ok (ring s)" using pool_reach_ok [OF s(1)] by (simp add: pool_ok_def)
  let ?t = "accept fd s"
  have "ring_put fd (ring s) = None" using clifd_queue.put_full [OF ok] s(3) by simp
  then have b: "pool_step ?t (?t\<lparr>acceptor := Full fd\<rparr>)" by (intro full) (simp_all add: accept_def)
  have "pool_reach n (?t\<lparr>acceptor := Full fd\<rparr>)" using s(1) accepts [OF s(2)] b by (meson rtranclp.rtrancl_into_rtrancl)
  then show ?thesis by (rule_tac exI [of _ "?t\<lparr>acceptor := Full fd\<rparr>"]) (use s(3) in \<open>simp add: accept_def\<close>)
qed

text \<open>These are the only ends of the process: the full ring, or a client that asks for a bad number of bytes.\<close>

lemma serv08_ends:
  assumes "pool_reach n s" "pool_step s t" "running s" "\<not> running t"
  shows "length (ring_items (ring s)) = 31 \<or> (\<exists>i<n. \<exists>fd. worker s i = Serving fd)"
proof -
  have ok: "pool_ok s" "nthreads s = n" using pool_reach_ok [OF assms(1)] by simp_all
  show ?thesis using assms(2)
  proof (cases rule: pool_step.cases)
    case (full fd)
    then show ?thesis using clifd_queue.put_full [of "ring s" fd] ok(1) by (simp add: pool_ok_def)
  next
    case (bad_request i fd requests replies)
    then show ?thesis using ok(2) by auto
  qed (use assms(3,4) in \<open>simp_all add: running_def accept_def store_def take_conn_def set_worker_def\<close>)
qed

text \<open>A client that asks for 0 bytes ends the process, and with it every other connection.\<close>

lemma serv08_bad_request: "\<exists>s. pool_reach 2 s \<and> acceptor s = BadRequest"
proof -
  have "ntowrite ''0'' = 0" by code_simp
  then have "web_child [''0''] [] = Die []" by simp
  then have "pool_step sample_pool (sample_pool\<lparr>acceptor := BadRequest\<rparr>)"
    by (intro bad_request [of _ 0 5 "[''0'']" "[]"]) (simp_all add: sample_pool_def running_def take_conn_def store_def accept_def pool_start_def)
  then have "pool_reach 2 (sample_pool\<lparr>acceptor := BadRequest\<rparr>)" using sample_pool_reach by (meson rtranclp.rtrancl_into_rtrancl)
  then show ?thesis by (rule_tac exI [of _ "sample_pool\<lparr>acceptor := BadRequest\<rparr>"]) simp
qed

end
