(* ===== verification/Prefork_Server.thy ===== *)
theory Prefork_Server
  imports Thread_Pool
begin

text \<open>
  \<open>server/serv05.c\<close> and \<open>server/child05.c\<close>: the parent accepts the connections and passes each descriptor over a
  stream pipe to a child that is available; a child writes a byte when it is ready again. A round of the
  parent after \<open>select\<close> is one step, as the children only add to what is readable. The pipes are part of the children's
  records. \<open>EOF\<close> on the pipe of a child that ended is the \<open>read\<close> that returns 0.
\<close>

section \<open>The parent\<close>

record child =
  child_status :: int           \<comment> \<open>0 = ready\<close>
  child_count :: int
  inbox :: "int list"           \<comment> \<open>descriptors in the pipe to the child\<close>
  connfd :: "int option"        \<comment> \<open>the connection in \<open>web_child\<close>\<close>
  ready_bytes :: nat            \<comment> \<open>bytes in the pipe to the parent\<close>
  dead :: bool
  handled :: "int list"

definition child_make :: child where
  "child_make = \<lparr>child_status = 0, child_count = 0, inbox = [], connfd = None, ready_bytes = 0, dead = False, handled = []\<rparr>"

record prefork =
  cptr :: "child list"
  navail :: int
  conns :: "int list"           \<comment> \<open>accepted\<close>
  quit :: bool

definition prefork_start :: "nat \<Rightarrow> prefork" where
  "prefork_start n = \<lparr>cptr = replicate n child_make, navail = int n, conns = [], quit = False\<rparr>"

text \<open>\<open>child_pipefd\<close> is readable.\<close>

definition readable :: "child \<Rightarrow> bool" where
  "readable c \<longleftrightarrow> 0 < ready_bytes c \<or> dead c"

text \<open>\<open>for (i = 0; i < nchildren; i++) if (cptr[i].child_status == 0) break;\<close>\<close>

fun first_ready :: "child list \<Rightarrow> nat option" where
  "first_ready [] = None"
| "first_ready (c # cs) = (if child_status c = 0 then Some 0 else map_option Suc (first_ready cs))"

definition pass_conn :: "int \<Rightarrow> child \<Rightarrow> child" where
  "pass_conn fd c = c\<lparr>child_status := 1, child_count := child_count c + 1, inbox := inbox c @ [fd]\<rparr>"

text \<open>The loop for newly available children; \<open>None\<close> is \<open>err_quit\<close>. \<open>rset\<close> tells which pipes \<open>select\<close> returned.\<close>

fun collect :: "(child \<Rightarrow> bool) \<Rightarrow> int \<Rightarrow> child list \<Rightarrow> int \<Rightarrow> (child list \<times> int) option" where
  "collect rset nsel [] nav = Some ([], nav)"
| "collect rset nsel (c # cs) nav =
     (if \<not> rset c then map_option (\<lambda>(cs', n). (c # cs', n)) (collect rset nsel cs nav)
      else if ready_bytes c = 0 then None
      else
        let c' = c\<lparr>child_status := 0, ready_bytes := ready_bytes c - 1\<rparr>
        in if nsel - 1 = 0 then Some (c' # cs, nav + 1)
           else map_option (\<lambda>(cs', n). (c' # cs', n)) (collect rset (nsel - 1) cs (nav + 1)))"

text \<open>\<open>conn\<close> is the connection that waits on the listening socket, if there is one: it is in \<open>rset\<close> unless it was turned off.\<close>

definition listening :: "int option \<Rightarrow> prefork \<Rightarrow> bool" where
  "listening conn s \<longleftrightarrow> conn \<noteq> None \<and> 0 < navail s"

definition nsel :: "int option \<Rightarrow> prefork \<Rightarrow> int" where
  "nsel conn s = (if listening conn s then 1 else 0) + int (length (filter readable (cptr s)))"

definition finish_round :: "int \<Rightarrow> prefork \<Rightarrow> prefork option" where
  "finish_round n s = map_option (\<lambda>(cs, nav). s\<lparr>cptr := cs, navail := nav\<rparr>) (collect readable n (cptr s) (navail s))"

definition prefork_round :: "int option \<Rightarrow> prefork \<Rightarrow> prefork option" where
  "prefork_round conn s =
     (if listening conn s then
        (case first_ready (cptr s) of
           None \<Rightarrow> None
         | Some i \<Rightarrow>
             let s' = s\<lparr>cptr := (cptr s)[i := pass_conn (the conn) (cptr s ! i)], navail := navail s - 1, conns := conns s @ [the conn]\<rparr>
             in if nsel conn s - 1 = 0 then Some s' else finish_round (nsel conn s - 1) s')
      else finish_round (nsel conn s) s)"

section \<open>The children\<close>

definition child_recv :: "child \<Rightarrow> child" where
  "child_recv c = c\<lparr>connfd := Some (hd (inbox c)), inbox := tl (inbox c)\<rparr>"

definition child_done :: "child \<Rightarrow> child" where
  "child_done c = c\<lparr>connfd := None, ready_bytes := ready_bytes c + 1, handled := handled c @ [the (connfd c)]\<rparr>"

definition upd_child :: "nat \<Rightarrow> (child \<Rightarrow> child) \<Rightarrow> prefork \<Rightarrow> prefork" where
  "upd_child i f s = s\<lparr>cptr := (cptr s)[i := f (cptr s ! i)]\<rparr>"

inductive prefork_step :: "prefork \<Rightarrow> prefork \<Rightarrow> bool" where
  round: "\<not> quit s \<Longrightarrow> 0 < nsel conn s \<Longrightarrow> prefork_round conn s = Some t \<Longrightarrow> prefork_step s t"
| round_quit: "\<not> quit s \<Longrightarrow> 0 < nsel conn s \<Longrightarrow> prefork_round conn s = None \<Longrightarrow> prefork_step s (s\<lparr>quit := True\<rparr>)"
| recv: "i < length (cptr s) \<Longrightarrow> \<not> dead (cptr s ! i) \<Longrightarrow> connfd (cptr s ! i) = None \<Longrightarrow> inbox (cptr s ! i) \<noteq> [] \<Longrightarrow>
    prefork_step s (upd_child i child_recv s)"
| done_conn: "i < length (cptr s) \<Longrightarrow> \<not> dead (cptr s ! i) \<Longrightarrow> connfd (cptr s ! i) = Some fd \<Longrightarrow> web_child requests [] = Ret replies \<Longrightarrow>
    prefork_step s (upd_child i child_done s)"
| dies: "i < length (cptr s) \<Longrightarrow> \<not> dead (cptr s ! i) \<Longrightarrow> connfd (cptr s ! i) = Some fd \<Longrightarrow> web_child requests [] = Die replies \<Longrightarrow>
    prefork_step s (upd_child i (\<lambda>c. c\<lparr>dead := True\<rparr>) s)"

abbreviation prefork_reach :: "nat \<Rightarrow> prefork \<Rightarrow> bool" where
  "prefork_reach n s \<equiv> prefork_step\<^sup>*\<^sup>* (prefork_start n) s"

section \<open>The invariant\<close>

text \<open>A child has one thing to do or none: a descriptor in its pipe, a connection, or a byte the parent has not read.\<close>

definition busy :: "child \<Rightarrow> nat" where
  "busy c = length (inbox c) + (if connfd c = None then 0 else 1) + ready_bytes c"

definition child_ok :: "child \<Rightarrow> bool" where
  "child_ok c \<longleftrightarrow> (child_status c = 0 \<and> busy c = 0 \<or> child_status c = 1 \<and> busy c = 1)
     \<and> (dead c \<longrightarrow> connfd c \<noteq> None)
     \<and> child_count c = int (length (handled c) + length (inbox c)) + (if connfd c = None then 0 else 1)"

definition held :: "child \<Rightarrow> int list" where
  "held c = handled c @ (case connfd c of None \<Rightarrow> [] | Some fd \<Rightarrow> [fd]) @ inbox c"

definition n_ready :: "child list \<Rightarrow> int" where
  "n_ready cs = int (length (filter (\<lambda>c. child_status c = 0) cs))"

definition prefork_ok :: "prefork \<Rightarrow> bool" where
  "prefork_ok s \<longleftrightarrow> (\<forall>c\<in>set (cptr s). child_ok c) \<and> navail s = n_ready (cptr s)
     \<and> mset (conns s) = (\<Sum>c\<leftarrow>cptr s. mset (held c))
     \<and> (quit s \<longrightarrow> (\<exists>c\<in>set (cptr s). dead c))"

lemma first_ready_Some: "first_ready cs = Some i \<Longrightarrow> i < length cs \<and> child_status (cs ! i) = 0"
  by (induction cs arbitrary: i) (auto split: if_splits)

lemma first_ready_None: "first_ready cs = None \<longleftrightarrow> n_ready cs = 0"
  by (induction cs) (auto simp: n_ready_def)

lemma sum_list_update:
  fixes f :: "'c \<Rightarrow> 'm :: cancel_comm_monoid_add"
  shows "i < length cs \<Longrightarrow> (\<Sum>c\<leftarrow>cs[i := d]. f c) + f (cs ! i) = (\<Sum>c\<leftarrow>cs. f c) + f d"
proof (induction cs arbitrary: i)
  case (Cons c cs)
  show ?case
  proof (cases i)
    case (Suc j)
    then have IH: "(\<Sum>c\<leftarrow>cs[j := d]. f c) + f (cs ! j) = (\<Sum>c\<leftarrow>cs. f c) + f d" using Cons by simp
    have "(\<Sum>c\<leftarrow>(c # cs)[i := d]. f c) + f ((c # cs) ! i) = f c + ((\<Sum>c\<leftarrow>cs[j := d]. f c) + f (cs ! j))"
      using Suc by (simp add: ac_simps)
    also have "\<dots> = (\<Sum>c\<leftarrow>c # cs. f c) + f d" unfolding IH by (simp add: ac_simps)
    finally show ?thesis .
  qed (simp add: ac_simps)
qed simp

lemma n_ready_sum: "n_ready cs = (\<Sum>c\<leftarrow>cs. if child_status c = 0 then 1 else 0)"
  by (induction cs) (simp_all add: n_ready_def)

text \<open>What reading its byte does to a child, and what the loop does to all of them.\<close>

definition settle :: "child \<Rightarrow> child" where
  "settle c = (if readable c then c\<lparr>child_status := 0, ready_bytes := ready_bytes c - 1\<rparr> else c)"

lemma readable_alive: "child_ok c \<Longrightarrow> readable c \<Longrightarrow> \<not> dead c \<Longrightarrow> ready_bytes c = 1 \<and> child_status c = 1"
  by (auto simp: child_ok_def readable_def busy_def split: if_splits)

lemma dead_silent: "child_ok c \<Longrightarrow> dead c \<Longrightarrow> ready_bytes c = 0 \<and> child_status c = 1"
  by (auto simp: child_ok_def busy_def split: if_splits)

lemma collect_none: "filter readable cs = [] \<Longrightarrow> collect readable n cs nav = Some (cs, nav)"
  by (induction cs) (auto split: if_splits)

lemma settle_none: "filter readable cs = [] \<Longrightarrow> map settle cs = cs"
  by (induction cs) (auto simp: settle_def split: if_splits)

lemma collect_all:
  assumes "\<forall>c\<in>set cs. child_ok c" "n = int (length (filter readable cs))"
  shows "collect readable n cs nav =
    (if \<exists>c\<in>set cs. dead c then None else Some (map settle cs, nav + n))"
  using assms
proof (induction cs arbitrary: n nav)
  case (Cons c cs)
  have ok: "child_ok c" "\<forall>c\<in>set cs. child_ok c" using Cons.prems(1) by simp_all
  show ?case
  proof (cases "readable c")
    case False
    then have "\<not> dead c" "settle c = c" by (simp_all add: readable_def settle_def)
    then show ?thesis using Cons.IH [OF ok(2), of n] Cons.prems(2) False by simp
  next
    case True
    have n: "n - 1 = int (length (filter readable cs))" using Cons.prems(2) True by simp
    show ?thesis
    proof (cases "dead c")
      case True
      then show ?thesis using dead_silent [OF ok(1)] \<open>readable c\<close> by simp
    next
      case False
      then have b: "ready_bytes c = 1" using readable_alive ok(1) True by simp
      show ?thesis
      proof (cases "n - 1 = 0")
        case True
        then have e: "filter readable cs = []" using n by simp
        then have "\<not> (\<exists>d\<in>set cs. dead d)" by (auto simp: filter_empty_conv readable_def)
        then show ?thesis using True b False \<open>readable c\<close> settle_none [OF e] by (simp add: Let_def settle_def)
      next
        case nz: False
        show ?thesis using Cons.IH [OF ok(2) n, of "nav + 1"] nz b False True by (simp add: Let_def settle_def)
      qed
    qed
  qed
qed simp

lemma finish_round_all:
  assumes "\<forall>c\<in>set (cptr s). child_ok c"
  shows "finish_round (int (length (filter readable (cptr s)))) s =
    (if \<exists>c\<in>set (cptr s). dead c then None
     else Some (s\<lparr>cptr := map settle (cptr s), navail := navail s + int (length (filter readable (cptr s)))\<rparr>))"
  unfolding finish_round_def using collect_all [OF assms refl] by simp

lemma settle_child_ok: "child_ok c \<Longrightarrow> \<not> dead c \<Longrightarrow> child_ok (settle c) \<and> held (settle c) = held c"
proof (cases "readable c")
  case True
  assume ok: "child_ok c" "\<not> dead c"
  then have r: "ready_bytes c = 1" "child_status c = 1" using readable_alive True by simp_all
  then have "inbox c = []" "connfd c = None" using ok(1) by (auto simp: child_ok_def busy_def split: if_splits)
  then show ?thesis using ok r True by (simp add: settle_def child_ok_def busy_def held_def)
qed (simp add: settle_def)

lemma n_ready_settle:
  "\<forall>c\<in>set cs. child_ok c \<and> \<not> dead c \<Longrightarrow> n_ready (map settle cs) = n_ready cs + int (length (filter readable cs))"
proof (induction cs)
  case (Cons c cs)
  have IH: "n_ready (map settle cs) = n_ready cs + int (length (filter readable cs))" using Cons by simp
  show ?case
  proof (cases "readable c")
    case True
    then have "child_status c = 1" "child_status (settle c) = 0" using readable_alive [of c] Cons.prems by (simp_all add: settle_def)
    then show ?thesis using IH True by (simp add: n_ready_def)
  next
    case False
    then have "settle c = c" by (simp add: settle_def)
    then show ?thesis using IH False by (simp add: n_ready_def)
  qed
qed (simp add: n_ready_def)

lemma ok_finish:
  assumes "prefork_ok s" "finish_round (int (length (filter readable (cptr s)))) s = Some t"
  shows "prefork_ok t \<and> length (cptr t) = length (cptr s)"
proof -
  have ok: "\<forall>c\<in>set (cptr s). child_ok c" using assms(1) by (simp add: prefork_ok_def)
  have alive: "\<forall>c\<in>set (cptr s). \<not> dead c" using finish_round_all [OF ok] assms(2) by (auto split: if_splits)
  then have t: "t = s\<lparr>cptr := map settle (cptr s), navail := navail s + int (length (filter readable (cptr s)))\<rparr>"
    using finish_round_all [OF ok] assms(2) by simp
  have "(\<Sum>c\<leftarrow>map settle (cptr s). mset (held c)) = (\<Sum>c\<leftarrow>cptr s. mset (held c))"
    using settle_child_ok ok alive by (simp add: comp_def cong: map_cong)
  moreover have "n_ready (map settle (cptr s)) = n_ready (cptr s) + int (length (filter readable (cptr s)))"
    by (rule n_ready_settle) (use ok alive in blast)
  ultimately show ?thesis using assms(1) settle_child_ok ok alive unfolding prefork_ok_def t by auto
qed

lemma ok_upd:
  assumes ok: "prefork_ok s" and i: "i < length (cptr s)" and c: "child_ok c"
    and status: "navail' = navail s + (if child_status c = 0 then 1 else 0) - (if child_status (cptr s ! i) = 0 then 1 else 0)"
    and conns: "mset new + mset (held (cptr s ! i)) = mset (held c)"
    and alive: "dead (cptr s ! i) \<Longrightarrow> dead c"
  shows "prefork_ok (s\<lparr>cptr := (cptr s)[i := c], navail := navail', conns := conns s @ new\<rparr>)"
proof -
  have "\<forall>d\<in>set ((cptr s)[i := c]). child_ok d"
    using ok c set_update_subset_insert [of "cptr s" i c] unfolding prefork_ok_def by blast
  moreover have "navail' = n_ready ((cptr s)[i := c])"
    using sum_list_update [OF i, of "\<lambda>c. if child_status c = 0 then 1 else 0 :: int" c] ok status
    unfolding prefork_ok_def n_ready_sum by linarith
  moreover have "mset (conns s @ new) = (\<Sum>d\<leftarrow>(cptr s)[i := c]. mset (held d))"
  proof -
    have "(\<Sum>d\<leftarrow>(cptr s)[i := c]. mset (held d)) + mset (held (cptr s ! i)) = mset (conns s) + mset (held c)"
      using sum_list_update [OF i, of "\<lambda>c. mset (held c)" c] ok by (simp add: prefork_ok_def)
    also have "\<dots> = mset (conns s @ new) + mset (held (cptr s ! i))" unfolding conns [symmetric] by (simp add: ac_simps)
    finally show ?thesis by simp
  qed
  moreover have "\<exists>d\<in>set ((cptr s)[i := c]). dead d" if "quit s"
  proof -
    have "\<exists>d\<in>set (cptr s). dead d" using ok that by (simp add: prefork_ok_def)
    then obtain k where k: "k < length (cptr s)" "dead (cptr s ! k)" by (auto simp: in_set_conv_nth)
    then have "dead ((cptr s)[i := c] ! k)" using alive by (cases "k = i") auto
    moreover have "(cptr s)[i := c] ! k \<in> set ((cptr s)[i := c])" using k(1) by (intro nth_mem) simp
    ultimately show ?thesis by blast
  qed
  ultimately show ?thesis unfolding prefork_ok_def by simp
qed

lemma ok_upd_child:
  assumes "prefork_ok s" "i < length (cptr s)" "child_ok (f (cptr s ! i))" "child_status (f (cptr s ! i)) = child_status (cptr s ! i)"
    "mset (held (f (cptr s ! i))) = mset (held (cptr s ! i))" "dead (cptr s ! i) \<Longrightarrow> dead (f (cptr s ! i))"
  shows "prefork_ok (upd_child i f s)"
  using ok_upd [OF assms(1-3), of "navail s" "[]"] assms(4-6) by (simp add: upd_child_def)

text \<open>The child the parent chooses has nothing to do; \<open>no available children\<close> is never reached.\<close>

definition give_conn :: "int \<Rightarrow> nat \<Rightarrow> prefork \<Rightarrow> prefork" where
  "give_conn fd i s = s\<lparr>cptr := (cptr s)[i := pass_conn fd (cptr s ! i)], navail := navail s - 1, conns := conns s @ [fd]\<rparr>"

lemma ok_accept_conn:
  assumes "prefork_ok s" "first_ready (cptr s) = Some i"
  shows "prefork_ok (give_conn fd i s)" "length (filter readable (cptr (give_conn fd i s))) = length (filter readable (cptr s))"
    "busy (cptr s ! i) = 0"
proof -
  have i: "i < length (cptr s)" "child_status (cptr s ! i) = 0" using first_ready_Some [OF assms(2)] by simp_all
  have ok: "child_ok (cptr s ! i)" using assms(1) i(1) by (simp add: prefork_ok_def)
  then show b: "busy (cptr s ! i) = 0" using i(2) by (auto simp: child_ok_def)
  then have e: "inbox (cptr s ! i) = []" "connfd (cptr s ! i) = None" "ready_bytes (cptr s ! i) = 0" by (auto simp: busy_def split: if_splits)
  then have alive: "\<not> dead (cptr s ! i)" using ok by (auto simp: child_ok_def)
  have "child_ok (pass_conn fd (cptr s ! i))" using ok e by (simp add: child_ok_def busy_def pass_conn_def)
  moreover have "held (pass_conn fd (cptr s ! i)) = held (cptr s ! i) @ [fd]" by (simp add: held_def pass_conn_def)
  ultimately show "prefork_ok (give_conn fd i s)"
    unfolding give_conn_def by (intro ok_upd assms(1) i(1)) (use i(2) in \<open>simp_all add: pass_conn_def\<close>)
  have r: "readable (pass_conn fd (cptr s ! i)) = readable (cptr s ! i)" by (simp add: readable_def pass_conn_def)
  have len: "length (filter readable cs) = (\<Sum>c\<leftarrow>cs. if readable c then 1 else 0)" for cs by (induction cs) simp_all
  show "length (filter readable (cptr (give_conn fd i s))) = length (filter readable (cptr s))"
    unfolding len using sum_list_update [OF i(1), of "\<lambda>c. if readable c then 1 else 0 :: nat" "pass_conn fd (cptr s ! i)"]
    unfolding r by (simp add: give_conn_def)
qed

text \<open>A round: accept if there is a connection and a child for it, then read every byte; the count \<open>nsel\<close> skips nothing.\<close>

lemma round_eq:
  assumes ok: "prefork_ok s"
  shows "prefork_round conn s =
    (if listening conn s then
       (let s' = give_conn (the conn) (the (first_ready (cptr s))) s in finish_round (int (length (filter readable (cptr s')))) s')
     else finish_round (int (length (filter readable (cptr s)))) s)"
    and "listening conn s \<Longrightarrow> first_ready (cptr s) \<noteq> None"
proof -
  show some: "first_ready (cptr s) \<noteq> None" if "listening conn s"
    using that ok first_ready_None [of "cptr s"] by (simp add: listening_def prefork_ok_def)
  show "prefork_round conn s =
    (if listening conn s then
       (let s' = give_conn (the conn) (the (first_ready (cptr s))) s in finish_round (int (length (filter readable (cptr s')))) s')
     else finish_round (int (length (filter readable (cptr s)))) s)"
  proof (cases "listening conn s")
    case True
    obtain i where i: "first_ready (cptr s) = Some i" using some [OF True] by auto
    let ?s' = "give_conn (the conn) i s"
    have n: "nsel conn s - 1 = int (length (filter readable (cptr ?s')))"
      using True ok_accept_conn(2) [OF ok i] by (simp add: nsel_def)
    have "finish_round (nsel conn s - 1) ?s' = Some ?s'" if "nsel conn s - 1 = 0"
    proof -
      have "filter readable (cptr ?s') = []" using that n by simp
      then show ?thesis unfolding finish_round_def by (simp add: collect_none)
    qed
    then have "prefork_round conn s = finish_round (nsel conn s - 1) ?s'"
      unfolding prefork_round_def Let_def i option.case using True by (simp add: give_conn_def)
    then show ?thesis using True i n by (simp add: Let_def)
  qed (simp add: prefork_round_def nsel_def)
qed

lemma give_conn_children:
  "length (cptr (give_conn fd i s)) = length (cptr s)"
  "(\<exists>c\<in>set (cptr (give_conn fd i s)). dead c) \<Longrightarrow> i < length (cptr s) \<Longrightarrow> (\<exists>c\<in>set (cptr s). dead c)"
proof -
  show "length (cptr (give_conn fd i s)) = length (cptr s)" by (simp add: give_conn_def)
  assume "\<exists>c\<in>set (cptr (give_conn fd i s)). dead c" "i < length (cptr s)"
  then obtain k where k: "k < length (cptr s)" "dead ((cptr s)[i := pass_conn fd (cptr s ! i)] ! k)"
    by (auto simp: give_conn_def in_set_conv_nth)
  then have "dead (cptr s ! k)" by (cases "k = i") (simp_all add: pass_conn_def)
  then show "\<exists>c\<in>set (cptr s). dead c" using k(1) nth_mem by blast
qed

lemma parent_round_ok:
  assumes "prefork_ok s" "prefork_round conn s = Some t"
  shows "prefork_ok t \<and> length (cptr t) = length (cptr s)"
proof (cases "listening conn s")
  case True
  then obtain i where i: "first_ready (cptr s) = Some i" using round_eq(2) [OF assms(1)] by auto
  then show ?thesis
    using round_eq(1) [OF assms(1), of conn] True assms(2) ok_finish [OF ok_accept_conn(1) [OF assms(1) i]] give_conn_children(1)
    by (simp add: Let_def)
next
  case False
  then show ?thesis using round_eq(1) [OF assms(1), of conn] assms(2) ok_finish [OF assms(1)] by simp
qed

lemma round_quits:
  assumes "prefork_ok s" "prefork_round conn s = None"
  shows "\<exists>c\<in>set (cptr s). dead c"
proof (cases "listening conn s")
  case True
  then obtain i where i: "first_ready (cptr s) = Some i" using round_eq(2) [OF assms(1)] by auto
  let ?s' = "give_conn (the conn) i s"
  have ok: "\<forall>c\<in>set (cptr ?s'). child_ok c" using ok_accept_conn(1) [OF assms(1) i] by (simp add: prefork_ok_def)
  have "finish_round (int (length (filter readable (cptr ?s')))) ?s' = None"
    using round_eq(1) [OF assms(1), of conn] True i assms(2) by (simp add: Let_def)
  then have "\<exists>c\<in>set (cptr ?s'). dead c" using finish_round_all [OF ok] by (simp split: if_splits)
  then show ?thesis using give_conn_children(2) first_ready_Some [OF i] by blast
next
  case False
  have ok: "\<forall>c\<in>set (cptr s). child_ok c" using assms(1) by (simp add: prefork_ok_def)
  show ?thesis using round_eq(1) [OF assms(1), of conn] False assms(2) finish_round_all [OF ok] by (simp split: if_splits)
qed

lemma prefork_step_ok:
  assumes "prefork_step s t" "prefork_ok s"
  shows "prefork_ok t \<and> length (cptr t) = length (cptr s)"
  using assms
proof (cases rule: prefork_step.cases)
  case (round conn)
  then show ?thesis using parent_round_ok assms(2) by blast
next
  case (round_quit conn)
  then show ?thesis using round_quits [OF assms(2) round_quit(4)] assms(2) by (simp add: prefork_ok_def)
next
  case (recv i)
  let ?c = "cptr s ! i"
  have c: "child_ok ?c" using assms(2) recv(2) by (simp add: prefork_ok_def)
  obtain fd r where inbox: "inbox ?c = fd # r" using recv(5) by (cases "inbox ?c") auto
  have "child_ok (child_recv ?c)" "held (child_recv ?c) = held ?c"
    using c inbox recv(4) by (simp_all add: child_ok_def child_recv_def busy_def held_def)
  then have "prefork_ok (upd_child i child_recv s)"
    by (intro ok_upd_child assms(2) recv(2)) (simp_all add: child_recv_def)
  then show ?thesis using recv(1) by (simp add: upd_child_def)
next
  case (done_conn i fd requests replies)
  let ?c = "cptr s ! i"
  have c: "child_ok ?c" using assms(2) done_conn(2) by (simp add: prefork_ok_def)
  have "child_ok (child_done ?c)" "mset (held (child_done ?c)) = mset (held ?c)"
    using c done_conn(3,4) by (simp_all add: child_ok_def child_done_def busy_def held_def ac_simps)
  then have "prefork_ok (upd_child i child_done s)"
    by (intro ok_upd_child assms(2) done_conn(2)) (simp_all add: child_done_def)
  then show ?thesis using done_conn(1) by (simp add: upd_child_def)
next
  case (dies i fd requests replies)
  let ?c = "cptr s ! i"
  have c: "child_ok ?c" using assms(2) dies(2) by (simp add: prefork_ok_def)
  have "child_ok (?c\<lparr>dead := True\<rparr>)" "held (?c\<lparr>dead := True\<rparr>) = held ?c"
    using c dies(4) by (simp_all add: child_ok_def busy_def held_def)
  then have "prefork_ok (upd_child i (\<lambda>c. c\<lparr>dead := True\<rparr>) s)"
    by (intro ok_upd_child assms(2) dies(2)) simp_all
  then show ?thesis using dies(1) by (simp add: upd_child_def)
qed

lemma prefork_start_ok: "prefork_ok (prefork_start n)"
proof -
  have "(\<Sum>c\<leftarrow>replicate n child_make. mset (held c)) = {#}" by (induction n) (simp_all add: held_def child_make_def)
  moreover have "n_ready (replicate n child_make) = int n" by (simp add: n_ready_def child_make_def)
  ultimately show ?thesis
    unfolding prefork_ok_def prefork_start_def by (simp add: child_ok_def busy_def child_make_def)
qed

lemma prefork_reach_ok: "prefork_reach n s \<Longrightarrow> prefork_ok s \<and> length (cptr s) = n"
proof (induction rule: rtranclp_induct)
  case base
  then show ?case using prefork_start_ok by (simp add: prefork_start_def)
next
  case (step s t)
  then show ?case using prefork_step_ok [OF step.hyps(2)] by simp
qed

text \<open>A run of one child: it is given connection 5 and takes it from its pipe.\<close>

definition sample_prefork :: prefork where
  "sample_prefork = upd_child 0 child_recv (give_conn 5 0 (prefork_start 1))"

lemma sample_prefork_reach: "prefork_reach 1 sample_prefork"
proof -
  have "prefork_round (Some 5) (prefork_start 1) = Some (give_conn 5 0 (prefork_start 1))"
    by (simp add: prefork_round_def prefork_start_def listening_def nsel_def child_make_def give_conn_def readable_def)
  then have a: "prefork_step (prefork_start 1) (give_conn 5 0 (prefork_start 1))"
    by (rule round [rotated 2]) (simp_all add: prefork_start_def nsel_def listening_def)
  have b: "prefork_step (give_conn 5 0 (prefork_start 1)) sample_prefork"
    unfolding sample_prefork_def
    by (rule recv) (simp_all add: give_conn_def pass_conn_def prefork_start_def child_make_def)
  show ?thesis using a b by (meson rtranclp.rtrancl_into_rtrancl rtranclp.rtrancl_refl)
qed

section \<open>What the server promises\<close>

text \<open>
  C10 In every reachable state of \<open>serv05\<close> the children's table tells the truth: a child has status 1 exactly if it has one
  connection or one byte the parent has not read, and never two; \<open>navail\<close> is the number of children of status 0; the counts
  add up; every connection accepted is with exactly one child, in its pipe, in service, or handled; and the parent has
  quit only if a child ended.
\<close>

theorem serv05_table:
  assumes "prefork_reach n s"
  shows "length (cptr s) = n \<and> (\<forall>c\<in>set (cptr s). child_ok c) \<and> navail s = n_ready (cptr s)
    \<and> mset (conns s) = (\<Sum>c\<leftarrow>cptr s. mset (held c)) \<and> (quit s \<longrightarrow> (\<exists>c\<in>set (cptr s). dead c))"
  using prefork_reach_ok [OF assms] by (simp add: prefork_ok_def)

theorem serv05_table_witness:
  "length (cptr sample_prefork) = 1 \<and> navail sample_prefork = n_ready (cptr sample_prefork)
   \<and> mset (conns sample_prefork) = (\<Sum>c\<leftarrow>cptr sample_prefork. mset (held c))"
  using serv05_table [OF sample_prefork_reach] by blast

text \<open>
  C11 A round of \<open>serv05\<close> while no child has ended: it accepts the waiting connection exactly if a child is available, and gives it to
  one that has nothing to do, so \<open>no available children\<close> is never reported; and it reads the byte of every child that has written one,
  though the loop stops when \<open>nsel\<close> reaches 0.
\<close>

theorem serv05_round:
  assumes "prefork_reach n s" "\<forall>c\<in>set (cptr s). \<not> dead c"
  shows "\<exists>t. prefork_round conn s = Some t
    \<and> conns t = conns s @ (if conn \<noteq> None \<and> 0 < navail s then [the conn] else [])
    \<and> (\<forall>c\<in>set (cptr t). ready_bytes c = 0)
    \<and> (conn \<noteq> None \<and> 0 < navail s \<longrightarrow> (\<exists>i<n. busy (cptr s ! i) = 0 \<and> inbox (cptr t ! i) = [the conn]))"
proof -
  have ok: "prefork_ok s" "length (cptr s) = n" using prefork_reach_ok [OF assms(1)] by simp_all
  have none: "\<forall>c\<in>set (map settle cs). ready_bytes c = 0" if "\<forall>c\<in>set cs. child_ok c" "\<forall>c\<in>set cs. \<not> dead c" for cs
    using that readable_alive by (auto simp: settle_def readable_def)
  show ?thesis
  proof (cases "listening conn s")
    case True
    obtain i where i: "first_ready (cptr s) = Some i" using round_eq(2) [OF ok(1) True] by auto
    have b: "i < n" "busy (cptr s ! i) = 0" using first_ready_Some [OF i] ok_accept_conn(3) [OF ok(1) i] ok(2) by simp_all
    let ?s' = "give_conn (the conn) i s"
    have c: "\<forall>c\<in>set (cptr ?s'). child_ok c" using ok_accept_conn(1) [OF ok(1) i] by (simp add: prefork_ok_def)
    have d: "\<forall>c\<in>set (cptr ?s'). \<not> dead c" using give_conn_children(2) [of "the conn" i s] assms(2) b(1) ok(2) by blast
    obtain t where t: "prefork_round conn s = Some t" "cptr t = map settle (cptr ?s')" "conns t = conns ?s'"
      using round_eq(1) [OF ok(1), of conn] True i finish_round_all [OF c] d by (simp add: Let_def)
    have "inbox (settle (pass_conn (the conn) (cptr s ! i))) = [the conn]"
      using b(2) by (simp add: settle_def pass_conn_def busy_def)
    then have "inbox (cptr t ! i) = [the conn]" unfolding t(2) using b(1) ok(2) by (simp add: give_conn_def)
    moreover have "\<forall>c\<in>set (cptr t). ready_bytes c = 0" unfolding t(2) by (rule none [OF c d])
    moreover have "conns t = conns s @ [the conn]" unfolding t(3) by (simp add: give_conn_def)
    moreover have "conn \<noteq> None \<and> 0 < navail s" using True by (simp add: listening_def)
    ultimately show ?thesis using t(1) b by auto
  next
    case False
    have c: "\<forall>c\<in>set (cptr s). child_ok c" using ok(1) by (simp add: prefork_ok_def)
    let ?t = "s\<lparr>cptr := map settle (cptr s), navail := navail s + int (length (filter readable (cptr s)))\<rparr>"
    have "prefork_round conn s = Some ?t"
      using round_eq(1) [OF ok(1), of conn] False finish_round_all [OF c] assms(2) by simp
    moreover have "\<forall>c\<in>set (cptr ?t). ready_bytes c = 0" using none [OF c assms(2)] by simp
    ultimately show ?thesis using False unfolding listening_def by (intro exI [of _ ?t]) auto
  qed
qed

theorem serv05_round_witness:
  "\<exists>t. prefork_round (Some 6) sample_prefork = Some t \<and> conns t = [5]"
proof -
  have alive: "\<forall>c\<in>set (cptr sample_prefork). \<not> dead c" and full: "navail sample_prefork = 0" and "conns sample_prefork = [5]"
    by (simp_all add: sample_prefork_def upd_child_def child_recv_def give_conn_def pass_conn_def prefork_start_def child_make_def)
  then show ?thesis using serv05_round [OF sample_prefork_reach alive, of "Some 6"] by auto
qed

text \<open>A client that asks for 0 bytes ends its child, and the parent then ends the whole server.\<close>

lemma serv05_bad_request: "\<exists>s. prefork_reach 1 s \<and> quit s"
proof -
  let ?d = "upd_child 0 (\<lambda>c. c\<lparr>dead := True\<rparr>) sample_prefork"
  have "ntowrite ''0'' = 0" by code_simp
  then have w: "web_child [''0''] [] = Die []" by simp
  have a: "prefork_step sample_prefork ?d"
    by (rule dies [of _ _ 5 "[''0'']" "[]"], rule_tac [4] w)
      (simp_all add: sample_prefork_def upd_child_def child_recv_def give_conn_def pass_conn_def prefork_start_def child_make_def)
  have "prefork_round None ?d = None"
    by (simp add: sample_prefork_def upd_child_def child_recv_def give_conn_def pass_conn_def prefork_start_def child_make_def
        prefork_round_def finish_round_def listening_def nsel_def readable_def)
  then have b: "prefork_step ?d (?d\<lparr>quit := True\<rparr>)"
    by (rule round_quit [rotated 2])
      (simp_all add: sample_prefork_def upd_child_def child_recv_def give_conn_def pass_conn_def prefork_start_def child_make_def
        listening_def nsel_def readable_def)
  have "prefork_reach 1 (?d\<lparr>quit := True\<rparr>)" using sample_prefork_reach a b by (meson rtranclp.rtrancl_into_rtrancl)
  then show ?thesis by (rule_tac exI [of _ "?d\<lparr>quit := True\<rparr>"]) simp
qed

end
