(* ===== verification/Udp_Cksum.thy ===== *)
theory Udp_Cksum
  imports In_Cksum
begin

text \<open>
  \<open>udpcksum/\<close>: \<open>udp_write\<close> builds a UDP datagram with its IP header in a buffer, \<open>udp_read\<close> and
  \<open>udp_check\<close> take the reply out of a captured frame, \<open>send_dns_query\<close> and \<open>test_udp\<close> send the query up to three
  times. The kernel's part (\<open>ip_output\<close> fills in the identification and the checksum of the IP header) and the headers of
  the link are hypotheses. The offsets are those of \<open>struct ip\<close>, \<open>struct udphdr\<close> and \<open>struct udpiphdr\<close>.
\<close>

section \<open>Writing a datagram\<close>

abbreviation (input) IPPROTO_UDP :: byte where "IPPROTO_UDP \<equiv> 17"
abbreviation (input) TTL_OUT :: byte where "TTL_OUT \<equiv> 64"

text \<open>A 16-bit number in network byte order.\<close>

definition net16 :: "nat \<Rightarrow> byte list" where
  "net16 n = [of_nat (n div 256), of_nat n]"

text \<open>The addresses and ports are in network byte order, as in the socket address structures.\<close>

record endpoints =
  local_addr :: "byte list"
  dest_addr :: "byte list"
  local_port :: "byte list"
  dest_port :: "byte list"
  zerosum :: bool

text \<open>The pseudo header and the UDP header, in the 28 bytes before the data, with the checksum 0.\<close>

definition fill_udp :: "endpoints \<Rightarrow> byte list \<Rightarrow> nat \<Rightarrow> byte list" where
  "fill_udp e buf userlen =
     (let ui = poke buf 0 (replicate 28 0);
          ui = poke ui 10 (net16 (8 + userlen));
          ui = poke ui 9 [IPPROTO_UDP];
          ui = poke ui 12 (local_addr e);
          ui = poke ui 16 (dest_addr e);
          ui = poke ui 20 (local_port e);
          ui = poke ui 22 (dest_port e)
      in poke ui 24 (take 2 (drop 10 ui)))"

definition udp_sum :: "byte list \<Rightarrow> u16" where
  "udp_sum ui = (let c = in_cksum ui in if c = 0 then 0xffff else c)"

definition udp_write :: "endpoints \<Rightarrow> byte list \<Rightarrow> nat \<Rightarrow> byte list" where
  "udp_write e buf userlen =
     (let ui = fill_udp e buf userlen;
          userlen = userlen + 28;
          ui = (if zerosum e then ui else poke ui 26 (store_le16 (udp_sum (take userlen ui))));
          ip = poke ui 0 [0x45];
          ip = poke ip 1 [0];
          ip = poke ip 2 (net16 userlen);
          ip = poke ip 4 [0, 0];
          ip = poke ip 6 [0, 0];
          ip = poke ip 8 [TTL_OUT]
      in take userlen ip)"

section \<open>Reading one\<close>

datatype check = Bad_length | Bad_version | Bad_hlen | Bad_checksum | Not_udp | Bad_ethertype | Bad_datalink
  | Out_of_bounds | Datagram "byte list"

text \<open>\<open>pkt\<close> holds the captured bytes from \<open>ptr\<close> on. \<open>len\<close> is compared with a \<open>size_t\<close>, so it is read modulo \<open>2 ^ 64\<close>.
  A field behind the captured bytes is \<open>Out_of_bounds\<close>.\<close>

definition size_t :: "int \<Rightarrow> nat" where
  "size_t n = nat (n mod 2 ^ 64)"

definition udp_check :: "byte list \<Rightarrow> int \<Rightarrow> check" where
  "udp_check pkt len =
     (if size_t len < 28 then Bad_length
      else if length pkt < 28 then Out_of_bounds
      else if drop_bit 4 (pkt ! 0) \<noteq> 4 then Bad_version
      else
        let hlen = 4 * unat (take_bit 4 (pkt ! 0))
        in if hlen < 20 then Bad_hlen
           else if size_t len < hlen + 8 then Bad_length
           else if length pkt < hlen then Out_of_bounds
           else
             let ip = poke pkt 10 (store_le16 (in_cksum (take hlen pkt)))
             in if in_cksum (take hlen pkt) \<noteq> 0 then Bad_checksum
                else if ip ! 9 = IPPROTO_UDP then Datagram ip else Not_udp)"

definition udp_read :: "int \<Rightarrow> byte list \<Rightarrow> check" where
  "udp_read datalink ptr =
     (let len = int (length ptr) in
      if datalink = 0 then udp_check (drop 4 ptr) (len - 4)
      else if datalink = 1 then
        (if length ptr < 14 then Out_of_bounds
         else if take 2 (drop 12 ptr) \<noteq> [8, 0] then Bad_ethertype
         else udp_check (drop 14 ptr) (len - 14))
      else if datalink = 8 then udp_check (drop 24 ptr) (len - 24)
      else if datalink = 9 then udp_check (drop 24 ptr) (len - 24)
      else Bad_datalink)"

section \<open>The query\<close>

definition dns_query :: "byte list" where
  "dns_query = net16 1234 @ net16 0x100 @ net16 1 @ [0, 0] @ [0, 0] @ [0, 0]
     @ [1] @ map (\<lambda>c. of_nat (of_char c)) ''a'' @ [12] @ map (\<lambda>c. of_nat (of_char c)) ''root-servers''
     @ [3] @ map (\<lambda>c. of_nat (of_char c)) ''net'' @ [0] @ net16 1 @ net16 1"

text \<open>The buffer is the one \<open>Malloc\<close> returned, 128 bytes of any contents.\<close>

definition send_dns_query :: "endpoints \<Rightarrow> byte list \<Rightarrow> byte list" where
  "send_dns_query e buf = udp_write e (poke buf 28 dns_query) (length dns_query)"

text \<open>\<open>test_udp\<close>: what \<open>udp_read\<close> meets on each attempt, the alarm or a datagram. The result is the timeouts set, and
  how it ends; \<open>None\<close> while it waits.\<close>

datatype attempt = Alarm | Reply "byte list"
datatype verdict = No_response | Checksums_off | Checksums_on

fun test_udp :: "nat \<Rightarrow> nat \<Rightarrow> attempt list \<Rightarrow> nat list \<times> verdict option" where
  "test_udp nsent timeout [] = ([timeout], None)"
| "test_udp nsent timeout (Reply ui # _) =
     ([timeout], Some (if take 2 (drop 26 ui) = [0, 0] then Checksums_off else Checksums_on))"
| "test_udp nsent timeout (Alarm # as) =
     (if nsent + 1 \<ge> 3 then ([timeout], Some No_response)
      else (case test_udp (nsent + 1) (timeout * 2) as of (ts, v) \<Rightarrow> (timeout # ts, v)))"

section \<open>Correctness\<close>

definition endpoints_ok :: "endpoints \<Rightarrow> bool" where
  "endpoints_ok e \<longleftrightarrow> length (local_addr e) = 4 \<and> length (dest_addr e) = 4 \<and> length (local_port e) = 2 \<and> length (dest_port e) = 2"

text \<open>The datagram as a list of its fields.\<close>

definition pseudo :: "endpoints \<Rightarrow> nat \<Rightarrow> byte list" where
  "pseudo e n = replicate 9 0 @ [IPPROTO_UDP] @ net16 (8 + n) @ local_addr e @ dest_addr e"

definition ports_len :: "endpoints \<Rightarrow> nat \<Rightarrow> byte list" where
  "ports_len e n = local_port e @ dest_port e @ net16 (8 + n)"

lemma length_net16 [simp]: "length (net16 n) = 2"
  by (simp add: net16_def)

lemma length4_cases: "length xs = 4 \<Longrightarrow> \<exists>a b c d. xs = [a, b, c, d]"
  by (simp add: numeral_eq_Suc length_Suc_conv) blast

lemma length2_cases: "length xs = 2 \<Longrightarrow> \<exists>a b. xs = [a, b]"
  by (simp add: numeral_eq_Suc length_Suc_conv) blast

lemma fill_udp_fields:
  assumes "endpoints_ok e" "length hdr = 28" "n = length data"
  shows "fill_udp e (hdr @ data) n = pseudo e n @ ports_len e n @ [0, 0] @ data"
proof -
  obtain a0 a1 a2 a3 where a: "local_addr e = [a0, a1, a2, a3]" using assms(1) length4_cases [of "local_addr e"] unfolding endpoints_ok_def by metis
  obtain b0 b1 b2 b3 where b: "dest_addr e = [b0, b1, b2, b3]" using assms(1) length4_cases [of "dest_addr e"] unfolding endpoints_ok_def by metis
  obtain p0 p1 where p: "local_port e = [p0, p1]" using assms(1) length2_cases [of "local_port e"] unfolding endpoints_ok_def by metis
  obtain q0 q1 where q: "dest_port e = [q0, q1]" using assms(1) length2_cases [of "dest_port e"] unfolding endpoints_ok_def by metis
  obtain l0 l1 where l: "net16 (8 + n) = [l0, l1]" by (simp add: net16_def)
  have z: "poke (hdr @ data) 0 (replicate 28 0) = replicate 28 0 @ data" using assms(2) by (simp add: poke_def)
  show ?thesis
    unfolding fill_udp_def Let_def z pseudo_def ports_len_def a b p q l by (simp add: poke_def eval_nat_numeral)
qed

lemma udp_write_fields:
  assumes "endpoints_ok e" "length hdr = 28" "n = length data"
  shows "udp_write e (hdr @ data) n =
    [0x45, 0] @ net16 (28 + n) @ [0, 0, 0, 0, TTL_OUT, IPPROTO_UDP] @ net16 (8 + n) @ local_addr e @ dest_addr e
      @ ports_len e n @ (if zerosum e then [0, 0] else store_le16 (udp_sum (pseudo e n @ ports_len e n @ [0, 0] @ data))) @ data"
proof -
  obtain a0 a1 a2 a3 where a: "local_addr e = [a0, a1, a2, a3]" using assms(1) length4_cases [of "local_addr e"] unfolding endpoints_ok_def by metis
  obtain b0 b1 b2 b3 where b: "dest_addr e = [b0, b1, b2, b3]" using assms(1) length4_cases [of "dest_addr e"] unfolding endpoints_ok_def by metis
  obtain p0 p1 where p: "local_port e = [p0, p1]" using assms(1) length2_cases [of "local_port e"] unfolding endpoints_ok_def by metis
  obtain q0 q1 where q: "dest_port e = [q0, q1]" using assms(1) length2_cases [of "dest_port e"] unfolding endpoints_ok_def by metis
  obtain l0 l1 where l: "net16 (8 + n) = [l0, l1]" by (simp add: net16_def)
  obtain t0 t1 where t: "net16 (n + 28) = [t0, t1]" by (simp add: net16_def)
  have all: "take (n + 28) (fill_udp e (hdr @ data) n) = fill_udp e (hdr @ data) n"
    unfolding fill_udp_fields [OF assms] pseudo_def ports_len_def a b p q l using assms(3) by simp
  define sm where "sm = udp_sum (pseudo e n @ ports_len e n @ [0, 0] @ data)"
  have sm: "udp_sum (fill_udp e (hdr @ data) n) = sm" unfolding fill_udp_fields [OF assms] sm_def ..
  obtain s0 s1 where s: "store_le16 sm = [s0, s1]" by (simp add: store_le16_def)
  have flat: "fill_udp e (hdr @ data) n = [0, 0, 0, 0, 0, 0, 0, 0, 0, IPPROTO_UDP, l0, l1, a0, a1, a2, a3, b0, b1, b2, b3, p0, p1, q0, q1, l0, l1, 0, 0] @ data"
    unfolding fill_udp_fields [OF assms] pseudo_def ports_len_def a b p q l by (simp add: eval_nat_numeral)
  have n: "28 + n = n + 28" by simp
  show ?thesis
    unfolding sm_def [symmetric] udp_write_def Let_def all sm s t n unfolding flat ports_len_def a b p q l
    using assms(3) by (simp add: poke_def)
qed

text \<open>A sum that came out as 0 is sent as 0xffff, which verifies as well.\<close>

lemma in_cksum_ffff:
  assumes "even (length pre)" "length pre + length suf \<le> 131070" "in_cksum (pre @ [0, 0] @ suf) = 0"
  shows "in_cksum (pre @ store_le16 0xffff @ suf) = 0"
proof -
  have e: "even (length (pre @ [0, 0 :: byte]))" "even (length (pre @ store_le16 0xffff))" using assms(1) by (simp_all add: store_le16_def)
  have z: "word_sum (pre @ [0, 0] @ suf) = word_sum pre + word_sum suf"
    using word_sum_append [OF e(1)] word_sum_append [OF assms(1)] by simp
  have f: "word_sum (pre @ store_le16 0xffff @ suf) = word_sum pre + word_sum suf + 65535"
    using word_sum_append [OF e(2)] word_sum_append [OF assms(1)] word_sum_store [of "0xffff"] by simp
  have small: "word_sum (pre @ [0, 0] @ suf) < 2 ^ 32" "word_sum (pre @ store_le16 0xffff @ suf) < 2 ^ 32"
    using assms(2) by (intro word_sum_small; simp add: store_le16_def)+
  have "(word_sum pre + word_sum suf) mod 65535 = 0" using assms(3) in_cksum_zero_iff [OF small(1)] z by simp
  then have "(word_sum pre + word_sum suf + 65535) mod 65535 = 0" by simp
  then show ?thesis using in_cksum_zero_iff [OF small(2)] f by simp
qed

lemma udp_sum_verifies:
  assumes "even (length pre)" "length pre + length suf \<le> 131070"
  shows "in_cksum (pre @ store_le16 (udp_sum (pre @ [0, 0] @ suf)) @ suf) = 0"
  using in_cksum_fill [OF assms] in_cksum_ffff [OF assms] by (simp add: udp_sum_def Let_def)

text \<open>The sum does not depend on the order of the 16-bit words: the pseudo header as RFC 768 lays it out.\<close>

definition rfc_pseudo :: "byte list \<Rightarrow> byte list" where
  "rfc_pseudo ip = take 4 (drop 12 ip) @ take 4 (drop 16 ip) @ [0, ip ! 9] @ take 2 (drop 24 ip)"

lemma word_sum_pseudo:
  assumes "endpoints_ok e"
  shows "word_sum (pseudo e n @ rest) = word_sum ((local_addr e @ dest_addr e @ [0, IPPROTO_UDP] @ net16 (8 + n)) @ rest)"
proof -
  obtain a0 a1 a2 a3 where a: "local_addr e = [a0, a1, a2, a3]" using assms(1) length4_cases [of "local_addr e"] unfolding endpoints_ok_def by metis
  obtain b0 b1 b2 b3 where b: "dest_addr e = [b0, b1, b2, b3]" using assms(1) length4_cases [of "dest_addr e"] unfolding endpoints_ok_def by metis
  obtain l0 l1 where l: "net16 (8 + n) = [l0, l1]" by (simp add: net16_def)
  have r: "replicate 9 (0 :: byte) = [0, 0, 0, 0, 0, 0, 0, 0, 0]" by (simp add: eval_nat_numeral)
  show ?thesis unfolding pseudo_def a b l r by simp
qed

lemma in_cksum_cong:
  assumes "word_sum a = word_sum b" "word_sum b < 2 ^ 32"
  shows "in_cksum a = in_cksum b"
  using in_cksum_sum [of a] in_cksum_sum [of b] assms by (simp add: word_unat_eq_iff)

lemma udp_write_layout:
  assumes "endpoints_ok e" "length hdr = 28" "n = length data"
  defines "ip \<equiv> udp_write e (hdr @ data) n"
  shows "length ip = 28 + n" "rfc_pseudo ip = local_addr e @ dest_addr e @ [0, IPPROTO_UDP] @ net16 (8 + n)"
    "drop 20 ip = ports_len e n @ (if zerosum e then [0, 0] else store_le16 (udp_sum (pseudo e n @ ports_len e n @ [0, 0] @ data))) @ data"
    "take 2 (drop 26 ip) = (if zerosum e then [0, 0] else store_le16 (udp_sum (pseudo e n @ ports_len e n @ [0, 0] @ data)))"
    "take 4 (drop 12 ip) = local_addr e \<and> take 4 (drop 16 ip) = dest_addr e \<and> drop 28 ip = data"
    "ip ! 0 = 0x45 \<and> ip ! 9 = IPPROTO_UDP"
proof -
  obtain a0 a1 a2 a3 where a: "local_addr e = [a0, a1, a2, a3]" using assms(1) length4_cases [of "local_addr e"] unfolding endpoints_ok_def by metis
  obtain b0 b1 b2 b3 where b: "dest_addr e = [b0, b1, b2, b3]" using assms(1) length4_cases [of "dest_addr e"] unfolding endpoints_ok_def by metis
  obtain p0 p1 where p: "local_port e = [p0, p1]" using assms(1) length2_cases [of "local_port e"] unfolding endpoints_ok_def by metis
  obtain q0 q1 where q: "dest_port e = [q0, q1]" using assms(1) length2_cases [of "dest_port e"] unfolding endpoints_ok_def by metis
  obtain l0 l1 where l: "net16 (8 + n) = [l0, l1]" by (simp add: net16_def)
  obtain t0 t1 where t: "net16 (28 + n) = [t0, t1]" by (simp add: net16_def)
  define sm where "sm = (if zerosum e then [0, 0] else store_le16 (udp_sum (pseudo e n @ ports_len e n @ [0, 0] @ data)))"
  obtain s0 s1 where s: "sm = [s0, s1]" by (cases "zerosum e") (simp_all add: sm_def store_le16_def)
  have pl: "ports_len e n = [p0, p1, q0, q1, l0, l1]" by (simp add: ports_len_def p q l)
  have ip: "ip = [0x45, 0, t0, t1, 0, 0, 0, 0, TTL_OUT, IPPROTO_UDP, l0, l1, a0, a1, a2, a3, b0, b1, b2, b3, p0, p1, q0, q1, l0, l1, s0, s1] @ data"
    unfolding ip_def udp_write_fields [OF assms(1-3)] unfolding sm_def [symmetric] unfolding s t l a b pl by simp
  show "length ip = 28 + n" using assms(3) by (simp add: ip)
  show "rfc_pseudo ip = local_addr e @ dest_addr e @ [0, IPPROTO_UDP] @ net16 (8 + n)"
    by (simp add: rfc_pseudo_def ip a b l)
  show "drop 20 ip = ports_len e n @ (if zerosum e then [0, 0] else store_le16 (udp_sum (pseudo e n @ ports_len e n @ [0, 0] @ data))) @ data"
    unfolding sm_def [symmetric] unfolding s pl by (simp add: ip)
  show "take 2 (drop 26 ip) = (if zerosum e then [0, 0] else store_le16 (udp_sum (pseudo e n @ ports_len e n @ [0, 0] @ data)))"
    unfolding sm_def [symmetric] s by (simp add: ip)
  show "take 4 (drop 12 ip) = local_addr e \<and> take 4 (drop 16 ip) = dest_addr e \<and> drop 28 ip = data"
    by (simp add: ip a b)
  show "ip ! 0 = 0x45 \<and> ip ! 9 = IPPROTO_UDP" by (simp add: ip)
qed

lemma udp_sum_nonzero: "store_le16 (udp_sum ui) \<noteq> [0, 0]"
proof
  assume "store_le16 (udp_sum ui) = [0, 0]"
  then have "word_sum (store_le16 (udp_sum ui)) = 0" by simp
  then have "unat (udp_sum ui) = 0" by (simp only: word_sum_store)
  then have "udp_sum ui = 0" by (simp only: unat_eq_zero)
  then show False by (simp add: udp_sum_def Let_def split: if_splits)
qed

section \<open>The datagram on its way\<close>

text \<open>What the kernel does with a datagram from a raw socket with \<open>IP_HDRINCL\<close>: it may fill in the identification, and it
  stores the checksum of the IP header.\<close>

definition ip_output_fills :: "byte list \<Rightarrow> byte list \<Rightarrow> bool" where
  "ip_output_fills ip sent \<longleftrightarrow> length sent = length ip \<and> in_cksum (take 20 sent) = 0
     \<and> (\<forall>i<length ip. i \<notin> {4, 5, 10, 11} \<longrightarrow> sent ! i = ip ! i)"

text \<open>A frame of a link: 4 bytes for \<open>DLT_NULL\<close>, 14 with the type \<open>0x0800\<close> for Ethernet, 24 for SLIP and PPP.\<close>

definition link_header :: "int \<Rightarrow> byte list \<Rightarrow> bool" where
  "link_header datalink h \<longleftrightarrow> datalink = 0 \<and> length h = 4
     \<or> datalink = 1 \<and> length h = 14 \<and> drop 12 h = [8, 0]
     \<or> (datalink = 8 \<or> datalink = 9) \<and> length h = 24"

lemma udp_read_link: "link_header datalink h \<Longrightarrow> udp_read datalink (h @ pkt) = udp_check pkt (int (length pkt))"
  by (auto simp: link_header_def udp_read_def Let_def)

lemma size_t_small: "n < 2 ^ 64 \<Longrightarrow> size_t (int n) = n"
  by (simp add: size_t_def nat_mod_as_int [symmetric] flip: zmod_int)

lemma udp_check_sent:
  assumes len: "length ip = 28 + n" "n < 2 ^ 32" and h: "ip ! 0 = 0x45 \<and> ip ! 9 = IPPROTO_UDP" and f: "ip_output_fills ip sent"
  shows "udp_check sent (int (length sent)) = Datagram (poke sent 10 [0, 0])"
proof -
  have l: "length sent = 28 + n" "in_cksum (take 20 sent) = 0" "sent ! 0 = 0x45" "sent ! 9 = IPPROTO_UDP"
    using f h len(1) by (simp_all add: ip_output_fills_def)
  have s: "size_t (int (length sent)) = 28 + n" using size_t_small [of "28 + n"] l(1) len(2) by simp
  have hl: "4 * unat (take_bit 4 (0x45 :: byte)) = 20" "drop_bit 4 (0x45 :: byte) = 4" by code_simp+
  have st: "store_le16 0 = [0, 0]" by (simp add: store_le16_def)
  have p: "poke sent 10 [0, 0] ! 9 = sent ! 9" using l(1) by (simp add: poke_def nth_append)
  show ?thesis unfolding udp_check_def s Let_def l(3) hl l(2) st p l(4) using l(1) by simp
qed

text \<open>
  C25 The datagram \<open>udp_write\<close> sends carries the addresses and the data, and its UDP checksum is right: over the pseudo header
  of RFC 768, the UDP header and the data, \<open>in_cksum\<close> is 0; the field is never 0, which would mean no checksum, unless the
  option \<open>-0\<close> asks for that, and then it is 0. After the kernel has filled in the IP header, \<open>udp_read\<close> of a frame that carries the
  datagram, over any of the links it knows, returns it, with the checksum of the IP header set to 0.
\<close>

theorem udp_write_checked:
  assumes "endpoints_ok e" "length hdr = 28" "length data \<le> 65507"
    and "ip_output_fills (udp_write e (hdr @ data) (length data)) sent" "link_header datalink h"
  shows "(let ip = udp_write e (hdr @ data) (length data) in
      take 4 (drop 12 ip) = local_addr e \<and> take 4 (drop 16 ip) = dest_addr e \<and> drop 28 ip = data
      \<and> (if zerosum e then take 2 (drop 26 ip) = [0, 0]
         else in_cksum (rfc_pseudo ip @ drop 20 ip) = 0 \<and> take 2 (drop 26 ip) \<noteq> [0, 0]))
    \<and> udp_read datalink (h @ sent) = Datagram (poke sent 10 [0, 0])"
proof -
  let ?n = "length data" and ?ip = "udp_write e (hdr @ data) (length data)"
  note lay = udp_write_layout [OF assms(1,2) refl, of data]
  have sum: "in_cksum (rfc_pseudo ?ip @ drop 20 ?ip) = 0" if "\<not> zerosum e"
  proof -
    let ?pre = "pseudo e ?n @ ports_len e ?n"
    let ?m = "ports_len e ?n @ store_le16 (udp_sum (pseudo e ?n @ ports_len e ?n @ [0, 0] @ data)) @ data"
    have pre: "length ?pre = 26" using assms(1) by (simp add: pseudo_def ports_len_def endpoints_ok_def)
    have "in_cksum (?pre @ store_le16 (udp_sum (?pre @ [0, 0] @ data)) @ data) = 0"
      by (rule udp_sum_verifies) (use pre assms(3) in simp_all)
    then have v: "in_cksum (pseudo e ?n @ ?m) = 0" by simp
    have "rfc_pseudo ?ip @ drop 20 ?ip = (local_addr e @ dest_addr e @ [0, IPPROTO_UDP] @ net16 (8 + ?n)) @ ?m"
      unfolding lay(2,3) using that by simp
    then have w: "word_sum (rfc_pseudo ?ip @ drop 20 ?ip) = word_sum (pseudo e ?n @ ?m)"
      using word_sum_pseudo [OF assms(1)] by metis
    have "length (pseudo e ?n @ ?m) \<le> 131072" using pre assms(3) by (simp add: store_le16_def)
    then show ?thesis using in_cksum_cong [OF w word_sum_small] v by simp
  qed
  have "udp_read datalink (h @ sent) = Datagram (poke sent 10 [0, 0])"
    unfolding udp_read_link [OF assms(5)] by (rule udp_check_sent [OF lay(1) _ lay(6) assms(4)]) (use assms(3) in simp)
  then show ?thesis using lay(4,5) sum udp_sum_nonzero unfolding Let_def by auto
qed

text \<open>The DNS query to the address 192.0.2.53, with a kernel that fills in the checksum.\<close>

definition sample_endpoints :: endpoints where
  "sample_endpoints = \<lparr>local_addr = [192, 0, 2, 1], dest_addr = [192, 0, 2, 53], local_port = [4, 210], dest_port = [0, 53], zerosum = False\<rparr>"

definition with_sum :: "byte list \<Rightarrow> byte list" where
  "with_sum ip = take 10 ip @ store_le16 (in_cksum (take 10 ip @ [0, 0] @ take 8 (drop 12 ip))) @ drop 12 ip"

lemma with_sum_fills:
  assumes "28 \<le> length ip"
  shows "ip_output_fills ip (with_sum ip)"
proof -
  have st: "length (store_le16 w) = 2" for w by (simp add: store_le16_def)
  have t: "take 20 (with_sum ip) = take 10 ip @ store_le16 (in_cksum (take 10 ip @ [0, 0] @ take 8 (drop 12 ip))) @ take 8 (drop 12 ip)"
    using assms by (simp add: with_sum_def st)
  have "in_cksum (take 20 (with_sum ip)) = 0" unfolding t by (rule in_cksum_fill) (use assms in simp_all)
  moreover have "with_sum ip ! i = ip ! i" if "i < length ip" "i \<notin> {4, 5, 10, 11}" for i
  proof (cases "i < 10")
    case False
    then have "12 \<le> i" using that(2) by auto
    moreover from this have "\<not> i - 10 < 2" by arith
    ultimately show ?thesis using that(1) assms by (simp add: with_sum_def nth_append st)
  qed (use assms in \<open>simp add: with_sum_def nth_append\<close>)
  ultimately show ?thesis using assms by (simp add: ip_output_fills_def with_sum_def st)
qed

theorem udp_write_checked_witness:
  "let ip = udp_write sample_endpoints (replicate 28 0 @ dns_query) (length dns_query) in
   in_cksum (rfc_pseudo ip @ drop 20 ip) = 0
   \<and> udp_read 1 (replicate 12 0 @ [8, 0] @ with_sum ip) = Datagram (poke (with_sum ip) 10 [0, 0])"
proof -
  have e: "endpoints_ok sample_endpoints" "\<not> zerosum sample_endpoints" by (simp_all add: endpoints_ok_def sample_endpoints_def)
  have d: "length dns_query \<le> 65507" by (simp add: dns_query_def)
  have len: "length (udp_write sample_endpoints (replicate 28 0 @ dns_query) (length dns_query)) = 28 + length dns_query"
    by (rule udp_write_layout(1) [OF e(1) _ refl]) simp
  have f: "ip_output_fills (udp_write sample_endpoints (replicate 28 0 @ dns_query) (length dns_query))
      (with_sum (udp_write sample_endpoints (replicate 28 0 @ dns_query) (length dns_query)))"
    by (rule with_sum_fills) (simp add: len)
  have h: "link_header 1 (replicate 12 0 @ [8, 0])" by (simp add: link_header_def)
  show ?thesis using udp_write_checked [OF e(1) length_replicate d f h] e(2) by (simp add: Let_def)
qed

text \<open>The name in the query: labels with their lengths, up to the empty one.\<close>

fun labels :: "byte list \<Rightarrow> byte list list" where
  "labels [] = []"
| "labels (l # bs) = (if l = 0 then [] else take (unat l) bs # labels (drop (unat l) bs))"

lemma dns_query_name: "map (map (\<lambda>b. char_of (unat b))) (labels (drop 12 dns_query)) = [''a'', ''root-servers'', ''net'']"
  "length dns_query = 36"
  by (code_simp)+

text \<open>The query ends after at most three attempts, with timeouts of 3, 6 and 12 seconds.\<close>

lemma test_udp_backoff:
  "fst (test_udp 0 3 as) = take (Suc (min 2 (length (takeWhile (\<lambda>a. a = Alarm) as)))) [3, 6, 12]
   \<and> (snd (test_udp 0 3 as) = Some No_response \<longleftrightarrow> 3 \<le> length (takeWhile (\<lambda>a. a = Alarm) as))"
proof -
  consider "as = []" | u r where "as = Reply u # r" | "as = [Alarm]" | u r where "as = Alarm # Reply u # r"
    | "as = [Alarm, Alarm]" | u r where "as = Alarm # Alarm # Reply u # r" | r where "as = Alarm # Alarm # Alarm # r"
    by (metis attempt.exhaust list.exhaust)
  then show ?thesis by cases (simp_all add: numeral_eq_Suc)
qed

text \<open>A frame shorter than its link header passes the length test, as \<open>len - 4\<close> is negative and compared as a \<open>size_t\<close>.\<close>

lemma short_frame_out_of_bounds: "length ptr < 4 \<Longrightarrow> udp_read 0 ptr = Out_of_bounds"
proof -
  assume s: "length ptr < 4"
  have "(int (length ptr) - 4) mod 2 ^ 64 = int (length ptr) - 4 + 2 ^ 64"
    using s by (intro mod_pos_pos_trivial [THEN trans [OF mod_add_self2 [symmetric]]]) simp_all
  then have "\<not> size_t (int (length ptr) - 4) < 28" using s by (simp add: size_t_def)
  then show ?thesis using s by (simp add: udp_read_def udp_check_def Let_def)
qed

end
