(* ===== verification/Icmpd.thy ===== *)
theory Icmpd
  imports Traceroute Select_Server
begin

text \<open>
  \<open>icmpd/\<close>: the daemon that reads all ICMP errors from raw sockets and passes each to the clients that
  have registered a UDP socket bound to the port the error quotes. The functions of one round of its \<open>select\<close>
  loop take what the kernel returned as arguments. A field read behind the bytes received is undefined (\<open>None\<close>).
\<close>

section \<open>The table of clients\<close>

record icmpd_client =
  connfd :: int
  family :: int
  lport :: int                  \<comment> \<open>in network byte order\<close>

record icmpd_err =
  icmpd_errno :: errno
  icmpd_type :: byte
  icmpd_code :: byte
  icmpd_dest :: sockaddr

record icmpd =
  clients :: "icmpd_client list"
  maxi :: int
  maxfd :: int
  allset :: "int set"
  sent :: "(int \<times> icmpd_err) list"     \<comment> \<open>written to the clients\<close>
  answers :: "(int \<times> char) list"       \<comment> \<open>\<open>1\<close> or \<open>0\<close>, to a registration\<close>
  closed :: "int list"

definition icmpd_start :: "int \<Rightarrow> int \<Rightarrow> int \<Rightarrow> icmpd" where
  "icmpd_start fd4 fd6 lfd =
     \<lparr>clients = replicate FD_SETSIZE \<lparr>connfd = -1, family = 0, lport = 0\<rparr>, maxi = -1, maxfd = max (max fd4 fd6) lfd,
      allset = {fd4, fd6, lfd}, sent = [], answers = [], closed = []\<rparr>"

section \<open>Connections\<close>

text \<open>\<open>family\<close> and \<open>lport\<close> of the slot are not set here.\<close>

definition readable_listen :: "int \<Rightarrow> icmpd \<Rightarrow> icmpd" where
  "readable_listen fd s =
     (case free_slot (map connfd (clients s)) of
        None \<Rightarrow> s\<lparr>closed := closed s @ [fd]\<rparr>
      | Some i \<Rightarrow>
          s\<lparr>clients := (clients s)[i := (clients s ! i)\<lparr>connfd := fd\<rparr>], allset := insert fd (allset s),
            maxfd := (if fd > maxfd s then fd else maxfd s), maxi := (if int i > maxi s then int i else maxi s)\<rparr>)"

text \<open>What \<open>Read_fd\<close> returns: end of file, data without a descriptor, or a descriptor with what \<open>getsockname\<close> and
  \<open>sock_bind_wild\<close> return for it.\<close>

datatype passed = Eof_conn | No_descriptor | Descriptor "sockaddr option" int

definition drop_client :: "nat \<Rightarrow> icmpd \<Rightarrow> icmpd" where
  "drop_client i s =
     (let fd = connfd (clients s ! i)
      in s\<lparr>clients := (clients s)[i := (clients s ! i)\<lparr>connfd := -1\<rparr>], allset := allset s - {fd}, closed := closed s @ [fd]\<rparr>)"

definition answer_client :: "nat \<Rightarrow> char \<Rightarrow> icmpd \<Rightarrow> icmpd" where
  "answer_client i c s = s\<lparr>answers := answers s @ [(connfd (clients s ! i), c)]\<rparr>"

definition set_port :: "nat \<Rightarrow> int \<Rightarrow> int \<Rightarrow> icmpd \<Rightarrow> icmpd" where
  "set_port i fam port s = s\<lparr>clients := (clients s)[i := (clients s ! i)\<lparr>family := fam, lport := port\<rparr>]\<rparr>"

definition readable_conn :: "nat \<Rightarrow> passed \<Rightarrow> icmpd \<Rightarrow> icmpd" where
  "readable_conn i p s =
     (case p of
        Eof_conn \<Rightarrow> drop_client i s
      | No_descriptor \<Rightarrow> drop_client i (answer_client i CHR ''0'' s)
      | Descriptor None bound \<Rightarrow> drop_client i (answer_client i CHR ''0'' s)
      | Descriptor (Some ss) bound \<Rightarrow>
          (if sock_get_port ss = 0 then
             (let s' = set_port i (sa_family ss) bound s
              in if bound \<le> 0 then drop_client i (answer_client i CHR ''0'' s') else answer_client i CHR ''1'' s')
           else answer_client i CHR ''1'' (set_port i (sa_family ss) (sock_get_port ss) s)))"

section \<open>ICMP errors\<close>

text \<open>The loop that looks for the clients of a port.\<close>

definition notify :: "int \<Rightarrow> int \<Rightarrow> icmpd_err \<Rightarrow> icmpd \<Rightarrow> icmpd" where
  "notify fam sport err s =
     s\<lparr>sent := sent s @ map (\<lambda>c. (connfd c, err))
        (filter (\<lambda>c. connfd c \<ge> 0 \<and> family c = fam \<and> lport c = sport) (take (nat (maxi s + 1)) (clients s)))\<rparr>"

definition icmp_errno4 :: "byte \<Rightarrow> byte \<Rightarrow> errno" where
  "icmp_errno4 ty code =
     (if ty = 3 then (if code = 3 then ECONNREFUSED else if code = 4 then EMSGSIZE else EHOSTUNREACH)
      else EHOSTUNREACH)"

definition icmp_errno6 :: "byte \<Rightarrow> byte \<Rightarrow> errno" where
  "icmp_errno6 ty code =
     (let e = (if ty = 1 \<and> code = 4 then ECONNREFUSED else EHOSTUNREACH)
      in if ty = 2 then EMSGSIZE else e)"

definition readable_v4 :: "byte list \<Rightarrow> icmpd \<Rightarrow> icmpd outcome option" where
  "readable_v4 buf s =
     (if buf = [] then None
      else
        let hlen1 = ip_header_length (buf ! 0); icmp = drop hlen1 buf; icmplen = int (length buf) - int hlen1
        in if icmplen < 8 then Some (Die s)
           else if icmp ! 0 = 3 \<or> icmp ! 0 = 11 \<or> icmp ! 0 = 4 then
             (if icmplen < 8 + 20 + 8 then Some (Die s)
              else
                let hip = drop 8 icmp; hlen2 = ip_header_length (hip ! 0); udp = drop hlen2 hip
                in if hip ! 9 = 17 then
                     (if length udp < 4 then None
                      else Some (Go (notify AF_INET (uint (le16 (udp ! 0) (udp ! 1)))
                        \<lparr>icmpd_errno = icmp_errno4 (icmp ! 0) (icmp ! 1), icmpd_type = icmp ! 0, icmpd_code = icmp ! 1,
                         icmpd_dest = Sockaddr_in (le16 (udp ! 2) (udp ! 3)) (take 4 (drop 16 hip))\<rparr> s)))
                   else Some (Go s))
           else Some (Go s))"

text \<open>\<open>readable_v6\<close> asks for 8 bytes of the quoted header, and prints its addresses, behind them.\<close>

definition readable_v6 :: "byte list \<Rightarrow> icmpd \<Rightarrow> icmpd outcome option" where
  "readable_v6 buf s =
     (if length buf < 8 then Some (Die s)
      else if buf ! 0 = 1 \<or> buf ! 0 = 2 \<or> buf ! 0 = 3 then
        (if length buf < 8 + 8 then Some (Die s)
         else if length buf < 8 + 40 then None
         else
           let hip6 = drop 8 buf; udp = drop 40 hip6
           in if hip6 ! 6 = 17 then
                (if length udp < 4 then None
                 else Some (Go (notify AF_INET6 (uint (le16 (udp ! 0) (udp ! 1)))
                   \<lparr>icmpd_errno = icmp_errno6 (buf ! 0) (buf ! 1), icmpd_type = buf ! 0, icmpd_code = buf ! 1,
                    icmpd_dest = Sockaddr_in6 (le16 (udp ! 2) (udp ! 3)) (take 16 (drop 24 hip6))\<rparr> s)))
              else Some (Go s))
      else Some (Go s))"

section \<open>The loop\<close>

text \<open>What \<open>select\<close> reports and the calls after it return; for a connection by its descriptor.\<close>

record selected =
  on_listen :: "int option"
  on_v4 :: "byte list option"
  on_v6 :: "byte list option"
  on_conn :: "int \<Rightarrow> passed option"

fun check_conns :: "(int \<Rightarrow> passed option) \<Rightarrow> nat list \<Rightarrow> int \<Rightarrow> icmpd \<Rightarrow> icmpd" where
  "check_conns r [] nsel s = s"
| "check_conns r (i # is) nsel s =
     (let sockfd = connfd (clients s ! i) in
      if sockfd < 0 then check_conns r is nsel s
      else case r sockfd of
        None \<Rightarrow> check_conns r is nsel s
      | Some p \<Rightarrow>
          let s' = readable_conn i p s
          in if nsel - 1 \<le> 0 then s' else check_conns r is (nsel - 1) s')"

text \<open>The parts of the loop before it, each followed by \<open>if (... <= 0) continue\<close>.\<close>

fun stages :: "(icmpd \<Rightarrow> icmpd outcome option) option list \<Rightarrow> (int \<Rightarrow> icmpd \<Rightarrow> icmpd) \<Rightarrow> int \<Rightarrow> icmpd \<Rightarrow> icmpd outcome option" where
  "stages [] rest nsel s = Some (Go (rest nsel s))"
| "stages (None # fs) rest nsel s = stages fs rest nsel s"
| "stages (Some f # fs) rest nsel s =
     (case f s of
        Some (Go s') \<Rightarrow> if nsel - 1 \<le> 0 then Some (Go s') else stages fs rest (nsel - 1) s'
      | r \<Rightarrow> r)"

definition icmpd_round :: "selected \<Rightarrow> int \<Rightarrow> icmpd \<Rightarrow> icmpd outcome option" where
  "icmpd_round r nsel s =
     stages [map_option (\<lambda>fd s. Some (Go (readable_listen fd s))) (on_listen r), map_option readable_v4 (on_v4 r), map_option readable_v6 (on_v6 r)]
       (\<lambda>n s. check_conns (on_conn r) [0..<nat (maxi s + 1)] n s) nsel s"

text \<open>The reachable states; a new connection has a descriptor that is not in use.\<close>

inductive icmpd_reach :: "int \<Rightarrow> int \<Rightarrow> int \<Rightarrow> icmpd \<Rightarrow> bool" for fd4 fd6 lfd where
  start: "icmpd_reach fd4 fd6 lfd (icmpd_start fd4 fd6 lfd)"
| round: "icmpd_reach fd4 fd6 lfd s \<Longrightarrow> (\<forall>fd. on_listen r = Some fd \<longrightarrow> 0 \<le> fd \<and> fd \<notin> allset s) \<Longrightarrow>
    icmpd_round r nsel s = Some (Go t) \<Longrightarrow> icmpd_reach fd4 fd6 lfd t"

section \<open>The table in every reachable state\<close>

definition connected :: "icmpd \<Rightarrow> int set" where
  "connected s = {fd \<in> connfd ` set (clients s). fd \<ge> 0}"

definition table_ok :: "int set \<Rightarrow> icmpd \<Rightarrow> bool" where
  "table_ok F s \<longleftrightarrow> length (clients s) = FD_SETSIZE \<and> -1 \<le> maxi s \<and> maxi s < int FD_SETSIZE
     \<and> (\<forall>i<FD_SETSIZE. connfd (clients s ! i) \<ge> 0 \<longrightarrow> int i \<le> maxi s)
     \<and> distinct (filter (\<lambda>fd. fd \<ge> 0) (map connfd (clients s)))
     \<and> connected s \<inter> F = {} \<and> allset s = F \<union> connected s"

lemma remove_slot:
  assumes i: "i < length xs" "P (xs ! i)" "\<not> P y" and d: "distinct (filter P xs)"
  shows "distinct (filter P (xs[i := y]))" "{x \<in> set (xs[i := y]). P x} = {x \<in> set xs. P x} - {xs ! i}"
proof -
  have xs: "xs = take i xs @ xs ! i # drop (Suc i) xs" using i(1) by (rule id_take_nth_drop)
  have d': "distinct (filter P (take i xs) @ xs ! i # filter P (drop (Suc i) xs))"
    using d i(2) by (subst (asm) xs) simp
  have f: "filter P (xs[i := y]) = filter P (take i xs) @ filter P (drop (Suc i) xs)" using i by (simp add: upd_conv_take_nth_drop)
  show "distinct (filter P (xs[i := y]))" using d' by (simp add: f)
  have "{x \<in> set (xs[i := y]). P x} = set (filter P (take i xs) @ filter P (drop (Suc i) xs))"
    unfolding f [symmetric] by auto
  also have "\<dots> = set (filter P xs) - {xs ! i}" using d' i(2) by (subst (3) xs) auto
  finally show "{x \<in> set (xs[i := y]). P x} = {x \<in> set xs. P x} - {xs ! i}" by auto
qed

lemma connected_cl: "connected s = {fd \<in> set (map connfd (clients s)). fd \<ge> 0}"
  by (simp add: connected_def)

lemma map_connfd_same: "connfd c = connfd (xs ! i) \<Longrightarrow> map connfd (xs[i := c]) = map connfd xs"
  by (cases "i < length xs") (simp_all add: map_update list_update_same_conv list_update_beyond)

text \<open>Only the connection numbers of the slots matter for the table.\<close>

lemma table_cong:
  assumes "map connfd (clients t) = map connfd (clients s)" "maxi t = maxi s" "allset t = allset s"
  shows "table_ok F t = table_ok F s"
proof -
  have len: "length (clients t) = length (clients s)" using map_eq_imp_length_eq [OF assms(1)] .
  have n: "connfd (clients t ! i) = connfd (clients s ! i)" if "i < length (clients s)" for i
    using that len arg_cong [OF assms(1), of "\<lambda>l. l ! i"] by simp
  show ?thesis unfolding table_ok_def connected_cl assms len using n by auto
qed

lemma table_answer: "table_ok F (answer_client i c s) = table_ok F s"
  by (rule table_cong) (simp_all add: answer_client_def)

lemma table_set_port: "table_ok F (set_port i fam p s) = table_ok F s"
  by (rule table_cong) (simp_all add: set_port_def map_connfd_same)

lemma table_notify: "table_ok F (notify fam p err s) = table_ok F s"
  by (rule table_cong) (simp_all add: notify_def)

lemma table_drop:
  assumes ok: "table_ok F s" and i: "i < FD_SETSIZE" "0 \<le> connfd (clients s ! i)"
  shows "table_ok F (drop_client i s)"
proof -
  have len: "length (clients s) = FD_SETSIZE" using ok by (simp add: table_ok_def)
  let ?cl = "map connfd (clients s)" and ?P = "\<lambda>fd :: int. fd \<ge> 0"
  have cl: "map connfd (clients (drop_client i s)) = ?cl[i := -1]" by (simp add: drop_client_def Let_def map_update)
  have d: "distinct (filter ?P ?cl)" using ok by (simp add: table_ok_def)
  have r: "distinct (filter ?P (?cl[i := -1]))" "{x \<in> set (?cl[i := -1]). ?P x} = {x \<in> set ?cl. ?P x} - {?cl ! i}"
    by (rule remove_slot; use i len d in simp)+
  have con: "connected (drop_client i s) = connected s - {connfd (clients s ! i)}"
    unfolding connected_cl cl r(2) using i len by simp
  have slots: "\<forall>j<FD_SETSIZE. connfd (clients (drop_client i s) ! j) \<ge> 0 \<longrightarrow> int j \<le> maxi s"
  proof (intro allI impI)
    fix j
    assume "j < FD_SETSIZE" "connfd (clients (drop_client i s) ! j) \<ge> 0"
    then show "int j \<le> maxi s"
      using ok len unfolding table_ok_def by (cases "j = i") (simp_all add: drop_client_def Let_def)
  qed
  have mem: "connfd (clients s ! i) \<in> connected s" using i len by (simp add: connected_def)
  have "allset (drop_client i s) = F \<union> connected (drop_client i s)" "connected (drop_client i s) \<inter> F = {}"
    using ok con mem unfolding table_ok_def by (auto simp: drop_client_def Let_def)
  then show ?thesis using ok len slots r(1) unfolding table_ok_def cl by (simp add: drop_client_def Let_def)
qed

lemma table_listen:
  assumes ok: "table_ok F s" and fd: "0 \<le> fd" "fd \<notin> allset s"
  shows "table_ok F (readable_listen fd s)"
proof (cases "free_slot (map connfd (clients s))")
  case None
  then show ?thesis using ok by (simp add: readable_listen_def table_ok_def connected_def)
next
  case (Some i)
  let ?cl = "map connfd (clients s)" and ?P = "\<lambda>fd :: int. fd \<ge> 0" and ?t = "readable_listen fd s"
  have len: "length (clients s) = FD_SETSIZE" using ok by (simp add: table_ok_def)
  have i: "i < length ?cl" "\<not> ?P (?cl ! i)" using free_slot_Some [OF Some] by auto
  have t: "?t = s\<lparr>clients := (clients s)[i := (clients s ! i)\<lparr>connfd := fd\<rparr>], allset := insert fd (allset s),
      maxfd := (if fd > maxfd s then fd else maxfd s), maxi := (if int i > maxi s then int i else maxi s)\<rparr>"
    using Some by (simp add: readable_listen_def)
  have cl: "map connfd (clients ?t) = ?cl[i := fd]" by (simp add: t map_update)
  have new: "fd \<notin> set ?cl" using ok fd unfolding table_ok_def connected_cl by auto
  have con: "connected ?t = insert fd (connected s)" unfolding connected_cl cl using set_update_hidden [of i ?cl ?P fd] i fd(1) by simp
  have "distinct (filter ?P ?cl)" using ok by (simp add: table_ok_def)
  then have d: "distinct (filter ?P (?cl[i := fd]))" by (rule distinct_filter_update [of i ?cl ?P fd, OF i new])
  have slots: "\<forall>j<FD_SETSIZE. connfd (clients ?t ! j) \<ge> 0 \<longrightarrow> int j \<le> maxi ?t"
    using ok len i unfolding table_ok_def t by (auto simp: nth_list_update)
  have "allset ?t = F \<union> connected ?t" "connected ?t \<inter> F = {}"
    using ok fd unfolding con table_ok_def by (auto simp: t)
  moreover have "- 1 \<le> maxi ?t \<and> maxi ?t < int FD_SETSIZE" using ok i(1) len by (auto simp: t table_ok_def)
  moreover have "length (clients ?t) = FD_SETSIZE" using len by (simp add: t)
  ultimately show ?thesis using slots d unfolding table_ok_def cl by blast
qed

lemma table_conn:
  assumes "table_ok F s" "i < FD_SETSIZE" "0 \<le> connfd (clients s ! i)"
  shows "table_ok F (readable_conn i p s)" "maxi (readable_conn i p s) = maxi s"
proof -
  have a: "table_ok F (drop_client i (answer_client i c s))" for c
    by (rule table_drop) (use assms table_answer in \<open>simp_all add: answer_client_def\<close>)
  have b: "table_ok F (drop_client i (answer_client i c (set_port i f q s)))" for c f q
  proof (rule table_drop)
    show "table_ok F (answer_client i c (set_port i f q s))" using assms(1) by (simp add: table_answer table_set_port)
    have "length (clients s) = FD_SETSIZE" using assms(1) by (simp add: table_ok_def)
    then show "0 \<le> connfd (clients (answer_client i c (set_port i f q s)) ! i)"
      using assms(2,3) by (simp add: answer_client_def set_port_def)
  qed (rule assms(2))
  show "table_ok F (readable_conn i p s)"
    using assms a b table_drop [OF assms]
    by (auto simp: readable_conn_def Let_def table_answer table_set_port split: passed.splits option.splits)
  show "maxi (readable_conn i p s) = maxi s"
    by (auto simp: readable_conn_def drop_client_def answer_client_def set_port_def Let_def split: passed.splits option.splits)
qed

lemma table_loop:
  "table_ok F s \<Longrightarrow> \<forall>i\<in>set is. i < FD_SETSIZE \<Longrightarrow> table_ok F (check_conns r is n s)"
proof (induction r "is" n s rule: check_conns.induct)
  case (2 r i "is" n s)
  show ?case
  proof (cases "connfd (clients s ! i) < 0 \<or> r (connfd (clients s ! i)) = None")
    case True
    then show ?thesis using 2 by (cases "connfd (clients s ! i) < 0") (simp_all add: Let_def)
  next
    case False
    then obtain p where p: "r (connfd (clients s ! i)) = Some p" by auto
    have "table_ok F (readable_conn i p s)" using False 2(4,5) table_conn(1) by simp
    then show ?thesis using 2(3) [OF refl _ p refl] 2(5) False p by (simp add: Let_def)
  qed
qed simp

lemma readable_v4_table: "table_ok F s \<Longrightarrow> readable_v4 buf s = Some (Go t) \<Longrightarrow> table_ok F t"
  by (auto simp: readable_v4_def Let_def table_notify split: if_splits)

lemma readable_v6_table: "table_ok F s \<Longrightarrow> readable_v6 buf s = Some (Go t) \<Longrightarrow> table_ok F t"
  by (auto simp: readable_v6_def Let_def table_notify split: if_splits)

lemma stages_table:
  assumes "\<And>f s t. Some f \<in> set fs \<Longrightarrow> table_ok F s \<Longrightarrow> f s = Some (Go t) \<Longrightarrow> table_ok F t"
    and "\<And>n s. table_ok F s \<Longrightarrow> table_ok F (rest n s)"
  shows "table_ok F s \<Longrightarrow> stages fs rest n s = Some (Go t) \<Longrightarrow> table_ok F t"
  using assms(1)
proof (induction fs arbitrary: n s)
  case Nil
  then show ?case using assms(2) by auto
next
  case (Cons g gs)
  show ?case
  proof (cases g)
    case None
    then show ?thesis using Cons.IH [of s n] Cons.prems by simp
  next
    case (Some f)
    then obtain s' where f: "f s = Some (Go s')" using Cons.prems(2) by (auto split: option.splits outcome.splits)
    then have s': "table_ok F s'" using Cons.prems(1,3) Some by (meson list.set_intros(1))
    show ?thesis
    proof (cases "n - 1 \<le> 0")
      case True
      then show ?thesis using Cons.prems(2) Some f s' by simp
    next
      case False
      have gs: "\<And>f s t. Some f \<in> set gs \<Longrightarrow> table_ok F s \<Longrightarrow> f s = Some (Go t) \<Longrightarrow> table_ok F t"
        using Cons.prems(3) by (meson list.set_intros(2))
      have "stages gs rest (n - 1) s' = Some (Go t)" using Cons.prems(2) Some f False by simp
      then show ?thesis by (rule Cons.IH [OF s' _ gs])
    qed
  qed
qed

lemma loop_table: "table_ok F s \<Longrightarrow> table_ok F (check_conns r [0..<nat (maxi s + 1)] n s)"
  by (rule table_loop) (auto simp: table_ok_def)

lemma round_table:
  assumes ok: "table_ok F s" and fd: "\<forall>fd. on_listen r = Some fd \<longrightarrow> 0 \<le> fd \<and> fd \<notin> allset s" and t: "icmpd_round r n s = Some (Go t)"
  shows "table_ok F t"
proof -
  let ?fs = "[map_option readable_v4 (on_v4 r), map_option readable_v6 (on_v6 r)]"
  let ?rest = "\<lambda>n s. check_conns (on_conn r) [0..<nat (maxi s + 1)] n s"
  have later: "table_ok F u" if "table_ok F s'" "stages ?fs ?rest m s' = Some (Go u)" for s' m u
    by (rule stages_table [OF _ _ that]) (auto intro: readable_v4_table readable_v6_table loop_table simp: map_option_case split: option.splits)
  show ?thesis
  proof (cases "on_listen r")
    case None
    then show ?thesis using later [OF ok] t by (simp add: icmpd_round_def)
  next
    case (Some fd')
    then have "table_ok F (readable_listen fd' s)" using table_listen [OF ok] fd by blast
    then show ?thesis using later t Some by (auto simp: icmpd_round_def split: if_splits)
  qed
qed

lemma start_table: "table_ok {fd4, fd6, lfd} (icmpd_start fd4 fd6 lfd)"
  by (auto simp: table_ok_def icmpd_start_def connected_def)

lemma reach_table: "icmpd_reach fd4 fd6 lfd s \<Longrightarrow> table_ok {fd4, fd6, lfd} s"
  by (induction rule: icmpd_reach.induct) (rule start_table, rule round_table)

section \<open>Who is told of an error\<close>

definition registered :: "int \<Rightarrow> int \<Rightarrow> icmpd \<Rightarrow> int list" where
  "registered fam port s = map connfd (filter (\<lambda>c. connfd c \<ge> 0 \<and> family c = fam \<and> lport c = port) (clients s))"

lemma registeredI:
  assumes "i < length (clients s)" "connfd (clients s ! i) = fd" "0 \<le> fd" "family (clients s ! i) = fam" "lport (clients s ! i) = port"
  shows "fd \<in> set (registered fam port s)"
proof -
  have "clients s ! i \<in> set (filter (\<lambda>c. connfd c \<ge> 0 \<and> family c = fam \<and> lport c = port) (clients s))" using assms by simp
  then have "connfd (clients s ! i) \<in> set (registered fam port s)" unfolding registered_def set_map by (rule imageI)
  then show ?thesis using assms(2) by simp
qed

text \<open>The loop up to \<open>maxi\<close> reaches every slot in use.\<close>

lemma notify_all:
  assumes "table_ok F s"
  shows "notify fam port err s = s\<lparr>sent := sent s @ map (\<lambda>fd. (fd, err)) (registered fam port s)\<rparr>"
proof -
  let ?P = "\<lambda>c. connfd c \<ge> 0 \<and> family c = fam \<and> lport c = port" and ?n = "nat (maxi s + 1)"
  have b: "\<forall>i<length (map connfd (clients s)). map connfd (clients s) ! i \<ge> 0 \<longrightarrow> i < ?n"
    using assms unfolding table_ok_def by auto
  have "filter (\<lambda>fd. fd \<ge> 0) (map connfd (drop ?n (clients s))) = []"
    using filter_beyond [OF b] by (simp add: drop_map)
  then have "filter ?P (drop ?n (clients s)) = []" by (auto simp: filter_empty_conv)
  then have "filter ?P (take ?n (clients s)) = filter ?P (take ?n (clients s) @ drop ?n (clients s))"
    unfolding filter_append by simp
  then have "filter ?P (take ?n (clients s)) = filter ?P (clients s)" by (simp only: append_take_drop_id)
  then show ?thesis by (simp add: notify_def registered_def comp_def)
qed

lemma registered_distinct:
  assumes "table_ok F s"
  shows "distinct (registered fam port s)"
proof -
  have "distinct (map connfd (filter (\<lambda>c. connfd c \<ge> 0) (clients s)))"
    using assms by (simp add: table_ok_def filter_map comp_def)
  then have "distinct (map connfd (filter (\<lambda>c. family c = fam \<and> lport c = port) (filter (\<lambda>c. connfd c \<ge> 0) (clients s))))"
    by (rule distinct_map_filter)
  then show ?thesis by (simp only: registered_def filter_filter)
qed

definition icmp_err4 :: "byte \<Rightarrow> byte \<Rightarrow> byte list \<Rightarrow> byte list \<Rightarrow> icmpd_err" where
  "icmp_err4 ty cd inner udp = \<lparr>icmpd_errno = icmp_errno4 ty cd, icmpd_type = ty, icmpd_code = cd,
     icmpd_dest = Sockaddr_in (le16 (udp ! 2) (udp ! 3)) (take 4 (drop 16 inner))\<rparr>"

definition icmp_err6 :: "byte \<Rightarrow> byte \<Rightarrow> byte list \<Rightarrow> byte list \<Rightarrow> icmpd_err" where
  "icmp_err6 ty cd inner udp = \<lparr>icmpd_errno = icmp_errno6 ty cd, icmpd_type = ty, icmpd_code = cd,
     icmpd_dest = Sockaddr_in6 (le16 (udp ! 2) (udp ! 3)) (take 16 (drop 24 inner))\<rparr>"

lemma readable_v4_error:
  assumes ip: "ipv4_header ip" and inner: "ipv4_header inner" and fill: "length fill = 6" and udp: "8 \<le> length udp"
    and proto: "inner ! 9 = 17" and ty: "ty \<in> {3, 4, 11}"
  shows "readable_v4 (ip @ icmp_error ty cd fill inner udp) s =
    Some (Go (notify AF_INET (uint (le16 (udp ! 0) (udp ! 1))) (icmp_err4 ty cd inner udp) s))"
proof -
  let ?buf = "ip @ icmp_error ty cd fill inner udp"
  have h: "?buf \<noteq> []" "?buf ! 0 = ip ! 0" "ip_header_length (ip ! 0) = length ip"
    using ip by (auto simp: ipv4_header_def nth_append icmp_error_def)
  obtain f1 f2 f3 f4 f5 f6 where f: "fill = [f1, f2, f3, f4, f5, f6]"
    using fill by (auto simp: length_Suc_conv numeral_eq_Suc)
  have icmp: "drop (length ip) ?buf = [ty, cd] @ fill @ inner @ udp" by (simp add: icmp_error_def)
  have b: "([ty, cd] @ fill @ inner @ udp) ! 0 = ty" "([ty, cd] @ fill @ inner @ udp) ! 1 = cd" by simp_all
  have hip: "drop 8 ([ty, cd] @ fill @ inner @ udp) = inner @ udp" by (simp add: f)
  have l: "20 \<le> length inner" using inner by (simp add: ipv4_header_def)
  have i: "(inner @ udp) ! 0 = inner ! 0" "(inner @ udp) ! 9 = inner ! 9" "ip_header_length (inner ! 0) = length inner"
    "take 4 (drop 16 (inner @ udp)) = take 4 (drop 16 inner)"
    using inner by (auto simp: ipv4_header_def nth_append)
  have u: "drop (length inner) (inner @ udp) = udp" by simp
  have len: "int (length ?buf) - int (length ip) = 8 + int (length inner) + int (length udp)"
    by (simp add: icmp_error_def f)
  have t: "ty = 3 \<or> ty = 11 \<or> ty = 4" using ty by auto
  have n: "\<not> 8 + int (length inner) + int (length udp) < 8" "\<not> 8 + int (length inner) + int (length udp) < 8 + 20 + 8" "\<not> length udp < 4"
    using l udp by linarith+
  show ?thesis
    unfolding readable_v4_def Let_def h(2,3) icmp b hip i(1-3) u len i(4) proto icmp_err4_def
    using h(1) n t by simp
qed

lemma readable_v6_error:
  assumes inner: "length inner = 40" and fill: "length fill = 6" and udp: "8 \<le> length udp" and proto: "inner ! 6 = 17" and ty: "ty \<in> {1, 2, 3}"
  shows "readable_v6 (icmp_error ty cd fill inner udp) s =
    Some (Go (notify AF_INET6 (uint (le16 (udp ! 0) (udp ! 1))) (icmp_err6 ty cd inner udp) s))"
proof -
  let ?buf = "icmp_error ty cd fill inner udp"
  obtain f1 f2 f3 f4 f5 f6 where f: "fill = [f1, f2, f3, f4, f5, f6]"
    using fill by (auto simp: length_Suc_conv numeral_eq_Suc)
  have b: "?buf ! 0 = ty" "?buf ! 1 = cd" by (simp_all add: icmp_error_def)
  have hip: "drop 8 ?buf = inner @ udp" by (simp add: icmp_error_def f)
  have i: "(inner @ udp) ! 6 = inner ! 6" "drop 40 (inner @ udp) = udp" "take 16 (drop 24 (inner @ udp)) = take 16 (drop 24 inner)"
    using inner by (simp_all add: nth_append)
  have len: "length ?buf = 48 + length udp" using inner by (simp add: icmp_error_def f)
  have t: "ty = 1 \<or> ty = 2 \<or> ty = 3" using ty by auto
  show ?thesis
    unfolding readable_v6_def Let_def hip b i(1,2) len i(3) proto icmp_err6_def using udp t by simp
qed


text \<open>A run: connection 6 passes a socket bound to the port 40000 (\<open>0x9c40\<close>, in memory \<open>0x409c\<close>).\<close>

definition sample_icmpd :: icmpd where
  "sample_icmpd = readable_conn 0 (Descriptor (Some (Sockaddr_in 0x409c [0, 0, 0, 0])) 0) (readable_listen 6 (icmpd_start 3 4 5))"

lemma sample_icmpd_clients:
  "clients sample_icmpd = \<lparr>connfd = 6, family = AF_INET, lport = 0x409c\<rparr> # replicate 1023 \<lparr>connfd = -1, family = 0, lport = 0\<rparr>"
  "sent sample_icmpd = []"
proof -
  let ?c = "\<lparr>connfd = -1, family = 0, lport = 0\<rparr>"
  have r: "replicate FD_SETSIZE ?c = ?c # replicate 1023 ?c" using replicate_Suc [of 1023 ?c] by simp
  have l: "clients (readable_listen 6 (icmpd_start 3 4 5)) = ?c\<lparr>connfd := 6\<rparr> # replicate 1023 ?c"
    by (simp add: readable_listen_def icmpd_start_def r)
  show "clients sample_icmpd = \<lparr>connfd = 6, family = AF_INET, lport = 0x409c\<rparr> # replicate 1023 ?c"
    by (simp add: sample_icmpd_def readable_conn_def sock_get_port_def answer_client_def set_port_def l)
  show "sent sample_icmpd = []"
    by (simp add: sample_icmpd_def readable_conn_def sock_get_port_def answer_client_def set_port_def readable_listen_def icmpd_start_def r)
qed

lemma sample_icmpd_reach: "icmpd_reach 3 4 5 sample_icmpd"
proof -
  let ?c = "\<lparr>connfd = -1, family = 0, lport = 0\<rparr>" and ?s = "readable_listen 6 (icmpd_start 3 4 5)"
  have r: "replicate FD_SETSIZE ?c = ?c # replicate 1023 ?c" using replicate_Suc [of 1023 ?c] by simp
  have l: "connfd (clients ?s ! 0) = 6" "maxi ?s = 0" by (simp_all add: readable_listen_def icmpd_start_def r)
  have a: "icmpd_reach 3 4 5 ?s"
    by (rule icmpd_reach.round [OF icmpd_reach.start, where r = "\<lparr>on_listen = Some 6, on_v4 = None, on_v6 = None, on_conn = (\<lambda>_. None)\<rparr>" and nsel = 1])
      (simp_all add: icmpd_round_def icmpd_start_def)
  show ?thesis
    by (rule icmpd_reach.round [OF a, where r = "\<lparr>on_listen = None, on_v4 = None, on_v6 = None,
          on_conn = (\<lambda>fd. if fd = 6 then Some (Descriptor (Some (Sockaddr_in 0x409c [0, 0, 0, 0])) 0) else None)\<rparr>" and nsel = 1])
      (simp_all add: icmpd_round_def l sample_icmpd_def)
qed


text \<open>Which clients are registered: after a registration the slot holds the family and the port of the socket passed.\<close>

lemma registration:
  assumes "i < length (clients s)" "0 \<le> connfd (clients s ! i)" "0 < port"
    and "sock_get_port ss = port \<or> sock_get_port ss = 0 \<and> bound = port"
  shows "connfd (clients s ! i) \<in> set (registered (sa_family ss) port (readable_conn i (Descriptor (Some ss) bound) s))"
    "answers (readable_conn i (Descriptor (Some ss) bound) s) = answers s @ [(connfd (clients s ! i), CHR ''1'')]"
proof -
  let ?t = "readable_conn i (Descriptor (Some ss) bound) s"
  have t: "?t = answer_client i CHR ''1'' (set_port i (sa_family ss) port s)"
    using assms(3,4) by (auto simp: readable_conn_def Let_def)
  show "connfd (clients s ! i) \<in> set (registered (sa_family ss) port ?t)"
    by (rule registeredI [of i]) (use assms(1,2) in \<open>simp_all add: t answer_client_def set_port_def\<close>)
  show "answers ?t = answers s @ [(connfd (clients s ! i), CHR ''1'')]"
    using assms(1) by (simp add: t answer_client_def set_port_def)
qed

text \<open>The slot of a client that left keeps its port: the next connection is registered for it without having asked.\<close>

lemma stale_registration:
  assumes "i < length (clients s)" "0 \<le> connfd (clients s ! i)" "\<forall>j<i. 0 \<le> connfd (clients s ! j)" "0 \<le> fd"
  defines "t \<equiv> readable_listen fd (readable_conn i Eof_conn s)"
  shows "fd \<in> set (registered (family (clients s ! i)) (lport (clients s ! i)) t)" "answers t = answers s"
proof -
  let ?u = "drop_client i s"
  have u: "clients ?u = (clients s)[i := (clients s ! i)\<lparr>connfd := -1\<rparr>]" by (simp add: drop_client_def Let_def)
  have "\<not> (\<forall>c\<in>set (map connfd (clients ?u)). c \<ge> 0)"
  proof -
    have "(clients s ! i)\<lparr>connfd := -1\<rparr> \<in> set (clients ?u)" unfolding u using assms(1) by (rule set_update_memI)
    then show ?thesis by force
  qed
  then obtain k where k: "free_slot (map connfd (clients ?u)) = Some k" using free_slot_None by fastforce
  have "k = i"
  proof -
    have k': "k < length (clients s)" "connfd (clients ?u ! k) < 0" "\<forall>j<k. 0 \<le> connfd (clients ?u ! j)"
      using free_slot_Some [OF k] by (auto simp: u)
    have "\<not> k < i" using k'(2) assms(3) by (auto simp: u)
    moreover have "\<not> i < k" using k'(3) assms(1) by (auto simp: u)
    ultimately show ?thesis by simp
  qed
  then have t: "clients t ! i = (clients s ! i)\<lparr>connfd := fd\<rparr>" "i < length (clients t)" "answers t = answers ?u"
    using k assms(1) by (simp_all add: t_def readable_conn_def readable_listen_def u)
  then show "answers t = answers s" by (simp add: drop_client_def Let_def)
  show "fd \<in> set (registered (family (clients s ! i)) (lport (clients s ! i)) t)"
    by (rule registeredI [of i]) (use t assms(4) in simp_all)
qed

text \<open>The length tests let through packets whose quoted headers are read behind the bytes received.\<close>

lemma v6_reads_behind: "16 \<le> length buf \<Longrightarrow> length buf < 48 \<Longrightarrow> buf ! 0 \<in> {1, 2, 3} \<Longrightarrow> readable_v6 buf s = None"
  by (auto simp: readable_v6_def)

end
