(* ===== verification/Sigio_Echo.thy ===== *)
theory Sigio_Echo
  imports Sockaddr Thread_Pool
begin

text \<open>
  \<open>sigio/dgecho01.c\<close>: the UDP echo server whose signal handler reads the datagrams into a ring of \<open>QSIZE\<close> buffers,
  from which the main loop sends them back. The server is a step relation over arrivals, runs of the handler
  and the steps of the main loop; a run of the handler is one step, as the signal is blocked in it. Between
  \<open>sigprocmask\<close> calls that unblock the signal it can run between any two steps of the main loop. The ring keeps the
  contract \<open>fifo\<close> of a queue.
\<close>

section \<open>The queue of datagrams\<close>

abbreviation (input) QSIZE :: nat where "QSIZE \<equiv> 8"
abbreviation (input) MAXDG :: nat where "MAXDG \<equiv> 4096"

type_synonym datagram = "byte list \<times> sockaddr"

record dgq =
  dg :: "datagram list"
  dgput :: nat
  nqueue :: nat

text \<open>\<open>recvfrom\<close> into the buffer at \<open>iput\<close>; a longer datagram is cut.\<close>

definition cut :: "datagram \<Rightarrow> datagram" where
  "cut d = (take MAXDG (fst d), snd d)"

definition store_dg :: "datagram \<Rightarrow> dgq \<Rightarrow> dgq" where
  "store_dg d q = q\<lparr>dg := (dg q)[dgput q := d], nqueue := nqueue q + 1, dgput := (if dgput q + 1 \<ge> QSIZE then 0 else dgput q + 1)\<rparr>"

text \<open>The loop of \<open>sig_io\<close> over the datagrams in the socket: the number read, \<open>None\<close> for \<open>receive overflow\<close>.\<close>

fun sig_io_loop :: "datagram list \<Rightarrow> nat \<Rightarrow> dgq \<Rightarrow> (nat \<times> dgq) option" where
  "sig_io_loop [] nread q = (if nqueue q \<ge> QSIZE then None else Some (nread, q))"
| "sig_io_loop (d # ds) nread q = (if nqueue q \<ge> QSIZE then None else sig_io_loop ds (nread + 1) (store_dg (cut d) q))"

section \<open>The server\<close>

text \<open>The main loop: before the test of \<open>nqueue\<close> (signal blocked), before \<open>Sendto\<close>, before \<open>++iget\<close>, before it blocks the signal.\<close>

datatype dgplace = Testing | Sending | Sent | Moved

record dgserver =
  queue :: dgq
  dgget :: nat
  place :: dgplace
  socket :: "datagram list"
  sigio :: bool                    \<comment> \<open>pending\<close>
  cntread :: "nat \<Rightarrow> nat"
  overflow :: bool
  arrived :: "datagram list"
  echoed :: "datagram list"

definition dgecho_start :: "datagram list \<Rightarrow> dgserver" where
  "dgecho_start bufs = \<lparr>queue = \<lparr>dg = bufs, dgput = 0, nqueue = 0\<rparr>, dgget = 0, place = Testing, socket = [], sigio = False,
     cntread = (\<lambda>_. 0), overflow = False, arrived = [], echoed = []\<rparr>"

definition unblocked :: "dgserver \<Rightarrow> bool" where
  "unblocked s \<longleftrightarrow> (case place s of Testing \<Rightarrow> nqueue (queue s) = 0 | _ \<Rightarrow> True)"

definition sig_io :: "bool \<Rightarrow> dgserver \<Rightarrow> dgserver" where
  "sig_io again s =
     (case sig_io_loop (socket s) 0 (queue s) of
        None \<Rightarrow> s\<lparr>overflow := True\<rparr>
      | Some (nread, q) \<Rightarrow> s\<lparr>queue := q, socket := [], sigio := again, cntread := (cntread s)(nread := cntread s nread + 1)\<rparr>)"

definition dg_send :: "dgserver \<Rightarrow> dgserver" where
  "dg_send s = s\<lparr>place := Sent, echoed := echoed s @ [dg (queue s) ! dgget s]\<rparr>"

definition dg_move :: "dgserver \<Rightarrow> dgserver" where
  "dg_move s = s\<lparr>place := Moved, dgget := (if dgget s + 1 \<ge> QSIZE then 0 else dgget s + 1)\<rparr>"

definition dg_block :: "dgserver \<Rightarrow> dgserver" where
  "dg_block s = s\<lparr>place := Testing, queue := (queue s)\<lparr>nqueue := nqueue (queue s) - 1\<rparr>\<rparr>"

text \<open>\<open>sigsuspend\<close> waits with the signal unblocked. A datagram that arrives while the handler runs leaves the signal pending.\<close>

inductive dg_step :: "dgserver \<Rightarrow> dgserver \<Rightarrow> bool" where
  arrives: "\<not> overflow s \<Longrightarrow> dg_step s (s\<lparr>socket := socket s @ [d], arrived := arrived s @ [d], sigio := True\<rparr>)"
| handler: "\<not> overflow s \<Longrightarrow> sigio s \<Longrightarrow> unblocked s \<Longrightarrow> dg_step s (sig_io again s)"
| unblocks: "\<not> overflow s \<Longrightarrow> place s = Testing \<Longrightarrow> nqueue (queue s) \<noteq> 0 \<Longrightarrow> dg_step s (s\<lparr>place := Sending\<rparr>)"
| sends: "\<not> overflow s \<Longrightarrow> place s = Sending \<Longrightarrow> dg_step s (dg_send s)"
| moves: "\<not> overflow s \<Longrightarrow> place s = Sent \<Longrightarrow> dg_step s (dg_move s)"
| blocks: "\<not> overflow s \<Longrightarrow> place s = Moved \<Longrightarrow> dg_step s (dg_block s)"

definition dg_reach :: "dgserver \<Rightarrow> bool" where
  "dg_reach s \<longleftrightarrow> (\<exists>bufs. length bufs = QSIZE \<and> dg_step\<^sup>*\<^sup>* (dgecho_start bufs) s)"

section \<open>The ring is a queue\<close>

definition dgq_ok :: "dgq \<Rightarrow> bool" where
  "dgq_ok q \<longleftrightarrow> length (dg q) = QSIZE \<and> dgput q < QSIZE \<and> nqueue q \<le> QSIZE"

text \<open>The index of the oldest datagram.\<close>

definition oldest :: "dgq \<Rightarrow> nat" where
  "oldest q = (dgput q + QSIZE - nqueue q) mod QSIZE"

definition dg_items :: "dgq \<Rightarrow> datagram list" where
  "dg_items q = map (\<lambda>k. dg q ! ((oldest q + k) mod QSIZE)) [0..<nqueue q]"

definition put_dg :: "datagram \<Rightarrow> dgq \<Rightarrow> dgq option" where
  "put_dg d q = (if nqueue q \<ge> QSIZE then None else Some (store_dg d q))"

definition get_dg :: "dgq \<Rightarrow> (datagram \<times> dgq) option" where
  "get_dg q = (if nqueue q = 0 then None else Some (dg q ! oldest q, q\<lparr>nqueue := nqueue q - 1\<rparr>))"

lemma mod8: "(n :: nat) < 16 \<Longrightarrow> n mod 8 = (if n < 8 then n else n - 8)"
  by (simp add: mod_if)

lemma oldest_cases:
  "dgq_ok q \<Longrightarrow> oldest q = (if nqueue q \<le> dgput q then dgput q - nqueue q else dgput q + 8 - nqueue q)"
  by (auto simp: dgq_ok_def oldest_def mod8)

lemma store_dg_items:
  assumes "dgq_ok q" "nqueue q < QSIZE"
  shows "dgq_ok (store_dg x q) \<and> dg_items (store_dg x q) = dg_items q @ [x] \<and> oldest (store_dg x q) = oldest q"
proof -
  let ?q = "store_dg x q"
  have b: "length (dg q) = 8" "dgput q < 8" "nqueue q < 8" using assms by (simp_all add: dgq_ok_def)
  have ok: "dgq_ok ?q" using b by (simp add: dgq_ok_def store_dg_def)
  have o: "oldest ?q = oldest q" "oldest q < 8" using b unfolding oldest_cases [OF ok] oldest_cases [OF assms(1)] by (auto simp: store_dg_def)
  have last: "(oldest q + nqueue q) mod 8 = dgput q" using b unfolding oldest_cases [OF assms(1)] by (auto simp: mod8)
  have other: "dgput q \<noteq> (oldest q + k) mod 8" if "k < nqueue q" for k
    using that b unfolding oldest_cases [OF assms(1)] by (auto simp: mod8 split: if_splits)
  have "map (\<lambda>k. (dg q)[dgput q := x] ! ((oldest q + k) mod 8)) [0..<nqueue q] = dg_items q"
    unfolding dg_items_def by (rule map_cong [OF refl]) (use other in auto)
  moreover have "nqueue ?q = Suc (nqueue q)" "dg ?q = (dg q)[dgput q := x]" by (simp_all add: store_dg_def)
  ultimately have "dg_items ?q = dg_items q @ [x]" unfolding dg_items_def [of ?q] o(1) using last b by simp
  then show ?thesis using ok o(1) by simp
qed

lemma get_dg_items:
  assumes "dgq_ok q" "nqueue q \<noteq> 0"
  shows "dgq_ok (q\<lparr>nqueue := nqueue q - 1\<rparr>) \<and> dg_items q = dg q ! oldest q # dg_items (q\<lparr>nqueue := nqueue q - 1\<rparr>)
    \<and> oldest (q\<lparr>nqueue := nqueue q - 1\<rparr>) = (oldest q + 1) mod 8"
proof -
  let ?q = "q\<lparr>nqueue := nqueue q - 1\<rparr>"
  have b: "length (dg q) = 8" "dgput q < 8" "nqueue q \<le> 8" "0 < nqueue q" using assms by (simp_all add: dgq_ok_def)
  have ok: "dgq_ok ?q" using b by (simp add: dgq_ok_def)
  have o: "oldest ?q = (oldest q + 1) mod 8" "oldest q < 8"
    using b unfolding oldest_cases [OF ok] oldest_cases [OF assms(1)] by (auto simp: mod8)
  have adv: "((oldest q + 1) mod 8 + k) mod 8 = (oldest q + Suc k) mod 8" for k
    unfolding mod_add_left_eq by simp
  have "[0..<nqueue q] = 0 # map Suc [0..<nqueue q - 1]" using b(4) by (simp add: map_Suc_upt upt_conv_Cons)
  then have "dg_items q = dg q ! oldest q # dg_items ?q"
    unfolding dg_items_def o(1) adv using o(2) by (simp add: comp_def)
  then show ?thesis using ok o(1) by blast
qed

interpretation datagrams: fifo dgq_ok dg_items 8 put_dg get_dg
proof unfold_locales
  fix q q' :: dgq and x
  assume "dgq_ok q" "put_dg x q = Some q'"
  then show "dgq_ok q' \<and> dg_items q' = dg_items q @ [x]" using store_dg_items [of q x] by (auto simp: put_dg_def split: if_splits)
next
  fix q :: dgq and x
  assume "dgq_ok q"
  then show "put_dg x q = None \<longleftrightarrow> length (dg_items q) = 8" by (auto simp: put_dg_def dg_items_def dgq_ok_def)
next
  fix q q' :: dgq and x
  assume "dgq_ok q" "get_dg q = Some (x, q')"
  then show "dgq_ok q' \<and> dg_items q = x # dg_items q'" using get_dg_items [of q] by (auto simp: get_dg_def split: if_splits)
next
  fix q :: dgq
  show "get_dg q = None \<longleftrightarrow> dg_items q = []" by (simp add: get_dg_def dg_items_def)
qed

text \<open>A run of the handler puts the datagrams into the queue, if after all of them a place is still free.\<close>

lemma sig_io_loop_result:
  assumes "dgq_ok q"
  shows "case sig_io_loop ds nread q of
      None \<Rightarrow> nqueue q + length ds \<ge> QSIZE
    | Some (m, q') \<Rightarrow> m = nread + length ds \<and> nqueue q + length ds < QSIZE \<and> dgq_ok q' \<and> nqueue q' = nqueue q + length ds
        \<and> dg_items q' = dg_items q @ map cut ds \<and> oldest q' = oldest q"
  using assms
proof (induction ds nread q rule: sig_io_loop.induct)
  case (2 d ds nread q)
  show ?case
  proof (cases "nqueue q \<ge> QSIZE")
    case False
    have s: "dgq_ok (store_dg (cut d) q)" "dg_items (store_dg (cut d) q) = dg_items q @ [cut d]" "oldest (store_dg (cut d) q) = oldest q"
      using store_dg_items [OF 2(2), of "cut d"] False by simp_all
    have n: "nqueue (store_dg (cut d) q) = Suc (nqueue q)" by (simp add: store_dg_def)
    show ?thesis using 2(1) [OF False s(1)] False unfolding s(2,3) n by (auto split: option.splits)
  qed (use 2 in simp)
qed auto

section \<open>The invariant\<close>

text \<open>The datagram at the head has been sent, but not yet taken off.\<close>

definition head_sent :: "dgserver \<Rightarrow> bool" where
  "head_sent s \<longleftrightarrow> place s = Sent \<or> place s = Moved"

definition dg_ok :: "dgserver \<Rightarrow> bool" where
  "dg_ok s \<longleftrightarrow> dgq_ok (queue s) \<and> (place s \<noteq> Testing \<longrightarrow> nqueue (queue s) \<noteq> 0)
     \<and> dgget s = (if place s = Moved then (oldest (queue s) + 1) mod 8 else oldest (queue s))
     \<and> map cut (arrived s) = echoed s @ drop (if head_sent s then 1 else 0) (dg_items (queue s)) @ map cut (socket s)
     \<and> (socket s \<noteq> [] \<longrightarrow> sigio s)
     \<and> (\<forall>n\<ge>QSIZE. cntread s n = 0)
     \<and> (overflow s \<longrightarrow> nqueue (queue s) + length (socket s) \<ge> QSIZE)"

lemma dg_step_ok:
  assumes "dg_step s t" "dg_ok s"
  shows "dg_ok t"
  using assms
proof (cases rule: dg_step.cases)
  case (arrives d)
  then show ?thesis using assms(2) by (auto simp: dg_ok_def head_sent_def)
next
  case (handler again)
  have q: "dgq_ok (queue s)" using assms(2) by (simp add: dg_ok_def)
  show ?thesis
  proof (cases "sig_io_loop (socket s) 0 (queue s)")
    case None
    then show ?thesis using sig_io_loop_result [OF q, of "socket s" 0] assms(2) handler
      by (simp add: dg_ok_def head_sent_def sig_io_def)
  next
    case (Some r)
    obtain m q' where r: "r = (m, q')" by force
    have h: "m < QSIZE" "dgq_ok q'" "nqueue q' = nqueue (queue s) + length (socket s)"
      "dg_items q' = dg_items (queue s) @ map cut (socket s)" "oldest q' = oldest (queue s)"
      using sig_io_loop_result [OF q, of "socket s" 0] unfolding Some r by auto
    have d: "drop k (dg_items q') = drop k (dg_items (queue s)) @ map cut (socket s)" if "head_sent s \<longrightarrow> dg_items (queue s) \<noteq> []" "k = (if head_sent s then 1 else 0)" for k
      using that unfolding h(4) by (cases "dg_items (queue s)") auto
    have "head_sent s \<longrightarrow> dg_items (queue s) \<noteq> []" using assms(2) by (auto simp: dg_ok_def head_sent_def dg_items_def)
    then show ?thesis using assms(2) h(1-3,5) d handler
      unfolding dg_ok_def sig_io_def Some r by (auto simp: head_sent_def)
  qed
next
  case unblocks
  then show ?thesis using assms(2) by (auto simp: dg_ok_def head_sent_def)
next
  case sends
  have "dg_items (queue s) = dg (queue s) ! oldest (queue s) # drop 1 (dg_items (queue s))"
    using get_dg_items [of "queue s"] assms(2) sends by (simp add: dg_ok_def)
  then have "dg_items (queue s) = [dg (queue s) ! dgget s] @ drop 1 (dg_items (queue s))"
    using assms(2) sends by (simp add: dg_ok_def)
  then show ?thesis using assms(2) sends unfolding dg_ok_def head_sent_def
    by (simp add: dg_send_def)
next
  case moves
  have "oldest (queue s) < 8" by (simp add: oldest_def)
  then have "(if dgget s + 1 \<ge> QSIZE then 0 else dgget s + 1) = (oldest (queue s) + 1) mod 8"
    using assms(2) moves by (auto simp: dg_ok_def mod_if)
  then show ?thesis using assms(2) moves by (simp add: dg_ok_def head_sent_def dg_move_def)
next
  case blocks
  have n: "nqueue (queue s) \<noteq> 0" using assms(2) blocks by (simp add: dg_ok_def)
  have g: "dgq_ok ((queue s)\<lparr>nqueue := nqueue (queue s) - 1\<rparr>)"
    "drop 1 (dg_items (queue s)) = dg_items ((queue s)\<lparr>nqueue := nqueue (queue s) - 1\<rparr>)"
    "oldest ((queue s)\<lparr>nqueue := nqueue (queue s) - 1\<rparr>) = (oldest (queue s) + 1) mod 8"
    using get_dg_items [OF _ n] assms(2) by (simp_all add: dg_ok_def)
  show ?thesis using assms(2) blocks g by (simp add: dg_ok_def head_sent_def dg_block_def)
qed

lemma dgecho_start_ok: "length bufs = QSIZE \<Longrightarrow> dg_ok (dgecho_start bufs)"
  by (simp add: dg_ok_def dgecho_start_def dgq_ok_def oldest_def dg_items_def)

lemma dg_reach_ok:
  assumes "dg_reach s"
  shows "dg_ok s"
proof -
  obtain bufs where b: "length bufs = QSIZE" "dg_step\<^sup>*\<^sup>* (dgecho_start bufs) s" using assms by (auto simp: dg_reach_def)
  show ?thesis using b(2)
  proof (induction rule: rtranclp_induct)
    case base
    show ?case by (rule dgecho_start_ok [OF b(1)])
  next
    case (step s t)
    then show ?case using dg_step_ok by blast
  qed
qed

lemma dg_reach_step: "dg_reach s \<Longrightarrow> dg_step s t \<Longrightarrow> dg_reach t"
  unfolding dg_reach_def by (meson rtranclp.rtrancl_into_rtrancl)

section \<open>What the server promises\<close>


text \<open>A run: one datagram arrives, the handler reads it, it is sent.\<close>

definition sample_dg :: dgserver where
  "sample_dg = dg_send ((sig_io False ((dgecho_start (replicate 8 ([], Sockaddr_un [])))
     \<lparr>socket := [([104, 105], Sockaddr_un ''c'')], arrived := [([104, 105], Sockaddr_un ''c'')], sigio := True\<rparr>))\<lparr>place := Sending\<rparr>)"

lemma sample_dg_reach: "dg_reach sample_dg"
proof -
  let ?d = "([104, 105], Sockaddr_un ''c'') :: datagram" and ?s0 = "dgecho_start (replicate 8 ([], Sockaddr_un []))"
  let ?s1 = "?s0\<lparr>socket := [?d], arrived := [?d], sigio := True\<rparr>"
  have "dg_reach ?s0" unfolding dg_reach_def by (rule exI [of _ "replicate 8 ([], Sockaddr_un [])"]) simp
  moreover have "dg_step ?s0 ?s1" using arrives [of ?s0 ?d] by (simp add: dgecho_start_def)
  ultimately have r1: "dg_reach ?s1" using dg_reach_step by blast
  have "dg_step ?s1 (sig_io False ?s1)" by (rule handler) (simp_all add: dgecho_start_def unblocked_def)
  then have r2: "dg_reach (sig_io False ?s1)" by (rule dg_reach_step [OF r1])
  have "dg_step (sig_io False ?s1) ((sig_io False ?s1)\<lparr>place := Sending\<rparr>)"
    by (rule unblocks) (simp_all add: dgecho_start_def sig_io_def store_dg_def)
  then have r3: "dg_reach ((sig_io False ?s1)\<lparr>place := Sending\<rparr>)" by (rule dg_reach_step [OF r2])
  have "dg_step ((sig_io False ?s1)\<lparr>place := Sending\<rparr>) sample_dg"
    unfolding sample_dg_def by (rule sends) (simp_all add: dgecho_start_def sig_io_def store_dg_def)
  then show ?thesis by (rule dg_reach_step [OF r3])
qed


text \<open>The handler tests for overflow before it knows whether another datagram is there: the server quits as soon as the queue is
  full, with 8 datagrams and room for them, so \<open>cntread[8]\<close> is never counted.\<close>

lemma overflow_when_full:
  assumes "dg_reach s"
  shows "sig_io_loop (socket s) 0 (queue s) = None \<longleftrightarrow> QSIZE \<le> nqueue (queue s) + length (socket s)"
    "cntread s QSIZE = 0"
proof -
  have ok: "dg_ok s" by (rule dg_reach_ok [OF assms])
  then show "sig_io_loop (socket s) 0 (queue s) = None \<longleftrightarrow> QSIZE \<le> nqueue (queue s) + length (socket s)"
    using sig_io_loop_result [of "queue s" "socket s" 0] by (auto simp: dg_ok_def split: option.splits)
  show "cntread s QSIZE = 0" using ok by (simp add: dg_ok_def)
qed

end
