(* ===== verification/Interfaces.thy ===== *)
theory Interfaces
  imports CPrelude
begin

text \<open>
  \<open>lib/get_ifi_info.c\<close>: the list of interfaces, from the buffer \<open>SIOCGIFCONF\<close> fills. The answers of the kernel
  are parameters; of \<open>struct ifreq\<close> the name (16 bytes) and the address behind it are used. On the configured
  platform there is neither \<open>sa_len\<close> nor \<open>AF_LINK\<close>, so index and hardware address are 0. Reading a field behind the bytes the kernel
  returned is undefined (\<open>None\<close>).
\<close>

section \<open>The buffer\<close>

abbreviation (input) sizeof_ifreq :: nat where "sizeof_ifreq \<equiv> 40"

text \<open>The loop that enlarges the buffer until the length returned stays the same; \<open>conf len\<close> is what the kernel returns
  for a buffer of that size, \<open>fuel\<close> the number of rounds. \<open>Die\<close> is \<open>err_sys\<close>.\<close>

fun ifconf_loop :: "(nat \<Rightarrow> errno + byte list) \<Rightarrow> nat \<Rightarrow> nat \<Rightarrow> nat \<Rightarrow> byte list outcome" where
  "ifconf_loop conf 0 len lastlen = Go []"
| "ifconf_loop conf (Suc fuel) len lastlen =
     (case conf len of
        Inl e \<Rightarrow> if e \<noteq> EOther 22 \<or> lastlen \<noteq> 0 then Die [] else ifconf_loop conf fuel (len + 10 * sizeof_ifreq) lastlen
      | Inr buf \<Rightarrow>
          if length buf = lastlen then Ret buf
          else ifconf_loop conf fuel (len + 10 * sizeof_ifreq) (length buf))"

section \<open>Its entries\<close>

record ifreq =
  ifr_name :: "byte list"
  ifr_family :: int
  ifr_addr :: "byte list"

definition sa_family_at :: "byte list \<Rightarrow> int" where
  "sa_family_at p = uint (le16 (p ! 16) (p ! 17))"

definition ifr_len :: "byte list \<Rightarrow> nat" where
  "ifr_len p = 16 + (if sa_family_at p = AF_INET6 then 28 else 16)"

text \<open>\<open>p\<close> is the buffer from \<open>ptr\<close> on. The address is only read for the family asked for.\<close>

function ifreqs :: "byte list \<Rightarrow> ifreq list option" where
  "ifreqs p =
     (if p = [] then Some []
      else if length p < 18 then None
      else map_option ((#) \<lparr>ifr_name = take 16 p, ifr_family = sa_family_at p, ifr_addr = drop 16 (take (ifr_len p) p)\<rparr>)
        (ifreqs (drop (ifr_len p) p)))"
  by pat_completeness auto

termination
  by (relation "measure length") (auto simp: ifr_len_def)

declare ifreqs.simps [simp del]

section \<open>The list of interfaces\<close>

record ifkernel =
  kflags :: "byte list \<Rightarrow> u16"        \<comment> \<open>\<open>SIOCGIFFLAGS\<close>\<close>
  kmtu :: "byte list \<Rightarrow> int"          \<comment> \<open>\<open>SIOCGIFMTU\<close>\<close>
  kbrd :: "byte list \<Rightarrow> byte list"    \<comment> \<open>\<open>SIOCGIFBRDADDR\<close>\<close>
  kdst :: "byte list \<Rightarrow> byte list"    \<comment> \<open>\<open>SIOCGIFDSTADDR\<close>\<close>

record ifi_info =
  ifi_name :: "byte list"
  ifi_index :: int
  ifi_mtu :: int                      \<comment> \<open>a \<open>short\<close>\<close>
  ifi_hlen :: nat
  ifi_flags :: u16
  ifi_myflags :: int
  ifi_addr :: "byte list"
  ifi_brdaddr :: "byte list option"
  ifi_dstaddr :: "byte list option"

abbreviation (input) IFI_ALIAS :: int where "IFI_ALIAS \<equiv> 1"
abbreviation (input) IFF_UP :: nat where "IFF_UP \<equiv> 0"
abbreviation (input) IFF_BROADCAST :: nat where "IFF_BROADCAST \<equiv> 1"
abbreviation (input) IFF_POINTOPOINT :: nat where "IFF_POINTOPOINT \<equiv> 4"

text \<open>The name up to a colon.\<close>

definition base_name :: "byte list \<Rightarrow> byte list" where
  "base_name nm = takeWhile (\<lambda>b. b \<noteq> 58) (takeWhile (\<lambda>b. b \<noteq> 0) nm)"

definition new_ifi :: "ifkernel \<Rightarrow> int \<Rightarrow> byte list \<Rightarrow> ifreq \<Rightarrow> ifi_info" where
  "new_ifi k myflags nm ifr =
     (let flags = kflags k nm in
      \<lparr>ifi_name = take 15 nm, ifi_index = 0, ifi_mtu = signed_take_bit 15 (kmtu k nm), ifi_hlen = 0, ifi_flags = flags, ifi_myflags = myflags,
       ifi_addr = ifr_addr ifr,
       ifi_brdaddr = (if ifr_family ifr = AF_INET \<and> bit flags IFF_BROADCAST then Some (kbrd k nm) else None),
       ifi_dstaddr = (if (ifr_family ifr = AF_INET \<or> ifr_family ifr = AF_INET6) \<and> bit flags IFF_POINTOPOINT then Some (kdst k nm) else None)\<rparr>)"

text \<open>The number of bytes of the address that are copied; \<open>default: break\<close> copies none.\<close>

definition sa_size :: "int \<Rightarrow> nat" where
  "sa_size family = (if family = AF_INET then 16 else if family = AF_INET6 then 28 else 0)"

fun ifi_loop :: "ifkernel \<Rightarrow> int \<Rightarrow> bool \<Rightarrow> byte list \<Rightarrow> ifreq list \<Rightarrow> ifi_info list option" where
  "ifi_loop k family doaliases lastname [] = Some []"
| "ifi_loop k family doaliases lastname (ifr # rest) =
     (if ifr_family ifr \<noteq> family then ifi_loop k family doaliases lastname rest
      else
        let nm = base_name (ifr_name ifr) in
        if lastname = nm \<and> \<not> doaliases then ifi_loop k family doaliases lastname rest
        else if \<not> bit (kflags k nm) IFF_UP then ifi_loop k family doaliases nm rest
        else if length (ifr_addr ifr) < sa_size family then None
        else map_option ((#) (new_ifi k (if lastname = nm then IFI_ALIAS else 0) nm ifr)) (ifi_loop k family doaliases nm rest))"

definition get_ifi_info :: "(nat \<Rightarrow> errno + byte list) \<Rightarrow> nat \<Rightarrow> ifkernel \<Rightarrow> int \<Rightarrow> bool \<Rightarrow> ifi_info list option outcome" where
  "get_ifi_info conf fuel k family doaliases =
     (case ifconf_loop conf fuel (100 * sizeof_ifreq) 0 of
        Ret buf \<Rightarrow> Ret (Option.bind (ifreqs buf) (ifi_loop k family doaliases []))
      | Die _ \<Rightarrow> Die None
      | Go _ \<Rightarrow> Go None)"

section \<open>The buffer grows until everything fits\<close>

text \<open>A kernel that returns its whole list if it fits into the buffer, and otherwise fills it but for an entry that does not fit.\<close>

definition fills :: "(nat \<Rightarrow> errno + byte list) \<Rightarrow> byte list \<Rightarrow> bool" where
  "fills conf full \<longleftrightarrow> (\<forall>len. (length full \<le> len \<longrightarrow> conf len = Inr full)
     \<and> (len < length full \<longrightarrow> (\<exists>buf. conf len = Inr buf \<and> length buf \<le> len \<and> len < length buf + 400)))"

lemma ifconf_loop_fits:
  assumes "fills conf full" "length full \<le> len"
  shows "ifconf_loop conf (Suc (Suc fuel)) len lastlen = Ret full"
proof -
  have "conf len = Inr full" "conf (len + 400) = Inr full" using assms by (simp_all add: fills_def)
  then show ?thesis by simp
qed

lemma ifconf_loop_all:
  assumes "fills conf full"
  shows "lastlen + 400 \<le> len \<Longrightarrow> length full \<le> len + 400 * n \<Longrightarrow> ifconf_loop conf (n + 2) len lastlen = Ret full"
proof (induction n arbitrary: len lastlen)
  case 0
  then show ?case using ifconf_loop_fits [OF assms, of len 0 lastlen] by (simp add: numeral_2_eq_2)
next
  case (Suc n)
  show ?case
  proof (cases "length full \<le> len")
    case True
    then show ?thesis using ifconf_loop_fits [OF assms, of len "Suc n"] by simp
  next
    case False
    then obtain buf where buf: "conf len = Inr buf" "length buf \<le> len" "len < length buf + 400"
      using assms unfolding fills_def by (meson not_le)
    have IH: "ifconf_loop conf (n + 2) (len + 400) (length buf) = Ret full" using Suc buf(2) by simp
    have "ifconf_loop conf (Suc (n + 2)) len lastlen = ifconf_loop conf (n + 2) (len + 400) (length buf)"
      unfolding ifconf_loop.simps(2) using buf Suc.prems(1) by simp
    then show ?thesis using IH by simp
  qed
qed

section \<open>What is listed\<close>

text \<open>An interface with its address, and the entry the code expects: the name in 16 bytes, a \<open>sockaddr\<close> of its family behind it.\<close>

definition entry :: "byte list \<times> byte list \<Rightarrow> byte list" where
  "entry i = fst i @ replicate (16 - length (fst i)) 0 @ [2, 0] @ snd i"

definition iface_ok :: "byte list \<times> byte list \<Rightarrow> bool" where
  "iface_ok i \<longleftrightarrow> length (fst i) < 16 \<and> 0 \<notin> set (fst i) \<and> base_name (fst i) \<noteq> [] \<and> length (snd i) = 14"

definition entry_ifreq :: "byte list \<times> byte list \<Rightarrow> ifreq" where
  "entry_ifreq i = \<lparr>ifr_name = fst i @ replicate (16 - length (fst i)) 0, ifr_family = AF_INET, ifr_addr = [2, 0] @ snd i\<rparr>"

lemma ifreqs_entries: "\<forall>i\<in>set is. iface_ok i \<Longrightarrow> ifreqs (concat (map entry is)) = Some (map entry_ifreq is)"
proof (induction "is")
  case Nil
  then show ?case by (simp add: ifreqs.simps)
next
  case (Cons i "is")
  obtain nm sa where i: "i = (nm, sa)" by force
  have ok: "length nm < 16" "length sa = 14" using Cons.prems by (simp_all add: iface_ok_def i)
  let ?pad = "nm @ replicate (16 - length nm) 0" and ?rest = "concat (map entry is)"
  have p: "concat (map entry (i # is)) = ?pad @ [2, 0] @ sa @ ?rest" by (simp add: entry_def i)
  have pad: "length ?pad = 16" using ok by simp
  have fam: "sa_family_at (?pad @ [2, 0] @ sa @ ?rest) = 2"
  proof -
    have "(P @ xs) ! 16 = xs ! 0 \<and> (P @ xs) ! 17 = xs ! 1" if "length P = 16" for P xs :: "byte list"
      using that by (simp add: nth_append)
    from this [OF pad, of "[2, 0] @ sa @ ?rest"]
    have "(?pad @ [2, 0] @ sa @ ?rest) ! 16 = 2" "(?pad @ [2, 0] @ sa @ ?rest) ! 17 = 0" by simp_all
    moreover have "uint (le16 2 0) = 2" by code_simp
    ultimately show ?thesis by (simp only: sa_family_at_def)
  qed
  have len: "ifr_len (?pad @ [2, 0] @ sa @ ?rest) = 32" unfolding ifr_len_def fam by simp
  have t: "take 16 (?pad @ [2, 0] @ sa @ ?rest) = ?pad" "drop 16 (take 32 (?pad @ [2, 0] @ sa @ ?rest)) = [2, 0] @ sa"
    "drop 32 (?pad @ [2, 0] @ sa @ ?rest) = ?rest" "\<not> length (?pad @ [2, 0] @ sa @ ?rest) < 18" "?pad @ [2, 0] @ sa @ ?rest \<noteq> []"
    using ok by simp_all
  have "ifreqs (?pad @ [2, 0] @ sa @ ?rest) = Some (entry_ifreq i # map entry_ifreq is)"
    by (subst ifreqs.simps) (use t Cons in \<open>simp only: len fam t if_False, simp add: entry_ifreq_def i\<close>)
  then show ?case unfolding p by simp
qed

lemma base_name_pad: "base_name (nm @ replicate n 0) = base_name nm"
proof -
  have "takeWhile (\<lambda>b. b \<noteq> 0) (nm @ replicate n 0) = takeWhile (\<lambda>b. b \<noteq> 0) nm"
    by (induction nm) (cases n, simp_all)
  then show ?thesis by (simp add: base_name_def)
qed

definition up :: "ifkernel \<Rightarrow> byte list \<Rightarrow> bool" where
  "up k nm \<longleftrightarrow> bit (kflags k nm) IFF_UP"

definition base :: "byte list \<times> byte list \<Rightarrow> byte list" where
  "base i = base_name (fst i)"

lemma entry_ifreq_simps:
  "ifr_family (entry_ifreq i) = AF_INET" "base_name (ifr_name (entry_ifreq i)) = base i" "ifr_addr (entry_ifreq i) = [2, 0] @ snd i"
  by (simp_all add: entry_ifreq_def base_name_pad base_def)

text \<open>With aliases, every address of an interface that is up.\<close>

fun listed :: "ifkernel \<Rightarrow> byte list \<Rightarrow> (byte list \<times> byte list) list \<Rightarrow> ifi_info list" where
  "listed k prev [] = []"
| "listed k prev (i # is) =
     (if up k (base i) then [new_ifi k (if prev = base i then IFI_ALIAS else 0) (base i) (entry_ifreq i)] else []) @ listed k (base i) is"

lemma new_ifi_fields:
  "ifi_addr (new_ifi k f nm ifr) = ifr_addr ifr" "ifi_name (new_ifi k f nm ifr) = take 15 nm" "ifi_myflags (new_ifi k f nm ifr) = f"
  by (simp_all add: new_ifi_def Let_def)

lemma ifi_loop_listed:
  assumes "\<forall>i\<in>set is. iface_ok i"
  shows "ifi_loop k AF_INET True prev (map entry_ifreq is) = Some (listed k prev is)"
    and "ifi_loop k AF_INET False prev (map entry_ifreq is) = Some (filter (\<lambda>x. ifi_myflags x = 0) (listed k prev is))"
proof -
  have "ifi_loop k AF_INET True prev (map entry_ifreq is) = Some (listed k prev is)
    \<and> ifi_loop k AF_INET False prev (map entry_ifreq is) = Some (filter (\<lambda>x. ifi_myflags x = 0) (listed k prev is))"
    using assms
  proof (induction "is" arbitrary: prev)
    case (Cons i "is")
    have "length (snd i) = 14" using Cons.prems by (simp add: iface_ok_def)
    then show ?case using Cons by (simp add: entry_ifreq_simps Let_def up_def sa_size_def new_ifi_fields)
  qed simp
  then show "ifi_loop k AF_INET True prev (map entry_ifreq is) = Some (listed k prev is)"
    and "ifi_loop k AF_INET False prev (map entry_ifreq is) = Some (filter (\<lambda>x. ifi_myflags x = 0) (listed k prev is))" by simp_all
qed

lemma listed_all:
  "map ifi_addr (listed k prev is) = map (\<lambda>i. [2, 0] @ snd i) (filter (\<lambda>i. up k (base i)) is)"
  "map ifi_name (listed k prev is) = map (\<lambda>i. take 15 (base i)) (filter (\<lambda>i. up k (base i)) is)"
  by (induction "is" arbitrary: prev) (simp_all add: new_ifi_fields entry_ifreq_simps)

lemma listed_first:
  "map ifi_name (filter (\<lambda>x. ifi_myflags x = 0) (listed k prev is)) = map (take 15) (filter (up k) (tl (remdups_adj (prev # map base is))))"
proof (induction "is" arbitrary: prev)
  case (Cons i "is")
  show ?case
  proof (cases "prev = base i")
    case True
    then show ?thesis using Cons [of "base i"] by (simp add: new_ifi_fields)
  next
    case False
    obtain r where r: "remdups_adj (base i # map base is) = base i # r"
      using remdups_adj_Cons_alt [of "base i" "map base is"] by metis
    show ?thesis using Cons [of "base i"] False unfolding list.map remdups_adj.simps r by (simp add: new_ifi_fields r)
  qed
qed simp


text \<open>Two interfaces, the second with an alias.\<close>

definition sample_ifaces :: "(byte list \<times> byte list) list" where
  "sample_ifaces = [([108, 111], replicate 14 1), ([101, 48], replicate 14 2), ([101, 48, 58, 49], replicate 14 3)]"


text \<open>
  On the configured platform \<open>struct ifreq\<close> has 40 bytes, but the code steps over 16 + 16: after the only interface of a host
  it reads the family of another one behind the list.
\<close>

lemma ifreq_stride_undefined:
  assumes "iface_ok i" "fills conf (entry i @ replicate 8 0)"
  shows "get_ifi_info conf (n + 2) k AF_INET d = Ret None"
proof -
  have len: "length (entry i) = 32" using assms(1) by (auto simp: entry_def iface_ok_def)
  have buf: "ifconf_loop conf (n + 2) (100 * sizeof_ifreq) 0 = Ret (entry i @ replicate 8 0)"
    by (rule ifconf_loop_all [OF assms(2)]) (use len in simp_all)
  have "sa_family_at (entry i @ replicate 8 0) = 2"
  proof -
    have "(P @ xs) ! 16 = xs ! 0 \<and> (P @ xs) ! 17 = xs ! 1" if "length P = 16" for P xs :: "byte list"
      using that by (simp add: nth_append)
    from this [of "fst i @ replicate (16 - length (fst i)) 0" "[2, 0] @ snd i @ replicate 8 0"]
    have "(entry i @ replicate 8 0) ! 16 = 2" "(entry i @ replicate 8 0) ! 17 = 0"
      using assms(1) by (simp_all add: entry_def iface_ok_def)
    moreover have "uint (le16 2 0) = 2" by code_simp
    ultimately show ?thesis by (simp only: sa_family_at_def)
  qed
  then have l: "ifr_len (entry i @ replicate 8 0) = 32" by (simp add: ifr_len_def)
  have r: "ifreqs (replicate 8 0) = None" by (subst ifreqs.simps) simp
  have "ifreqs (entry i @ replicate 8 0) = None"
    by (subst ifreqs.simps) (use len r in \<open>simp add: l\<close>)
  then show ?thesis unfolding get_ifi_info_def buf by simp
qed

text \<open>The MTU is kept in a \<open>short\<close>: 65536, as for the loopback interface, becomes 0.\<close>

lemma loopback_mtu: "kmtu k nm = 65536 \<Longrightarrow> ifi_mtu (new_ifi k f nm ifr) = 0"
  by (simp add: new_ifi_def Let_def signed_take_bit_eq_take_bit_minus take_bit_eq_mod bit_iff_odd)

end
