(* ===== verification/Chat_Room.thy ===== *)
theory Chat_Room
  imports CPrelude
begin

text \<open>
  \<open>tcpcliserv/hw6_111550002.c\<close>: the chat room for ten users, one process over \<open>select\<close>. A round of its loop is a function of
  what the kernel returns; a \<open>Read\<close> or \<open>Writen\<close> that fails ends the process and is left out. \<open>None\<close> is undefined behaviour: a text too long for its buffer, \<open>FD_SET\<close> of a negative
  descriptor, \<open>sprintf\<close> without an argument for \<open>%s\<close>. The texts read end at their first NUL, as they are used as C strings.
\<close>

section \<open>The room\<close>

abbreviation (input) MAXLINE :: nat where "MAXLINE \<equiv> 4096"
abbreviation (input) NAME_SIZE :: nat where "NAME_SIZE \<equiv> 64"

record connection =
  conn :: int
  used :: bool
  uname :: string

record chat =
  conns :: "connection list"
  user_num :: int
  wrote :: "(int \<times> string) list"     \<comment> \<open>\<open>Writen\<close> to the connections\<close>
  closed :: "int list"

definition chat_start :: chat where
  "chat_start = \<lparr>conns = replicate 10 \<lparr>conn = 0, used = False, uname = ''''\<rparr>, user_num = 0, wrote = [], closed = []\<rparr>"

text \<open>\<open>sprintf\<close> into a buffer of \<open>n\<close> bytes.\<close>

definition sprintf :: "nat \<Rightarrow> string \<Rightarrow> string option" where
  "sprintf n s = (if length s < n then Some s else None)"

text \<open>\<open>None\<close> is -1.\<close>

definition FindEmptyConn :: "chat \<Rightarrow> nat option" where
  "FindEmptyConn s = find (\<lambda>i. \<not> used (conns s ! i)) [0..<10]"

definition write_to :: "connection list \<Rightarrow> string \<Rightarrow> chat \<Rightarrow> chat" where
  "write_to cs line s = s\<lparr>wrote := wrote s @ map (\<lambda>c. (conn c, line)) cs\<rparr>"

definition WriteToEveryone :: "nat \<Rightarrow> string \<Rightarrow> chat \<Rightarrow> chat" where
  "WriteToEveryone who line s =
     write_to (map (\<lambda>i. conns s ! i) (filter (\<lambda>i. used (conns s ! i) \<and> i \<noteq> who) [0..<10])) line s"

text \<open>The text for the last user lacks the argument of its \<open>%s\<close>.\<close>

definition SomeoneLeave :: "nat \<Rightarrow> int \<Rightarrow> chat \<Rightarrow> chat option" where
  "SomeoneLeave who n s =
     (let c = conns s ! who;
          s = s\<lparr>conns := (conns s)[who := c\<lparr>used := False\<rparr>], wrote := wrote s @ [(conn c, ''Bye!\<newline>'')], closed := closed s @ [conn c]\<rparr>
      in if n > 1 then
           map_option (\<lambda>line. write_to (filter used (conns s)) line s)
             (sprintf MAXLINE (''('' @ uname c @ '' left the room. '' @ fmt_d n @ '' users left)\<newline>''))
         else None)"

section \<open>One round\<close>

datatype accepted = Interrupted | Failed | Accepted int string   \<comment> \<open>the descriptor and the first text read\<close>

text \<open>What is ready, and what \<open>accept\<close> and \<open>Read\<close> return; a text \<open>''''\<close> is end of file.\<close>

record events =
  on_listen :: "accepted option"
  on_read :: "int \<Rightarrow> string option"

definition newcomer :: "accepted \<Rightarrow> chat \<Rightarrow> chat outcome option" where
  "newcomer a s =
     (case FindEmptyConn s of
        None \<Rightarrow> Some (Die s)
      | Some i \<Rightarrow>
          (case a of
             Interrupted \<Rightarrow> Some (Ret (s\<lparr>conns := (conns s)[i := (conns s ! i)\<lparr>used := True, conn := -1\<rparr>]\<rparr>))
           | Failed \<Rightarrow> Some (Die s)
           | Accepted fd msg \<Rightarrow>
               (if msg = '''' then Some (Die s)
                else
                  case sprintf NAME_SIZE (c_string msg) of
                    None \<Rightarrow> None
                  | Some nm \<Rightarrow>
                      let s = s\<lparr>conns := (conns s)[i := \<lparr>conn = fd, used = True, uname = nm\<rparr>],
                            wrote := wrote s @ [(fd, ''You are the #'' @ fmt_u (i + 1) @ '' user.\<newline>You may now type in or wait for other users.\<newline>'')],
                            user_num := user_num s + 1\<rparr>
                      in Some (Go (WriteToEveryone i (''(#'' @ fmt_u (i + 1) @ '' user '' @ nm @ '' enters.)\<newline>'') s)))))"

definition serve_user :: "(int \<Rightarrow> string option) \<Rightarrow> nat \<Rightarrow> chat \<Rightarrow> chat option" where
  "serve_user rd i s =
     (let c = conns s ! i in
      if \<not> used c then Some s
      else case rd (conn c) of
        None \<Rightarrow> Some s
      | Some msg \<Rightarrow>
          (if msg = '''' then SomeoneLeave i (user_num s - 1) (s\<lparr>user_num := user_num s - 1\<rparr>)
           else map_option (\<lambda>line. WriteToEveryone i line s) (sprintf MAXLINE (''('' @ uname c @ '') '' @ c_string msg))))"

fun serve_users :: "(int \<Rightarrow> string option) \<Rightarrow> nat list \<Rightarrow> chat \<Rightarrow> chat option" where
  "serve_users rd [] s = Some s"
| "serve_users rd (i # is) s = Option.bind (serve_user rd i s) (serve_users rd is)"

text \<open>
  The listening socket is watched while \<open>user_num < 10\<close>, and the connections that are there before \<open>select\<close>. \<open>Ret\<close> is
  the \<open>continue\<close> after an interrupted \<open>accept\<close>.
\<close>

definition watched_rd :: "chat \<Rightarrow> (int \<Rightarrow> string option) \<Rightarrow> int \<Rightarrow> string option" where
  "watched_rd s rd fd = (if \<exists>c\<in>set (conns s). used c \<and> conn c = fd then rd fd else None)"

definition chat_round :: "events \<Rightarrow> chat \<Rightarrow> chat outcome option" where
  "chat_round e s =
     (if \<exists>c\<in>set (conns s). used c \<and> conn c < 0 then None
      else
        let rd = watched_rd s (on_read e)
        in case (if user_num s < 10 then on_listen e else None) of
             None \<Rightarrow> map_option Go (serve_users rd [0..<10] s)
           | Some a \<Rightarrow>
               (case newcomer a s of
                  Some (Go s') \<Rightarrow> map_option Go (serve_users rd [0..<10] s')
                | r \<Rightarrow> r))"

text \<open>The kernel returns descriptors that are not in use.\<close>

definition events_ok :: "events \<Rightarrow> chat \<Rightarrow> bool" where
  "events_ok e s \<longleftrightarrow> (\<forall>fd msg. on_listen e = Some (Accepted fd msg) \<longrightarrow>
     0 \<le> fd \<and> (\<forall>c\<in>set (conns s). used c \<longrightarrow> conn c \<noteq> fd))"

inductive chat_reach :: "chat \<Rightarrow> bool" where
  start: "chat_reach chat_start"
| round: "chat_reach s \<Longrightarrow> events_ok e s \<Longrightarrow> chat_round e s = Some (Go t) \<Longrightarrow> chat_reach t"
| interrupted: "chat_reach s \<Longrightarrow> chat_round e s = Some (Ret t) \<Longrightarrow> chat_reach t"

section \<open>The invariant\<close>

definition in_room :: "chat \<Rightarrow> nat set" where
  "in_room s = {i. i < 10 \<and> used (conns s ! i)}"

definition chat_ok :: "chat \<Rightarrow> bool" where
  "chat_ok s \<longleftrightarrow> length (conns s) = 10 \<and> user_num s = int (card (in_room s))
     \<and> (\<forall>i\<in>in_room s. 0 \<le> conn (conns s ! i) \<and> length (uname (conns s ! i)) < NAME_SIZE)
     \<and> inj_on (\<lambda>i. conn (conns s ! i)) (in_room s)"

text \<open>A slot taken for an interrupted \<open>accept\<close>.\<close>

definition broken :: "chat \<Rightarrow> bool" where
  "broken s \<longleftrightarrow> (\<exists>c\<in>set (conns s). used c \<and> conn c < 0)"

lemma in_room_finite [simp]: "finite (in_room s)"
  by (simp add: in_room_def)

lemma ok_not_broken: "chat_ok s \<Longrightarrow> \<not> broken s"
  by (force simp: chat_ok_def broken_def in_room_def in_set_conv_nth)

lemma find_empty_none: "FindEmptyConn s = None \<longleftrightarrow> (\<forall>i<10. i \<in> in_room s)"
proof -
  have "FindEmptyConn s = None \<longleftrightarrow> (\<forall>i\<in>set [0..<10]. used (conns s ! i))"
    unfolding FindEmptyConn_def find_None_iff by (simp del: upt_Suc upt_rec_numeral set_upt) blast
  then show ?thesis unfolding set_upt in_room_def by (simp del: upt_Suc upt_rec_numeral add: Ball_def)
qed

lemma find_empty_some: assumes "FindEmptyConn s = Some i" shows "i < 10" "i \<notin> in_room s"
proof -
  obtain k where k: "k < length [0..<10::nat]" "i = [0..<10] ! k" "\<not> used (conns s ! i)"
    using assms unfolding FindEmptyConn_def find_Some_iff by blast
  then have "i = k" "k < 10" by (simp_all del: upt_Suc upt_rec_numeral add: nth_upt)
  then show "i < 10" "i \<notin> in_room s" using k by (simp_all add: in_room_def)
qed

lemma room_has_space:
  assumes "chat_ok s" "user_num s < 10"
  shows "FindEmptyConn s \<noteq> None"
proof
  assume "FindEmptyConn s = None"
  then have "in_room s = {..<10}" unfolding find_empty_none by (auto simp: in_room_def)
  then have "card (in_room s) = 10" by simp
  then show False using assms by (simp add: chat_ok_def)
qed

lemma ok_cong: "conns t = conns s \<Longrightarrow> user_num t = user_num s \<Longrightarrow> chat_ok t = chat_ok s"
  by (simp add: chat_ok_def in_room_def)

lemma write_fields: "conns (WriteToEveryone i line s) = conns s" "user_num (WriteToEveryone i line s) = user_num s"
  by (simp_all add: WriteToEveryone_def write_to_def)

lemma in_room_take:
  "i < 10 \<Longrightarrow> length (conns s) = 10 \<Longrightarrow> conns t = (conns s)[i := c] \<Longrightarrow>
    in_room t = (if used c then insert i (in_room s) else in_room s - {i})"
  by (auto simp: in_room_def nth_list_update)

text \<open>The members other than one, by their slots and by their descriptors.\<close>

lemma others:
  assumes "chat_ok s" "i \<in> in_room s"
  shows "map (\<lambda>j. conns s ! j) (filter (\<lambda>j. used (conns s ! j) \<and> j \<noteq> i) [0..<10])
    = filter (\<lambda>c. used c \<and> conn c \<noteq> conn (conns s ! i)) (conns s)"
proof -
  have len: "length (conns s) = 10" using assms(1) by (simp add: chat_ok_def)
  have inj: "conn (conns s ! j) = conn (conns s ! i) \<longleftrightarrow> j = i" if "j < 10" "used (conns s ! j)" for j
    using assms that inj_on_eq_iff [of "\<lambda>i. conn (conns s ! i)" "in_room s" j i] by (simp add: chat_ok_def in_room_def)
  have "filter (\<lambda>j. used (conns s ! j) \<and> j \<noteq> i) [0..<10] = filter (\<lambda>j. used (conns s ! j) \<and> conn (conns s ! j) \<noteq> conn (conns s ! i)) [0..<10]"
    by (rule filter_cong [OF refl]) (use inj in \<open>auto simp del: upt_Suc upt_rec_numeral\<close>)
  also have "map (\<lambda>j. conns s ! j) \<dots> = filter (\<lambda>c. used c \<and> conn c \<noteq> conn (conns s ! i)) (map (\<lambda>j. conns s ! j) [0..<10])"
    by (simp only: filter_map comp_def)
  also have "map (\<lambda>j. conns s ! j) [0..<10] = conns s" using map_nth [of "conns s"] unfolding len .
  finally show ?thesis .
qed

lemma newcomer_ok:
  assumes ok: "chat_ok s" and a: "\<forall>fd msg. a = Accepted fd msg \<longrightarrow> 0 \<le> fd \<and> (\<forall>c\<in>set (conns s). used c \<longrightarrow> conn c \<noteq> fd)"
    and t: "newcomer a s = Some (Go t)"
  shows "chat_ok t"
proof -
  obtain i where i: "FindEmptyConn s = Some i" using t by (auto simp: newcomer_def split: option.splits)
  obtain fd msg where f: "a = Accepted fd msg" "msg \<noteq> ''''" using t i by (auto simp: newcomer_def split: accepted.splits if_splits)
  obtain nm where nm: "sprintf NAME_SIZE (c_string msg) = Some nm" using t i f by (auto simp: newcomer_def split: option.splits)
  have len: "length nm < NAME_SIZE" using nm by (auto simp: sprintf_def split: if_splits)
  have l: "length (conns s) = 10" using ok by (simp add: chat_ok_def)
  have fi: "i < 10" "i \<notin> in_room s" using find_empty_some [OF i] by simp_all
  let ?c = "\<lparr>conn = fd, used = True, uname = nm\<rparr>"
  have c: "conns t = (conns s)[i := ?c]" "user_num t = user_num s + 1" using t i f nm by (auto simp: newcomer_def Let_def write_fields)
  have r: "in_room t = insert i (in_room s)" using in_room_take [OF fi(1) l c(1)] by simp
  have other: "conns t ! j = conns s ! j" if "j \<in> in_room s" for j using that fi by (cases "j = i") (simp_all add: c)
  have self: "conns t ! i = ?c" using fi(1) l by (simp add: c)
  have fresh: "conn (conns s ! j) \<noteq> fd" if "j \<in> in_room s" for j
    using a f(1) that l by (auto simp: in_room_def)
  have "inj_on (\<lambda>j. conn (conns t ! j)) (in_room t)"
    using ok fresh other self unfolding r chat_ok_def inj_on_def by auto
  moreover have "\<forall>j\<in>in_room t. 0 \<le> conn (conns t ! j) \<and> length (uname (conns t ! j)) < NAME_SIZE"
    using ok other self len a f(1) unfolding r chat_ok_def by auto
  moreover have "user_num t = int (card (in_room t))" using ok fi(2) unfolding r c(2) chat_ok_def by simp
  moreover have "length (conns t) = 10" using l by (simp add: c)
  ultimately show ?thesis unfolding chat_ok_def by blast
qed

lemma write_to_fields [simp]: "conns (write_to cs line s) = conns s" "user_num (write_to cs line s) = user_num s"
  by (simp_all add: write_to_def)

lemma leave_ok:
  assumes ok: "chat_ok s" and i: "i \<in> in_room s" and t: "SomeoneLeave i (user_num s - 1) (s\<lparr>user_num := user_num s - 1\<rparr>) = Some t"
  shows "chat_ok t"
proof -
  have l: "length (conns s) = 10" "i < 10" using ok i by (simp_all add: chat_ok_def in_room_def)
  have c: "conns t = (conns s)[i := (conns s ! i)\<lparr>used := False\<rparr>]" "user_num t = user_num s - 1"
    using t by (auto simp: SomeoneLeave_def Let_def split: if_splits)
  have r: "in_room t = in_room s - {i}" using in_room_take [OF l(2) l(1) c(1)] by simp
  have same: "conns t ! j = conns s ! j" if "j \<in> in_room t" for j using that by (cases "j = i") (simp_all add: c r)
  have "card (in_room s) = Suc (card (in_room t))" unfolding r using card.remove [OF in_room_finite i] .
  then have "user_num t = int (card (in_room t))" using ok by (simp add: c chat_ok_def)
  moreover have "inj_on (\<lambda>j. conn (conns t ! j)) (in_room t)"
    using ok same r unfolding chat_ok_def inj_on_def by auto
  moreover have "\<forall>j\<in>in_room t. 0 \<le> conn (conns t ! j) \<and> length (uname (conns t ! j)) < NAME_SIZE"
    using ok same r unfolding chat_ok_def by auto
  ultimately show ?thesis using l by (simp add: chat_ok_def c)
qed

lemma serve_user_ok: "chat_ok s \<Longrightarrow> i < 10 \<Longrightarrow> serve_user rd i s = Some t \<Longrightarrow> chat_ok t"
  using leave_ok [of s i t] ok_cong [OF write_fields(1) write_fields(2)]
  by (auto simp: serve_user_def Let_def in_room_def split: if_splits option.splits)

lemma serve_users_ok: "chat_ok s \<Longrightarrow> \<forall>i\<in>set is. i < 10 \<Longrightarrow> serve_users rd is s = Some t \<Longrightarrow> chat_ok t"
  by (induction rd "is" s rule: serve_users.induct) (auto simp: Option.bind_eq_Some_conv dest: serve_user_ok)

lemma broken_stops: "broken s \<Longrightarrow> chat_round e s = None"
  by (simp add: broken_def chat_round_def)

lemma all_slots: "\<forall>i\<in>set [0..<10::nat]. i < 10"
  by (simp del: upt_Suc upt_rec_numeral)

lemma chat_round_ok:
  assumes ok: "chat_ok s" and e: "events_ok e s" and t: "chat_round e s = Some (Go t)"
  shows "chat_ok t"
proof (cases "if user_num s < 10 then on_listen e else None")
  case None
  then have "serve_users (watched_rd s (on_read e)) [0..<10] s = Some t"
    using t by (auto simp: chat_round_def Let_def simp del: upt_Suc upt_rec_numeral split: if_splits option.splits)
  then show ?thesis using serve_users_ok [OF ok all_slots] by blast
next
  case (Some a)
  then obtain s' where s': "newcomer a s = Some (Go s')" "serve_users (watched_rd s (on_read e)) [0..<10] s' = Some t"
    using t by (auto simp: chat_round_def Let_def simp del: upt_Suc upt_rec_numeral split: if_splits option.splits outcome.splits)
  have "chat_ok s'" using newcomer_ok [OF ok _ s'(1)] e Some by (auto simp: events_ok_def split: if_splits)
  then show ?thesis using serve_users_ok [OF _ all_slots s'(2)] by blast
qed

lemma interrupted_broken:
  assumes ok: "chat_ok s" and t: "chat_round e s = Some (Ret t)"
  shows "broken t"
proof -
  obtain a where a: "newcomer a s = Some (Ret t)"
    using t by (auto simp: chat_round_def Let_def simp del: upt_Suc upt_rec_numeral split: if_splits option.splits outcome.splits)
  then obtain i where i: "FindEmptyConn s = Some i" "conns t = (conns s)[i := (conns s ! i)\<lparr>used := True, conn := -1\<rparr>]"
    by (auto simp: newcomer_def Let_def split: option.splits accepted.splits if_splits)
  have "i < length (conns s)" using find_empty_some(1) [OF i(1)] ok by (simp add: chat_ok_def)
  then show ?thesis unfolding broken_def i(2) by (auto intro!: bexI [OF _ set_update_memI])
qed

lemma reach_ok: "chat_reach s \<Longrightarrow> chat_ok s \<or> broken s"
proof (induction rule: chat_reach.induct)
  case start
  have "in_room chat_start = {}" by (auto simp: in_room_def chat_start_def)
  then show ?case by (simp add: chat_ok_def) (simp add: chat_start_def)
next
  case (round s e t)
  then show ?case using chat_round_ok [of s e t] broken_stops [of s e] by auto
next
  case (interrupted s e t)
  then show ?case using interrupted_broken [of s e t] broken_stops [of s e] by auto
qed

lemma serve_message:
  assumes ok: "chat_ok s" and i: "i \<in> in_room s" and rd: "rd (conn (conns s ! i)) = Some msg" "msg \<noteq> ''''"
    and fits: "length (uname (conns s ! i)) + length (c_string msg) + 3 < MAXLINE"
  shows "serve_user rd i s = Some (s\<lparr>wrote := wrote s @ map (\<lambda>c. (conn c, ''('' @ uname (conns s ! i) @ '') '' @ c_string msg))
     (filter (\<lambda>c. used c \<and> conn c \<noteq> conn (conns s ! i)) (conns s))\<rparr>)"
proof -
  have "used (conns s ! i)" using i by (simp add: in_room_def)
  moreover have "sprintf MAXLINE (''('' @ uname (conns s ! i) @ '') '' @ c_string msg) = Some (''('' @ uname (conns s ! i) @ '') '' @ c_string msg)"
    using fits by (simp add: sprintf_def)
  ultimately show ?thesis using rd by (simp add: serve_user_def WriteToEveryone_def write_to_def others [OF ok i, simplified] Let_def)
qed

section \<open>The room works until an accept is interrupted\<close>

text \<open>With one user left, or none, the text for the others is printed without its argument.\<close>

lemma last_leaver_undefined:
  "i \<in> in_room s \<Longrightarrow> user_num s \<le> 2 \<Longrightarrow> rd (conn (conns s ! i)) = Some '''' \<Longrightarrow> serve_user rd i s = None"
  by (simp add: serve_user_def SomeoneLeave_def in_room_def Let_def)

lemma interrupted_accept_undefined:
  "chat_ok s \<Longrightarrow> chat_round e s = Some (Ret t) \<Longrightarrow> chat_round e' t = None"
  using interrupted_broken broken_stops by blast

text \<open>
  C22 In every state the chat room reaches, unless an interrupted \<open>accept\<close> has spoiled it, \<open>user_num\<close> is the number of users
  in the table, a slot is free whenever the listening socket is watched, no two users have one descriptor, and a text of
  a user goes once to each other user, behind his name, and not back to him.
\<close>

theorem chat_room_works:
  assumes "chat_reach s" "\<not> broken s"
  shows "user_num s = int (card {i. i < 10 \<and> used (conns s ! i)})
    \<and> (user_num s < 10 \<longrightarrow> FindEmptyConn s \<noteq> None)
    \<and> inj_on (\<lambda>i. conn (conns s ! i)) {i. i < 10 \<and> used (conns s ! i)}
    \<and> (\<forall>i rd msg. i < 10 \<and> used (conns s ! i) \<and> rd (conn (conns s ! i)) = Some msg \<and> msg \<noteq> ''''
         \<and> length (uname (conns s ! i)) + length (c_string msg) + 3 < MAXLINE \<longrightarrow>
         serve_user rd i s = Some (s\<lparr>wrote := wrote s @ map (\<lambda>c. (conn c, ''('' @ uname (conns s ! i) @ '') '' @ c_string msg))
           (filter (\<lambda>c. used c \<and> conn c \<noteq> conn (conns s ! i)) (conns s))\<rparr>))"
proof (intro conjI allI impI)
  have ok: "chat_ok s" using reach_ok assms by blast
  then show "user_num s = int (card {i. i < 10 \<and> used (conns s ! i)})"
    and "inj_on (\<lambda>i. conn (conns s ! i)) {i. i < 10 \<and> used (conns s ! i)}" by (simp_all add: chat_ok_def in_room_def)
  show "FindEmptyConn s \<noteq> None" if "user_num s < 10" using that by (rule room_has_space [OF ok])
  show "serve_user rd i s = Some (s\<lparr>wrote := wrote s @ map (\<lambda>c. (conn c, ''('' @ uname (conns s ! i) @ '') '' @ c_string msg))
      (filter (\<lambda>c. used c \<and> conn c \<noteq> conn (conns s ! i)) (conns s))\<rparr>)"
    if "i < 10 \<and> used (conns s ! i) \<and> rd (conn (conns s ! i)) = Some msg \<and> msg \<noteq> ''''
      \<and> length (uname (conns s ! i)) + length (c_string msg) + 3 < MAXLINE" for i rd msg
    by (rule serve_message [OF ok]) (use that in \<open>simp_all add: in_room_def\<close>)
qed

text \<open>Two users come in, and the first says something.\<close>

definition ann_joins :: events where
  "ann_joins = \<lparr>on_listen = Some (Accepted 4 ''ann''), on_read = (\<lambda>fd. None)\<rparr>"

definition bob_joins :: events where
  "bob_joins = \<lparr>on_listen = Some (Accepted 5 ''bob''), on_read = (\<lambda>fd. None)\<rparr>"

definition run_to :: "events \<Rightarrow> chat \<Rightarrow> chat" where
  "run_to e s = (case chat_round e s of Some (Go t) \<Rightarrow> t | _ \<Rightarrow> s)"

definition two_users :: chat where
  "two_users = run_to bob_joins (run_to ann_joins chat_start)"

lemma ann_comes: "chat_round ann_joins chat_start = Some (Go (run_to ann_joins chat_start))"
  by code_simp

lemma bob_comes: "chat_round bob_joins (run_to ann_joins chat_start) = Some (Go two_users)"
  by code_simp

lemma two_users_reached: "chat_reach two_users"
proof (rule chat_reach.round [OF chat_reach.round [OF chat_reach.start _ ann_comes] _ bob_comes])
  show "events_ok ann_joins chat_start" by (simp add: events_ok_def ann_joins_def chat_start_def)
  have "list_all (\<lambda>c. used c \<longrightarrow> conn c \<noteq> 5) (conns (run_to ann_joins chat_start))" by code_simp
  then show "events_ok bob_joins (run_to ann_joins chat_start)" by (simp add: events_ok_def bob_joins_def list_all_iff)
qed

theorem chat_room_works_witness:
  "user_num two_users = 2 \<and> FindEmptyConn two_users \<noteq> None
   \<and> map_option wrote (serve_user (\<lambda>fd. Some ''hi'') 0 two_users) = Some (wrote two_users @ [(5, ''(ann) hi'')])"
proof -
  have v: "used (conns two_users ! 0) \<and> conn (conns two_users ! 0) = 4 \<and> uname (conns two_users ! 0) = ''ann'' \<and> user_num two_users = 2"
    by code_simp
  have nb: "\<not> broken two_users" by code_simp
  have f: "map conn (filter (\<lambda>c. used c \<and> conn c \<noteq> 4) (conns two_users)) = [5]" by code_simp
  have m: "map (\<lambda>c. (conn c, x)) cs = map (\<lambda>d. (d, x)) (map conn cs)" for cs and x :: string by simp
  show ?thesis
    using chat_room_works [OF two_users_reached nb, THEN conjunct2, THEN conjunct1]
      chat_room_works [OF two_users_reached nb, THEN conjunct2, THEN conjunct2, THEN conjunct2, rule_format, of 0 "\<lambda>fd. Some ''hi''" "''hi''"] v f
    by (simp add: c_string_def m del: map_map)
qed

end
