(* ===== verification/Connect_Helpers.thy ===== *)
theory Connect_Helpers
  imports Getaddrinfo "HOL-Library.Multiset"
begin

text \<open>
  The helpers of \<open>lib/\<close> that turn a host and a service into a socket (\<open>tcp_connect.c\<close>, \<open>tcp_listen.c\<close>, \<open>udp_client.c\<close>,
  \<open>udp_connect.c\<close>, \<open>udp_server.c\<close>, \<open>host_serv.c\<close>), over the \<open>getaddrinfo\<close> of \<open>libgai\<close>, those that bound the time of a
  \<open>connect\<close> (\<open>connect_nonb.c\<close>, \<open>connect_timeo.c\<close>), and small ones. The answers of the kernel are parameters, by the number of the
  address tried; the calls made are recorded. \<open>Setsockopt\<close> and \<open>Close\<close> end the process when they fail, which is left out.
\<close>

abbreviation (input) MAXLINE :: nat where "MAXLINE \<equiv> 4096"

section \<open>A socket for the first address that works\<close>

record kernel =
  k_socket :: "nat \<Rightarrow> int"     \<comment> \<open>the descriptor, or -1\<close>
  k_ok :: "nat \<Rightarrow> bool"        \<comment> \<open>whether \<open>connect\<close> or \<open>bind\<close> succeeds\<close>

datatype syscall =
    Socket int int int int                   \<comment> \<open>family, type, protocol; the result\<close>
  | Connect int "sockaddr option" nat
  | Reuseaddr int
  | Bind int "sockaddr option" nat
  | Listen int
  | Close int

datatype opened = Opened int addrinfo | Err_quit "eai option" | Err_sys | Null_list

definition socket_call :: "kernel \<Rightarrow> nat \<Rightarrow> addrinfo \<Rightarrow> syscall" where
  "socket_call k n ai = Socket (ai_family ai) (ai_socktype ai) (ai_protocol ai) (k_socket k n)"

text \<open>
  The loop over the addresses, with the calls between \<open>socket\<close> and its end as a parameter; \<open>continue\<close> and a failed call go on to
  the next address.
\<close>

fun open_loop :: "kernel \<Rightarrow> (int \<Rightarrow> addrinfo \<Rightarrow> syscall list) \<Rightarrow> nat \<Rightarrow> addrinfo list \<Rightarrow> opened \<times> syscall list" where
  "open_loop k op n [] = (Err_sys, [])"
| "open_loop k op n (ai # res) =
     (let fd = k_socket k n in
      if fd < 0 then map_prod id ((#) (socket_call k n ai)) (open_loop k op (Suc n) res)
      else if k_ok k n then (Opened fd ai, socket_call k n ai # op fd ai)
      else map_prod id (\<lambda>cs. socket_call k n ai # op fd ai @ Close fd # cs) (open_loop k op (Suc n) res))"

text \<open>\<open>getaddrinfo\<close> before the loop.\<close>

definition over_addrinfo ::
  "resolver \<Rightarrow> string option \<Rightarrow> string \<Rightarrow> addrinfo \<Rightarrow> nat \<Rightarrow> (addrinfo list \<Rightarrow> opened \<times> syscall list) \<Rightarrow> opened \<times> syscall list" where
  "over_addrinfo env host serv hints m body =
     (case getaddrinfo env host (Some serv) (Some hints) m of
        Ret (None, g) \<Rightarrow> (if aihead g = [] then (Null_list, []) else body (aihead g))
      | Ret (Some n, g) \<Rightarrow> (Err_quit (Some n), [])
      | _ \<Rightarrow> (Err_quit None, []))"

definition passive_hints :: "int \<Rightarrow> addrinfo" where
  "passive_hints t = no_hints\<lparr>ai_flags := AI_PASSIVE, ai_socktype := t\<rparr>"

definition tcp_connect :: "resolver \<Rightarrow> kernel \<Rightarrow> string option \<Rightarrow> string \<Rightarrow> nat \<Rightarrow> opened \<times> syscall list" where
  "tcp_connect env k host serv m =
     over_addrinfo env host serv (plain_hints SOCK_STREAM) m
       (open_loop k (\<lambda>fd ai. [Connect fd (ai_addr ai) (ai_addrlen ai)]) 0)"

definition udp_connect :: "resolver \<Rightarrow> kernel \<Rightarrow> string option \<Rightarrow> string \<Rightarrow> nat \<Rightarrow> opened \<times> syscall list" where
  "udp_connect env k host serv m =
     over_addrinfo env host serv (plain_hints SOCK_DGRAM) m
       (open_loop k (\<lambda>fd ai. [Connect fd (ai_addr ai) (ai_addrlen ai)]) 0)"

text \<open>The address length goes back through \<open>addrlenp\<close>: it is in the entry returned.\<close>

definition tcp_listen :: "resolver \<Rightarrow> kernel \<Rightarrow> string option \<Rightarrow> string \<Rightarrow> nat \<Rightarrow> opened \<times> syscall list" where
  "tcp_listen env k host serv m =
     (case over_addrinfo env host serv (passive_hints SOCK_STREAM) m
        (open_loop k (\<lambda>fd ai. [Reuseaddr fd, Bind fd (ai_addr ai) (ai_addrlen ai)]) 0) of
        (Opened fd ai, cs) \<Rightarrow> (Opened fd ai, cs @ [Listen fd])
      | r \<Rightarrow> r)"

definition udp_server :: "resolver \<Rightarrow> kernel \<Rightarrow> string option \<Rightarrow> string \<Rightarrow> nat \<Rightarrow> opened \<times> syscall list" where
  "udp_server env k host serv m =
     over_addrinfo env host serv (passive_hints SOCK_DGRAM) m
       (open_loop k (\<lambda>fd ai. [Bind fd (ai_addr ai) (ai_addrlen ai)]) 0)"

text \<open>\<open>udp_client\<close> takes the first socket it gets, and copies the address of its entry for the caller.\<close>

fun udp_client_loop :: "kernel \<Rightarrow> nat \<Rightarrow> addrinfo list \<Rightarrow> opened \<times> syscall list" where
  "udp_client_loop k n [] = (Err_sys, [])"
| "udp_client_loop k n (ai # res) =
     (if k_socket k n \<ge> 0 then (Opened (k_socket k n) ai, [socket_call k n ai])
      else map_prod id ((#) (socket_call k n ai)) (udp_client_loop k (Suc n) res))"

definition udp_client :: "resolver \<Rightarrow> kernel \<Rightarrow> string option \<Rightarrow> string \<Rightarrow> nat \<Rightarrow> opened \<times> syscall list" where
  "udp_client env k host serv m = over_addrinfo env host serv (plain_hints SOCK_DGRAM) m (udp_client_loop k 0)"

text \<open>\<open>host_serv\<close> returns \<open>NULL\<close> for an error; \<open>Host_serv\<close> quits.\<close>

definition host_serv_hints :: "int \<Rightarrow> int \<Rightarrow> addrinfo" where
  "host_serv_hints family t = no_hints\<lparr>ai_flags := AI_CANONNAME, ai_family := family, ai_socktype := t\<rparr>"

definition host_serv :: "resolver \<Rightarrow> string option \<Rightarrow> string option \<Rightarrow> int \<Rightarrow> int \<Rightarrow> nat \<Rightarrow> addrinfo list outcome" where
  "host_serv env host serv family t m =
     (case getaddrinfo env host serv (Some (host_serv_hints family t)) m of
        Ret (None, g) \<Rightarrow> Ret (aihead g)
      | Ret (Some n, g) \<Rightarrow> Ret []
      | _ \<Rightarrow> Die [])"

definition Host_serv :: "resolver \<Rightarrow> string option \<Rightarrow> string option \<Rightarrow> int \<Rightarrow> int \<Rightarrow> nat \<Rightarrow> addrinfo list outcome" where
  "Host_serv env host serv family t m =
     (case getaddrinfo env host serv (Some (host_serv_hints family t)) m of
        Ret (None, g) \<Rightarrow> Ret (aihead g)
      | _ \<Rightarrow> Die [])"

section \<open>What the loop does\<close>

definition works :: "kernel \<Rightarrow> nat \<times> addrinfo \<Rightarrow> bool" where
  "works k t \<longleftrightarrow> 0 \<le> k_socket k (fst t) \<and> k_ok k (fst t)"

fun fds_opened :: "syscall list \<Rightarrow> int list" where
  "fds_opened [] = []"
| "fds_opened (Socket f t p fd # cs) = (if fd < 0 then fds_opened cs else fd # fds_opened cs)"
| "fds_opened (c # cs) = fds_opened cs"

fun fds_closed :: "syscall list \<Rightarrow> int list" where
  "fds_closed [] = []"
| "fds_closed (Close fd # cs) = fd # fds_closed cs"
| "fds_closed (c # cs) = fds_closed cs"

fun targets :: "syscall list \<Rightarrow> sockaddr option list" where
  "targets [] = []"
| "targets (Connect fd sa _ # cs) = sa # targets cs"
| "targets (Bind fd sa _ # cs) = sa # targets cs"
| "targets (c # cs) = targets cs"

text \<open>The addresses up to the first that works, with a socket for their family.\<close>

definition tried :: "kernel \<Rightarrow> (nat \<times> addrinfo) list \<Rightarrow> (nat \<times> addrinfo) list" where
  "tried k ts = filter (\<lambda>t. 0 \<le> k_socket k (fst t)) (takeWhile (\<lambda>t. \<not> works k t) ts @ take 1 (dropWhile (\<lambda>t. \<not> works k t) ts))"

text \<open>What the caller is left with: the first address that works and exactly its descriptor, or none and no descriptor.\<close>

definition first_working :: "kernel \<Rightarrow> addrinfo list \<Rightarrow> opened \<times> syscall list \<Rightarrow> bool" where
  "first_working k ais r \<longleftrightarrow>
     (case find (works k) (enumerate 0 ais) of
        None \<Rightarrow> fst r = Err_sys \<and> mset (fds_opened (snd r)) = mset (fds_closed (snd r))
      | Some (n, ai) \<Rightarrow> fst r = Opened (k_socket k n) ai
          \<and> mset (fds_opened (snd r)) = add_mset (k_socket k n) (mset (fds_closed (snd r))))
     \<and> targets (snd r) = map (ai_addr \<circ> snd) (tried k (enumerate 0 ais))"

lemma fds_opened_append [simp]: "fds_opened (xs @ ys) = fds_opened xs @ fds_opened ys"
  by (induction xs rule: fds_opened.induct) simp_all

lemma fds_closed_append [simp]: "fds_closed (xs @ ys) = fds_closed xs @ fds_closed ys"
  by (induction xs rule: fds_closed.induct) simp_all

lemma targets_append [simp]: "targets (xs @ ys) = targets xs @ targets ys"
  by (induction xs rule: targets.induct) simp_all

text \<open>The calls of one address open and close nothing, and name the address once.\<close>

definition one_target :: "(int \<Rightarrow> addrinfo \<Rightarrow> syscall list) \<Rightarrow> bool" where
  "one_target op \<longleftrightarrow> (\<forall>fd ai. fds_opened (op fd ai) = [] \<and> fds_closed (op fd ai) = [] \<and> targets (op fd ai) = [ai_addr ai])"

lemma open_loop_first:
  assumes "one_target op"
  shows "(case find (works k) (enumerate n ais) of
        None \<Rightarrow> fst (open_loop k op n ais) = Err_sys
          \<and> mset (fds_opened (snd (open_loop k op n ais))) = mset (fds_closed (snd (open_loop k op n ais)))
      | Some (j, ai) \<Rightarrow> fst (open_loop k op n ais) = Opened (k_socket k j) ai
          \<and> mset (fds_opened (snd (open_loop k op n ais))) = add_mset (k_socket k j) (mset (fds_closed (snd (open_loop k op n ais)))))
     \<and> targets (snd (open_loop k op n ais)) = map (ai_addr \<circ> snd) (tried k (enumerate n ais))"
proof (induction ais arbitrary: n)
  case Nil
  show ?case by (simp add: tried_def)
next
  case (Cons ai ais)
  have op: "fds_opened (op fd a) = []" "fds_closed (op fd a) = []" "targets (op fd a) = [ai_addr a]" for fd a
    using assms by (simp_all add: one_target_def)
  show ?case
    using Cons.IH [of "Suc n"]
    by (auto simp: works_def tried_def socket_call_def op Let_def split: option.splits)
qed

text \<open>A list \<open>getaddrinfo\<close> returns is never empty.\<close>

lemma ga_aistruct_nonempty: "ga_aistruct hints addr family g = (None, h) \<Longrightarrow> addr = Path p \<Longrightarrow> family = AF_UNIX \<Longrightarrow> aihead h \<noteq> []"
  by (auto simp: ga_aistruct_def make_addr_def Let_def split: option.splits sum.splits if_splits)

lemma ga_unix_nonempty: "ga_unix env path hints g = (None, h) \<Longrightarrow> aihead h \<noteq> []"
  by (auto simp: ga_unix_def alloc_def dest!: ga_aistruct_nonempty split: if_splits prod.splits option.splits)

lemma ga_port_nonempty: "ga_port ais p t m = Some (r, n, m') \<Longrightarrow> ais \<noteq> [] \<Longrightarrow> r \<noteq> []"
  by (cases ais) (auto split: if_splits option.splits prod.splits)

lemma ga_ports_nonempty: "ga_ports ais ps m = Some (r, n, m') \<Longrightarrow> ais \<noteq> [] \<Longrightarrow> r \<noteq> []"
  by (induction ais ps m arbitrary: r n m' rule: ga_ports.induct) (auto, fastforce dest: ga_port_nonempty split: option.splits prod.splits)

lemma ga_finish_nonempty: "ga_finish env hints host serv h0 g = Ret (None, h) \<Longrightarrow> aihead h \<noteq> []"
  by (auto simp: ga_finish_def bad_def ga_canon_def ga_serv_def alloc_def dest!: ga_ports_nonempty split: if_splits option.splits sum.splits prod.splits)

lemma getaddrinfo_nonempty: "getaddrinfo env host serv hints m = Ret (None, g) \<Longrightarrow> aihead g \<noteq> []"
  by (auto simp: getaddrinfo_def Let_def bad_def dest: ga_finish_nonempty ga_unix_nonempty
      split: option.splits if_splits prod.splits outcome.splits)

text \<open>A single address, as a numeric name gives it.\<close>

lemma open_loop_single:
  "fst (open_loop k op 0 [ai]) = (if 0 \<le> k_socket k 0 \<and> k_ok k 0 then Opened (k_socket k 0) ai else Err_sys)"
  by (simp add: Let_def)

lemma over_addrinfo_all:
  assumes "getaddrinfo env host (Some serv) (Some hints) m = Ret (None, g)"
  shows "over_addrinfo env host serv hints m body = body (aihead g)"
  using getaddrinfo_nonempty [OF assms] assms by (simp add: over_addrinfo_def)

lemma one_target_ops:
  "one_target (\<lambda>fd ai. [Connect fd (ai_addr ai) (ai_addrlen ai)])"
  "one_target (\<lambda>fd ai. [Bind fd (ai_addr ai) (ai_addrlen ai)])"
  "one_target (\<lambda>fd ai. [Reuseaddr fd, Bind fd (ai_addr ai) (ai_addrlen ai)])"
  by (simp_all add: one_target_def)

lemma open_loop_working: "one_target op \<Longrightarrow> first_working k ais (open_loop k op 0 ais)"
  using open_loop_first [of op k 0 ais] by (simp add: first_working_def)

lemma listen_working: "first_working k ais (r, cs) \<Longrightarrow> first_working k ais (r, cs @ [Listen fd])"
  by (simp add: first_working_def split: option.splits prod.splits)

lemma udp_client_first:
  "fst (udp_client_loop k n ais) = (case find (\<lambda>t. 0 \<le> k_socket k (fst t)) (enumerate n ais) of
      None \<Rightarrow> Err_sys | Some (j, ai) \<Rightarrow> Opened (k_socket k j) ai)
   \<and> mset (fds_opened (snd (udp_client_loop k n ais))) = (case find (\<lambda>t. 0 \<le> k_socket k (fst t)) (enumerate n ais) of
      None \<Rightarrow> {#} | Some (j, ai) \<Rightarrow> {#k_socket k j#})"
  by (induction ais arbitrary: n) (auto simp: socket_call_def split: option.splits)

text \<open>Without a list no socket is made.\<close>

lemma no_list_no_socket:
  "\<forall>g. getaddrinfo env host (Some serv) (Some hints) m \<noteq> Ret (None, g) \<Longrightarrow> \<exists>e. over_addrinfo env host serv hints m body = (Err_quit e, [])"
  by (auto simp: over_addrinfo_def split: outcome.splits option.splits prod.splits)

text \<open>
  C4 Whatever list \<open>getaddrinfo\<close> returns, it is not empty, and \<open>tcp_connect\<close>, \<open>udp_connect\<close>, \<open>tcp_listen\<close> and \<open>udp_server\<close> try its
  addresses in order, each that gets a socket once and none behind the first that works. They return the descriptor of that one
  and leave no other open, and end the process with every descriptor closed exactly if no address works.
\<close>

theorem sockets_from_names:
  "\<forall>g. (getaddrinfo env host (Some serv) (Some (plain_hints SOCK_STREAM)) m = Ret (None, g) \<longrightarrow>
      aihead g \<noteq> [] \<and> first_working k (aihead g) (tcp_connect env k host serv m))
    \<and> (getaddrinfo env host (Some serv) (Some (plain_hints SOCK_DGRAM)) m = Ret (None, g) \<longrightarrow>
      aihead g \<noteq> [] \<and> first_working k (aihead g) (udp_connect env k host serv m))
    \<and> (getaddrinfo env host (Some serv) (Some (passive_hints SOCK_STREAM)) m = Ret (None, g) \<longrightarrow>
      aihead g \<noteq> [] \<and> first_working k (aihead g) (tcp_listen env k host serv m))
    \<and> (getaddrinfo env host (Some serv) (Some (passive_hints SOCK_DGRAM)) m = Ret (None, g) \<longrightarrow>
      aihead g \<noteq> [] \<and> first_working k (aihead g) (udp_server env k host serv m))"
  using getaddrinfo_nonempty
  by (auto simp: tcp_connect_def udp_connect_def udp_server_def tcp_listen_def over_addrinfo_all open_loop_working one_target_ops
      intro: listen_working split: prod.splits opened.splits dest!: sym [of "open_loop _ _ _ _"])

text \<open>A host with two addresses, of which the first refuses.\<close>

definition two_homed :: resolver where
  "two_homed = silent_resolver\<lparr>gethostbyname2 := \<lambda>h f. if f = AF_INET
     then Inr \<lparr>h_name = h, h_addrtype = AF_INET, h_addr_list = [[10, 0, 0, 1], [10, 0, 0, 2]]\<rparr> else Inl HOST_NOT_FOUND\<rparr>"

definition second_answers :: kernel where
  "second_answers = \<lparr>k_socket = (\<lambda>n. int n + 3), k_ok = (\<lambda>n. n = 1)\<rparr>"

definition two_addresses :: gai where
  "two_addresses = (case getaddrinfo two_homed (Some ''h'') (Some ''80'') (Some (plain_hints SOCK_STREAM)) 9 of Ret (None, g) \<Rightarrow> g | _ \<Rightarrow> start_gai 0)"

theorem sockets_from_names_witness:
  "first_working second_answers (aihead two_addresses) (tcp_connect two_homed second_answers (Some ''h'') ''80'' 9)
   \<and> map ai_addr (aihead two_addresses) = [Some (Sockaddr_in 0x5000 [10, 0, 0, 1]), Some (Sockaddr_in 0x5000 [10, 0, 0, 2])]
   \<and> snd (tcp_connect two_homed second_answers (Some ''h'') ''80'' 9) =
      [Socket AF_INET SOCK_STREAM 0 3, Connect 3 (Some (Sockaddr_in 0x5000 [10, 0, 0, 1])) 16, Close 3,
       Socket AF_INET SOCK_STREAM 0 4, Connect 4 (Some (Sockaddr_in 0x5000 [10, 0, 0, 2])) 16]"
proof -
  have g: "getaddrinfo two_homed (Some ''h'') (Some ''80'') (Some (plain_hints SOCK_STREAM)) 9 = Ret (None, two_addresses)" by code_simp
  have "map ai_addr (aihead two_addresses) = [Some (Sockaddr_in 0x5000 [10, 0, 0, 1]), Some (Sockaddr_in 0x5000 [10, 0, 0, 2])]" by code_simp
  moreover have "snd (tcp_connect two_homed second_answers (Some ''h'') ''80'' 9) =
      [Socket AF_INET SOCK_STREAM 0 3, Connect 3 (Some (Sockaddr_in 0x5000 [10, 0, 0, 1])) 16, Close 3,
       Socket AF_INET SOCK_STREAM 0 4, Connect 4 (Some (Sockaddr_in 0x5000 [10, 0, 0, 2])) 16]" by code_simp
  ultimately show ?thesis using g sockets_from_names [of two_homed "Some ''h''" "''80''" 9 second_answers] by blast
qed

section \<open>From the printed address back to a connection\<close>

text \<open>The names \<open>getnameinfo\<close> prints for an address lead to one socket of its family, and to no other address.\<close>

lemma printed_address:
  assumes "sa_ok sa" "sa_family sa = AF_INET \<or> sa_family sa = AF_INET6" "2 \<le> m" "t = SOCK_STREAM \<or> t = SOCK_DGRAM"
  shows "\<exists>host serv ai. getnameinfo env sa 46 6 (NI_NUMERICHOST OR NI_NUMERICSERV) = Some (Some host, Some serv)
    \<and> over_addrinfo env (Some host) serv (plain_hints t) m body = body [ai]
    \<and> ai_family ai = sa_family sa \<and> ai_socktype ai = t \<and> ai_protocol ai = 0 \<and> ai_addr ai = Some sa
    \<and> ai_addrlen ai = (if sa_family sa = AF_INET then 16 else 28)"
proof -
  have "flag (NI_NUMERICHOST OR NI_NUMERICSERV) NI_NUMERICHOST" "flag (NI_NUMERICHOST OR NI_NUMERICSERV) NI_NUMERICSERV"
    by (simp_all add: flag_def)
  from numeric_names [OF assms(1,2) _ _ this _ assms(3), of 46 6 t env] assms(4)
  obtain host serv g where g: "getnameinfo env sa 46 6 (NI_NUMERICHOST OR NI_NUMERICSERV) = Some (Some host, Some serv)"
    "getaddrinfo env (Some host) (Some serv) (Some (plain_hints t)) m = Ret (None, g)"
    "map view (aihead g) = [(t, Some sa, if sa_family sa = AF_INET then 16 else 28, 0)]" "map ai_family (aihead g) = [sa_family sa]"
    by auto
  then obtain ai where "aihead g = [ai]" by auto
  then show ?thesis using g over_addrinfo_all [OF g(2), of body] by (auto simp: view_def)
qed

lemma connect_to_printed:
  assumes "sa_ok sa" "sa_family sa = AF_INET \<or> sa_family sa = AF_INET6" "2 \<le> m" "0 \<le> k_socket k 0" "k_ok k 0"
  shows "\<exists>host serv ai. getnameinfo env sa 46 6 (NI_NUMERICHOST OR NI_NUMERICSERV) = Some (Some host, Some serv)
    \<and> tcp_connect env k (Some host) serv m = (Opened (k_socket k 0) ai,
        [Socket (sa_family sa) SOCK_STREAM 0 (k_socket k 0), Connect (k_socket k 0) (Some sa) (if sa_family sa = AF_INET then 16 else 28)])"
proof -
  from printed_address [OF assms(1,2,3) disjI1 [OF refl], of env "open_loop k (\<lambda>fd ai. [Connect fd (ai_addr ai) (ai_addrlen ai)]) 0"]
  obtain host serv ai where "getnameinfo env sa 46 6 (NI_NUMERICHOST OR NI_NUMERICSERV) = Some (Some host, Some serv)"
    "tcp_connect env k (Some host) serv m = open_loop k (\<lambda>fd ai. [Connect fd (ai_addr ai) (ai_addrlen ai)]) 0 [ai]"
    "ai_family ai = sa_family sa" "ai_socktype ai = SOCK_STREAM" "ai_protocol ai = 0" "ai_addr ai = Some sa"
    "ai_addrlen ai = (if sa_family sa = AF_INET then 16 else 28)" unfolding tcp_connect_def by blast
  then show ?thesis using assms(4,5) by (simp add: socket_call_def Let_def)
qed

section \<open>A connect that takes only so long\<close>

abbreviation (input) O_NONBLOCK :: u32 where "O_NONBLOCK \<equiv> 2048"

record sock_file =
  f_flags :: u32
  f_open :: bool

text \<open>The returned value, \<open>errno\<close> after a failure, and the descriptor.\<close>

datatype timed = Returned int "errno option" sock_file | Quit

text \<open>
  What \<open>connect\<close> fails with, what \<open>Select\<close> finds readable and writable within its time (none: forever), nothing when the time
  is over, and \<open>getsockopt\<close>: its error, or the pending one.
\<close>

definition connect_nonb ::
  "errno option \<Rightarrow> (nat option \<Rightarrow> (bool \<times> bool) option) \<Rightarrow> errno + errno option \<Rightarrow> nat \<Rightarrow> sock_file \<Rightarrow> timed" where
  "connect_nonb conn select so_error nsec f =
     (let nb = f\<lparr>f_flags := f_flags f OR O_NONBLOCK\<rparr>; restored = nb\<lparr>f_flags := f_flags f\<rparr> in
      case conn of
        None \<Rightarrow> Returned 0 None restored
      | Some e \<Rightarrow>
          if e \<noteq> EINPROGRESS then Returned (-1) (Some e) nb
          else
            case select (if nsec \<noteq> 0 then Some nsec else None) of
              None \<Rightarrow> Returned (-1) (Some ETIMEDOUT) (nb\<lparr>f_open := False\<rparr>)
            | Some (r, w) \<Rightarrow>
                if r \<or> w then
                  (case so_error of
                     Inl e \<Rightarrow> Returned (-1) (Some e) nb
                   | Inr None \<Rightarrow> Returned 0 None restored
                   | Inr (Some e) \<Rightarrow> Returned (-1) (Some e) (restored\<lparr>f_open := False\<rparr>))
                else Quit)"

text \<open>It returns 0 exactly for a connection, with the descriptor as it was.\<close>

lemma connect_nonb_connected:
  "connect_nonb conn select so_error nsec f = Returned 0 e g \<longleftrightarrow> e = None \<and> g = f
     \<and> (conn = None \<or> conn = Some EINPROGRESS \<and> so_error = Inr None
          \<and> (case select (if nsec \<noteq> 0 then Some nsec else None) of None \<Rightarrow> False | Some (r, w) \<Rightarrow> r \<or> w))"
  by (auto simp: connect_nonb_def Let_def split: option.splits sum.splits)

text \<open>After a failure the descriptor is closed, or open and still non-blocking, depending on where it failed.\<close>

lemma connect_nonb_refused:
  "e \<noteq> EINPROGRESS \<Longrightarrow> connect_nonb (Some e) select so_error nsec f = Returned (-1) (Some e) (f\<lparr>f_flags := f_flags f OR O_NONBLOCK\<rparr>)"
  by (simp add: connect_nonb_def Let_def)

lemma connect_nonb_failed_closed:
  assumes "connect_nonb (Some EINPROGRESS) select (Inr p) nsec f = Returned (-1) e g"
  shows "\<not> f_open g \<and> e \<noteq> None"
  using assms by (auto simp: connect_nonb_def Let_def split: option.splits if_splits)

text \<open>The flags of \<open>signal\<close> let a signal other than \<open>SIGALRM\<close> restart calls, and \<open>SIGALRM\<close> interrupt them.\<close>

abbreviation (input) SIGALRM :: int where "SIGALRM \<equiv> 14"

datatype sa_flag = SA_INTERRUPT | SA_RESTART

definition signal_flags :: "int \<Rightarrow> sa_flag" where
  "signal_flags signo = (if signo = SIGALRM then SA_INTERRUPT else SA_RESTART)"

text \<open>\<open>alarm\<close> as a number of seconds, and the messages written; a \<open>close\<close> that fails would change \<open>errno\<close>.\<close>

definition connect_timeo :: "errno option \<Rightarrow> nat \<Rightarrow> sock_file \<Rightarrow> timed \<times> nat \<times> string list" where
  "connect_timeo conn alarm f =
     (let msgs = (if alarm \<noteq> 0 then [''connect_timeo: alarm was already set''] else []) in
      case conn of
        None \<Rightarrow> (Returned 0 None f, 0, msgs)
      | Some e \<Rightarrow> (Returned (-1) (Some (if e = EINTR then ETIMEDOUT else e)) (f\<lparr>f_open := False\<rparr>), 0, msgs))"

lemma connect_timeo_alarm_lost: "fst (snd (connect_timeo conn alarm f)) = 0"
  by (simp add: connect_timeo_def Let_def split: option.splits)

section \<open>Small helpers\<close>

definition my_addrs :: "resolver \<Rightarrow> (int \<times> byte list list) option" where
  "my_addrs env =
     (case uname env of
        None \<Rightarrow> None
      | Some nodename \<Rightarrow>
          (case gethostbyname env False nodename of
             Inl _ \<Rightarrow> None
           | Inr h \<Rightarrow> Some (h_addrtype h, h_addr_list h)))"

text \<open>The answer of \<open>getsockname\<close>.\<close>

definition sockfd_to_family :: "sockaddr option \<Rightarrow> int" where
  "sockfd_to_family name = (case name of None \<Rightarrow> -1 | Some sa \<Rightarrow> sa_family sa)"

text \<open>\<open>%06ld\<close>, for a number that is not negative.\<close>

definition fmt_06 :: "nat \<Rightarrow> string" where
  "fmt_06 n = replicate (6 - length (fmt_u n)) CHR ''0'' @ fmt_u n"

text \<open>The text of \<open>ctime\<close>, cut and written over from the year on.\<close>

definition gf_time :: "string \<Rightarrow> nat \<Rightarrow> string" where
  "gf_time ctime usec = take 8 (drop 11 ctime) @ take 21 (CHR ''.'' # fmt_06 usec)"

lemma gf_time_fits:
  assumes "length ctime = 25" "usec < 1000000"
  shows "length (gf_time ctime usec) = 15" "length (drop 11 ctime) < 30"
proof -
  have "length (fmt_u usec) \<le> 6" using assms(2) length_render [of 10 6 usec] by simp
  then show "length (gf_time ctime usec) = 15" using assms(1) by (simp add: gf_time_def fmt_06_def)
  show "length (drop 11 ctime) < 30" using assms(1) by simp
qed

text \<open>
  Passing a descriptor. A control message has a length, a level, a type and the descriptor; the kernel puts a descriptor of
  the receiver for the same file in its place.
\<close>

record cmsg =
  cmsg_len :: nat
  cmsg_level :: int
  cmsg_type :: int
  cmsg_data :: int

abbreviation (input) SOL_SOCKET :: int where "SOL_SOCKET \<equiv> 1"
abbreviation (input) SCM_RIGHTS :: int where "SCM_RIGHTS \<equiv> 1"

definition write_fd :: "byte list \<Rightarrow> int \<Rightarrow> byte list \<times> cmsg option" where
  "write_fd ptr sendfd = (ptr, Some \<lparr>cmsg_len = 20, cmsg_level = SOL_SOCKET, cmsg_type = SCM_RIGHTS, cmsg_data = sendfd\<rparr>)"

text \<open>\<open>read_fd\<close> of what \<open>recvmsg\<close> returns, \<open>None\<close> for an error: the bytes read and the descriptor, if it stores one.\<close>

definition read_fd :: "nat \<Rightarrow> (byte list \<times> cmsg option) option \<Rightarrow> (int \<times> byte list \<times> int option) outcome" where
  "read_fd nbytes msg =
     (case msg of
        None \<Rightarrow> Ret (-1, [], None)
      | Some (data, control) \<Rightarrow>
          let ptr = take nbytes data; n = int (length ptr) in
          if n \<le> 0 then Ret (n, ptr, None)
          else
            case control of
              None \<Rightarrow> Ret (n, ptr, Some (-1))
            | Some c \<Rightarrow>
                if cmsg_len c = 20 then
                  (if cmsg_level c \<noteq> SOL_SOCKET then Die (n, ptr, None)
                   else if cmsg_type c \<noteq> SCM_RIGHTS then Die (n, ptr, None)
                   else Ret (n, ptr, Some (cmsg_data c)))
                else Ret (n, ptr, Some (-1)))"

definition pass :: "(int \<Rightarrow> int) \<Rightarrow> byte list \<times> cmsg option \<Rightarrow> byte list \<times> cmsg option" where
  "pass dup m = map_prod id (map_option (\<lambda>c. c\<lparr>cmsg_data := dup (cmsg_data c)\<rparr>)) m"

lemma fd_passed: "b \<noteq> [] \<Longrightarrow> length b \<le> n \<Longrightarrow> read_fd n (Some (pass dup (write_fd b fd))) = Ret (int (length b), b, Some (dup fd))"
  by (cases b) (simp_all add: read_fd_def pass_def write_fd_def Let_def)

text \<open>Without a byte of data the descriptor is lost: \<open>read_fd\<close> returns before it looks at it.\<close>

lemma fd_needs_data: "read_fd n (Some (pass dup (write_fd [] fd))) = Ret (0, [], None)"
  by (simp add: read_fd_def pass_def write_fd_def Let_def)

text \<open>
  The UDP client and server: the lines \<open>Fgets\<close> stores, each sent up to its first NUL, and the datagrams that answer; what \<open>Fputs\<close>
  prints. \<open>None\<close> waits for an answer for ever.
\<close>

fun dg_cli_lib :: "string list \<Rightarrow> string list \<Rightarrow> (string list \<times> string) option" where
  "dg_cli_lib [] answers = Some ([], '''')"
| "dg_cli_lib (sendline # fp) [] = None"
| "dg_cli_lib (sendline # fp) (d # answers) =
     map_option (\<lambda>(sent, shown). (c_string sendline # sent, c_string (take MAXLINE d) @ shown)) (dg_cli_lib fp answers)"

definition dg_echo_lib :: "string list \<Rightarrow> string list" where
  "dg_echo_lib ds = map (take MAXLINE) ds"

lemma c_string_id: "CHR 0x00 \<notin> set s \<Longrightarrow> c_string s = s"
  by (auto simp: c_string_def takeWhile_eq_all_conv)

lemma dg_cli_echo:
  "\<forall>l\<in>set fp. CHR 0x00 \<notin> set l \<and> length l < MAXLINE \<Longrightarrow> dg_cli_lib fp (dg_echo_lib fp) = Some (fp, concat fp)"
  by (induction fp) (simp_all add: dg_echo_lib_def c_string_id)

end
