(* ===== verification/Sock_Data.thy ===== *)
theory Sock_Data
  imports Inet_Aton Getaddrinfo
begin

text \<open>
  The data of the \<open>sock\<close> program: the conversion of line ends (\<open>sock/crlf.c\<close>), the pattern that is sent (\<open>pattern.c\<close>),
  writing in chunks (\<open>write.c\<close>) and the IP option for a source route (\<open>sourceroute.c\<close>). \<open>None\<close> is \<open>err_quit\<close> unless said
  otherwise.
\<close>

section \<open>Line ends: \<open>crlf.c\<close>\<close>

text \<open>The loop of \<open>crlf_add\<close> with its counter; the results are the length returned and the bytes stored.\<close>

fun crlf_add_loop :: "nat \<Rightarrow> nat \<Rightarrow> byte list \<Rightarrow> (nat \<times> byte list) option" where
  "crlf_add_loop dstsize lenout [] = Some (lenout, [])"
| "crlf_add_loop dstsize lenout (c # src) =
     (if c = 10 then
        (if lenout + 1 \<ge> dstsize then None
         else map_option (map_prod id (\<lambda>dst. 13 # c # dst)) (crlf_add_loop dstsize (lenout + 1) src))
      else map_option (map_prod id ((#) c)) (crlf_add_loop dstsize lenout src))"

definition crlf_add :: "nat \<Rightarrow> byte list \<Rightarrow> (nat \<times> byte list) option" where
  "crlf_add dstsize src = (if length src > dstsize then None else crlf_add_loop dstsize (length src) src)"

fun crlf_strip_loop :: "nat \<Rightarrow> nat \<Rightarrow> byte list \<Rightarrow> (nat \<times> byte list) option" where
  "crlf_strip_loop dstsize lenout [] = Some (lenout, [])"
| "crlf_strip_loop dstsize lenout (c # src) =
     (if c \<noteq> 13 then
        (if lenout + 1 \<ge> dstsize then None
         else map_option (map_prod id ((#) c)) (crlf_strip_loop dstsize (lenout + 1) src))
      else crlf_strip_loop dstsize lenout src)"

definition crlf_strip :: "nat \<Rightarrow> byte list \<Rightarrow> (nat \<times> byte list) option" where
  "crlf_strip dstsize src = crlf_strip_loop dstsize 0 src"

text \<open>What they store.\<close>

definition with_cr :: "byte list \<Rightarrow> byte list" where
  "with_cr src = concat (map (\<lambda>c. if c = 10 then [13, 10] else [c]) src)"

definition newlines :: "byte list \<Rightarrow> nat" where
  "newlines src = length (filter (\<lambda>c. c = 10) src)"

lemma with_cr_simps [simp]: "with_cr [] = []" "with_cr (c # s) = (if c = 10 then 13 # 10 # with_cr s else c # with_cr s)"
  "with_cr (s @ t) = with_cr s @ with_cr t"
  by (simp_all add: with_cr_def)

lemma newlines_simps [simp]: "newlines [] = 0" "newlines (c # s) = (if c = 10 then Suc (newlines s) else newlines s)"
  by (simp_all add: newlines_def)

lemma length_with_cr: "length (with_cr s) = length s + newlines s"
  by (induction s) simp_all

lemma crlf_add_loop_eq:
  "crlf_add_loop d n s = (if newlines s = 0 \<or> n + newlines s < d then Some (n + newlines s, with_cr s) else None)"
  by (induction d n s rule: crlf_add_loop.induct) auto

text \<open>The counter is right; the destination may be filled to the last byte only by a text without newlines.\<close>

lemma crlf_add_eq:
  "crlf_add d s = (if newlines s = 0 \<and> length s \<le> d \<or> length (with_cr s) < d then Some (length (with_cr s), with_cr s) else None)"
  by (auto simp: crlf_add_def crlf_add_loop_eq length_with_cr)

lemma crlf_strip_loop_eq:
  "crlf_strip_loop d n s = (let t = filter (\<lambda>c. c \<noteq> 13) s in if t = [] \<or> n + length t < d then Some (n + length t, t) else None)"
  by (induction d n s rule: crlf_strip_loop.induct) (auto simp: Let_def)

lemma crlf_strip_eq:
  "crlf_strip d s = (let t = filter (\<lambda>c. c \<noteq> 13) s in if t = [] \<or> length t < d then Some (length t, t) else None)"
  by (simp add: crlf_strip_def crlf_strip_loop_eq Let_def)

lemma strip_with_cr: "13 \<notin> set s \<Longrightarrow> filter (\<lambda>c. c \<noteq> 13) (with_cr s) = s"
  by (induction s) auto

text \<open>A read that fills the buffer ends the program, though the destination is large enough.\<close>

lemma crlf_strip_full: "13 \<notin> set s \<Longrightarrow> s \<noteq> [] \<Longrightarrow> crlf_strip (length s) s = None"
proof -
  assume s: "13 \<notin> set s" "s \<noteq> []"
  have "filter (\<lambda>c. c \<noteq> 13) s = s" using s(1) by (induction s) auto
  then show ?thesis using s(2) by (simp add: crlf_strip_eq)
qed

lemma crlf_add_full: "newlines s \<noteq> 0 \<Longrightarrow> crlf_add (length (with_cr s)) s = None"
  by (simp add: crlf_add_eq)



section \<open>The pattern\<close>

definition isprint :: "nat \<Rightarrow> bool" where
  "isprint c \<longleftrightarrow> 32 \<le> c \<and> c < 127"

lemma char_step: "(c + 1) mod 256 mod 128 = (c mod 128 + 1) mod (128 :: nat)"
  by (simp add: mod_mod_cancel mod_add_left_eq mod_Suc_eq)

text \<open>\<open>c\<close> is a \<open>char\<close>; only \<open>c & 0x7F\<close> is looked at.\<close>

function skip_np :: "nat \<Rightarrow> nat" where
  "skip_np c = (if isprint (c mod 128) then c else skip_np ((c + 1) mod 256))"
  by auto
termination
proof (relation "measure (\<lambda>c. if c mod 128 < 33 then 32 - c mod 128 else 34)")
  fix c :: nat
  assume np: "\<not> isprint (c mod 128)"
  have m: "(c + 1) mod 256 mod 128 = (c mod 128 + 1) mod 128" by (rule char_step)
  have "c mod 128 < 32 \<or> c mod 128 = 127" using np by (auto simp: isprint_def) 
  then show "((c + 1) mod 256, c) \<in> measure (\<lambda>c. if c mod 128 < 33 then 32 - c mod 128 else 34)"
    using m by auto
qed simp

declare skip_np.simps [simp del]

fun pattern_from :: "nat \<Rightarrow> nat \<Rightarrow> nat list" where
  "pattern_from c 0 = []"
| "pattern_from c (Suc n) = (let c = skip_np c in (c mod 128) # pattern_from ((c + 1) mod 256) n)"

definition pattern :: "nat \<Rightarrow> nat list" where
  "pattern n = pattern_from 0 n"

lemma skip_np_char: "skip_np c mod 128 = (if isprint (c mod 128) then c mod 128 else 32)"
proof (induction c rule: skip_np.induct)
  case (1 c)
  show ?case
  proof (cases "isprint (c mod 128)")
    case False
    have m: "(c + 1) mod 256 mod 128 = (c mod 128 + 1) mod 128" by (rule char_step)
    have "c mod 128 < 31 \<or> c mod 128 = 31 \<or> c mod 128 = 127" using False by (auto simp: isprint_def)
    then show ?thesis using 1 [OF False] False unfolding m by (subst skip_np.simps) (auto simp: isprint_def)
  qed (subst skip_np.simps, simp)
qed

lemma pattern_from_char:
  "skip_np c mod 128 = 32 + j mod 95 \<Longrightarrow> pattern_from c n = map (\<lambda>i. 32 + (j + i) mod 95) [0..<n]"
proof (induction n arbitrary: c j)
  case (Suc n)
  let ?d = "(skip_np c + 1) mod 256"
  have p: "?d mod 128 = (33 + j mod 95) mod 128" unfolding char_step Suc.prems by (simp add: mod_simps)
  have "j mod 95 < 95" by simp
  then consider "j mod 95 < 94" | "j mod 95 = 94" by linarith
  then have "skip_np ?d mod 128 = 32 + Suc j mod 95"
  proof cases
    case 1
    then show ?thesis unfolding skip_np_char p by (simp add: isprint_def mod_Suc)
  next
    case 2
    then show ?thesis unfolding skip_np_char p by (simp add: isprint_def mod_Suc)
  qed
  from Suc.IH [OF this] show ?case
    using Suc.prems by (simp add: Let_def upt_conv_Cons map_Suc_upt [symmetric] del: upt_Suc)
qed simp

text \<open>The printable characters in turn.\<close>

lemma pattern_chars: "pattern n = map (\<lambda>i. 32 + i mod 95) [0..<n]"
  using pattern_from_char [of 0 0 n] by (simp add: pattern_def skip_np_char isprint_def)

section \<open>Writing in chunks: \<open>write.c\<close>\<close>

text \<open>\<open>UIO_MAXIOV\<close> is \<open>maxiov\<close>: 16, or what the system defines.\<close>

definition chunksize :: "nat \<Rightarrow> nat \<Rightarrow> nat" where
  "chunksize maxiov nbytes =
     (let chunksize = nbytes div maxiov in
      if chunksize \<le> 0 then 1 else if nbytes mod maxiov \<noteq> 0 then chunksize + 1 else chunksize)"

text \<open>The entries of \<open>iov\<close> from \<open>i\<close> on, with \<open>maxiov - i\<close> left; \<open>None\<close> for \<open>i == UIO_MAXIOV\<close>.\<close>

fun iov_loop :: "nat \<Rightarrow> nat \<Rightarrow> byte list \<Rightarrow> byte list list option" where
  "iov_loop 0 ch ptr = None"
| "iov_loop (Suc k) ch ptr =
     (let n = (if length ptr \<ge> ch then ch else length ptr) in
      if length ptr - n = 0 then Some [take n ptr]
      else map_option ((#) (take n ptr)) (iov_loop k ch (drop n ptr)))"

text \<open>The chunks written one after the other, with what \<open>write\<close> returns for each.\<close>

fun write_chunks :: "int \<Rightarrow> byte list list \<Rightarrow> int list \<Rightarrow> int \<times> byte list list" where
  "write_chunks ntotal [] rs = (ntotal, [])"
| "write_chunks ntotal (c # cs) [] = (ntotal, [])"
| "write_chunks ntotal (c # cs) (r # rs) =
     (if r \<noteq> int (length c) then (-1, [c]) else map_prod id ((#) c) (write_chunks (ntotal + r) cs rs))"

text \<open>
  \<open>dowrite\<close>: the value returned and the buffers handed to the kernel, which answers \<open>rs\<close>; \<open>write\<close> and \<open>writev\<close> of everything
  take one answer.
\<close>

definition dowrite :: "nat \<Rightarrow> bool \<Rightarrow> bool \<Rightarrow> byte list \<Rightarrow> int list \<Rightarrow> (int \<times> byte list list) option" where
  "dowrite maxiov chunkwrite usewritev ptr rs =
     (if \<not> chunkwrite \<and> \<not> usewritev then Some (hd rs, [ptr])
      else
        case iov_loop maxiov (chunksize maxiov (length ptr)) ptr of
          None \<Rightarrow> None
        | Some iov \<Rightarrow> Some (if usewritev then (hd rs, iov) else write_chunks 0 iov rs))"

lemma iov_loop_covers:
  "0 < k \<Longrightarrow> 0 < ch \<Longrightarrow> length ptr \<le> k * ch \<Longrightarrow> \<exists>iov. iov_loop k ch ptr = Some iov \<and> concat iov = ptr \<and> length iov \<le> k \<and> iov \<noteq> []
     \<and> (\<forall>c\<in>set iov. length c \<le> ch) \<and> (ptr \<noteq> [] \<longrightarrow> [] \<notin> set iov)"
proof (induction k ch ptr rule: iov_loop.induct)
  case (2 k ch ptr)
  show ?case
  proof (cases "length ptr \<le> ch")
    case False
    then have "0 < k" using "2.prems"(3) by (cases k) simp_all
    then obtain iov where iov: "iov_loop k ch (drop ch ptr) = Some iov" "concat iov = drop ch ptr" "length iov \<le> k" "iov \<noteq> []"
      "\<forall>c\<in>set iov. length c \<le> ch" "[] \<notin> set iov"
    proof -
      have "length (drop ch ptr) \<le> k * ch" "drop ch ptr \<noteq> []" using "2.prems"(3) False by simp_all
      with "2.IH" [OF refl] False \<open>0 < k\<close> "2.prems"(2) show thesis using that by auto
    qed
    then show ?thesis using False "2.prems"(2) by auto
  qed auto
qed simp

lemma chunksize_covers: "0 < m \<Longrightarrow> 0 < chunksize m n \<and> n \<le> m * chunksize m n"
proof -
  assume m: "0 < m"
  have "m * (n div m) + n mod m = n" by simp
  moreover have "n mod m < m" using m by simp
  ultimately have "n \<le> m + m * (n div m)" by linarith
  then show ?thesis using m by (auto simp: chunksize_def Let_def div_eq_0_iff)
qed

lemma write_chunks_all:
  "\<forall>r\<in>set rs. 0 \<le> r \<Longrightarrow> rs = map (\<lambda>c. int (length c)) cs \<Longrightarrow> write_chunks t cs rs = (t + int (length (concat cs)), cs)"
  by (induction t cs rs rule: write_chunks.induct) auto

text \<open>
  \<open>dowrite\<close> in chunks always finds its chunks, so \<open>i == UIO_MAXIOV\<close> is never reported: at most \<open>UIO_MAXIOV\<close> of them, which together
  are the buffer and none of which is empty unless the buffer is; and when the kernel takes each of them whole, the length
  of the buffer is returned.
\<close>

lemma dowrite_whole:
  assumes "0 < maxiov" "chunkwrite"
  shows "\<exists>iov. concat iov = ptr \<and> length iov \<le> maxiov \<and> (ptr \<noteq> [] \<longrightarrow> [] \<notin> set iov)
    \<and> dowrite maxiov chunkwrite True ptr [int (length ptr)] = Some (int (length ptr), iov)
    \<and> dowrite maxiov chunkwrite False ptr (map (\<lambda>c. int (length c)) iov) = Some (int (length ptr), iov)"
proof -
  obtain iov where iov: "iov_loop maxiov (chunksize maxiov (length ptr)) ptr = Some iov" "concat iov = ptr" "length iov \<le> maxiov"
    "ptr \<noteq> [] \<longrightarrow> [] \<notin> set iov"
    using iov_loop_covers [of maxiov "chunksize maxiov (length ptr)" ptr] chunksize_covers [OF assms(1), of "length ptr"] assms(1) by auto
  then show ?thesis
    using write_chunks_all [of "map (\<lambda>c. int (length c)) iov" iov 0] assms(2) by (auto simp: dowrite_def)
qed

lemma dowrite_whole_example:
  "\<exists>iov. concat iov = replicate 33 7 \<and> length iov \<le> 16
    \<and> dowrite 16 True True (replicate 33 7) [33] = Some (33, iov)"
  using dowrite_whole [of 16 True "replicate 33 7"] by auto

section \<open>The source route: \<open>sourceroute.c\<close>\<close>

abbreviation (input) IPOPT_LSRR :: byte where "IPOPT_LSRR \<equiv> 131"
abbreviation (input) IPOPT_SSRR :: byte where "IPOPT_SSRR \<equiv> 137"

record sroute =
  sroute_cnt :: nat
  sroute_opt :: "byte list"      \<comment> \<open>44 bytes\<close>
  optr :: nat

definition sroute_start :: sroute where
  "sroute_start = \<lparr>sroute_cnt = 0, sroute_opt = replicate 44 0, optr = 0\<rparr>"

text \<open>The address of a hop.\<close>

definition hop_addr :: "resolver \<Rightarrow> string \<Rightarrow> byte list option" where
  "hop_addr env argptr =
     (case inet_aton argptr of
        Some a \<Rightarrow> Some a
      | None \<Rightarrow> (case gethostbyname env False argptr of Inl _ \<Rightarrow> None | Inr hp \<Rightarrow> Some (hd (h_addr_list hp))))"

text \<open>
  \<open>memcpy(optr, addr, sizeof(u_long))\<close>, with \<open>w\<close> for \<open>sizeof(u_long)\<close>: \<open>None\<close> when it reads behind the address or writes behind
  the option.
\<close>

definition put_addr :: "nat \<Rightarrow> byte list \<Rightarrow> sroute \<Rightarrow> sroute option" where
  "put_addr w a s =
     (if length a < w \<or> optr s + w > 44 then None
      else Some (s\<lparr>sroute_opt := poke (sroute_opt s) (optr s) (take w a), optr := optr s + w\<rparr>))"

definition first_hop :: "bool \<Rightarrow> sroute \<Rightarrow> sroute" where
  "first_hop strict s =
     (if sroute_cnt s = 0 then s\<lparr>sroute_opt := (replicate 44 0)[0 := (if strict then IPOPT_SSRR else IPOPT_LSRR), 2 := 4], optr := 3\<rparr>
      else s)"

text \<open>\<open>None\<close> is undefined behaviour here.\<close>

definition sroute_doopt :: "nat \<Rightarrow> resolver \<Rightarrow> bool \<Rightarrow> string \<Rightarrow> sroute \<Rightarrow> sroute outcome option" where
  "sroute_doopt w env strict argptr s =
     (if sroute_cnt s \<ge> 9 then Some (Die s)
      else
        case hop_addr env argptr of
          None \<Rightarrow> Some (Die s)
        | Some a \<Rightarrow> map_option (\<lambda>s. Go (s\<lparr>sroute_cnt := sroute_cnt s + 1\<rparr>)) (put_addr w a (first_hop strict s)))"

text \<open>\<open>while ((optr - sroute_opt) & 3) optr++;\<close>\<close>

definition round_up :: "nat \<Rightarrow> nat" where
  "round_up n = (if n mod 4 = 0 then n else n + (4 - n mod 4))"

text \<open>\<open>sroute_set\<close>: the option given to the kernel, and the state after it.\<close>

definition sroute_set :: "nat \<Rightarrow> byte list \<Rightarrow> sroute \<Rightarrow> (byte list \<times> sroute) option" where
  "sroute_set w dest s =
     (let n = sroute_cnt s + 1; s = s\<lparr>sroute_opt := (sroute_opt s)[1 := of_nat (3 + n * 4)]\<rparr> in
      case put_addr w dest s of
        None \<Rightarrow> None
      | Some s \<Rightarrow> let optr = round_up (optr s) in
          if optr > 44 then None else Some (take optr (sroute_opt s), s\<lparr>sroute_cnt := 0, optr := optr\<rparr>))"

text \<open>With a \<open>u_long\<close> of eight bytes the first hop reads behind its four-byte address.\<close>

lemma sroute_wide_long: "sroute_cnt s = 0 \<Longrightarrow> hop_addr env h = Some a \<Longrightarrow> length a = 4 \<Longrightarrow> sroute_doopt 8 env strict h s = None"
  by (simp add: sroute_doopt_def put_addr_def)

text \<open>The option after some hops.\<close>

definition hops_in :: "bool \<Rightarrow> byte list list \<Rightarrow> sroute \<Rightarrow> bool" where
  "hops_in strict as s \<longleftrightarrow> as \<noteq> [] \<and> sroute_cnt s = length as \<and> optr s = 3 + 4 * length as
     \<and> sroute_opt s = [if strict then IPOPT_SSRR else IPOPT_LSRR, 0, 4] @ concat as @ replicate (41 - 4 * length as) 0"

lemma length_concat4: "\<forall>a\<in>set as. length a = 4 \<Longrightarrow> length (concat as) = 4 * length as"
  by (induction as) simp_all

lemma put_addr4:
  assumes "length pre = optr s" "sroute_opt s = pre @ replicate k 0" "4 \<le> k" "length a = 4" "optr s + k = 44"
  shows "put_addr 4 a s = Some (s\<lparr>sroute_opt := pre @ a @ replicate (k - 4) 0, optr := optr s + 4\<rparr>)"
  using assms poke_frontier [of k a "k - 4" pre 0] by (simp add: put_addr_def)

lemma hop_added:
  assumes "hops_in strict as s" "\<forall>a\<in>set as. length a = 4" "length as < 9" "hop_addr env h = Some a" "length a = 4"
  shows "\<exists>t. sroute_doopt 4 env strict' h s = Some (Go t) \<and> hops_in strict (as @ [a]) t"
proof -
  let ?pre = "[if strict then IPOPT_SSRR else IPOPT_LSRR, 0, 4] @ concat as"
  have "put_addr 4 a s = Some (s\<lparr>sroute_opt := ?pre @ a @ replicate (41 - 4 * length as - 4) 0, optr := optr s + 4\<rparr>)"
    by (rule put_addr4) (use assms length_concat4 [OF assms(2)] in \<open>simp_all add: hops_in_def\<close>)
  then show ?thesis using assms by (simp add: sroute_doopt_def hops_in_def first_hop_def)
qed

lemma first_hop_added:
  assumes "sroute_cnt s = 0" "hop_addr env h = Some a" "length a = 4"
  shows "\<exists>t. sroute_doopt 4 env strict h s = Some (Go t) \<and> hops_in strict [a] t"
proof -
  let ?s = "first_hop strict s"
  let ?pre = "[if strict then IPOPT_SSRR else IPOPT_LSRR, 0, 4]"
  have opt: "sroute_opt ?s = ?pre @ replicate 41 0" "optr ?s = 3" "sroute_cnt ?s = 0"
    using assms(1) by (simp_all add: first_hop_def numeral_eq_Suc)
  have "put_addr 4 a ?s = Some (?s\<lparr>sroute_opt := ?pre @ a @ replicate (41 - 4) 0, optr := optr ?s + 4\<rparr>)"
    by (rule put_addr4) (use opt assms in simp_all)
  then show ?thesis using assms opt by (simp add: sroute_doopt_def hops_in_def)
qed

text \<open>The options \<open>-g\<close> and \<open>-G\<close> of a command line.\<close>

fun sroute_hops :: "nat \<Rightarrow> resolver \<Rightarrow> (bool \<times> string) list \<Rightarrow> sroute \<Rightarrow> sroute outcome option" where
  "sroute_hops w env [] s = Some (Go s)"
| "sroute_hops w env ((strict, h) # hs) s =
     (case sroute_doopt w env strict h s of
        Some (Go s) \<Rightarrow> sroute_hops w env hs s
      | r \<Rightarrow> r)"

definition hop_ok :: "resolver \<Rightarrow> bool \<times> string \<Rightarrow> bool" where
  "hop_ok env h \<longleftrightarrow> (case hop_addr env (snd h) of None \<Rightarrow> False | Some a \<Rightarrow> length a = 4)"

definition route :: "resolver \<Rightarrow> (bool \<times> string) list \<Rightarrow> byte list list" where
  "route env hs = map (\<lambda>h. the (hop_addr env (snd h))) hs"

lemma hop_okD: "hop_ok env h \<Longrightarrow> hop_addr env (snd h) = Some (the (hop_addr env (snd h))) \<and> length (the (hop_addr env (snd h))) = 4"
  by (auto simp: hop_ok_def split: option.splits)

lemma more_hops:
  "hops_in strict as s \<Longrightarrow> \<forall>a\<in>set as. length a = 4 \<Longrightarrow> \<forall>h\<in>set hs. hop_ok env h \<Longrightarrow> length as + length hs \<le> 9 \<Longrightarrow>
   \<exists>t. sroute_hops 4 env hs s = Some (Go t) \<and> hops_in strict (as @ route env hs) t"
proof (induction hs arbitrary: as s)
  case (Cons h hs)
  obtain st x where h: "h = (st, x)" by (cases h)
  let ?a = "the (hop_addr env x)"
  have a: "hop_addr env x = Some ?a" "length ?a = 4" using hop_okD [of env h] Cons.prems(3) h by simp_all
  obtain t where t: "sroute_doopt 4 env st x s = Some (Go t)" "hops_in strict (as @ [?a]) t"
    using hop_added [OF Cons.prems(1,2) _ a] Cons.prems(4) by auto
  have "\<exists>u. sroute_hops 4 env hs t = Some (Go u) \<and> hops_in strict ((as @ [?a]) @ route env hs) u"
    by (rule Cons.IH [OF t(2)]) (use Cons.prems a(2) in auto)
  then show ?case using t(1) h by (simp add: route_def)
qed (simp add: route_def)

lemma route_set:
  assumes "hops_in strict as s" "\<forall>a\<in>set as. length a = 4" "length as \<le> 9" "length dest = 4"
  shows "\<exists>t. sroute_set 4 dest s = Some ([if strict then IPOPT_SSRR else IPOPT_LSRR, of_nat (7 + 4 * length as), 4] @ concat as @ dest @ [0], t)
    \<and> sroute_cnt t = 0"
proof -
  let ?n = "length as"
  let ?s = "s\<lparr>sroute_opt := (sroute_opt s)[1 := of_nat (3 + (sroute_cnt s + 1) * 4)]\<rparr>"
  let ?pre = "[if strict then IPOPT_SSRR else IPOPT_LSRR, of_nat (7 + 4 * ?n), 4] @ concat as"
  have len: "length (concat as) = 4 * ?n" by (rule length_concat4 [OF assms(2)])
  have s: "sroute_opt ?s = ?pre @ replicate (41 - 4 * ?n) 0" "optr ?s = 3 + 4 * ?n" "sroute_cnt s = ?n"
    using assms(1) by (simp_all add: hops_in_def algebra_simps)
  have put: "put_addr 4 dest ?s = Some (?s\<lparr>sroute_opt := ?pre @ dest @ replicate (41 - 4 * ?n - 4) 0, optr := optr ?s + 4\<rparr>)"
    by (rule put_addr4) (use s len assms in simp_all)
  have up: "round_up (optr ?s + 4) = 8 + 4 * ?n" unfolding s(2) round_up_def by (simp add: mod_simps)
  have z: "replicate (37 - 4 * ?n) 0 = 0 # replicate (36 - 4 * ?n) (0 :: byte)"
  proof -
    have "37 - 4 * ?n = Suc (36 - 4 * ?n)" using assms(3) by linarith
    then show ?thesis by (simp only: replicate_Suc)
  qed
  have "?pre @ dest @ replicate (41 - 4 * ?n - 4) 0 = (?pre @ dest @ [0]) @ replicate (36 - 4 * ?n) 0" using z by simp
  moreover have "8 + 4 * ?n = length (?pre @ dest @ [0])" using len assms(4) by simp
  ultimately have "take (8 + 4 * ?n) (?pre @ dest @ replicate (41 - 4 * ?n - 4) 0) = ?pre @ dest @ [0]"
    using append_eq_conv_conj by metis
  then show ?thesis using put up assms(3) unfolding sroute_set_def Let_def s(3) by simp
qed

text \<open>
  C29 Where a \<open>u_long\<close> has four bytes, one to nine hops make exactly the IP option of the source route: its type from the first option given,
  its length without the padding, the pointer to the first address, the hops in the order of the command line, the
  destination, and one zero byte that makes the size a multiple of four. It fits the array of 44 bytes, and a second
  call is prevented.
\<close>

theorem source_route_option:
  assumes "hs \<noteq> []" "length hs \<le> 9" "\<forall>h\<in>set hs. hop_ok env h" "length dest = 4"
  shows "\<exists>s t opt. sroute_hops 4 env hs sroute_start = Some (Go s) \<and> sroute_set 4 dest s = Some (opt, t) \<and> sroute_cnt t = 0
    \<and> opt = [if fst (hd hs) then IPOPT_SSRR else IPOPT_LSRR, of_nat (7 + 4 * length hs), 4] @ concat (route env hs) @ dest @ [0]
    \<and> length opt = 4 * (length hs + 2) \<and> length opt \<le> 44"
proof -
  obtain st x hs' where hs: "hs = (st, x) # hs'" using assms(1) by (cases hs) auto
  let ?a = "the (hop_addr env x)"
  have a: "hop_addr env x = Some ?a" "length ?a = 4" using hop_okD [of env "(st, x)"] assms(3) hs by simp_all
  obtain s1 where s1: "sroute_doopt 4 env st x sroute_start = Some (Go s1)" "hops_in st [?a] s1"
    using first_hop_added [OF _ a, of sroute_start st] by (auto simp: sroute_start_def)
  have "\<exists>s. sroute_hops 4 env hs' s1 = Some (Go s) \<and> hops_in st ([?a] @ route env hs') s"
    by (rule more_hops [OF s1(2)]) (use a(2) assms hs in auto)
  then obtain s where s: "sroute_hops 4 env hs sroute_start = Some (Go s)" "hops_in st (route env hs) s"
    using s1(1) hs by (auto simp: route_def)
  have four: "\<forall>a\<in>set (route env hs). length a = 4" using assms(3) hop_okD by (auto simp: route_def)
  have l: "length (route env hs) = length hs" by (simp add: route_def)
  from route_set [OF s(2) four _ assms(4)] assms(2) l obtain t where
    "sroute_set 4 dest s = Some ([if st then IPOPT_SSRR else IPOPT_LSRR, of_nat (7 + 4 * length hs), 4] @ concat (route env hs) @ dest @ [0], t)"
    "sroute_cnt t = 0" by auto
  then show ?thesis using s(1) length_concat4 [OF four] l assms(2,4) hs by auto
qed

theorem source_route_option_witness:
  "\<exists>s t. sroute_hops 4 silent_resolver [(True, ''10.0.0.1''), (False, ''10.0.0.2'')] sroute_start = Some (Go s)
    \<and> sroute_set 4 [10, 0, 0, 9] s = Some ([137, 15, 4, 10, 0, 0, 1, 10, 0, 0, 2, 10, 0, 0, 9, 0], t)"
proof -
  have "hop_ok silent_resolver (True, ''10.0.0.1'')" "hop_ok silent_resolver (False, ''10.0.0.2'')" by code_simp+
  moreover have "route silent_resolver [(True, ''10.0.0.1''), (False, ''10.0.0.2'')] = [[10, 0, 0, 1], [10, 0, 0, 2]]" by code_simp
  ultimately show ?thesis
    using source_route_option [of "[(True, ''10.0.0.1''), (False, ''10.0.0.2'')]" silent_resolver "[10, 0, 0, 9]"] by auto
qed

text \<open>A tenth hop is refused.\<close>

lemma tenth_hop: "9 \<le> sroute_cnt s \<Longrightarrow> sroute_doopt w env strict h s = Some (Die s)"
  by (simp add: sroute_doopt_def)

end
