(* ===== verification/Spec2Isabelle.thy ===== *)
theory Spec2Isabelle
  imports Inet_Aton In_Cksum Getaddrinfo_Free Traceroute Poll_Server Stream_IO Echo_Clients Uno_Room_View Uno_Client_View Web_Threads Sntp Prefork_Server Udp_Cksum Icmpd Sigio_Echo Interfaces Chat_Room Connect_Helpers Sock_Data
begin

text \<open>
  Verification development for the network programs of this repository: the library and example
  programs of W. R. Stevens' UNIX Network Programming, and the UNO game of \<open>tcpcliserv/\<close>
  (\<open>final_server.c\<close>, \<open>final_cli.c\<close>). All paths below are under \<open>src/\<close>.

  \<^bold>\<open>How the code is modelled.\<close> A C function is a HOL function of the same name; its pointer results and
  changed globals are returned. Loops over data are recursions on lists; a loop whose end depends on
  the environment is driven by a script of events, one per round (\<open>rounds\<close> of \<open>CPrelude\<close>): what
  \<open>select\<close>, \<open>read\<close>, the clock or another process deliver. Every theorem over scripts holds for all of them, so
  the scripts are no bound. \<open>outcome\<close> says how a round ends: the next round (\<open>Go\<close>), \<open>return\<close> (\<open>Ret\<close>), or
  the end of the process (\<open>Die\<close>). Undefined behaviour (an index outside an array, a NULL dereferenced,
  a string too long for its buffer) is the value \<open>None\<close>, so a theorem that a result is \<open>Some\<close> also says that
  the code stays in bounds. Fixed-width arithmetic is on words where it can wrap (checksums, \<open>u_long\<close>
  accumulators, sequence numbers, port numbers), and on \<open>int\<close> where the values are bounded by other
  invariants. Byte order and sizes are those of \<open>config.h\<close> (\<open>x86_64-unknown-linux-gnu\<close>).

  \<^bold>\<open>The theories.\<close>

  \<^item> \<open>CPrelude\<close>: bytes and words, buffers, \<open>strtok\<close>, \<open>atoi\<close>, \<open>printf\<close> numbers, \<open>rounds\<close>, and the
    locale \<open>digit_scanner\<close>, the contract shared by all number scanners of the sources.
  \<^item> \<open>Inet_Pton\<close>, \<open>Inet_Ntop\<close>, \<open>Inet_Roundtrip\<close>, \<open>Inet_Aton\<close> (\<open>libfree/inet_*.c\<close>): the address
    parsers and printers. The lemmas show what \<open>inet_pton4\<close> accepts (exactly the dotted quads), that the
    IPv6 printer is read back by the parser, which zero run it compresses, what its buffers hold, and what
    \<open>inet_aton\<close> computes with its wrapping accumulators.
  \<^item> \<open>In_Cksum\<close> (\<open>libfree/in_cksum.c\<close>): the checksum is the ones' complement of the ones' complement sum,
    verifies itself, and detects any change of one word.
  \<^item> \<open>Stream_IO\<close> (\<open>lib/readn.c\<close>, \<open>writen.c\<close>, \<open>readline.c\<close> and variants): the locale \<open>byte_source\<close> states what a
    reader needs from its source of bytes; it is interpreted for the byte-at-a-time and the buffered reader, so
    both refine the same next line of an abstract stream.
  \<^item> \<open>Echo_Clients\<close> (\<open>lib/str_echo.c\<close>, \<open>str_cli.c\<close>, \<open>select/\<close>, \<open>nonblock/strclinonb.c\<close>): what is
    sent and shown in every run, with the pointer invariants of the non-blocking client.
  \<^item> \<open>Select_Server\<close>, \<open>Poll_Server\<close> (\<open>tcpcliserv/tcpserv{select,poll}01.c\<close>): the slot tables; every round
    serves each ready client once; the reachable states of the server are an inductive relation.
  \<^item> \<open>Sockaddr\<close> (\<open>lib/sock_*.c\<close>), \<open>Getaddrinfo\<close> (\<open>libgai/\<close>), \<open>Getaddrinfo_Free\<close>
    (\<open>libfree/getaddrinfo.c\<close>): socket addresses as data; lookups. The resolver and the service database
    are parameters. The two implementations are compared, and \<open>getnameinfo\<close> is read back.
  \<^item> \<open>Rtt\<close> (\<open>lib/rtt.c\<close>, \<open>rtt/\<close>): the retransmission timer and the reliable request; floating-point rounding is
    a parameter (\<open>fl\<close>, \<open>db\<close>), the bounds hold for any.
  \<^item> \<open>Icmp_Ping\<close> (\<open>ping/\<close>), \<open>Traceroute\<close> (\<open>traceroute/\<close>): packets as byte lists, built and recognised.
  \<^item> \<open>Uno_Cards\<close>, \<open>Uno_Game\<close>, \<open>Uno_Lobby\<close> (\<open>tcpcliserv/final_server.c\<close>): deck and turns, the game with every
    message, the lobby with its handler and room threads as a step relation over the critical sections. The
    lemmas show that no card is lost or doubled (until the deck runs out), whose turn it is, and that
    the tables of rooms and threads agree in every reachable state.
  \<^item> \<open>Uno_Client_Hand\<close>, \<open>Uno_Client_Game\<close>, \<open>Uno_Client_View\<close>
    (\<open>tcpcliserv/final_cli.c\<close>): the client's cards and table, its loop, and the two programs together: a
    simulation that takes every step of the server to what the client of each player then sees.
  \<^item> \<open>Uno_Client_Room\<close>, \<open>Uno_Room_View\<close> (\<open>tcpcliserv/final_cli.c\<close>): logging in, lobby and rooms of the
    client, its agreement with the server at the login, and the tables of the rooms that follow the server's.
  \<^item> \<open>Web_Client\<close> (\<open>nonblock/web.c\<close>), \<open>Web_Threads\<close> (\<open>threads/web01.c\<close> to \<open>web03.c\<close>): clients that fetch several
    files; that every file is fetched once and the loop ends, and which interleavings of the threads stop.
  \<^item> \<open>Thread_Pool\<close> (\<open>server/serv08.c\<close>, \<open>pthread08.c\<close>, \<open>web_child.c\<close>), \<open>Prefork_Server\<close> (\<open>serv05.c\<close>, \<open>child05.c\<close>): a pool of
    threads behind a ring of connections, with the locale \<open>fifo\<close> for what it needs of the ring, and a parent that passes
    descriptors to its children; the interleavings are step relations, the lemmas say that each connection is served once, in
    order, that no wake-up is lost and what ends the server.
  \<^item> \<open>Icmpd\<close> (\<open>icmpd/\<close>): the daemon that passes ICMP errors to the clients registered for a port; its table, and who is told.
  \<^item> \<open>Udp_Cksum\<close> (\<open>udpcksum/\<close>): UDP datagrams built byte by byte and taken out of captured frames.
  \<^item> \<open>Sntp\<close> (\<open>ssntp/sntp_proc.c\<close>): the clock difference, with the rounding of \<open>double\<close> as a parameter.
  \<^item> \<open>Sigio_Echo\<close> (\<open>sigio/dgecho01.c\<close>): the echo server driven by a signal; its handler and its loop share a ring, again a \<open>fifo\<close>.
  \<^item> \<open>Interfaces\<close> (\<open>lib/get_ifi_info.c\<close>): the list of interfaces, from a buffer that grows until the kernel's list fits.
  \<^item> \<open>Chat_Room\<close> (\<open>tcpcliserv/hw6_111550002.c\<close>): the chat room for ten users over \<open>select\<close>.
  \<^item> \<open>Connect_Helpers\<close> (\<open>lib/tcp_connect.c\<close>, \<open>tcp_listen.c\<close>, \<open>udp_client.c\<close>, \<open>connect_nonb.c\<close>, \<open>read_fd.c\<close> and the like):
    sockets for the list \<open>getaddrinfo\<close> returns, with the system calls made; \<open>connect_to_printed\<close> goes from a socket address
    through \<open>getnameinfo\<close> and \<open>getaddrinfo\<close> back to a connection to it.
  \<^item> \<open>Sock_Data\<close> (\<open>sock/crlf.c\<close>, \<open>pattern.c\<close>, \<open>write.c\<close>, \<open>sourceroute.c\<close>): the data of the \<open>sock\<close> program; its option
    parsing and its loops are not modelled.
  \<^bold>\<open>How the parts interact.\<close> The readers of \<open>Stream_IO\<close> are what the echo loops and the servers are
  built on; \<open>In_Cksum\<close> is used by the packets of \<open>Icmp_Ping\<close>, \<open>Udp_Cksum\<close>; the table of \<open>Icmpd\<close> uses the slots of \<open>Select_Server\<close> and the packets of \<open>Traceroute\<close>; \<open>Sockaddr\<close> uses the printers of
  \<open>Inet_Ntop\<close>, \<open>Getaddrinfo\<close> the parsers of \<open>Inet_Pton\<close>. The messages of \<open>Uno_Game\<close> are the strings the
  client theories scan.

  \<^bold>\<open>Bounds and fuel.\<close> \<open>switch_loop\<close> has fuel 10, the number of seats, and is shown to end within it.
  \<open>turn_first\<close> recurses on the size of the deck. \<open>FD_SETSIZE\<close> is 1024; the number of allocations that succeed is an
  argument (\<open>mem\<close>) of the \<open>libgai\<close> functions; both are universally quantified or have the value of the
  headers. The game's invariants are stated while the deck holds the 40 or 42 cards one round can use (ten
  messages of at most four cards each, and a penalty); behind that point the code loses cards, which is
  a theorem of its own (\<open>reshuffle_ignores_hands\<close>).

  \<^bold>\<open>Not modelled.\<close> Output to terminals beyond what is said on it, logging, \<open>sleep\<close>; signal delivery inside
  library calls other than as an interrupted call; the failure of a wrapper function, which ends the
  process; memory that runs out in the game. Whole directories that demonstrate one system call or option each
  (\<open>advio\<close>, \<open>bcast\<close>, \<open>ioctl\<close>, \<open>ipopts\<close>, \<open>mcast\<close>, \<open>oob\<close>, \<open>sigio\<close>, \<open>sockopt\<close>, \<open>unixdomain\<close>, \<open>sctp\<close>,
  \<open>streams\<close>, \<open>key\<close>), the \<open>sock\<close> tool, and third-party copies (\<open>ping/bsdping.c\<close>, \<open>libgai/old\<close>) have no
  logic beyond what is modelled elsewhere or print what the kernel returns.

  \<^bold>\<open>Left out, though it could be modelled.\<close> Routing messages and the lists of interfaces built on them (\<open>libroute/\<close>, \<open>route/\<close>), whose
  records are laid out by kernel headers outside the repository; the other servers of \<open>server/\<close>, in which every child or thread accepts
  by itself; the first exercises next to the game (\<open>hw1.c\<close>, \<open>hw4_tcpserv.c\<close>, \<open>hw4_udpcli.c\<close>).
\<close>

end
